(* ===== verification/Prelude.thy ===== *)
theory Prelude
  imports Main "HOL-Library.Word" "HOL-Library.Signed_Division"
begin

section \<open>Shared notions of the development\<close>

text \<open>
  What every component of the model uses: the result type of operations that may throw, abort or run
  into undefined behaviour, the fixed-width integer types, and generic lemmas on lists and integers.
  Errors are values: a thrown \<open>Error\<close> carries its code (\<open>src/cpp_src/core/type_consts.h\<close>), a
  \<open>std::logic_error\<close> that a container throws is \<open>LogicError\<close>, a failed \<open>assertrx\<close> or \<open>abort\<close> is \<open>Abort\<close>,
  and an access the C++ standard leaves undefined is \<open>UB\<close>. \<open>OutOfFuel\<close> is no behaviour of the code: it says
  that the fuel of a recursion of the model has run out.
\<close>

subsection \<open>Errors as values\<close>

datatype error_code =
    ErrOK | ErrParseSQL | ErrQueryExec | ErrParams | ErrLogic | ErrParseJson | ErrParseDSL
  | ErrConflict | ErrParseBin | ErrForbidden | ErrWasRelock | ErrNotValid | ErrNetwork
  | ErrNotFound | ErrStateInvalidated | ErrBadTransaction | ErrOutdatedWAL | ErrNoWAL
  | ErrDataHashMismatch | ErrTimeout | ErrCanceled | ErrTagsMissmatch | ErrReplParams
  | ErrNamespaceInvalidated | ErrParseMsgPack | ErrParseProtobuf | ErrUpdatesLost
  | ErrWrongReplicationData | ErrUpdateReplication | ErrClusterConsensus | ErrTerminated
  | ErrTxDoesNotExist | ErrAlreadyConnected | ErrTxInvalidLeader | ErrAlreadyProxied
  | ErrStrictMode | ErrQrUIDMissmatch | ErrSystem | ErrAssert | ErrParseYAML
  | ErrNamespaceOverwritten | ErrConnectSSL | ErrVersion | ErrInvalidDefConfigs

datatype fault = Err error_code | LogicError | Abort | UB | OutOfFuel

type_synonym 'a res = "fault + 'a"

definition bind_res :: "'a res \<Rightarrow> ('a \<Rightarrow> 'b res) \<Rightarrow> 'b res" where
  "bind_res m f = (case m of Inl e \<Rightarrow> Inl e | Inr x \<Rightarrow> f x)"

named_theorems res_simps

lemma bind_res_simps [simp]:
  "bind_res (Inl e) f = Inl e"
  "bind_res (Inr x) f = f x"
  by (simp_all add: bind_res_def)

lemma bind_res_Inr [res_simps]:
  "bind_res m f = Inr y \<longleftrightarrow> (\<exists>x. m = Inr x \<and> f x = Inr y)"
  by (cases m) simp_all

lemma bind_res_Inl [res_simps]:
  "bind_res m f = Inl e \<longleftrightarrow> m = Inl e \<or> (\<exists>x. m = Inr x \<and> f x = Inl e)"
  by (cases m) auto

lemma bind_res_cong [fundef_cong]:
  "m = m' \<Longrightarrow> (\<And>x. m' = Inr x \<Longrightarrow> f x = f' x) \<Longrightarrow> bind_res m f = bind_res m' f'"
  by (cases m') simp_all

definition guard_res :: "bool \<Rightarrow> fault \<Rightarrow> unit res" where
  "guard_res b e = (if b then Inr () else Inl e)"

lemma guard_res_simps [simp]:
  "guard_res True e = Inr ()"
  "guard_res False e = Inl e"
  by (simp_all add: guard_res_def)

lemma guard_res_Inr [res_simps]: "guard_res b e = Inr u \<longleftrightarrow> b"
  by (simp add: guard_res_def)

subsection \<open>Fixed-width integers\<close>

type_synonym u8 = "8 word"
type_synonym u16 = "16 word"
type_synonym u32 = "32 word"
type_synonym u64 = "64 word"
type_synonym bytes = "u8 list"

text \<open>C++'s conversion of a wider signed integer to \<open>int16_t\<close>: the low 16 bits in two's complement.\<close>

definition to_int16 :: "int \<Rightarrow> int" where
  "to_int16 x = signed_take_bit 15 x"

lemma to_int16_id: "- 32768 \<le> x \<Longrightarrow> x < 32768 \<Longrightarrow> to_int16 x = x"
  by (simp add: to_int16_def signed_take_bit_int_eq_self)

text \<open>For a non-negative dividend, C++'s truncating division agrees with \<open>div\<close> and \<open>mod\<close>.\<close>

lemma sdiv_nonneg [simp]: "0 \<le> a \<Longrightarrow> 0 < b \<Longrightarrow> a sdiv b = a div (b::int)"
  by (simp add: signed_divide_int_def sgn_if)

lemma smod_nonneg [simp]: "0 \<le> a \<Longrightarrow> 0 < b \<Longrightarrow> a smod b = a mod (b::int)"
  by (cases "a = 0") (simp_all add: signed_modulo_int_def minus_div_mult_eq_mod)

subsection \<open>Lists\<close>

text \<open>
  \<open>estl/h_vector.h\<close>: sizes are \<open>unsigned\<close>, and a capacity above \<open>max_size\<close> is refused with a
  \<open>std::logic_error\<close>. \<open>assign\<close> to a vector without heap memory narrows the number of elements when it
  grows, but copies all of them.
\<close>

definition hv_max_size :: nat where
  "hv_max_size = 2 ^ 31 - 1"

definition hv_reserve :: "nat \<Rightarrow> unit res" where
  "hv_reserve n = guard_res (n mod 2 ^ 32 \<le> hv_max_size) LogicError"

definition hv_assign :: "'a list \<Rightarrow> 'a list res" where
  "hv_assign xs =
     bind_res (hv_reserve (length xs)) (\<lambda>_. if length xs < 2 ^ 32 then Inr xs else Inl UB)"

lemma hv_assign_Inr: "hv_assign xs = Inr ys \<longleftrightarrow> ys = xs \<and> length xs \<le> hv_max_size"
  by (auto simp: hv_assign_def hv_reserve_def res_simps hv_max_size_def split: if_splits)

text \<open>\<open>std::vector::resize\<close> to \<open>n\<close> elements, new ones being copies of \<open>d\<close>.\<close>

definition resize :: "nat \<Rightarrow> 'a \<Rightarrow> 'a list \<Rightarrow> 'a list" where
  "resize n d xs = take n xs @ replicate (n - length xs) d"

lemma length_resize [simp]: "length (resize n d xs) = n"
  by (simp add: resize_def)

lemma nth_resize: "i < n \<Longrightarrow> resize n d xs ! i = (if i < length xs then xs ! i else d)"
  by (auto simp: resize_def nth_append)

lemma resize_0 [simp]: "resize 0 d xs = []"
  by (simp add: resize_def)

end
