(* ===== verification/Varint.thy ===== *)
theory Varint
  imports Prelude
begin

unbundle bit_operations_syntax

section \<open>Variable-length integers\<close>

text \<open>
  \<open>src/cpp_src/tools/varint.h\<close>: the base-128 encoding under every serialized integer, and the ZigZag
  transform for signed values. The packing functions write through an output pointer; here they return
  the bytes written, so the returned count is the length. The reading functions take the bound \<open>len\<close> and
  the bytes the pointer gives access to. Signed values are words read in two's complement.
\<close>

subsection \<open>ZigZag\<close>

definition zigzag_encode32 :: "32 word \<Rightarrow> u32" where
  "zigzag_encode32 n = push_bit 1 n XOR signed_drop_bit 31 n"

definition zigzag_encode64 :: "64 word \<Rightarrow> u64" where
  "zigzag_encode64 n = push_bit 1 n XOR signed_drop_bit 63 n"

definition zigzag_decode64 :: "u64 \<Rightarrow> 64 word" where
  "zigzag_decode64 n = drop_bit 1 n XOR (NOT (n AND 1) + 1)"

subsection \<open>Packing\<close>

definition uint32_pack :: "u32 \<Rightarrow> bytes" where
  "uint32_pack value =
     (if value \<ge> 0x80 then
        ucast (value OR 0x80) #
        (let value = drop_bit 7 value in
         if value \<ge> 0x80 then
           ucast (value OR 0x80) #
           (let value = drop_bit 7 value in
            if value \<ge> 0x80 then
              ucast (value OR 0x80) #
              (let value = drop_bit 7 value in
               if value \<ge> 0x80 then
                 ucast (value OR 0x80) # (let value = drop_bit 7 value in [ucast value])
               else [ucast value])
            else [ucast value])
         else [ucast value])
      else [ucast value])"

definition sint32_pack :: "32 word \<Rightarrow> bytes" where
  "sint32_pack value = uint32_pack (zigzag_encode32 value)"

text \<open>The final loop of \<open>uint64_pack\<close> on the high half, including the last byte.\<close>

function pack_hi_loop :: "u32 \<Rightarrow> bytes" where
  "pack_hi_loop hi =
     (if hi \<ge> 128 then ucast (hi OR 0x80) # pack_hi_loop (drop_bit 7 hi) else [ucast hi])"
  by pat_completeness auto
termination
proof (relation "measure unat")
  fix hi :: u32
  assume "hi \<ge> 128"
  then have "128 \<le> unat hi" by (simp add: word_le_nat_alt)
  then show "(drop_bit 7 hi, hi) \<in> measure unat"
    by (simp add: unat_drop_bit_eq drop_bit_nat_def)
qed simp

declare pack_hi_loop.simps [simp del]

definition uint64_pack :: "u64 \<Rightarrow> bytes" where
  "uint64_pack value =
     (let hi = ucast (drop_bit 32 value) :: u32;
          lo = ucast value :: u32
      in if hi = 0 then uint32_pack lo
         else
           [ucast (lo OR 0x80), ucast (drop_bit 7 lo OR 0x80), ucast (drop_bit 14 lo OR 0x80),
            ucast (drop_bit 21 lo OR 0x80)] @
           (if hi < 8 then [ucast (push_bit 4 hi OR drop_bit 28 lo)]
            else ucast (push_bit 4 (hi AND 7) OR drop_bit 28 lo OR 0x80) # pack_hi_loop (drop_bit 3 hi)))"

definition sint64_pack :: "64 word \<Rightarrow> bytes" where
  "sint64_pack value = uint64_pack (zigzag_encode64 value)"

definition boolean_pack :: "bool \<Rightarrow> bytes" where
  "boolean_pack value = [if value then 1 else 0]"

text \<open>\<open>None\<close> is the null pointer; the length is a \<open>size_t\<close> narrowed by the call of \<open>uint32_pack\<close>.\<close>

definition string_pack :: "bytes option \<Rightarrow> bytes" where
  "string_pack str =
     (case str of None \<Rightarrow> [0] | Some s \<Rightarrow> uint32_pack (word_of_nat (length s)) @ s)"

subsection \<open>Reading\<close>

definition parse_uint32 :: "nat \<Rightarrow> bytes \<Rightarrow> u32" where
  "parse_uint32 len data =
     (let rv = ucast (data ! 0 AND 0x7f) in
      if len > 1 then
        let rv = rv OR push_bit 7 (ucast (data ! 1 AND 0x7f)) in
        if len > 2 then
          let rv = rv OR push_bit 14 (ucast (data ! 2 AND 0x7f)) in
          if len > 3 then
            let rv = rv OR push_bit 21 (ucast (data ! 3 AND 0x7f)) in
            if len > 4 then rv OR push_bit 28 (ucast (data ! 4)) else rv
          else rv
        else rv
      else rv)"

function parse_loop :: "nat \<Rightarrow> bytes \<Rightarrow> nat \<Rightarrow> nat \<Rightarrow> u64 \<Rightarrow> u64" where
  "parse_loop len data i shift rv =
     (if i < len
      then parse_loop len data (Suc i) (shift + 7) (rv OR push_bit shift (ucast (data ! i AND 0x7f)))
      else rv)"
  by pat_completeness auto
termination
  by (relation "measure (\<lambda>(len, data, i, shift, rv). len - i)") auto

declare parse_loop.simps [simp del]

definition parse_uint64 :: "nat \<Rightarrow> bytes \<Rightarrow> u64" where
  "parse_uint64 len data =
     (if len < 5 then ucast (parse_uint32 len data)
      else
        let rv = ucast (data ! 0 AND 0x7f) OR push_bit 7 (ucast (data ! 1 AND 0x7f)) OR
                 push_bit 14 (ucast (data ! 2 AND 0x7f)) OR push_bit 21 (ucast (data ! 3 AND 0x7f))
        in parse_loop len data 4 28 rv)"

definition parse_int64 :: "nat \<Rightarrow> bytes \<Rightarrow> 64 word" where
  "parse_int64 len data = zigzag_decode64 (parse_uint64 len data)"

text \<open>The scan loop: the first index below \<open>len\<close> whose byte has its top bit clear, else \<open>len\<close>.\<close>

function scan_loop :: "nat \<Rightarrow> bytes \<Rightarrow> nat \<Rightarrow> nat" where
  "scan_loop len data i =
     (if i < len then (if data ! i AND 0x80 = 0 then i else scan_loop len data (Suc i)) else i)"
  by pat_completeness auto
termination
  by (relation "measure (\<lambda>(len, data, i). len - i)") auto

declare scan_loop.simps [simp del]

definition scan_varint :: "nat \<Rightarrow> bytes \<Rightarrow> nat" where
  "scan_varint len data =
     (let len = (if len > 10 then 10 else len);
          i = scan_loop len data 0
      in if i = len then 0 else i + 1)"

subsection \<open>The reference encoding\<close>

text \<open>Base-128 digits, least significant first; every byte but the last has its top bit set.\<close>

fun leb :: "nat \<Rightarrow> bytes" where
  "leb n = (if n < 128 then [word_of_nat n] else word_of_nat (128 + n mod 128) # leb (n div 128))"

declare leb.simps [simp del]

fun unleb :: "bytes \<Rightarrow> nat" where
  "unleb [] = 0"
| "unleb (b # bs) = unat b mod 128 + 128 * unleb bs"

lemma leb_small: "n < 128 \<Longrightarrow> leb n = [word_of_nat n]"
  by (simp add: leb.simps)

lemma leb_step: "128 \<le> n \<Longrightarrow> leb n = word_of_nat (128 + n mod 128) # leb (n div 128)"
  by (simp add: leb.simps)

lemma leb_nonempty [simp]: "leb n \<noteq> []"
  by (simp add: leb.simps [of n])

lemma unat_byte: "n < 256 \<Longrightarrow> unat (word_of_nat n :: u8) = n"
  by (simp add: unat_of_nat)

lemma unleb_leb [simp]: "unleb (leb n) = n"
proof (induction n rule: leb.induct)
  case (1 n)
  have m: "n mod 128 < 128" by simp
  show ?case
  proof (cases "n < 128")
    case True
    then show ?thesis by (simp add: leb_small unat_byte)
  next
    case False
    have "unat (word_of_nat (128 + n mod 128) :: u8) = 128 + n mod 128"
      using m by (intro unat_byte) linarith
    with False 1 show ?thesis by (simp add: leb_step del: of_nat_add)
  qed
qed

lemma length_leb_pos [simp]: "0 < length (leb n)"
  by simp

lemma length_leb_le: "n < 128 ^ Suc k \<Longrightarrow> length (leb n) \<le> Suc k"
proof (induction k arbitrary: n)
  case 0
  then show ?case by (simp add: leb_small)
next
  case (Suc k)
  show ?case
  proof (cases "n < 128")
    case True
    then show ?thesis by (simp add: leb_small)
  next
    case False
    have "n div 128 < 128 ^ Suc k"
      using Suc.prems by (simp add: less_mult_imp_div_less mult.commute)
    from Suc.IH [OF this] False show ?thesis by (simp add: leb_step)
  qed
qed

lemma bit_128 [simp]: "bit (128::nat) m \<longleftrightarrow> m = 7"
  using bit_exp_iff [of 7 m, where ?'a = nat] by (auto simp del: bit_exp_iff)

lemma cont_nat: "take_bit 8 (n OR 128) = 128 + take_bit 7 (n::nat)"
proof -
  have "128 + take_bit 7 n = 128 OR take_bit 7 n"
    by (rule disjunctive_add) (auto simp: bit_take_bit_iff)
  also have "\<dots> = take_bit 8 (n OR 128)"
    by (rule bit_eqI) (auto simp: bit_take_bit_iff bit_or_iff)
  finally show ?thesis by simp
qed

lemma cont_byte: "ucast (v OR 0x80 :: u32) = (word_of_nat (128 + unat v mod 128) :: u8)"
proof -
  have "unat (ucast (v OR 0x80) :: u8) = take_bit 8 (unat v OR 128)"
    by (simp add: unsigned_ucast_eq unsigned_or_eq)
  also have "\<dots> = 128 + unat v mod 128"
    unfolding cont_nat by (simp add: take_bit_nat_def)
  also have "\<dots> = unat (word_of_nat (128 + unat v mod 128) :: u8)"
    by (rule unat_byte [symmetric]) (metis add_less_cancel_left mod_less_divisor numeral_Bit0 zero_less_numeral)
  finally show ?thesis by (simp only: unsigned_word_eqI)
qed

lemma last_byte: "ucast (v :: u32) = (word_of_nat (unat v) :: u8)"
  by (rule unsigned_word_eqI) (simp add: unsigned_ucast_eq take_bit_nat_def unsigned_of_nat)

lemma unat_shift7: "unat (drop_bit 7 x) = unat x div 128" for x :: u32
  by (simp add: unat_drop_bit_eq drop_bit_nat_def)

lemma leb_word:
  "leb (unat v) = (if v \<ge> 0x80 then ucast (v OR 0x80) # leb (unat (drop_bit 7 v)) else [ucast v])"
  for v :: u32
proof (cases "v \<ge> 0x80")
  case True
  then have "128 \<le> unat v" by (simp add: word_le_nat_alt)
  from leb_step [OF this] True show ?thesis
    by (simp only: cont_byte unat_shift7 if_True)
next
  case False
  then have "unat v < 128" by (simp add: word_le_nat_alt)
  from leb_small [OF this] False show ?thesis
    by (simp only: last_byte if_False)
qed

lemma drop_28_small: "\<not> drop_bit 28 v \<ge> 0x80" for v :: u32
  using unsigned_less [of v, where ?'a = nat]
  by (simp add: word_le_nat_alt unat_drop_bit_eq drop_bit_nat_def less_mult_imp_div_less)

lemma uint32_pack_leb: "uint32_pack v = leb (unat v)"
  by (simp only: uint32_pack_def Let_def leb_word [of v] leb_word [of "drop_bit 7 v"]
      leb_word [of "drop_bit 7 (drop_bit 7 v)"] leb_word [of "drop_bit 7 (drop_bit 7 (drop_bit 7 v))"]
      leb_word [of "drop_bit 7 (drop_bit 7 (drop_bit 7 (drop_bit 7 v)))"])
    (simp add: drop_28_small)

lemma pack_hi_loop_leb: "pack_hi_loop hi = leb (unat hi)"
  by (induction hi rule: pack_hi_loop.induct) (subst pack_hi_loop.simps, subst leb_word, simp)

lemma word32_shift: "unat (drop_bit k x) = unat x div 2 ^ k" for x :: "'a::len word"
  by (simp add: unat_drop_bit_eq drop_bit_nat_def)

lemma leb_four:
  assumes "268435456 \<le> n"
  shows "leb n = [word_of_nat (128 + n mod 128), word_of_nat (128 + n div 128 mod 128),
      word_of_nat (128 + n div 16384 mod 128), word_of_nat (128 + n div 2097152 mod 128)] @
      leb (n div 268435456)"
proof -
  have g: "128 \<le> n" "128 \<le> n div 128" "128 \<le> n div 16384" "128 \<le> n div 2097152"
    using assms by simp_all
  have d1: "n div 128 div 128 = n div 16384" and d2: "n div 16384 div 128 = n div 2097152"
    and d3: "n div 2097152 div 128 = n div 268435456"
    by (simp_all add: div_mult2_eq [symmetric])
  show ?thesis
    unfolding leb_step [OF g(1)] leb_step [OF g(2)] d1 leb_step [OF g(3)] d2
        leb_step [OF g(4)] d3 by simp
qed

lemma hi_lo_byte:
  fixes hi lo :: u32
  assumes "unat hi < 8"
  shows "unat (push_bit 4 hi OR drop_bit 28 lo) = 16 * unat hi + unat lo div 268435456"
proof -
  have l: "unat lo div 268435456 < 16"
    using unsigned_less [of lo, where ?'a = nat] by (simp add: less_mult_imp_div_less)
  have p: "unat (push_bit 4 hi) = 16 * unat hi"
    using assms by (simp add: unsigned_push_bit_eq push_bit_nat_def take_bit_nat_eq_self)
  have "unat (push_bit 4 hi OR drop_bit 28 lo) = unat (push_bit 4 hi) OR unat (drop_bit 28 lo)"
    by (rule unsigned_or_eq)
  also have "\<dots> = push_bit 4 (unat hi) OR (unat lo div 268435456)"
    by (simp add: p word32_shift push_bit_nat_def mult.commute)
  also have "\<dots> = push_bit 4 (unat hi) + unat lo div 268435456"
  proof (rule disjunctive_add [symmetric])
    fix k
    have "take_bit 4 (unat lo div 268435456) = unat lo div 268435456"
      using l by (simp add: take_bit_nat_eq_self)
    then show "\<not> bit (push_bit 4 (unat hi)) k \<or> \<not> bit (unat lo div 268435456) k"
      by (metis bit_push_bit_iff_nat bit_take_bit_iff not_le)
  qed
  finally show ?thesis by (simp add: push_bit_nat_def mult.commute)
qed

lemma digit_shift:
  fixes d k l :: nat
  assumes "0 < d"
  shows "(d * (128 * k) + l) div d mod 128 = l div d mod 128"
  using assms by simp

lemma join_digits:
  fixes h l n :: nat
  assumes "n = 2 ^ 32 * h + l"
  shows "n mod 128 = l mod 128" "n div 128 mod 128 = l div 128 mod 128"
    "n div 16384 mod 128 = l div 16384 mod 128" "n div 2097152 mod 128 = l div 2097152 mod 128"
    "n div 268435456 = 16 * h + l div 268435456"
proof -
  show "n mod 128 = l mod 128"
    using digit_shift [of 1 "33554432 * h" l] by (simp add: assms)
  show "n div 128 mod 128 = l div 128 mod 128"
    using digit_shift [of 128 "262144 * h" l] by (simp add: assms)
  show "n div 16384 mod 128 = l div 16384 mod 128"
    using digit_shift [of 16384 "2048 * h" l] by (simp add: assms)
  show "n div 2097152 mod 128 = l div 2097152 mod 128"
    using digit_shift [of 2097152 "16 * h" l] by (simp add: assms)
  have "n = l + 268435456 * (16 * h)" by (simp add: assms)
  then show "n div 268435456 = 16 * h + l div 268435456"
    by (simp only: div_mult_self2)
qed

lemma pack_high_leb:
  fixes hi lo :: u32
  shows "(if hi < 8 then [ucast (push_bit 4 hi OR drop_bit 28 lo)]
      else ucast (push_bit 4 (hi AND 7) OR drop_bit 28 lo OR 0x80) # pack_hi_loop (drop_bit 3 hi)) =
      leb (16 * unat hi + unat lo div 268435456)"
proof -
  have l: "unat lo div 268435456 < 16"
    using unsigned_less [of lo, where ?'a = nat] by (simp add: less_mult_imp_div_less)
  show ?thesis
  proof (cases "hi < 8")
    case True
    then have h: "unat hi < 8" by (simp add: word_less_nat_alt)
    with l have "16 * unat hi + unat lo div 268435456 < 128" by linarith
    then show ?thesis using True by (simp only: leb_small last_byte hi_lo_byte [OF h] if_True)
  next
    case False
    then have h: "8 \<le> unat hi" by (simp add: word_less_nat_alt)
    have "hi AND 7 = take_bit 3 hi" by (simp add: take_bit_eq_mask mask_eq_exp_minus_1)
    then have m: "unat (hi AND 7) = unat hi mod 8"
      by (simp add: unsigned_take_bit_eq take_bit_nat_def)
    then have m8: "unat (hi AND 7) < 8" by simp
    have "128 \<le> 16 * unat hi + unat lo div 268435456" using h by linarith
    moreover have "(16 * unat hi + unat lo div 268435456) div 128 = unat (drop_bit 3 hi)"
    proof -
      have "(16 * unat hi + unat lo div 268435456) div 16 = unat hi" using l by simp
      then show ?thesis
        using div_mult2_eq [of "16 * unat hi + unat lo div 268435456" 16 8] by (simp add: word32_shift)
    qed
    moreover have "(16 * unat hi + unat lo div 268435456) mod 128 = 
      16 * (unat hi mod 8) + unat lo div 268435456"
      using l mod_mult2_eq [of "16 * unat hi + unat lo div 268435456" 16 8] by simp
    moreover have "(16 * (unat hi mod 8) + unat lo div 268435456) mod 128 = 16 * (unat hi mod 8) + unat lo div 268435456"
      using l m8 m by simp
    ultimately show ?thesis using False
      by (simp only: leb_step pack_hi_loop_leb or.assoc [symmetric] cont_byte hi_lo_byte [OF m8] m if_False)
  qed
qed

lemma uint64_pack_leb: "uint64_pack v = leb (unat v)"
proof -
  define hi where "hi = (ucast (drop_bit 32 v) :: u32)"
  define lo where "lo = (ucast v :: u32)"
  have n: "unat v = 2 ^ 32 * unat hi + unat lo"
  proof -
    have "unat v div 2 ^ 32 < 2 ^ 32" using unsigned_less [of v, where ?'a = nat] by (simp add: less_mult_imp_div_less)
    then show ?thesis
      by (simp add: hi_def lo_def unsigned_ucast_eq word32_shift take_bit_nat_def)
  qed
  show ?thesis
  proof (cases "hi = 0")
    case True
    then show ?thesis using n by (simp add: uint64_pack_def hi_def [symmetric] lo_def [symmetric] uint32_pack_leb)
  next
    case False
    then have "unat hi \<ge> 1" by (metis One_nat_def Suc_leI unat_gt_0)
    then have big: "268435456 \<le> unat v" using n by simp
    have sh: "unat (drop_bit 14 lo) = unat lo div 16384" "unat (drop_bit 21 lo) = unat lo div 2097152"
      by (simp_all add: word32_shift)
    show ?thesis
      by (simp only: uint64_pack_def Let_def hi_def [symmetric] lo_def [symmetric] False if_False
          leb_four [OF big] pack_high_leb cont_byte unat_shift7 sh join_digits [OF n])
  qed
qed

lemma or_shift:
  assumes "x < 2 ^ s"
  shows "(word_of_nat x :: 'a::len word) OR push_bit s (word_of_nat y) = word_of_nat (x + 2 ^ s * y)"
proof -
  have t: "take_bit s x = x" using assms by (simp add: take_bit_nat_eq_self)
  have "x + push_bit s y = x OR push_bit s y"
  proof (rule disjunctive_add)
    fix k show "\<not> bit x k \<or> \<not> bit (push_bit s y) k"
      by (metis t bit_push_bit_iff_nat bit_take_bit_iff not_le)
  qed
  then have e: "x + 2 ^ s * y = x OR push_bit s y" by (simp add: push_bit_nat_def mult.commute)
  show ?thesis unfolding e
    by (rule bit_word_eqI) (auto simp: bit_simps)
qed


lemma ucast_7f: "(ucast (b AND 0x7f :: u8) :: 'a::len word) = word_of_nat (unat b mod 128)"
proof -
  have "b AND 0x7f = take_bit 7 b" by (simp add: take_bit_eq_mask mask_eq_exp_minus_1)
  moreover have "unat (take_bit 7 b) = unat b mod 128"
    by (simp add: unsigned_take_bit_eq take_bit_nat_def)
  ultimately show ?thesis by (metis of_nat_unat)
qed

lemma bit_dbl: "bit (n * 2 :: 'a::len word) k \<longleftrightarrow> 0 < k \<and> k < LENGTH('a) \<and> bit n (k - 1)"
  using bit_double_iff [of n k] by (auto simp: mult.commute)

lemma zigzag_low:
  "zigzag_encode64 n AND 1 = of_bool (bit n 63)"
  "ucast (zigzag_encode32 m) AND 1 = (of_bool (bit m 31) :: u64)"
  by (rule bit_word_eqI; auto simp: zigzag_encode64_def zigzag_encode32_def bit_simps bit_dbl Suc_le_eq)+

lemma zigzag_roundtrip: "zigzag_decode64 (zigzag_encode64 n) = n"
proof (rule bit_word_eqI)
  fix k assume "k < LENGTH(64)"
  then consider "k < 63" | "k = 63" by fastforce
  then show "bit (zigzag_decode64 (zigzag_encode64 n)) k = bit n k"
    unfolding zigzag_decode64_def zigzag_low
    by cases (auto simp: zigzag_encode64_def bit_simps bit_dbl dest: bit_imp_le_length)
qed

lemma zigzag32_roundtrip: "zigzag_decode64 (ucast (zigzag_encode32 n)) = scast n"
  unfolding zigzag_decode64_def zigzag_low
  by (rule bit_word_eqI)
    (auto simp: zigzag_encode32_def bit_simps bit_dbl not_less min_def dest: bit_imp_le_length)

lemma unleb_append: "unleb (xs @ ys) = unleb xs + 128 ^ length xs * unleb ys"
  by (induction xs) (simp_all add: algebra_simps)

lemma unleb_bound: "unleb xs < 128 ^ length xs"
proof (induction xs)
  case (Cons b bs)
  have "unat b mod 128 < 128" by simp
  with Cons show ?case by simp
qed simp

lemma unleb_take_Suc: "i < length xs \<Longrightarrow>
    unleb (take (Suc i) xs) = unleb (take i xs) + 128 ^ i * (unat (xs ! i) mod 128)"
  by (simp add: take_Suc_conv_app_nth unleb_append)

lemma or_digit:
  assumes "i < length data"
  shows "(word_of_nat (unleb (take i data)) :: 'a::len word) OR push_bit (7 * i) (ucast (data ! i AND 0x7f)) =
    word_of_nat (unleb (take (Suc i) data))"
proof -
  have "unleb (take i data) < 2 ^ (7 * i)"
    using unleb_bound [of "take i data"] assms by (simp add: power_mult)
  from or_shift [OF this, where ?'a = 'a, of "unat (data ! i) mod 128"] show ?thesis
    by (simp add: ucast_7f unleb_take_Suc [OF assms] power_mult)
qed

lemma parse_loop_unleb:
  "i \<le> len \<Longrightarrow> len \<le> length data \<Longrightarrow>
   parse_loop len data i (7 * i) (word_of_nat (unleb (take i data))) = word_of_nat (unleb (take len data))"
proof (induction "len - i" arbitrary: i)
  case 0
  then show ?case by (simp add: parse_loop.simps)
next
  case (Suc d)
  then have "i < length data" "i < len" by linarith+
  have "parse_loop len data i (7 * i) (word_of_nat (unleb (take i data))) =
      parse_loop len data (Suc i) (7 * Suc i) (word_of_nat (unleb (take (Suc i) data)))"
    by (subst parse_loop.simps) (simp only: \<open>i < len\<close> or_digit [OF \<open>i < length data\<close>] if_True, simp add: add.commute)
  with Suc.hyps(1) [of "Suc i"] Suc show ?case by simp
qed

lemma first_digits:
  assumes "data \<noteq> []"
  shows "(ucast (data ! 0 AND 0x7f) :: 'a::len word) = word_of_nat (unleb (take 1 data))"
  using assms by (cases data) (simp_all add: ucast_7f)

lemma parse_uint32_unleb:
  assumes "0 < len" "len < 5" "len \<le> length data"
  shows "parse_uint32 len data = word_of_nat (unleb (take len data))"
proof -
  from assms consider "len = 1" | "len = 2" | "len = 3" | "len = 4" by linarith
  moreover have ne: "data \<noteq> []" using assms by auto
  ultimately show ?thesis
    using assms first_digits [OF ne, where ?'a = 32] or_digit [of 1 data, where ?'a = 32]
      or_digit [of 2 data, where ?'a = 32] or_digit [of 3 data, where ?'a = 32]
    by cases (simp_all add: parse_uint32_def Let_def numeral_2_eq_2 numeral_3_eq_3 eval_nat_numeral)
qed


lemma parse_uint64_unleb:
  assumes "0 < len" "len \<le> length data"
  shows "parse_uint64 len data = word_of_nat (unleb (take len data))"
proof (cases "len < 5")
  case True
  have "unleb (take len data) < 2 ^ (7 * len)"
    using unleb_bound [of "take len data"] assms by (simp add: power_mult)
  also have "(2 ^ (7 * len) :: nat) \<le> 2 ^ 32" using True by (intro power_increasing) simp_all
  finally have "unat (word_of_nat (unleb (take len data)) :: u32) = unleb (take len data)"
    by (simp add: unsigned_of_nat take_bit_nat_eq_self)
  then have "(ucast (word_of_nat (unleb (take len data)) :: u32) :: u64) = word_of_nat (unleb (take len data))"
    by (metis of_nat_unat)
  with parse_uint32_unleb [OF assms(1) True assms(2)] True show ?thesis
    by (simp only: parse_uint64_def if_True)
next
  case False
  then have l: "4 < length data" "data \<noteq> []" using assms by auto
  have "ucast (data ! 0 AND 0x7f) OR push_bit 7 (ucast (data ! 1 AND 0x7f)) OR
      push_bit 14 (ucast (data ! 2 AND 0x7f)) OR push_bit 21 (ucast (data ! 3 AND 0x7f)) =
      (word_of_nat (unleb (take 4 data)) :: u64)"
    using l first_digits [OF l(2), where ?'a = 64] or_digit [of 1 data, where ?'a = 64]
      or_digit [of 2 data, where ?'a = 64] or_digit [of 3 data, where ?'a = 64]
    by (simp add: eval_nat_numeral or.assoc [symmetric])
  with False parse_loop_unleb [of 4 len data] assms show ?thesis
    by (simp add: parse_uint64_def Let_def)
qed

lemma bit7_byte: "b AND 0x80 = 0 \<longleftrightarrow> \<not> bit b 7" for b :: u8
  using and_exp_eq_0_iff_not_bit [of b 7] by simp

lemma bit7_nat: "n < 256 \<Longrightarrow> bit (word_of_nat n :: u8) 7 \<longleftrightarrow> 128 \<le> n"
proof -
  assume n: "n < 256"
  have "bit n 7 \<longleftrightarrow> odd (n div 128)" by (simp add: bit_iff_odd)
  also have "\<dots> \<longleftrightarrow> 128 \<le> n"
  proof -
    have "n div 128 < 2" using n by (simp add: less_mult_imp_div_less)
    then show ?thesis by (cases "n < 128") (auto simp: not_less elim: oddE dest: div_le_mono [of 128 n 128])
  qed
  finally show ?thesis by (simp add: bit_simps)
qed

lemma scan_loop_leb:
  "length pre + length (leb n) \<le> len \<Longrightarrow>
   scan_loop len (pre @ leb n @ rest) (length pre) = length pre + length (leb n) - 1"
proof (induction n arbitrary: pre rule: leb.induct)
  case (1 n)
  show ?case
  proof (cases "n < 128")
    case True
    with 1 bit7_nat [of n] show ?thesis
      by (subst scan_loop.simps) (simp add: leb_small nth_append bit7_byte)
  next
    case False
    let ?b = "word_of_nat (128 + n mod 128) :: u8"
    have "128 + n mod 128 < 256" by (metis add_less_cancel_left mod_less_divisor numeral_Bit0 zero_less_numeral)
    then have b: "bit ?b 7" by (simp add: bit7_nat del: of_nat_add)
    from False have l: "leb n = ?b # leb (n div 128)" by (simp add: leb_step)
    with 1(1) [OF False, of "pre @ [?b]"] 1(2) b show ?thesis
      by (subst scan_loop.simps) (simp add: nth_append bit7_byte del: of_nat_add)
  qed
qed


lemma scan_varint_leb:
  assumes "n < 2 ^ 64" "length (leb n) \<le> len"
  shows "scan_varint len (leb n @ rest) = length (leb n)"
proof -
  have "n < 128 ^ Suc 9" using assms(1) by simp
  from length_leb_le [OF this] have m: "length (leb n) \<le> min len 10" using assms(2) by simp
  then have "scan_loop (min len 10) (leb n @ rest) 0 = length (leb n) - 1"
    using scan_loop_leb [of "[]" n "min len 10" rest] by simp
  moreover obtain k where "length (leb n) = Suc k"
    using length_leb_pos [of n] gr0_implies_Suc by blast
  ultimately show ?thesis
    using m by (simp add: scan_varint_def Let_def min_def split: if_splits)
qed

lemma scan_loop_le: "i \<le> len \<Longrightarrow> i \<le> scan_loop len data i \<and> scan_loop len data i \<le> len"
proof (induction "len - i" arbitrary: i)
  case (Suc d)
  then have "Suc i \<le> scan_loop len data (Suc i) \<and> scan_loop len data (Suc i) \<le> len" by simp
  then show ?case using Suc.prems by (subst (1 2) scan_loop.simps) auto
qed (simp add: scan_loop.simps)

lemma scan_varint_le: "scan_varint len data \<le> min len 10"
  using scan_loop_le [of 0 "min len 10" data] by (auto simp: scan_varint_def Let_def min_def)

text \<open>The unrolled 32-bit and the split 64-bit packers agree.\<close>

lemma uint32_pack_uint64: "uint32_pack v = uint64_pack (ucast v)"
  by (simp add: uint32_pack_leb uint64_pack_leb unsigned_ucast_eq take_bit_nat_eq_self
      order_less_trans [OF unsigned_less])

lemma uint64_pack_length: "1 \<le> length (uint64_pack v)" "length (uint64_pack v) \<le> 10"
proof -
  have "unat v < 128 ^ Suc 9" using unsigned_less [of v, where ?'a = nat] by simp
  from length_leb_le [OF this] show "length (uint64_pack v) \<le> 10" by (simp add: uint64_pack_leb)
  show "1 \<le> length (uint64_pack v)" by (simp add: uint64_pack_leb Suc_le_eq)
qed

lemma uint32_pack_length: "1 \<le> length (uint32_pack v)" "length (uint32_pack v) \<le> 5"
proof -
  have "unat v < 128 ^ Suc 4" using unsigned_less [of v, where ?'a = nat] by simp
  from length_leb_le [OF this] show "length (uint32_pack v) \<le> 5" by (simp add: uint32_pack_leb)
  show "1 \<le> length (uint32_pack v)" by (simp add: uint32_pack_leb Suc_le_eq)
qed

lemma scan_varint_pack [simp]:
  assumes "length (uint64_pack v) \<le> len"
  shows "scan_varint len (uint64_pack v @ rest) = length (uint64_pack v)"
  using scan_varint_leb [of "unat v" len rest] assms unsigned_less [of v, where ?'a = nat]
  by (simp add: uint64_pack_leb)

lemma parse_uint64_pack [simp]:
  "parse_uint64 (length (uint64_pack v)) (uint64_pack v @ rest) = v"
  using parse_uint64_unleb [of "length (uint64_pack v)" "uint64_pack v @ rest"]
  by (simp add: uint64_pack_leb)

text \<open>
  C25. Base-128 integers: whatever follows in the buffer, the length scanned after packing any 64-bit
  value is the number of bytes written, between 1 and 10, and parsing that many bytes returns the
  value; the hand-unrolled 32-bit packer writes the same bytes as the 64-bit one, at most 5.
\<close>

theorem varint_roundtrip:
  "(let data = uint64_pack v @ rest; l = scan_varint (length data) data
    in l = length (uint64_pack v) \<and> 1 \<le> l \<and> l \<le> 10 \<and> parse_uint64 l data = v) \<and>
   uint32_pack w = uint64_pack (ucast w) \<and> length (uint32_pack w) \<le> 5"
  using uint64_pack_length [of v] uint32_pack_length [of w] by (simp add: Let_def uint32_pack_uint64)

text \<open>
  Signed integers: parsing what \<open>sint64_pack\<close> wrote returns the value, and parsing what
  \<open>sint32_pack\<close> wrote returns the 32-bit value sign-extended to 64 bits.
\<close>

theorem signed_varint_roundtrip:
  "parse_int64 (length (sint64_pack v)) (sint64_pack v @ rest) = v \<and>
   parse_int64 (length (sint32_pack w)) (sint32_pack w @ rest) = scast w"
  by (simp add: parse_int64_def sint64_pack_def sint32_pack_def uint32_pack_uint64 zigzag_roundtrip
      zigzag32_roundtrip)

end
