(* ===== verification/Uuid.thy ===== *)
theory Uuid
  imports Prelude
begin

unbundle bit_operations_syntax

section \<open>UUIDs\<close>

text \<open>
  \<open>core/keyvalue/uuid.h\<close> and \<open>.cc\<close>: a UUID is two 64-bit words; its string form has 36 characters with
  dashes, or 32 hexadecimal digits. The unrolled reading of the digits is a recursion over the list of
  the positions it reads, in order. \<open>Variant\<close> (\<open>core/keyvalue/variant.h\<close> and \<open>.cc\<close>) keeps a UUID in
  15 bytes and 7 bits, dropping the variant bit. Characters are bytes.
\<close>

subsection \<open>The type and its operations\<close>

datatype uuid = Uuid_t (uuid0: u64) (uuid1: u64)

definition uuid_default :: uuid where
  "uuid_default = Uuid_t 0 0"

definition kStrFormLen :: nat where "kStrFormLen = 36"

definition hexCharToNum :: "u8 \<Rightarrow> u64" where
  "hexCharToNum c =
     (if 0x30 \<le> c \<and> c \<le> 0x39 then ucast c - 0x30
      else if 0x41 \<le> c \<and> c \<le> 0x46 then ucast c - 0x41 + 10
      else if 0x61 \<le> c \<and> c \<le> 0x66 then ucast c - 0x61 + 10
      else 255)"

text \<open>The macro \<open>GET_NUM\<close>: both of its errors carry the same code.\<close>

definition get_num :: "bytes \<Rightarrow> nat \<Rightarrow> u64 res" where
  "get_num str i =
     (let num = hexCharToNum (str ! i) in if num > 15 then Inl (Err ErrNotValid) else Inr num)"

fun read_digits :: "bytes \<Rightarrow> nat list \<Rightarrow> nat \<Rightarrow> u64 \<Rightarrow> u64 res" where
  "read_digits str [] shift acc = Inr acc"
| "read_digits str (i # is) shift acc =
     bind_res (get_num str i) (\<lambda>num. read_digits str is (shift - 4) (acc OR push_bit shift num))"

definition check_variant :: "u64 \<Rightarrow> u64 \<Rightarrow> uuid res" where
  "check_variant d0 d1 =
     (if (d0 \<noteq> 0 \<or> d1 \<noteq> 0) \<and> drop_bit 63 d1 = 0 then Inl (Err ErrNotValid) else Inr (Uuid_t d0 d1))"

definition uuid_tryParse :: "bytes \<Rightarrow> uuid res" where
  "uuid_tryParse str =
     (if length str = 32 then
        bind_res (read_digits str [0, 1, 2, 3, 4, 5, 6, 7, 8, 9, 10, 11, 12, 13, 14, 15] 60 0) (\<lambda>d0.
        bind_res (read_digits str [16, 17, 18, 19, 20, 21, 22, 23, 24, 25, 26, 27, 28, 29, 30, 31] 60 0) (\<lambda>d1.
        check_variant d0 d1))
      else if length str = kStrFormLen then
        if str ! 8 \<noteq> 0x2d \<or> str ! 13 \<noteq> 0x2d \<or> str ! 18 \<noteq> 0x2d \<or> str ! 23 \<noteq> 0x2d
        then Inl (Err ErrNotValid)
        else
          bind_res (read_digits str [0, 1, 2, 3, 4, 5, 6, 7, 9, 10, 11, 12, 14, 15, 16, 17] 60 0) (\<lambda>d0.
          bind_res (read_digits str [19, 20, 21, 22, 24, 25, 26, 27, 28, 29, 30, 31, 32, 33, 34, 35] 60 0) (\<lambda>d1.
          check_variant d0 d1))
      else Inl (Err ErrNotValid))"

text \<open>The constructor from a string throws the parse error; \<open>TryParse\<close> drops it.\<close>

definition uuid_of_string :: "bytes \<Rightarrow> uuid res" where
  "uuid_of_string str = uuid_tryParse str"

definition uuid_TryParse :: "bytes \<Rightarrow> uuid option" where
  "uuid_TryParse str = (case uuid_tryParse str of Inr u \<Rightarrow> Some u | Inl _ \<Rightarrow> None)"

definition hexChars :: bytes where
  "hexChars = [0x30, 0x31, 0x32, 0x33, 0x34, 0x35, 0x36, 0x37, 0x38, 0x39, 0x61, 0x62, 0x63, 0x64, 0x65, 0x66]"

definition hex_digit :: "u64 \<Rightarrow> nat \<Rightarrow> u8" where
  "hex_digit d shift = hexChars ! unat (drop_bit shift d AND 0xF)"

text \<open>\<open>PutToStr\<close>: the span after the call; the first 36 characters are overwritten.\<close>

definition uuid_PutToStr :: "uuid \<Rightarrow> bytes \<Rightarrow> bytes res" where
  "uuid_PutToStr u str =
     (let d0 = uuid0 u; d1 = uuid1 u in
      if length str < kStrFormLen then Inl Abort
      else Inr (
        [hex_digit d0 60, hex_digit d0 56, hex_digit d0 52, hex_digit d0 48,
         hex_digit d0 44, hex_digit d0 40, hex_digit d0 36, hex_digit d0 32, 0x2d,
         hex_digit d0 28, hex_digit d0 24, hex_digit d0 20, hex_digit d0 16, 0x2d,
         hex_digit d0 12, hex_digit d0 8, hex_digit d0 4, hex_digit d0 0, 0x2d,
         hex_digit d1 60, hex_digit d1 56, hex_digit d1 52, hex_digit d1 48, 0x2d,
         hex_digit d1 44, hex_digit d1 40, hex_digit d1 36, hex_digit d1 32,
         hex_digit d1 28, hex_digit d1 24, hex_digit d1 20, hex_digit d1 16,
         hex_digit d1 12, hex_digit d1 8, hex_digit d1 4, hex_digit d1 0] @ drop 36 str))"

definition uuid_to_string :: "uuid \<Rightarrow> bytes res" where
  "uuid_to_string u = uuid_PutToStr u (resize kStrFormLen 0 [])"

datatype comparation_result = CR_Eq | CR_Lt | CR_Le | CR_Gt | CR_Ge | CR_NotComparable

definition uuid_Compare :: "uuid \<Rightarrow> uuid \<Rightarrow> comparation_result" where
  "uuid_Compare u v =
     (if uuid0 u = uuid0 v
      then if uuid1 u = uuid1 v then CR_Eq else if uuid1 u < uuid1 v then CR_Lt else CR_Gt
      else if uuid0 u < uuid0 v then CR_Lt else CR_Gt)"

definition uuid_eq :: "uuid \<Rightarrow> uuid \<Rightarrow> bool" where
  "uuid_eq u v \<longleftrightarrow> uuid0 u = uuid0 v \<and> uuid1 u = uuid1 v"

definition uuid_lt :: "uuid \<Rightarrow> uuid \<Rightarrow> bool" where
  "uuid_lt u v \<longleftrightarrow> (if uuid0 u = uuid0 v then uuid1 u < uuid1 v else uuid0 u < uuid0 v)"

definition uuid_gt :: "uuid \<Rightarrow> uuid \<Rightarrow> bool" where "uuid_gt u v \<longleftrightarrow> uuid_lt v u"
definition uuid_le :: "uuid \<Rightarrow> uuid \<Rightarrow> bool" where "uuid_le u v \<longleftrightarrow> \<not> uuid_lt v u"
definition uuid_ge :: "uuid \<Rightarrow> uuid \<Rightarrow> bool" where "uuid_ge u v \<longleftrightarrow> \<not> uuid_lt u v"

subsection \<open>UUIDs inside a Variant\<close>

text \<open>
  The two union members a UUID value uses: the null UUID is an ordinary value of type \<open>Uuid\<close>; any
  other one fills the bit field \<open>v0\<close> (7 bits), the seven bytes \<open>vs\<close> and the word \<open>v1\<close>.
\<close>

datatype variant_uuid =
    VU_var "bool"
  | VU_uuid (vu_v0: u8) (vu_vs: "u8 list") (vu_v1: u64)

text \<open>\<open>VU_var b\<close> is a \<open>Variant\<close> that is not in UUID form, \<open>b\<close> telling whether its type is \<open>Uuid\<close>.\<close>

definition Variant_of_uuid :: "uuid \<Rightarrow> variant_uuid" where
  "Variant_of_uuid u =
     (if uuid0 u = 0 \<and> uuid1 u = 0 then VU_var True
      else VU_uuid (take_bit 7 (ucast (drop_bit (64 - 7) (uuid0 u))))
        (map (\<lambda>i. ucast (drop_bit (64 - 15 - 8 * i) (uuid0 u))) [0, 1, 2, 3, 4, 5, 6])
        ((uuid1 u AND (push_bit 63 1 - 1)) OR push_bit 63 (uuid0 u AND 1)))"

definition uuid_of_Variant :: "variant_uuid \<Rightarrow> uuid res" where
  "uuid_of_Variant v =
     (case v of
        VU_uuid v0 vs v1 \<Rightarrow>
          Inr (Uuid_t
            (fold (\<lambda>i d. d OR push_bit (64 - 15 - 8 * i) (ucast (vs ! i))) [0, 1, 2, 3, 4, 5, 6]
               (push_bit (64 - 7) (ucast v0)) OR drop_bit 63 v1)
            (v1 OR push_bit 63 1))
      | VU_var isUuidType \<Rightarrow> if \<not> isUuidType then Inl (Err ErrNotValid) else Inr (Uuid_t 0 0))"

definition uuid_valid :: "uuid \<Rightarrow> bool" where
  "uuid_valid u \<longleftrightarrow> u = Uuid_t 0 0 \<or> bit (uuid1 u) 63"

lemma drop63: "drop_bit 63 (d :: u64) = 0 \<longleftrightarrow> \<not> bit d 63"
proof -
  have "n = 0" if "bit d (63 + n)" for n using bit_imp_le_length [OF that] by simp
  then have "drop_bit 63 d = of_bool (bit d 63)"
    by (intro bit_word_eqI) (auto simp: bit_simps, fastforce)
  then show ?thesis by simp
qed

lemma check_variant_Inr: "check_variant a b = Inr u \<longleftrightarrow> u = Uuid_t a b \<and> uuid_valid u"
  by (auto simp: check_variant_def uuid_valid_def drop63)

lemma nibble: "unat (drop_bit k d AND 0xF :: u64) < 16" "drop_bit k d AND 0xF = take_bit 4 (drop_bit k d)"
proof -
  show e: "drop_bit k d AND 0xF = take_bit 4 (drop_bit k d)"
    by (simp add: take_bit_eq_mask mask_eq_exp_minus_1)
  show "unat (drop_bit k d AND 0xF :: u64) < 16"
    using take_bit_nat_less_exp [of 4 "unat (drop_bit k d)"] unfolding e by (simp add: unsigned_take_bit_eq)
qed

lemma hexCharToNum_digit: "n < 16 \<Longrightarrow> hexCharToNum (hexChars ! n) = word_of_nat n"
proof -
  assume "n < 16"
  then have "n \<in> set [0..<16]" by simp
  moreover have "\<forall>n \<in> set [0..<16]. hexCharToNum (hexChars ! n) = word_of_nat n"
    by (simp add: hexChars_def hexCharToNum_def upt_rec)
  ultimately show ?thesis by blast
qed

lemma get_num_digit: "str ! i = hex_digit d k \<Longrightarrow> get_num str i = Inr (take_bit 4 (drop_bit k d))"
proof -
  assume "str ! i = hex_digit d k"
  moreover have "\<not> drop_bit k d AND 0xF > 15"
    using nibble(1) [of k d] by (simp add: word_less_nat_alt)
  ultimately show ?thesis
    using nibble(1) [of k d]
    by (simp add: get_num_def hex_digit_def hexCharToNum_digit Let_def nibble(2))
qed

lemma read_digits_hex:
  "(\<And>j. j < length is \<Longrightarrow> str ! (is ! j) = hex_digit d (4 * (length is - 1 - j))) \<Longrightarrow>
   read_digits str is (4 * (length is - 1)) acc = Inr (acc OR take_bit (4 * length is) d)"
proof (induction "is" arbitrary: acc)
  case Nil
  then show ?case by simp
next
  case (Cons i "is")
  have h: "str ! i = hex_digit d (4 * length is)" using Cons.prems [of 0] by simp
  have "str ! (is ! j) = hex_digit d (4 * (length is - 1 - j))" if "j < length is" for j
    using Cons.prems [of "Suc j"] that by simp
  from Cons.IH [OF this] have IH: "read_digits str is (4 * (length is - 1)) acc =
     Inr (acc OR take_bit (4 * length is) d)" for acc .
  have "push_bit (4 * length is) (take_bit 4 (drop_bit (4 * length is) d)) OR take_bit (4 * length is) d
    = take_bit (4 * length (i # is)) d"
    by (rule bit_word_eqI) (auto simp: bit_simps)
  then show ?case
    using IH [of "acc OR push_bit (4 * length is) (take_bit 4 (drop_bit (4 * length is) d))"]
    by (simp add: get_num_digit [OF h] or.assoc diff_mult_distrib2)
qed

lemma to_string_shape: "uuid_to_string u = Inr s \<Longrightarrow> length s = 36"
  by (auto simp: uuid_to_string_def uuid_PutToStr_def Let_def kStrFormLen_def)

lemma uuid_to_string_total: "\<exists>s. uuid_to_string u = Inr s"
  by (simp add: uuid_to_string_def uuid_PutToStr_def Let_def)

lemma hex_digit_no_dash: "hex_digit d k \<noteq> 0x2d"
proof -
  have "\<forall>n \<in> set [0..<16]. hexChars ! n \<noteq> 0x2d" by (simp add: hexChars_def upt_rec)
  then show ?thesis using nibble(1) [of k d] by (simp add: hex_digit_def)
qed

lemma read_16:
  assumes "map (nth str) is = map (hex_digit d) [60, 56, 52, 48, 44, 40, 36, 32, 28, 24, 20, 16, 12, 8, 4, 0]"
  shows "read_digits str is 60 0 = Inr d"
proof -
  let ?k = "[60, 56, 52, 48, 44, 40, 36, 32, 28, 24, 20, 16, 12, 8, 4, 0] :: nat list"
  have l: "length is = 16" using arg_cong [OF assms, of length] by simp
  have k: "?k = map (\<lambda>j. 4 * (16 - 1 - j)) [0..<16]" by (simp add: upt_rec)
  have "str ! (is ! j) = hex_digit d (4 * (length is - 1 - j))" if "j < length is" for j
    using arg_cong [OF assms [unfolded k], of "\<lambda>xs. xs ! j"] that l by simp
  from read_digits_hex [OF this, of 0] show ?thesis by (simp add: l take_bit_word_eq_self)
qed

lemma parse_printed:
  assumes "uuid_to_string u = Inr s"
  shows "uuid_tryParse s = check_variant (uuid0 u) (uuid1 u)"
    "uuid_tryParse (filter (\<lambda>c. c \<noteq> 0x2d) s) = check_variant (uuid0 u) (uuid1 u)"
proof -
  have s: "s = [hex_digit (uuid0 u) 60, hex_digit (uuid0 u) 56, hex_digit (uuid0 u) 52, hex_digit (uuid0 u) 48,
         hex_digit (uuid0 u) 44, hex_digit (uuid0 u) 40, hex_digit (uuid0 u) 36, hex_digit (uuid0 u) 32, 0x2d,
         hex_digit (uuid0 u) 28, hex_digit (uuid0 u) 24, hex_digit (uuid0 u) 20, hex_digit (uuid0 u) 16, 0x2d,
         hex_digit (uuid0 u) 12, hex_digit (uuid0 u) 8, hex_digit (uuid0 u) 4, hex_digit (uuid0 u) 0, 0x2d,
         hex_digit (uuid1 u) 60, hex_digit (uuid1 u) 56, hex_digit (uuid1 u) 52, hex_digit (uuid1 u) 48, 0x2d,
         hex_digit (uuid1 u) 44, hex_digit (uuid1 u) 40, hex_digit (uuid1 u) 36, hex_digit (uuid1 u) 32,
         hex_digit (uuid1 u) 28, hex_digit (uuid1 u) 24, hex_digit (uuid1 u) 20, hex_digit (uuid1 u) 16,
         hex_digit (uuid1 u) 12, hex_digit (uuid1 u) 8, hex_digit (uuid1 u) 4, hex_digit (uuid1 u) 0]"
    using assms by (simp add: uuid_to_string_def uuid_PutToStr_def Let_def kStrFormLen_def)
  have d0: "read_digits s [0, 1, 2, 3, 4, 5, 6, 7, 9, 10, 11, 12, 14, 15, 16, 17] 60 0 = Inr (uuid0 u)"
    by (rule read_16) (simp add: s)
  have d1: "read_digits s [19, 20, 21, 22, 24, 25, 26, 27, 28, 29, 30, 31, 32, 33, 34, 35] 60 0 = Inr (uuid1 u)"
    by (rule read_16) (simp add: s)
  have len: "length s = 36" and dash: "s ! 8 = 0x2d" "s ! 13 = 0x2d" "s ! 18 = 0x2d" "s ! 23 = 0x2d"
    by (simp_all add: s)
  show "uuid_tryParse s = check_variant (uuid0 u) (uuid1 u)"
    unfolding uuid_tryParse_def d0 d1 by (simp add: len dash kStrFormLen_def)
  have f: "filter (\<lambda>c. c \<noteq> 0x2d) s =
    map (hex_digit (uuid0 u)) [60, 56, 52, 48, 44, 40, 36, 32, 28, 24, 20, 16, 12, 8, 4, 0] @
    map (hex_digit (uuid1 u)) [60, 56, 52, 48, 44, 40, 36, 32, 28, 24, 20, 16, 12, 8, 4, 0]"
    by (simp add: s hex_digit_no_dash)
  have e0: "read_digits (filter (\<lambda>c. c \<noteq> 0x2d) s) [0, 1, 2, 3, 4, 5, 6, 7, 8, 9, 10, 11, 12, 13, 14, 15] 60 0 = Inr (uuid0 u)"
    by (rule read_16) (simp add: f)
  have e1: "read_digits (filter (\<lambda>c. c \<noteq> 0x2d) s) [16, 17, 18, 19, 20, 21, 22, 23, 24, 25, 26, 27, 28, 29, 30, 31] 60 0 = Inr (uuid1 u)"
    by (rule read_16) (simp add: f)
  have len': "length (filter (\<lambda>c. c \<noteq> 0x2d) s) = 32" by (simp add: f)
  show "uuid_tryParse (filter (\<lambda>c. c \<noteq> 0x2d) s) = check_variant (uuid0 u) (uuid1 u)"
    unfolding uuid_tryParse_def e0 e1 by (simp add: len')
qed

lemma tryParse_valid: "uuid_tryParse s = Inr u \<Longrightarrow> uuid_valid u"
  by (auto simp: uuid_tryParse_def res_simps check_variant_Inr simp del: read_digits.simps split: if_splits)

lemma get_num_err: "get_num str i = Inl e \<Longrightarrow> e = Err ErrNotValid"
  by (auto simp: get_num_def Let_def split: if_splits)

lemma read_digits_err: "read_digits str is k acc = Inl e \<Longrightarrow> e = Err ErrNotValid"
  by (induction str "is" k acc rule: read_digits.induct) (auto simp: res_simps dest: get_num_err)

lemma tryParse_err: "uuid_tryParse s = Inl e \<Longrightarrow> e = Err ErrNotValid"
  by (auto simp: uuid_tryParse_def res_simps check_variant_def simp del: read_digits.simps
      dest: read_digits_err split: if_splits)

lemma check_variant_valid: "check_variant (uuid0 u) (uuid1 u) = (if uuid_valid u then Inr u else Inl (Err ErrNotValid))"
  by (cases u) (auto simp: check_variant_def uuid_valid_def drop63)

text \<open>
  C27. UUID text: a valid UUID (the null one, or one with its variant bit set) prints to 36 characters
  whose parse is the UUID, with the dashes or without them; an invalid one is refused; and every
  string the parser accepts gives a valid UUID.
\<close>

theorem uuid_print_parse:
  "(\<exists>s. uuid_to_string u = Inr s \<and> length s = 36 \<and>
     (if uuid_valid u then uuid_tryParse s = Inr u \<and> uuid_tryParse (filter (\<lambda>c. c \<noteq> 0x2d) s) = Inr u
      else uuid_tryParse s = Inl (Err ErrNotValid))) \<and>
   (case uuid_tryParse t of Inr w \<Rightarrow> uuid_valid w | Inl e \<Rightarrow> e = Err ErrNotValid)"
proof
  obtain s where s: "uuid_to_string u = Inr s" using uuid_to_string_total by blast
  from parse_printed [OF s] to_string_shape [OF s] s
  show "\<exists>s. uuid_to_string u = Inr s \<and> length s = 36 \<and>
     (if uuid_valid u then uuid_tryParse s = Inr u \<and> uuid_tryParse (filter (\<lambda>c. c \<noteq> 0x2d) s) = Inr u
      else uuid_tryParse s = Inl (Err ErrNotValid))"
    by (auto simp: check_variant_valid)
  show "case uuid_tryParse t of Inr w \<Rightarrow> uuid_valid w | Inl e \<Rightarrow> e = Err ErrNotValid"
    by (auto split: sum.splits dest: tryParse_valid tryParse_err)
qed

subsection \<open>Order and storage in a Variant\<close>

instantiation uuid :: linorder
begin

definition less_uuid :: "uuid \<Rightarrow> uuid \<Rightarrow> bool" where
  "less_uuid u v \<longleftrightarrow> uuid_lt u v"

definition less_eq_uuid :: "uuid \<Rightarrow> uuid \<Rightarrow> bool" where
  "less_eq_uuid u v \<longleftrightarrow> uuid_le u v"

instance
  by standard (auto simp: less_uuid_def less_eq_uuid_def uuid_lt_def uuid_le_def uuid.expand split: if_splits)

end

lemma uuid_Compare_linorder:
  "uuid_Compare u v = (if u = v then CR_Eq else if u < v then CR_Lt else CR_Gt)"
  "uuid_eq u v \<longleftrightarrow> u = v" "uuid_gt u v \<longleftrightarrow> u > v" "uuid_ge u v \<longleftrightarrow> u \<ge> v"
  by (auto simp: uuid_Compare_def uuid_eq_def uuid_gt_def uuid_ge_def less_uuid_def less_eq_uuid_def uuid_lt_def
      uuid_le_def uuid.expand)

lemma byte_segment:
  fixes d :: u64
  shows "k + 8 \<le> 64 \<Longrightarrow>
    push_bit k (ucast (ucast (drop_bit k d) :: u8)) OR take_bit k d = take_bit (k + 8) d"
  by (rule bit_word_eqI) (auto simp: bit_simps)

lemma top_segment:
  fixes d :: u64
  shows "push_bit 57 (ucast (take_bit 7 (ucast (drop_bit 57 d)) :: u8)) OR take_bit 57 d = d"
  by (rule bit_word_eqI) (auto simp: bit_simps)

lemma variant_words:
  fixes d e :: u64
  shows "drop_bit 63 ((e AND 0x7FFFFFFFFFFFFFFF) OR push_bit 63 (d AND 1)) = take_bit 1 d"
    "bit e 63 \<Longrightarrow> ((e AND 0x7FFFFFFFFFFFFFFF) OR push_bit 63 (d AND 1)) OR 0x8000000000000000 = e"
proof -
  have m: "0x7FFFFFFFFFFFFFFF = (mask 63 :: u64)" by (simp add: mask_eq_exp_minus_1)
  have o: "d AND 1 = take_bit 1 d" by (simp add: and_one_eq take_bit_Suc mod2_eq_if)
  have p: "bit (0x8000000000000000 :: u64) n \<longleftrightarrow> n = 63" for n
    using bit_exp_iff [of 63 n, where ?'a = u64] by (auto simp del: bit_exp_iff)
  show "drop_bit 63 ((e AND 0x7FFFFFFFFFFFFFFF) OR push_bit 63 (d AND 1)) = take_bit 1 d"
    unfolding m o by (rule bit_word_eqI) (auto simp: bit_simps)
  show "((e AND 0x7FFFFFFFFFFFFFFF) OR push_bit 63 (d AND 1)) OR 0x8000000000000000 = e" if "bit e 63"
  proof (rule bit_word_eqI)
    fix n assume "n < LENGTH(64)"
    then consider "n < 63" | "n = 63" by fastforce
    then show "bit (((e AND 0x7FFFFFFFFFFFFFFF) OR push_bit 63 (d AND 1)) OR 0x8000000000000000) n = bit e n"
      unfolding m o using that p [of n] by cases (simp_all add: bit_simps)
  qed
qed

lemma word_segments:
  fixes d :: u64
  shows "push_bit 57 (ucast (take_bit 7 (ucast (drop_bit 57 d)) :: u8)) OR
    (push_bit 49 (ucast (ucast (drop_bit 49 d) :: u8)) OR
    (push_bit 41 (ucast (ucast (drop_bit 41 d) :: u8)) OR
    (push_bit 33 (ucast (ucast (drop_bit 33 d) :: u8)) OR
    (push_bit 25 (ucast (ucast (drop_bit 25 d) :: u8)) OR
    (push_bit 17 (ucast (ucast (drop_bit 17 d) :: u8)) OR
    (push_bit 9 (ucast (ucast (drop_bit 9 d) :: u8)) OR
    (push_bit 1 (ucast (ucast (drop_bit 1 d) :: u8)) OR take_bit 1 d))))))) = d"
  using byte_segment [of 1 d] byte_segment [of 9 d] byte_segment [of 17 d] byte_segment [of 25 d]
    byte_segment [of 33 d] byte_segment [of 41 d] byte_segment [of 49 d] top_segment [of d]
  by (simp del: push_bit_Suc drop_bit_Suc take_bit_Suc One_nat_def)

lemma uuid_of_VU_uuid:
  "uuid_of_Variant (VU_uuid v0 [b0, b1, b2, b3, b4, b5, b6] w) = Inr (Uuid_t
     (push_bit 57 (ucast v0) OR (push_bit 49 (ucast b0) OR (push_bit 41 (ucast b1) OR
       (push_bit 33 (ucast b2) OR (push_bit 25 (ucast b3) OR (push_bit 17 (ucast b4) OR
       (push_bit 9 (ucast b5) OR (push_bit 1 (ucast b6) OR drop_bit 63 w)))))))) (w OR 0x8000000000000000))"
  by (simp add: uuid_of_Variant_def or.assoc)

text \<open>
  A UUID stored in a \<open>Variant\<close> is read back unchanged, whatever its bits, as long as it is valid;
  a \<open>Variant\<close> of another type is refused.
\<close>

theorem uuid_variant_roundtrip:
  assumes "uuid_valid u"
  shows "uuid_of_Variant (Variant_of_uuid u) = Inr u \<and> uuid_of_Variant (VU_var False) = Inl (Err ErrNotValid)"
proof (cases "u = Uuid_t 0 0")
  case True
  then show ?thesis by (simp add: Variant_of_uuid_def uuid_of_Variant_def)
next
  case False
  then have b: "bit (uuid1 u) 63" and n: "\<not> (uuid0 u = 0 \<and> uuid1 u = 0)"
    using assms by (auto simp: uuid_valid_def uuid.expand)
  have v: "Variant_of_uuid u = VU_uuid (take_bit 7 (ucast (drop_bit 57 (uuid0 u))))
      [ucast (drop_bit 49 (uuid0 u)), ucast (drop_bit 41 (uuid0 u)), ucast (drop_bit 33 (uuid0 u)),
       ucast (drop_bit 25 (uuid0 u)), ucast (drop_bit 17 (uuid0 u)), ucast (drop_bit 9 (uuid0 u)),
       ucast (drop_bit 1 (uuid0 u))]
      ((uuid1 u AND 0x7FFFFFFFFFFFFFFF) OR push_bit 63 (uuid0 u AND 1))"
    by (simp add: Variant_of_uuid_def n)
  have "uuid_of_Variant (Variant_of_uuid u) = Inr u"
    unfolding v uuid_of_VU_uuid variant_words(1) variant_words(2) [OF b] word_segments by simp
  then show ?thesis by (simp add: uuid_of_Variant_def)
qed

theorem uuid_variant_roundtrip_witness:
  "uuid_of_Variant (Variant_of_uuid (Uuid_t 0x1234 0x8000000000000001)) = Inr (Uuid_t 0x1234 0x8000000000000001)"
proof -
  have "uuid_valid (Uuid_t 0x1234 0x8000000000000001)"
    by (simp add: uuid_valid_def drop63 [symmetric])
  from uuid_variant_roundtrip [OF this] show ?thesis by simp
qed

end
