(* ===== verification/KeyValueType.thy ===== *)
theory KeyValueType
  imports Prelude
begin

unbundle bit_operations_syntax

section \<open>Value types, tag names and CJSON tags\<close>

text \<open>
  \<open>core/type_consts.h\<close> (\<open>TagType\<close>), \<open>core/key_value_type.h\<close> and \<open>.cc\<close> (the type of a stored value and
  its numbering on the wire), \<open>core/tag_name_index.h\<close> (checked 16- and 32-bit identifiers) and
  \<open>core/cjson/ctag.h\<close> (the two packed tag words of CJSON).
\<close>

subsection \<open>Value types\<close>

datatype TagType =
    TAG_VARINT | TAG_DOUBLE | TAG_STRING | TAG_BOOL | TAG_NULL | TAG_ARRAY | TAG_OBJECT | TAG_END
  | TAG_UUID | TAG_FLOAT

fun tag_number :: "TagType \<Rightarrow> u32" where
  "tag_number TAG_VARINT = 0"
| "tag_number TAG_DOUBLE = 1"
| "tag_number TAG_STRING = 2"
| "tag_number TAG_BOOL = 3"
| "tag_number TAG_NULL = 4"
| "tag_number TAG_ARRAY = 5"
| "tag_number TAG_OBJECT = 6"
| "tag_number TAG_END = 7"
| "tag_number TAG_UUID = 8"
| "tag_number TAG_FLOAT = 9"

datatype key_value_type =
    KVT_Int64 | KVT_Double | KVT_String | KVT_Bool | KVT_Null | KVT_Int | KVT_Undefined
  | KVT_Composite | KVT_Tuple | KVT_Uuid | KVT_FloatVector | KVT_Float

text \<open>The values of the enum \<open>KVT\<close>: five are \<open>TagType\<close> values, the rest count on from \<open>TAG_END + 1\<close>.\<close>

fun ToNumber :: "key_value_type \<Rightarrow> int" where
  "ToNumber KVT_Int64 = uint (tag_number TAG_VARINT)"
| "ToNumber KVT_Double = uint (tag_number TAG_DOUBLE)"
| "ToNumber KVT_String = uint (tag_number TAG_STRING)"
| "ToNumber KVT_Bool = uint (tag_number TAG_BOOL)"
| "ToNumber KVT_Null = uint (tag_number TAG_NULL)"
| "ToNumber KVT_Int = uint (tag_number TAG_END) + 1"
| "ToNumber KVT_Undefined = uint (tag_number TAG_END) + 2"
| "ToNumber KVT_Composite = uint (tag_number TAG_END) + 3"
| "ToNumber KVT_Tuple = uint (tag_number TAG_END) + 4"
| "ToNumber KVT_Uuid = uint (tag_number TAG_END) + 5"
| "ToNumber KVT_FloatVector = uint (tag_number TAG_END) + 6"
| "ToNumber KVT_Float = uint (tag_number TAG_END) + 7"

definition FromNumber :: "int \<Rightarrow> key_value_type res" where
  "FromNumber n =
     (if n = ToNumber KVT_Int64 then Inr KVT_Int64
      else if n = ToNumber KVT_Double then Inr KVT_Double
      else if n = ToNumber KVT_String then Inr KVT_String
      else if n = ToNumber KVT_Bool then Inr KVT_Bool
      else if n = ToNumber KVT_Null then Inr KVT_Null
      else if n = ToNumber KVT_Int then Inr KVT_Int
      else if n = ToNumber KVT_Undefined then Inr KVT_Undefined
      else if n = ToNumber KVT_Composite then Inr KVT_Composite
      else if n = ToNumber KVT_Tuple then Inr KVT_Tuple
      else if n = ToNumber KVT_Uuid then Inr KVT_Uuid
      else if n = ToNumber KVT_FloatVector then Inr KVT_FloatVector
      else if n = ToNumber KVT_Float then Inr KVT_Float
      else Inl (Err ErrParams))"

fun KVT_of_TagType :: "TagType \<Rightarrow> key_value_type res" where
  "KVT_of_TagType TAG_VARINT = Inr KVT_Int64"
| "KVT_of_TagType TAG_NULL = Inr KVT_Null"
| "KVT_of_TagType TAG_BOOL = Inr KVT_Bool"
| "KVT_of_TagType TAG_STRING = Inr KVT_String"
| "KVT_of_TagType TAG_DOUBLE = Inr KVT_Double"
| "KVT_of_TagType TAG_UUID = Inr KVT_Uuid"
| "KVT_of_TagType TAG_FLOAT = Inr KVT_Float"
| "KVT_of_TagType TAG_ARRAY = Inl (Err ErrParams)"
| "KVT_of_TagType TAG_OBJECT = Inl (Err ErrParams)"
| "KVT_of_TagType TAG_END = Inl (Err ErrParams)"

fun ToTagType :: "key_value_type \<Rightarrow> TagType res" where
  "ToTagType KVT_Int64 = Inr TAG_VARINT"
| "ToTagType KVT_Int = Inr TAG_VARINT"
| "ToTagType KVT_Double = Inr TAG_DOUBLE"
| "ToTagType KVT_Float = Inr TAG_FLOAT"
| "ToTagType KVT_String = Inr TAG_STRING"
| "ToTagType KVT_Bool = Inr TAG_BOOL"
| "ToTagType KVT_Null = Inr TAG_NULL"
| "ToTagType KVT_Undefined = Inr TAG_NULL"
| "ToTagType KVT_Uuid = Inr TAG_UUID"
| "ToTagType KVT_FloatVector = Inl (Err ErrParams)"
| "ToTagType KVT_Composite = Inl (Err ErrParams)"
| "ToTagType KVT_Tuple = Inl (Err ErrParams)"

fun IsNumeric :: "key_value_type \<Rightarrow> bool" where
  "IsNumeric KVT_Int64 = True"
| "IsNumeric KVT_Double = True"
| "IsNumeric KVT_Float = True"
| "IsNumeric KVT_Int = True"
| "IsNumeric KVT_Bool = True"
| "IsNumeric KVT_String = False"
| "IsNumeric KVT_Null = False"
| "IsNumeric KVT_Undefined = False"
| "IsNumeric KVT_Composite = False"
| "IsNumeric KVT_Tuple = False"
| "IsNumeric KVT_Uuid = False"
| "IsNumeric KVT_FloatVector = False"

fun KVT_Name :: "key_value_type \<Rightarrow> string" where
  "KVT_Name KVT_Int64 = ''int64''"
| "KVT_Name KVT_Double = ''double''"
| "KVT_Name KVT_Float = ''float''"
| "KVT_Name KVT_String = ''string''"
| "KVT_Name KVT_Bool = ''bool''"
| "KVT_Name KVT_Null = ''null''"
| "KVT_Name KVT_Int = ''int''"
| "KVT_Name KVT_Undefined = ''undefined''"
| "KVT_Name KVT_Composite = ''composite''"
| "KVT_Name KVT_Tuple = ''tuple''"
| "KVT_Name KVT_Uuid = ''uuid''"
| "KVT_Name KVT_FloatVector = ''float_vector''"

lemma FromNumber_ToNumber [simp]: "FromNumber (ToNumber t) = Inr t"
  by (cases t) (simp_all add: FromNumber_def)

lemma ToNumber_range: "0 \<le> ToNumber t" "ToNumber t < 128"
  by (cases t; simp)+

lemma ToTagType_of_tag: "KVT_of_TagType g = Inr t \<Longrightarrow> ToTagType t = Inr g"
  by (cases g) auto

lemma KVT_Name_inj: "KVT_Name s = KVT_Name t \<longleftrightarrow> s = t"
  by (cases s; cases t) simp_all

subsection \<open>Tag names and indexes\<close>

definition TagName_of_uint :: "u64 \<Rightarrow> u16 res" where
  "TagName_of_uint v = (if v > 65535 then Inl (Err ErrLogic) else Inr (ucast v))"

text \<open>The signed constructor delegates to the unsigned one first, then tests the sign.\<close>

definition TagName_of_int :: "int \<Rightarrow> u16 res" where
  "TagName_of_int v =
     bind_res (TagName_of_uint (word_of_int v)) (\<lambda>t. if v < 0 then Inl (Err ErrLogic) else Inr t)"

definition TagName_IsEmpty :: "u16 \<Rightarrow> bool" where
  "TagName_IsEmpty t \<longleftrightarrow> t = 0"

definition TagIndex_all_v :: u32 where
  "TagIndex_all_v = 0xFFFFFFFF"

definition TagIndex_of_uint :: "u64 \<Rightarrow> u32 res" where
  "TagIndex_of_uint v = (if v \<ge> ucast TagIndex_all_v then Inl (Err ErrLogic) else Inr (ucast v))"

definition TagIndex_of_int :: "int \<Rightarrow> u32 res" where
  "TagIndex_of_int v =
     bind_res (TagIndex_of_uint (word_of_int v)) (\<lambda>t. if v < 0 then Inl (Err ErrLogic) else Inr t)"

definition TagIndex_IsAll :: "u32 \<Rightarrow> bool" where
  "TagIndex_IsAll t \<longleftrightarrow> t = TagIndex_all_v"

definition TagIndex_eq :: "u32 \<Rightarrow> u32 \<Rightarrow> bool" where
  "TagIndex_eq a b \<longleftrightarrow> TagIndex_IsAll a \<or> TagIndex_IsAll b \<or> a = b"

subsection \<open>CJSON tags\<close>

text \<open>
  A \<open>TagType\<close> read from a packed word need not be one of the enumerators, so it is kept as the number
  itself. The assertions of the constructor are \<open>Abort\<close>.
\<close>

definition ctag_kTypeMask :: u32 where "ctag_kTypeMask = push_bit 3 1 - 1"
definition ctag_kNameMask :: u32 where "ctag_kNameMask = push_bit 12 1 - 1"
definition ctag_kFieldMask :: u32 where "ctag_kFieldMask = push_bit 10 1 - 1"
definition ctag_kNameMax :: int where "ctag_kNameMax = 4095"

datatype ctag = Ctag (ctag_asNumber: u32)

definition mk_ctag :: "u32 \<Rightarrow> u16 \<Rightarrow> int \<Rightarrow> ctag res" where
  "mk_ctag tagType tagName tagField =
     (let tag = (tagType AND ctag_kTypeMask) OR push_bit 3 (ucast tagName) OR
                push_bit 15 (word_of_int (tagField + 1)) OR
                push_bit 26 (tagType AND NOT ctag_kTypeMask)
      in if \<not> uint tagName \<le> ctag_kNameMax then Inl Abort
         else if \<not> tagField \<ge> - 1 then Inl Abort
         else if \<not> tagField + 1 < 1024 then Inl Abort
         else Inr (Ctag tag))"

definition ctag_typeImpl :: "u32 \<Rightarrow> u32" where
  "ctag_typeImpl tag = (tag AND ctag_kTypeMask) OR (drop_bit 26 tag AND NOT ctag_kTypeMask)"

definition ctag_nameImpl :: "u32 \<Rightarrow> u16" where
  "ctag_nameImpl tag = ucast (drop_bit 3 tag AND ctag_kNameMask)"

definition ctag_fieldImpl :: "u32 \<Rightarrow> int" where
  "ctag_fieldImpl tag = uint (drop_bit 15 tag AND ctag_kFieldMask) - 1"

definition ctag_Type :: "ctag \<Rightarrow> u32" where "ctag_Type c = ctag_typeImpl (ctag_asNumber c)"
definition ctag_Name :: "ctag \<Rightarrow> u16" where "ctag_Name c = ctag_nameImpl (ctag_asNumber c)"
definition ctag_Field :: "ctag \<Rightarrow> int" where "ctag_Field c = ctag_fieldImpl (ctag_asNumber c)"

text \<open>The private constructor from a number; \<open>ctag(uint64_t)\<close> narrows its argument to 32 bits.\<close>

definition ctag_of_number :: "u64 \<Rightarrow> ctag res" where
  "ctag_of_number tag = mk_ctag (ctag_typeImpl (ucast tag)) (ctag_nameImpl (ucast tag)) (ctag_fieldImpl (ucast tag))"

definition kCTagEnd :: "ctag res" where
  "kCTagEnd = mk_ctag (tag_number TAG_END) 0 (- 1)"

definition carraytag_kCountMask :: u32 where "carraytag_kCountMask = push_bit 24 1 - 1"
definition carraytag_kTypeMask :: u32 where "carraytag_kTypeMask = push_bit 6 1 - 1"

datatype carraytag = Carraytag (carraytag_asNumber: u32)

definition mk_carraytag :: "u32 \<Rightarrow> u32 \<Rightarrow> carraytag res" where
  "mk_carraytag count tag =
     (if count < push_bit 24 1 then Inr (Carraytag (count OR push_bit 24 tag)) else Inl Abort)"

definition carraytag_typeImpl :: "u32 \<Rightarrow> u32" where
  "carraytag_typeImpl atag = drop_bit 24 atag AND carraytag_kTypeMask"

definition carraytag_countImpl :: "u32 \<Rightarrow> u32" where
  "carraytag_countImpl atag = atag AND carraytag_kCountMask"

definition carraytag_Type :: "carraytag \<Rightarrow> u32" where
  "carraytag_Type a = carraytag_typeImpl (carraytag_asNumber a)"
definition carraytag_Count :: "carraytag \<Rightarrow> u32" where
  "carraytag_Count a = carraytag_countImpl (carraytag_asNumber a)"

definition carraytag_of_number :: "u32 \<Rightarrow> carraytag res" where
  "carraytag_of_number atag = mk_carraytag (carraytag_countImpl atag) (carraytag_typeImpl atag)"

lemma ctag_masks:
  "ctag_kTypeMask = mask 3" "ctag_kNameMask = mask 12" "ctag_kFieldMask = mask 10"
  "carraytag_kCountMask = mask 24" "carraytag_kTypeMask = mask 6"
  by (simp_all only: ctag_kTypeMask_def ctag_kNameMask_def ctag_kFieldMask_def carraytag_kCountMask_def
      carraytag_kTypeMask_def mask_eq_exp_minus_1 push_bit_of_1)

lemma mk_ctag_Inr:
  "mk_ctag t nm f = Inr c \<longleftrightarrow> uint nm \<le> 4095 \<and> - 1 \<le> f \<and> f < 1023 \<and>
     c = Ctag ((t AND mask 3) OR push_bit 3 (ucast nm) OR push_bit 15 (word_of_int (f + 1)) OR
               push_bit 26 (t AND NOT (mask 3)))"
  by (auto simp: mk_ctag_def Let_def ctag_kNameMax_def ctag_masks split: if_splits)

lemma take_small: "uint w < 2 ^ n \<Longrightarrow> take_bit n w = w"
  by (rule word_uint_eqI) (simp add: unsigned_take_bit_eq take_bit_int_eq_self)

lemma ctag_fields:
  fixes t w :: u32 and nm :: u16
  defines "c \<equiv> (take_bit 6 t AND mask 3) OR push_bit 3 (ucast (take_bit 12 nm)) OR
       push_bit 15 (take_bit 10 w) OR push_bit 26 (take_bit 6 t AND NOT (mask 3))"
  shows "(c AND mask 3) OR (drop_bit 26 c AND NOT (mask 3)) = take_bit 6 t"
    "ucast (drop_bit 3 c AND mask 12) = take_bit 12 nm"
    "drop_bit 15 c AND mask 10 = take_bit 10 w"
  unfolding c_def by (rule bit_word_eqI; auto simp: bit_simps)+

lemma ctag_parts:
  assumes "mk_ctag t nm f = Inr c" "t < 64"
  shows "ctag_Type c = t" "ctag_Name c = nm" "ctag_Field c = f"
proof -
  define w where "w = (word_of_int (f + 1) :: u32)"
  from assms(1) have nm: "take_bit 12 nm = nm" and f: "- 1 \<le> f" "f < 1023"
    and c: "ctag_asNumber c = (t AND mask 3) OR push_bit 3 (ucast nm) OR push_bit 15 w OR
       push_bit 26 (t AND NOT (mask 3))"
    by (auto simp: mk_ctag_Inr w_def intro: take_small)
  have uw: "uint w = f + 1"
    unfolding w_def using f by (subst uint_word_of_int_eq, subst take_bit_int_eq_self) simp_all
  then have w: "take_bit 10 w = w" using f by (simp add: take_small)
  have t: "take_bit 6 t = t" using assms(2) by (simp add: word_less_def take_small)
  note fields = ctag_fields [of t nm w, unfolded nm w t, folded c]
  show "ctag_Type c = t" "ctag_Name c = nm" "ctag_Field c = f"
    using fields uw
    by (simp_all add: ctag_Type_def ctag_Name_def ctag_Field_def ctag_typeImpl_def ctag_nameImpl_def
        ctag_fieldImpl_def ctag_masks)
qed

lemma TagIndex_of_uint_not_all: "TagIndex_of_uint v = Inr t \<Longrightarrow> \<not> TagIndex_IsAll t"
proof
  assume a: "TagIndex_of_uint v = Inr t" "TagIndex_IsAll t"
  then have v: "unat v < 4294967295" and t: "ucast v = (0xFFFFFFFF :: u32)"
    by (auto simp: TagIndex_of_uint_def TagIndex_IsAll_def TagIndex_all_v_def word_less_nat_alt word_le_nat_alt split: if_splits)
  have "unat (ucast v :: u32) = unat v" using v by (simp add: unsigned_ucast_eq take_bit_nat_eq_self)
  with t v show False by simp
qed

lemma TagName_of_int_Inr: "- (2 ^ 63) \<le> v \<Longrightarrow> v < 2 ^ 63 \<Longrightarrow>
  TagName_of_int v = Inr t \<longleftrightarrow> 0 \<le> v \<and> v \<le> 65535 \<and> t = word_of_int v"
proof -
  assume r: "- (2 ^ 63) \<le> v" "v < 2 ^ 63"
  show ?thesis
  proof (cases "v < 0")
    case True then show ?thesis by (auto simp: TagName_of_int_def bind_res_def split: sum.splits)
  next
    case False
    then have "uint (word_of_int v :: u64) = v" using r by (simp add: uint_word_of_int_eq take_bit_int_eq_self)
    moreover have "ucast (word_of_int v :: u64) = (word_of_int v :: u16)"
      by (rule bit_word_eqI) (simp add: bit_simps)
    ultimately show ?thesis using False
      by (auto simp: TagName_of_int_def TagName_of_uint_def word_less_def)
  qed
qed

lemma FromNumber_Inr: "FromNumber n = Inr t \<longleftrightarrow> n = ToNumber t"
  by (cases t) (simp_all add: FromNumber_def)

lemma ctag_reread:
  assumes "mk_ctag t nm f = Inr c" "t < 64"
  shows "ctag_of_number (ucast (ctag_asNumber c)) = Inr c"
proof -
  have "ucast (ucast (ctag_asNumber c) :: u64) = ctag_asNumber c"
    by (rule bit_word_eqI) (simp add: bit_simps)
  with ctag_parts [OF assms] assms(1) show ?thesis
    by (simp add: ctag_of_number_def ctag_Type_def ctag_Name_def ctag_Field_def)
qed

lemma uint_and_mask: "uint (w AND mask n) < 2 ^ n"
  by (simp only: take_bit_eq_mask [symmetric] unsigned_take_bit_eq take_bit_int_less_exp)

lemma uint_ucast_le: "uint (ucast w :: 'b::len word) \<le> uint w"
  by (simp add: unsigned_ucast_eq take_bit_int_less_eq_self_iff)

lemma ctag_of_number_total: "\<exists>c. ctag_of_number n = Inr c"
proof -
  let ?t = "ucast n :: u32"
  have "uint (ctag_nameImpl ?t) \<le> uint (drop_bit 3 ?t AND mask 12)"
    unfolding ctag_nameImpl_def ctag_masks by (rule uint_ucast_le)
  also have "\<dots> < 2 ^ 12" by (rule uint_and_mask)
  finally have "uint (ctag_nameImpl ?t) \<le> 4095" by simp
  moreover have "- 1 \<le> ctag_fieldImpl ?t" 
    using uint_ge_0 [of "drop_bit 15 ?t AND ctag_kFieldMask"] unfolding ctag_fieldImpl_def by linarith
  moreover have "ctag_fieldImpl ?t < 1023"
    using uint_and_mask [of "drop_bit 15 ?t" 10] unfolding ctag_fieldImpl_def ctag_masks by simp
  ultimately show ?thesis by (simp add: ctag_of_number_def mk_ctag_Inr)
qed

lemma carraytag_fields:
  fixes n t :: u32
  shows "drop_bit 24 (take_bit 24 n OR push_bit 24 (take_bit 6 t)) AND mask 6 = take_bit 6 t"
    "(take_bit 24 n OR push_bit 24 (take_bit 6 t)) AND mask 24 = take_bit 24 n"
  by (rule bit_word_eqI; auto simp: bit_simps)+

lemma carraytag_parts:
  assumes "mk_carraytag n t = Inr a" "t < 64"
  shows "carraytag_Type a = t" "carraytag_Count a = n"
proof -
  from assms have n: "take_bit 24 n = n" and t: "take_bit 6 t = t"
    and a: "carraytag_asNumber a = n OR push_bit 24 t"
    by (auto simp: mk_carraytag_def word_less_def take_small split: if_splits)
  show "carraytag_Type a = t" "carraytag_Count a = n"
    using carraytag_fields [of n t] unfolding n t
    by (simp_all add: a carraytag_Type_def carraytag_Count_def carraytag_typeImpl_def
        carraytag_countImpl_def ctag_masks)
qed

lemma carraytag_reread:
  "mk_carraytag n t = Inr a \<Longrightarrow> t < 64 \<Longrightarrow> carraytag_of_number (carraytag_asNumber a) = Inr a"
  using carraytag_parts [of n t a]
  by (simp add: carraytag_of_number_def carraytag_Type_def carraytag_Count_def)

lemma tag_number_small: "tag_number t < 64"
  by (cases t) simp_all

text \<open>
  C26. CJSON tags: the constructor accepts exactly the names of at most 12 bits and the field numbers
  from -1 to 1022 and aborts on any other; type (also the two added past the three low bits), name
  and field are read back from the packed word, and the packed word read back gives the same tag.
\<close>

theorem ctag_roundtrip:
  "if uint nm \<le> 4095 \<and> - 1 \<le> f \<and> f < 1023
   then \<exists>c. mk_ctag (tag_number t) nm f = Inr c \<and> ctag_Type c = tag_number t \<and> ctag_Name c = nm \<and>
     ctag_Field c = f \<and> ctag_of_number (ucast (ctag_asNumber c)) = Inr c
   else mk_ctag (tag_number t) nm f = Inl Abort"
proof (cases "uint nm \<le> 4095 \<and> - 1 \<le> f \<and> f < 1023")
  case True
  then obtain c where c: "mk_ctag (tag_number t) nm f = Inr c" by (simp add: mk_ctag_Inr)
  with ctag_parts [OF c tag_number_small] ctag_reread [OF c tag_number_small] True show ?thesis by auto
next
  case False
  then show ?thesis by (auto simp: mk_ctag_def Let_def ctag_kNameMax_def)
qed

end
