(* ===== verification/Serial.thy ===== *)
theory Serial
  imports Varint Uuid KeyValueType
begin

unbundle bit_operations_syntax

section \<open>Reading the binary wire format\<close>

text \<open>
  \<open>tools/serilize/serializer.h\<close> and \<open>.cc\<close>: a \<open>Serializer\<close> is a bounded buffer with a read position.
  Positions and lengths are \<open>size_t\<close>, so their arithmetic wraps. A view or a copy that does not lie
  inside the buffer is \<open>UB\<close>; a \<open>p_string\<close> is only a pointer, so making one reads no text. Doubles and floats
  are their bit patterns. \<open>GetVariant\<close> recurses on the nesting the input declares; \<open>get_variant\<close> takes fuel for
  the depth, and \<open>GetVariant\<close> supplies so much that running out means that the code recurses without end.
\<close>

subsection \<open>The reader\<close>

record serializer =
  ser_buf :: bytes
  ser_len :: u64
  ser_pos :: u64

definition mk_Serializer :: "bytes \<Rightarrow> serializer" where
  "mk_Serializer buf = \<lparr>ser_buf = buf, ser_len = word_of_nat (length buf), ser_pos = 0\<rparr>"

definition Eof :: "serializer \<Rightarrow> bool" where
  "Eof s \<longleftrightarrow> ser_pos s \<ge> ser_len s"

definition SetPos :: "serializer \<Rightarrow> u64 \<Rightarrow> serializer" where
  "SetPos s p = s\<lparr>ser_pos := p\<rparr>"

definition ser_Reset :: "serializer \<Rightarrow> serializer" where
  "ser_Reset s = s\<lparr>ser_pos := 0\<rparr>"

definition checkbound :: "u64 \<Rightarrow> u64 \<Rightarrow> u64 \<Rightarrow> unit res" where
  "checkbound pos need len = (if pos + need > len then Inl (Err ErrParseBin) else Inr ())"

text \<open>The memory from \<open>pos\<close>, \<open>n\<close> bytes of it.\<close>

definition ser_view :: "serializer \<Rightarrow> u64 \<Rightarrow> nat \<Rightarrow> bytes res" where
  "ser_view s pos n =
     (if unat pos + n \<le> length (ser_buf s) then Inr (take n (drop (unat pos) (ser_buf s))) else Inl UB)"

text \<open>Little-endian, as \<open>memcpy\<close> to an integer on the supported targets.\<close>

fun le_value :: "bytes \<Rightarrow> nat" where
  "le_value [] = 0"
| "le_value (b # bs) = unat b + 256 * le_value bs"

text \<open>The common body of the fixed-width getters: check, copy, advance.\<close>

definition get_fixed :: "nat \<Rightarrow> serializer \<Rightarrow> (nat \<times> serializer) res" where
  "get_fixed n s =
     bind_res (checkbound (ser_pos s) (word_of_nat n) (ser_len s)) (\<lambda>_.
     bind_res (ser_view s (ser_pos s) n) (\<lambda>bs.
     Inr (le_value bs, s\<lparr>ser_pos := ser_pos s + word_of_nat n\<rparr>)))"

definition GetUInt8 :: "serializer \<Rightarrow> (u8 \<times> serializer) res" where
  "GetUInt8 s = bind_res (get_fixed 1 s) (\<lambda>(v, s). Inr (word_of_nat v, s))"

definition GetUInt32 :: "serializer \<Rightarrow> (u32 \<times> serializer) res" where
  "GetUInt32 s = bind_res (get_fixed 4 s) (\<lambda>(v, s). Inr (word_of_nat v, s))"

definition GetUInt64 :: "serializer \<Rightarrow> (u64 \<times> serializer) res" where
  "GetUInt64 s = bind_res (get_fixed 8 s) (\<lambda>(v, s). Inr (word_of_nat v, s))"

definition GetDouble :: "serializer \<Rightarrow> (u64 \<times> serializer) res" where
  "GetDouble s = bind_res (get_fixed 8 s) (\<lambda>(v, s). Inr (word_of_nat v, s))"

definition GetFloat :: "serializer \<Rightarrow> (u32 \<times> serializer) res" where
  "GetFloat s = bind_res (get_fixed 4 s) (\<lambda>(v, s). Inr (word_of_nat v, s))"

definition GetRank :: "serializer \<Rightarrow> (u32 \<times> serializer) res" where
  "GetRank s = GetFloat s"

text \<open>
  \<open>scan_varint\<close> takes an \<open>unsigned\<close>, so the length \<open>len_ - pos_\<close> that is left is narrowed to 32 bits. The scan
  reads at least one byte when that is not zero; with the position past the end the difference wraps and
  the byte is outside the buffer.
\<close>

definition ser_scan :: "serializer \<Rightarrow> nat res" where
  "ser_scan s =
     (if unat (ser_pos s) > length (ser_buf s) then Inl UB
      else Inr (scan_varint (unat (ucast (ser_len s - ser_pos s) :: u32)) (drop (unat (ser_pos s)) (ser_buf s))))"

definition get_varint_bytes :: "serializer \<Rightarrow> (nat \<times> bytes \<times> serializer) res" where
  "get_varint_bytes s =
     bind_res (ser_scan s) (\<lambda>l.
     if l = 0 then Inl (Err ErrParseBin)
     else
       bind_res (checkbound (ser_pos s) (word_of_nat l) (ser_len s)) (\<lambda>_.
       Inr (l, drop (unat (ser_pos s)) (ser_buf s), s\<lparr>ser_pos := ser_pos s + word_of_nat l\<rparr>)))"

definition GetVarint :: "serializer \<Rightarrow> (u64 \<times> serializer) res" where
  "GetVarint s = bind_res (get_varint_bytes s) (\<lambda>(l, data, s). Inr (parse_int64 l data, s))"

definition GetVarUInt :: "serializer \<Rightarrow> (u64 \<times> serializer) res" where
  "GetVarUInt s = bind_res (get_varint_bytes s) (\<lambda>(l, data, s). Inr (parse_uint64 l data, s))"

definition GetBool :: "serializer \<Rightarrow> (bool \<times> serializer) res" where
  "GetBool s = bind_res (GetVarUInt s) (\<lambda>(v, s). Inr (v \<noteq> 0, s))"

definition GetSlice :: "serializer \<Rightarrow> (bytes \<times> serializer) res" where
  "GetSlice s =
     bind_res (GetUInt32 s) (\<lambda>(l, s).
     bind_res (checkbound (ser_pos s) (ucast l) (ser_len s)) (\<lambda>_.
     bind_res (ser_view s (ser_pos s) (unat l)) (\<lambda>b.
     Inr (b, s\<lparr>ser_pos := ser_pos s + ucast l\<rparr>))))"

definition GetVString :: "serializer \<Rightarrow> (bytes \<times> serializer) res" where
  "GetVString s =
     bind_res (GetVarUInt s) (\<lambda>(l, s).
     bind_res (checkbound (ser_pos s) l (ser_len s)) (\<lambda>_.
     bind_res (ser_view s (ser_pos s) (unat l)) (\<lambda>b.
     Inr (b, s\<lparr>ser_pos := ser_pos s + l\<rparr>))))"

text \<open>
  \<open>getPVStringPtr\<close> returns a pointer to the length header; reading the string through it (\<open>p_string\<close>,
  \<open>tagVstr\<close>) scans and parses the header again, as 32 bits. The model of the \<open>p_string\<close> is the text that such
  a read finds, \<open>None\<close> when the text is not inside the buffer; no read takes place here.
\<close>

definition p_string_of_vstr :: "bytes \<Rightarrow> bytes option" where
  "p_string_of_vstr p =
     (let l = scan_varint 10 p; n = unat (parse_uint32 l p)
      in if l + n \<le> length p then Some (take n (drop l p)) else None)"

definition GetPVString :: "serializer \<Rightarrow> (bytes option \<times> serializer) res" where
  "GetPVString s =
     bind_res (GetVarUInt s) (\<lambda>(l, s').
     bind_res (checkbound (ser_pos s') l (ser_len s')) (\<lambda>_.
     Inr (p_string_of_vstr (drop (unat (ser_pos s)) (ser_buf s)), s'\<lparr>ser_pos := ser_pos s' + l\<rparr>)))"

definition SkipPVString :: "serializer \<Rightarrow> serializer res" where
  "SkipPVString s =
     bind_res (GetVarUInt s) (\<lambda>(l, s).
     bind_res (checkbound (ser_pos s) l (ser_len s)) (\<lambda>_.
     Inr (s\<lparr>ser_pos := ser_pos s + l\<rparr>)))"

definition GetUuid :: "serializer \<Rightarrow> (uuid \<times> serializer) res" where
  "GetUuid s =
     bind_res (GetUInt64 s) (\<lambda>(v1, s).
     bind_res (GetUInt64 s) (\<lambda>(v2, s).
     Inr (Uuid_t v1 v2, s)))"

definition GetStrUuid :: "serializer \<Rightarrow> (uuid \<times> serializer) res" where
  "GetStrUuid s =
     bind_res (GetVString s) (\<lambda>(str, s). bind_res (uuid_of_string str) (\<lambda>u. Inr (u, s)))"

definition GetCTag :: "serializer \<Rightarrow> (ctag \<times> serializer) res" where
  "GetCTag s =
     bind_res (GetVarUInt s) (\<lambda>(v, s). bind_res (ctag_of_number v) (\<lambda>c. Inr (c, s)))"

definition GetCArrayTag :: "serializer \<Rightarrow> (carraytag \<times> serializer) res" where
  "GetCArrayTag s =
     bind_res (GetUInt32 s) (\<lambda>(v, s). bind_res (carraytag_of_number v) (\<lambda>c. Inr (c, s)))"

text \<open>\<open>FromNumber\<close> takes an \<open>int\<close>: the 64-bit value is narrowed.\<close>

definition GetKeyValueType :: "serializer \<Rightarrow> (key_value_type \<times> serializer) res" where
  "GetKeyValueType s =
     bind_res (GetVarUInt s) (\<lambda>(v, s).
     bind_res (FromNumber (sint (ucast v :: 32 word))) (\<lambda>t. Inr (t, s)))"

subsection \<open>Float vectors and variants\<close>

text \<open>
  A float vector view: 16 bits of dimension and the bytes of the floats, \<open>None\<close> for a view without
  data (empty when the dimension is 0, stripped otherwise). The constructor from a span shifts the
  size into the 16 bits of the dimension, so a longer span keeps the low bits.
\<close>

datatype float_vector_view = FV (fv_dim: u16) (fv_data: "bytes option")

definition fv_IsEmpty :: "float_vector_view \<Rightarrow> bool" where
  "fv_IsEmpty v \<longleftrightarrow> fv_dim v = 0 \<and> fv_data v = None"
definition fv_IsStrippedOrEmpty :: "float_vector_view \<Rightarrow> bool" where
  "fv_IsStrippedOrEmpty v \<longleftrightarrow> fv_data v = None"
definition fv_IsStripped :: "float_vector_view \<Rightarrow> bool" where
  "fv_IsStripped v \<longleftrightarrow> fv_IsStrippedOrEmpty v \<and> \<not> fv_IsEmpty v"

definition FloatVectorDimension_of :: "u32 \<Rightarrow> u16 res" where
  "FloatVectorDimension_of v = (if v > 65535 then Inl (Err ErrLogic) else Inr (ucast v))"

definition fv_of_span :: "u32 \<Rightarrow> bytes \<Rightarrow> float_vector_view" where
  "fv_of_span dim data =
     (if data = [] then FV 0 None else FV (ucast dim) (Some (take (4 * unat (ucast dim :: u16)) data)))"

definition GetFloatVectorView :: "serializer \<Rightarrow> (float_vector_view \<times> serializer) res" where
  "GetFloatVectorView s =
     bind_res (GetVarUInt s) (\<lambda>(v, s).
     let dim = ucast v :: u32 in
     if dim = 0 then Inr (FV 0 None, s)
     else
       let isStripped = (dim AND 1 \<noteq> 0); dim = drop_bit 1 dim in
       if isStripped then
         bind_res (FloatVectorDimension_of dim) (\<lambda>d. Inr (FV d None, s))
       else
         let memSize = ucast dim * 4 :: u64 in
         bind_res (checkbound (ser_pos s) memSize (ser_len s)) (\<lambda>_.
         bind_res (ser_view s (ser_pos s) (unat memSize)) (\<lambda>data.
         Inr (fv_of_span dim data, s\<lparr>ser_pos := ser_pos s + memSize\<rparr>))))"

text \<open>
  The values of a \<open>Variant\<close>. \<open>V_WildString\<close> is a string whose pointer leads out of the buffer it was read from:
  it can be passed on, but not looked at. The elements of a tuple are read into a \<open>VariantArray\<close>, an \<open>h_vector\<close>.
\<close>

datatype variant =
    V_Int "32 word" | V_Bool bool | V_Int64 "64 word" | V_Double u64 | V_Float u32
  | V_String bytes | V_WildString | V_Null | V_Uuid uuid | V_FloatVector float_vector_view
  | V_Tuple "variant list" | V_Composite | V_Undefined

fun variant_Type :: "variant \<Rightarrow> key_value_type" where
  "variant_Type (V_Int _) = KVT_Int"
| "variant_Type (V_Bool _) = KVT_Bool"
| "variant_Type (V_Int64 _) = KVT_Int64"
| "variant_Type (V_Double _) = KVT_Double"
| "variant_Type (V_Float _) = KVT_Float"
| "variant_Type (V_String _) = KVT_String"
| "variant_Type V_WildString = KVT_String"
| "variant_Type V_Null = KVT_Null"
| "variant_Type (V_Uuid _) = KVT_Uuid"
| "variant_Type (V_FloatVector _) = KVT_FloatVector"
| "variant_Type (V_Tuple _) = KVT_Tuple"
| "variant_Type V_Composite = KVT_Composite"
| "variant_Type V_Undefined = KVT_Undefined"

definition variant_of_p_string :: "bytes option \<Rightarrow> variant" where
  "variant_of_p_string p = (case p of Some b \<Rightarrow> V_String b | None \<Rightarrow> V_WildString)"

text \<open>A variant keeps a UUID without the top bit of its second word, which every UUID but the nil one has.\<close>

definition variant_of_uuid :: "uuid \<Rightarrow> variant res" where
  "variant_of_uuid u = bind_res (uuid_of_Variant (Variant_of_uuid u)) (\<lambda>u. Inr (V_Uuid u))"

text \<open>
  A tuple keeps its elements as the bytes that \<open>PutVariant\<close> writes for them, in a \<open>key_string\<close> whose length is
  32 bits wide: \<open>Variant(VariantArray)\<close> looks at the text of strings and throws when the bytes are too many. The
  model keeps the list of elements as they are when they are read back, \<open>wire_size\<close> counting the bytes; a
  vector without floats is read back without data.
\<close>

fun wire_size :: "variant \<Rightarrow> nat" where
  "wire_size (V_Int i) = 1 + length (sint32_pack i)"
| "wire_size (V_Bool _) = 2"
| "wire_size (V_Int64 i) = 1 + length (sint64_pack i)"
| "wire_size (V_Double _) = 9"
| "wire_size (V_Float _) = 5"
| "wire_size (V_String s) = 1 + length (uint32_pack (word_of_nat (length s))) + length s"
| "wire_size (V_Uuid _) = 17"
| "wire_size (V_FloatVector v) =
     1 + length (uint64_pack (push_bit 1 (ucast (fv_dim v)) OR (if fv_IsStripped v then 1 else 0))) +
     (if fv_IsStrippedOrEmpty v then 0 else 4 * unat (fv_dim v))"
| "wire_size (V_Tuple vs) = 1 + length (uint64_pack (word_of_nat (length vs))) + sum_list (map wire_size vs)"
| "wire_size _ = 1"

definition read_back :: "variant \<Rightarrow> variant" where
  "read_back v = (case v of V_FloatVector w \<Rightarrow> V_FloatVector (if fv_dim w = 0 then FV 0 None else w) | _ \<Rightarrow> v)"

definition variant_of_array :: "variant list \<Rightarrow> variant res" where
  "variant_of_array vs =
     (if V_WildString \<in> set vs then Inl UB
      else if length (uint64_pack (word_of_nat (length vs))) + sum_list (map wire_size vs) \<ge> 2 ^ 32 then Inl (Err ErrParams)
      else Inr (V_Tuple (map read_back vs)))"

definition tuple_read :: "variant list \<times> serializer \<Rightarrow> (variant \<times> serializer) res" where
  "tuple_read = (\<lambda>(vs, s). bind_res (variant_of_array vs) (\<lambda>v. Inr (v, s)))"

fun GetRawVariant :: "key_value_type \<Rightarrow> serializer \<Rightarrow> (variant \<times> serializer) res" where
  "GetRawVariant KVT_Int s = bind_res (GetVarint s) (\<lambda>(v, s). Inr (V_Int (ucast v), s))"
| "GetRawVariant KVT_Bool s = bind_res (GetVarUInt s) (\<lambda>(v, s). Inr (V_Bool (v \<noteq> 0), s))"
| "GetRawVariant KVT_Int64 s = bind_res (GetVarint s) (\<lambda>(v, s). Inr (V_Int64 v, s))"
| "GetRawVariant KVT_Double s = bind_res (GetDouble s) (\<lambda>(v, s). Inr (V_Double v, s))"
| "GetRawVariant KVT_String s = bind_res (GetPVString s) (\<lambda>(v, s). Inr (variant_of_p_string v, s))"
| "GetRawVariant KVT_Null s = Inr (V_Null, s)"
| "GetRawVariant KVT_Uuid s = bind_res (GetUuid s) (\<lambda>(v, s). bind_res (variant_of_uuid v) (\<lambda>v. Inr (v, s)))"
| "GetRawVariant KVT_Float s = bind_res (GetFloat s) (\<lambda>(v, s). Inr (V_Float v, s))"
| "GetRawVariant KVT_Tuple s = Inl (Err ErrParseBin)"
| "GetRawVariant KVT_Composite s = Inl (Err ErrParseBin)"
| "GetRawVariant KVT_Undefined s = Inl (Err ErrParseBin)"
| "GetRawVariant KVT_FloatVector s = Inl (Err ErrParseBin)"

fun SkipRawVariant :: "key_value_type \<Rightarrow> serializer \<Rightarrow> serializer res" where
  "SkipRawVariant KVT_Int s = bind_res (GetVarint s) (\<lambda>(_, s). Inr s)"
| "SkipRawVariant KVT_Bool s = bind_res (GetVarUInt s) (\<lambda>(_, s). Inr s)"
| "SkipRawVariant KVT_Int64 s = bind_res (GetVarint s) (\<lambda>(_, s). Inr s)"
| "SkipRawVariant KVT_Double s = bind_res (GetDouble s) (\<lambda>(_, s). Inr s)"
| "SkipRawVariant KVT_String s = SkipPVString s"
| "SkipRawVariant KVT_Null s = Inr s"
| "SkipRawVariant KVT_Uuid s = bind_res (GetUuid s) (\<lambda>(_, s). Inr s)"
| "SkipRawVariant KVT_Float s = bind_res (GetFloat s) (\<lambda>(_, s). Inr s)"
| "SkipRawVariant KVT_Tuple s = Inl (Err ErrParseBin)"
| "SkipRawVariant KVT_Composite s = Inl (Err ErrParseBin)"
| "SkipRawVariant KVT_Undefined s = Inl (Err ErrParseBin)"
| "SkipRawVariant KVT_FloatVector s = Inl (Err ErrParseBin)"

text \<open>
  \<open>GetVariant\<close> with fuel for the nesting depth. The elements of a tuple are read by the loop \<open>get_variants\<close>;
  \<open>i\<close> of them are in the array already. \<open>reserve\<close> is given the declared count narrowed to 32 bits.
\<close>

function (sequential) get_variant :: "nat \<Rightarrow> serializer \<Rightarrow> (variant \<times> serializer) res"
  and get_variants :: "nat \<Rightarrow> nat \<Rightarrow> nat \<Rightarrow> serializer \<Rightarrow> (variant list \<times> serializer) res" where
  "get_variant 0 s = Inl OutOfFuel"
| "get_variant (Suc f) s =
     bind_res (GetKeyValueType s) (\<lambda>(type, s).
     if type = KVT_Tuple then
       bind_res (GetVarUInt s) (\<lambda>(count, s).
       bind_res (hv_reserve (unat count)) (\<lambda>_.
       bind_res (get_variants f 0 (unat count) s) tuple_read))
     else if type = KVT_FloatVector then
       bind_res (GetFloatVectorView s) (\<lambda>(v, s). Inr (V_FloatVector v, s))
     else GetRawVariant type s)"
| "get_variants f i 0 s = Inr ([], s)"
| "get_variants f i (Suc n) s =
     bind_res (get_variant f s) (\<lambda>(v, s).
     bind_res (guard_res (i < hv_max_size) LogicError) (\<lambda>_.
     bind_res (get_variants f (i + 1) n s) (\<lambda>(vs, s). Inr (v # vs, s))))"
  by pat_completeness auto
termination
  by (relation "measures [case_sum fst fst, case_sum (\<lambda>_. 0) (\<lambda>(f, i, n, s). Suc n)]") auto

definition ser_remaining :: "serializer \<Rightarrow> nat" where
  "ser_remaining s = unat (ser_len s) - unat (ser_pos s)"

definition GetVariant :: "serializer \<Rightarrow> (variant \<times> serializer) res" where
  "GetVariant s = get_variant (length (ser_buf s) + 2) s"

subsection \<open>Reading at a position\<close>

text \<open>
  A reader that has consumed \<open>pre\<close> and has \<open>rest\<close> before it. Lengths are exact as long as fewer than
  \<open>2 ^ 32\<close> bytes are before the reader.
\<close>

abbreviation fits :: "nat \<Rightarrow> nat \<Rightarrow> bool" where
  "fits done left \<equiv> done + left < 2 ^ 63 \<and> left < 2 ^ 32"

definition ser_at :: "bytes \<Rightarrow> bytes \<Rightarrow> serializer" where
  "ser_at pre rest =
     \<lparr>ser_buf = pre @ rest, ser_len = word_of_nat (length pre + length rest), ser_pos = word_of_nat (length pre)\<rparr>"

definition ser_wf :: "serializer \<Rightarrow> bool" where
  "ser_wf s \<longleftrightarrow> length (ser_buf s) < 2 ^ 63 \<and> ser_len s = word_of_nat (length (ser_buf s)) \<and> ser_pos s \<le> ser_len s \<and>
     length (ser_buf s) - unat (ser_pos s) < 2 ^ 32"

lemma fits_skip:
  "fits (length pre) (length rest) \<Longrightarrow> n \<le> length rest \<Longrightarrow> fits (length (pre @ take n rest)) (length (drop n rest))"
  by simp linarith

lemma unat_small: "n < 2 ^ 64 \<Longrightarrow> unat (word_of_nat n :: u64) = n"
  by (simp add: unat_of_nat)

lemma ser_wf_at:
  assumes "ser_wf s"
  obtains pre rest where "s = ser_at pre rest" "fits (length pre) (length rest)"
proof -
  let ?n = "unat (ser_pos s)"
  have l: "length (ser_buf s) < 2 ^ 63" "unat (ser_len s) = length (ser_buf s)" "length (ser_buf s) - ?n < 2 ^ 32"
    using assms by (auto simp: ser_wf_def unat_small)
  have p: "?n \<le> length (ser_buf s)"
    using assms l by (simp add: ser_wf_def word_le_nat_alt)
  have "s = ser_at (take ?n (ser_buf s)) (drop ?n (ser_buf s))"
    using assms p by (cases s) (simp add: ser_at_def ser_wf_def)
  moreover have "fits (length (take ?n (ser_buf s))) (length (drop ?n (ser_buf s)))"
    using l p by simp
  ultimately show ?thesis by (rule that)
qed

lemma ser_at_wf: "fits (length pre) (length rest) \<Longrightarrow> ser_wf (ser_at pre rest)"
  by (simp add: ser_wf_def ser_at_def word_le_nat_alt unat_small del: of_nat_add)

lemma ser_at_simps [simp]:
  "ser_buf (ser_at pre rest) = pre @ rest"
  "ser_len (ser_at pre rest) = word_of_nat (length pre + length rest)"
  "ser_pos (ser_at pre rest) = word_of_nat (length pre)"
  by (simp_all add: ser_at_def)

lemma ser_at_advance:
  "n \<le> length rest \<Longrightarrow>
   (ser_at pre rest)\<lparr>ser_pos := word_of_nat (length pre + n)\<rparr> = ser_at (pre @ take n rest) (drop n rest)"
  by (simp add: ser_at_def)

lemma checkbound_at:
  assumes "fits (length pre) (length rest)" "n < 2 ^ 63"
  shows "checkbound (word_of_nat (length pre)) (word_of_nat n) (word_of_nat (length pre + length rest)) =
    (if n \<le> length rest then Inr () else Inl (Err ErrParseBin))"
proof -
  have "(word_of_nat (length pre) + word_of_nat n :: u64) = word_of_nat (length pre + n)" by simp
  moreover have "unat (word_of_nat (length pre + n) :: u64) = length pre + n"
    "unat (word_of_nat (length pre + length rest) :: u64) = length pre + length rest"
    using assms by (subst unat_small; simp)+
  ultimately show ?thesis by (auto simp: checkbound_def word_less_nat_alt)
qed

lemma ser_view_at:
  assumes "fits (length pre) (length rest)" "n \<le> length rest"
  shows "ser_view (ser_at pre rest) (word_of_nat (length pre)) n = Inr (take n rest)"
  using assms by (simp add: ser_view_def unat_small)

lemma get_fixed_at:
  assumes "fits (length pre) (length rest)" "n < 2 ^ 63"
  shows "get_fixed n (ser_at pre rest) =
    (if n \<le> length rest then Inr (le_value (take n rest), ser_at (pre @ take n rest) (drop n rest))
     else Inl (Err ErrParseBin))"
  using assms ser_at_advance [of n rest pre]
  by (simp add: get_fixed_def checkbound_at ser_view_at del: of_nat_add) simp

lemma get_varint_bytes_at:
  assumes "fits (length pre) (length rest)"
  shows "get_varint_bytes (ser_at pre rest) =
    (let l = scan_varint (length rest) rest
     in if l = 0 then Inl (Err ErrParseBin)
        else Inr (l, rest, ser_at (pre @ take l rest) (drop l rest)))"
proof -
  have d: "unat (ucast (word_of_nat (length pre + length rest) - word_of_nat (length pre) :: u64) :: u32) = length rest"
    using assms by (simp add: unsigned_ucast_eq unat_small take_bit_nat_eq_self)
  have l: "scan_varint (length rest) rest \<le> length rest" "scan_varint (length rest) rest < 2 ^ 63"
    using scan_varint_le [of "length rest" rest] by auto
  have p: "unat (word_of_nat (length pre) :: u64) = length pre"
    using assms by (subst unat_small) simp_all
  have "ser_scan (ser_at pre rest) = Inr (scan_varint (length rest) rest)"
    by (simp only: ser_scan_def ser_at_simps p d) simp
  then show ?thesis
    using checkbound_at [OF assms l(2)] l(1) ser_at_advance [OF l(1), of pre]
    by (simp add: get_varint_bytes_def p Let_def del: of_nat_add) simp
qed

lemmas get_at = get_fixed_at get_varint_bytes_at

lemma le_value_bound: "le_value bs < 256 ^ length bs"
proof (induction bs)
  case (Cons b bs)
  have "unat b < 256" using unsigned_less [of b, where ?'a = nat] by simp
  with Cons show ?case by simp
qed simp

lemma GetVarUInt_at:
  "fits (length pre) (length rest) \<Longrightarrow> GetVarUInt (ser_at pre rest) =
    (let l = scan_varint (length rest) rest
     in if l = 0 then Inl (Err ErrParseBin)
        else Inr (parse_uint64 l rest, ser_at (pre @ take l rest) (drop l rest)))"
  by (simp add: GetVarUInt_def get_varint_bytes_at Let_def)

lemma GetVarUInt_cases:
  assumes "ser_wf s"
  shows "GetVarUInt s = Inl (Err ErrParseBin) \<or>
    (\<exists>v s'. GetVarUInt s = Inr (v, s') \<and> ser_wf s' \<and> ser_len s' = ser_len s \<and> ser_remaining s' < ser_remaining s)"
proof -
  obtain pre rest where s: "s = ser_at pre rest" and l: "fits (length pre) (length rest)"
    using ser_wf_at [OF assms] .
  let ?l = "scan_varint (length rest) rest"
  have r: "?l \<le> length rest" using scan_varint_le [of "length rest" rest] by simp
  have rem: "ser_remaining (ser_at p r) = length r" if "fits (length p) (length r)" for p r
    using that by (simp add: ser_remaining_def unat_small del: of_nat_add) 
  have w: "ser_wf (ser_at (pre @ take ?l rest) (drop ?l rest))" by (rule ser_at_wf [OF fits_skip [OF l r]])
  have "fits (length (pre @ take ?l rest)) (length (drop ?l rest))" by (rule fits_skip [OF l r])
  from rem [OF this] rem [OF l] show ?thesis
    using w r unfolding s GetVarUInt_at [OF l] Let_def by auto
qed

text \<open>The 32-bit parser agrees with the 64-bit one on the low 32 bits, for any header.\<close>

lemma parse_uint32_low:
  assumes "0 < len" "len \<le> length data"
  shows "parse_uint32 len data = ucast (parse_uint64 len data)"
proof -
  have w: "(ucast (word_of_nat n :: u64) :: u32) = word_of_nat n" for n
    by (rule bit_word_eqI) (auto simp: bit_simps)
  show ?thesis
  proof (cases "len < 5")
    case True
    with assms show ?thesis by (simp add: parse_uint32_unleb parse_uint64_unleb w)
  next
    case False
    then have l: "4 < length data" using assms by simp
    have four: "parse_uint32 4 data = word_of_nat (unleb (take 4 data))"
      using l by (intro parse_uint32_unleb) simp_all
    have "parse_uint32 len data = parse_uint32 4 data OR push_bit 28 (ucast (data ! 4))"
      using False by (simp add: parse_uint32_def Let_def)
    also have "push_bit 28 (ucast (data ! 4)) = (push_bit 28 (ucast (data ! 4 AND 0x7f)) :: u32)"
    proof -
      have m: "data ! 4 AND 0x7f = take_bit 7 (data ! 4)" by (simp add: take_bit_eq_mask mask_eq_exp_minus_1)
      show ?thesis unfolding m by (rule bit_word_eqI) (auto simp: bit_simps)
    qed
    also have "parse_uint32 4 data OR \<dots> = word_of_nat (unleb (take 5 data))"
      using or_digit [OF l, where ?'a = 32] four by simp
    also have "\<dots> = word_of_nat (unleb (take len data))"
    proof -
      have "take len data = take 5 data @ take (len - 5) (drop 5 data)"
        using False by (simp add: take_add [symmetric])
      then have "unleb (take len data) = unleb (take 5 data) + 2 ^ 32 * (8 * unleb (take (len - 5) (drop 5 data)))"
        using l by (simp add: unleb_append)
      then have "unleb (take len data) mod 2 ^ 32 = unleb (take 5 data) mod 2 ^ 32"
        by (metis mod_mult_self2)
      then show ?thesis by (simp add: word_of_nat_eq_iff take_bit_nat_def)
    qed
    finally show ?thesis using assms by (simp add: parse_uint64_unleb w)
  qed
qed

text \<open>What a reading step keeps: the buffer, a position inside it, and no going back.\<close>

definition steps :: "serializer \<Rightarrow> ('a \<times> serializer) res \<Rightarrow> bool" where
  "steps s r \<longleftrightarrow> (case r of Inl e \<Rightarrow> e \<noteq> OutOfFuel
     | Inr (v, s') \<Rightarrow> ser_wf s' \<and> ser_buf s' = ser_buf s \<and> ser_remaining s' \<le> ser_remaining s)"

lemma steps_Inl [simp]: "steps s (Inl e) \<longleftrightarrow> e \<noteq> OutOfFuel"
  by (simp add: steps_def)

lemma steps_Inr: "steps s (Inr (v, s')) \<longleftrightarrow>
    ser_wf s' \<and> ser_buf s' = ser_buf s \<and> ser_remaining s' \<le> ser_remaining s"
  by (simp add: steps_def)

lemma steps_bind:
  assumes "steps s m" "\<And>v s'. m = Inr (v, s') \<Longrightarrow> ser_wf s' \<Longrightarrow> ser_buf s' = ser_buf s \<Longrightarrow>
      ser_remaining s' \<le> ser_remaining s \<Longrightarrow> steps s' (f (v, s'))"
  shows "steps s (bind_res m f)"
proof (cases m)
  case (Inl e)
  with assms(1) show ?thesis by simp
next
  case (Inr p)
  obtain v s' where p: "p = (v, s')" by (cases p)
  have k: "ser_wf s'" "ser_buf s' = ser_buf s" "ser_remaining s' \<le> ser_remaining s"
    using assms(1) Inr p by (simp_all add: steps_Inr)
  from assms(2) [OF Inr [unfolded p] k] show ?thesis
    using k by (auto simp: Inr p steps_def split: sum.splits)
qed

lemma steps_ret: "ser_wf s \<Longrightarrow> steps s (Inr (v, s))"
  by (simp add: steps_Inr)

lemma steps_weaken: "ser_wf s \<Longrightarrow> m \<noteq> Inl OutOfFuel \<Longrightarrow> (\<And>x. m = Inr x \<Longrightarrow> steps s (f x)) \<Longrightarrow> steps s (bind_res m f)"
  by (cases m) simp_all

lemma remaining_at: "fits (length pre) (length rest) \<Longrightarrow> ser_remaining (ser_at pre rest) = length rest"
  by (simp add: ser_remaining_def unat_small del: of_nat_add)

lemma steps_at:
  "fits (length pre) (length rest) \<Longrightarrow> n \<le> length rest \<Longrightarrow>
   steps (ser_at pre rest) (Inr (v, ser_at (pre @ take n rest) (drop n rest)))"
  using fits_skip [of pre rest n] by (simp add: steps_Inr ser_at_wf remaining_at)

lemma get_fixed_steps: "ser_wf s \<Longrightarrow> n < 2 ^ 63 \<Longrightarrow> steps s (get_fixed n s)"
  by (erule ser_wf_at) (auto simp: get_fixed_at intro: steps_at)

lemma get_varint_bytes_cases:
  assumes "ser_wf s"
  shows "get_varint_bytes s = Inl (Err ErrParseBin) \<or>
    (\<exists>l data s'. get_varint_bytes s = Inr (l, data, s') \<and> ser_wf s' \<and> ser_buf s' = ser_buf s \<and>
       ser_remaining s' < ser_remaining s)"
proof -
  obtain pre rest where s: "s = ser_at pre rest" and l: "fits (length pre) (length rest)"
    using ser_wf_at [OF assms] .
  let ?l = "scan_varint (length rest) rest"
  have r: "?l \<le> length rest" using scan_varint_le [of "length rest" rest] by simp
  note f = fits_skip [OF l r]
  have "ser_wf (ser_at (pre @ take ?l rest) (drop ?l rest))" by (rule ser_at_wf [OF f])
  moreover have "ser_remaining (ser_at (pre @ take ?l rest) (drop ?l rest)) = length (drop ?l rest)"
    by (rule remaining_at [OF f])
  ultimately show ?thesis
    using r unfolding s get_varint_bytes_at [OF l] Let_def remaining_at [OF l] by auto
qed

lemma GetVarUInt_progress:
  assumes "ser_wf s"
  shows "steps s (GetVarUInt s)" "GetVarUInt s = Inr (v, s') \<Longrightarrow> ser_remaining s' < ser_remaining s"
    "steps s (GetVarint s)"
  using get_varint_bytes_cases [OF assms]
  by (auto simp: GetVarUInt_def GetVarint_def steps_Inr)

lemma fixed_steps:
  assumes "ser_wf s"
  shows "steps s (GetUInt32 s)" "steps s (GetUInt64 s)" "steps s (GetDouble s)" "steps s (GetFloat s)"
  unfolding GetUInt32_def GetUInt64_def GetDouble_def GetFloat_def
  by (rule steps_bind; auto intro: get_fixed_steps assms steps_ret)+

lemma GetUuid_steps: "ser_wf s \<Longrightarrow> steps s (GetUuid s)"
  unfolding GetUuid_def by (auto intro!: steps_bind fixed_steps steps_ret)

text \<open>Taking \<open>n\<close> bytes: the check, the view and the advance that several getters share.\<close>

lemma block_at:
  assumes "fits (length pre) (length rest)" "n < 2 ^ 63" "s = ser_at pre rest"
  shows "bind_res (checkbound (ser_pos s) (word_of_nat n) (ser_len s)) (\<lambda>_.
      bind_res (ser_view s (ser_pos s) n) (\<lambda>b. Inr (g b, s\<lparr>ser_pos := ser_pos s + word_of_nat n\<rparr>))) =
    (if n \<le> length rest then Inr (g (take n rest), ser_at (pre @ take n rest) (drop n rest))
     else Inl (Err ErrParseBin))"
  using assms ser_at_advance [of n rest pre]
  by (simp add: checkbound_at ser_view_at del: of_nat_add) simp

lemma block_steps:
  assumes "ser_wf s" "n < 2 ^ 63"
  shows "steps s (bind_res (checkbound (ser_pos s) (word_of_nat n) (ser_len s)) (\<lambda>_.
      bind_res (ser_view s (ser_pos s) n) (\<lambda>b. Inr (g b, s\<lparr>ser_pos := ser_pos s + word_of_nat n\<rparr>))))"
proof -
  obtain pre rest where s: "s = ser_at pre rest" and l: "fits (length pre) (length rest)"
    using ser_wf_at [OF assms(1)] .
  show ?thesis unfolding block_at [OF l assms(2) s] using s l by (auto intro: steps_at)
qed

lemma mem_size:
  fixes dim :: u32
  shows "(ucast dim * 4 :: u64) = word_of_nat (4 * unat dim)" "4 * unat dim < 2 ^ 63"
    "unat (word_of_nat (4 * unat dim) :: u64) = 4 * unat dim"
proof -
  have u: "unat dim < 2 ^ 32" using unsigned_less [of dim, where ?'a = nat] by simp
  show "(ucast dim * 4 :: u64) = word_of_nat (4 * unat dim)" by simp
  show "4 * unat dim < 2 ^ 63" using u by simp
  show "unat (word_of_nat (4 * unat dim) :: u64) = 4 * unat dim" using u by (subst unat_small) simp_all
qed

lemma GetFloatVectorView_steps:
  assumes "ser_wf s"
  shows "steps s (GetFloatVectorView s)"
  unfolding GetFloatVectorView_def
proof (rule steps_bind [OF GetVarUInt_progress(1) [OF assms]])
  fix v s' assume w: "ser_wf s'"
  let ?dim = "drop_bit 1 (ucast v :: u32)"
  have "steps s' (bind_res (FloatVectorDimension_of d) (\<lambda>d. Inr (FV d None, s')))" for d
    using w by (auto intro!: steps_weaken steps_ret simp: FloatVectorDimension_of_def)
  moreover have "steps s' (bind_res (checkbound (ser_pos s') (ucast ?dim * 4) (ser_len s'))
     (\<lambda>_. bind_res (ser_view s' (ser_pos s') (unat (ucast ?dim * 4 :: u64)))
       (\<lambda>data. Inr (fv_of_span ?dim data, s'\<lparr>ser_pos := ser_pos s' + ucast ?dim * 4\<rparr>))))"
    unfolding mem_size(1) mem_size(3) by (rule block_steps [OF w mem_size(2)])
  ultimately show "steps s' (case (v, s') of (v, s) \<Rightarrow>
     let dim = ucast v :: u32 in
     if dim = 0 then Inr (FV 0 None, s)
     else
       let isStripped = (dim AND 1 \<noteq> 0); dim = drop_bit 1 dim in
       if isStripped then
         bind_res (FloatVectorDimension_of dim) (\<lambda>d. Inr (FV d None, s))
       else
         let memSize = ucast dim * 4 :: u64 in
         bind_res (checkbound (ser_pos s) memSize (ser_len s)) (\<lambda>_.
         bind_res (ser_view s (ser_pos s) (unat memSize)) (\<lambda>data.
         Inr (fv_of_span dim data, s\<lparr>ser_pos := ser_pos s + memSize\<rparr>))))"
    using w unfolding prod.case Let_def by (auto intro: steps_ret simp del: drop_bit_Suc One_nat_def)
qed

lemma scan_loop_more:
  "scan_loop len data i < len \<Longrightarrow> len \<le> len' \<Longrightarrow> scan_loop len' data i = scan_loop len data i"
proof (induction len data i rule: scan_loop.induct)
  case (1 len data i)
  have step: "scan_loop k data i = (if i < k then (if data ! i AND 0x80 = 0 then i else scan_loop k data (Suc i)) else i)" for k
    by (rule scan_loop.simps)
  show ?case
  proof (cases "i < len \<and> data ! i AND 0x80 \<noteq> 0")
    case True
    with 1 step [of len] step [of len'] show ?thesis by simp
  next
    case False
    with 1(2,3) step [of len] step [of len'] show ?thesis by (auto split: if_splits)
  qed
qed

lemma scan_varint_min:
  "scan_varint len data = (let k = min len 10; i = scan_loop k data 0 in if i = k then 0 else i + 1)"
  by (cases "len > 10") (simp_all add: scan_varint_def Let_def min_def)

lemma scan_varint_more:
  assumes "scan_varint len data \<noteq> 0" "len \<le> len'"
  shows "scan_varint len' data = scan_varint len data"
proof -
  have "scan_loop (min len 10) data 0 \<le> min len 10" using scan_loop_le [of 0 "min len 10"] by simp
  moreover have "scan_loop (min len 10) data 0 \<noteq> min len 10"
    using assms(1) by (simp add: scan_varint_min Let_def split: if_splits)
  ultimately have lt: "scan_loop (min len 10) data 0 < min len 10" by linarith
  have m: "min len 10 \<le> min len' 10" using assms(2) by linarith
  have eq: "scan_loop (min len' 10) data 0 = scan_loop (min len 10) data 0"
    by (rule scan_loop_more [OF lt m])
  have "scan_loop (min len 10) data 0 \<noteq> min len' 10" "scan_loop (min len 10) data 0 \<noteq> min len 10"
    using lt m by linarith+
  then show ?thesis by (simp add: scan_varint_min Let_def eq)
qed

text \<open>
  The check of a string length adds in 64 bits. A length below \<open>2 ^ 63\<close> cannot wrap it; \<open>no_wrap\<close> says that no
  larger number can be read anywhere in a buffer.
\<close>

definition no_wrap :: "bytes \<Rightarrow> bool" where
  "no_wrap buf \<longleftrightarrow> list_all (\<lambda>p. case GetVarUInt ((mk_Serializer buf)\<lparr>ser_pos := word_of_nat p\<rparr>) of
     Inl _ \<Rightarrow> True | Inr (v, _) \<Rightarrow> v < 2 ^ 63) [0..<length buf]"

lemma no_wrapD:
  assumes "no_wrap (ser_buf s)" "ser_wf s" "GetVarUInt s = Inr (v, s')"
  shows "unat v < 2 ^ 63"
proof -
  let ?p = "unat (ser_pos s)"
  have s: "s = (mk_Serializer (ser_buf s))\<lparr>ser_pos := word_of_nat ?p\<rparr>"
    using assms(2) by (cases s) (simp add: mk_Serializer_def ser_wf_def)
  have "ser_remaining s' < ser_remaining s" by (rule GetVarUInt_progress(2) [OF assms(2,3)])
  then have "?p < length (ser_buf s)" using assms(2) by (simp add: ser_remaining_def ser_wf_def unat_small)
  then have "?p \<in> set [0..<length (ser_buf s)]" by simp
  from bspec [OF assms(1) [unfolded no_wrap_def list_all_iff] this]
  have "case GetVarUInt ((mk_Serializer (ser_buf s))\<lparr>ser_pos := word_of_nat ?p\<rparr>) of
     Inl _ \<Rightarrow> True | Inr (v, _) \<Rightarrow> v < 2 ^ 63" .
  then show ?thesis using assms(3) unfolding s [symmetric] by (simp add: word_less_nat_alt)
qed

lemma get_pvstring_steps:
  assumes "ser_wf s" "no_wrap (ser_buf s)"
  shows "steps s (GetPVString s)"
  unfolding GetPVString_def
proof (rule steps_bind [OF GetVarUInt_progress(1) [OF assms(1)]], unfold prod.case)
  fix l s' assume a: "GetVarUInt s = Inr (l, s')" "ser_wf s'"
  have "unat l < 2 ^ 63" by (rule no_wrapD [OF assms(2,1) a(1)])
  obtain pre rest where s': "s' = ser_at pre rest" and f: "fits (length pre) (length rest)"
    using ser_wf_at [OF a(2)] .
  show "steps s' (bind_res (checkbound (ser_pos s') l (ser_len s')) (\<lambda>_.
      Inr (p_string_of_vstr (drop (unat (ser_pos s)) (ser_buf s)), s'\<lparr>ser_pos := ser_pos s' + l\<rparr>)))"
  proof (cases "unat l \<le> length rest")
    case True
    have "s'\<lparr>ser_pos := ser_pos s' + l\<rparr> = ser_at (pre @ take (unat l) rest) (drop (unat l) rest)"
      using ser_at_advance [OF True, of pre] by (simp add: s')
    then show ?thesis
      using checkbound_at [OF f \<open>unat l < 2 ^ 63\<close>] True steps_at [OF f True] by (simp add: s' del: of_nat_add)
  next
    case False
    then show ?thesis using checkbound_at [OF f \<open>unat l < 2 ^ 63\<close>] by (simp add: s' del: of_nat_add)
  qed
qed

lemma variant_of_uuid_Inr: "\<exists>u'. variant_of_uuid u = Inr (V_Uuid u')"
  by (simp add: variant_of_uuid_def Variant_of_uuid_def uuid_of_Variant_def split: variant_uuid.splits)

lemma tuple_read_steps: "ser_wf s \<Longrightarrow> steps s (tuple_read (vs, s))"
  by (auto simp: tuple_read_def variant_of_array_def intro: steps_ret)

lemma GetRawVariant_steps:
  assumes "ser_wf s" "no_wrap (ser_buf s)"
  shows "steps s (GetRawVariant t s)"
proof (cases t)
  case KVT_String
  show ?thesis unfolding KVT_String GetRawVariant.simps
    by (rule steps_bind [OF get_pvstring_steps [OF assms]]) (auto intro: steps_ret)
next
  case KVT_Uuid
  show ?thesis unfolding KVT_Uuid GetRawVariant.simps
  proof (rule steps_bind [OF GetUuid_steps [OF assms(1)]], unfold prod.case)
    fix u s' assume "ser_wf s'"
    then show "steps s' (bind_res (variant_of_uuid u) (\<lambda>v. Inr (v, s')))"
      using variant_of_uuid_Inr [of u] by (auto intro: steps_ret)
  qed
qed (auto intro!: steps_bind GetVarUInt_progress fixed_steps steps_ret assms(1))

lemma FromNumber_fuel: "FromNumber n \<noteq> Inl OutOfFuel"
  by (simp add: FromNumber_def)

lemma GetKeyValueType_steps:
  assumes "ser_wf s"
  shows "steps s (GetKeyValueType s)"
    "GetKeyValueType s = Inr (t, s') \<Longrightarrow> ser_remaining s' < ser_remaining s"
proof -
  show "steps s (GetKeyValueType s)"
    unfolding GetKeyValueType_def
    by (rule steps_bind [OF GetVarUInt_progress(1) [OF assms]])
      (auto intro!: steps_weaken steps_ret simp: FromNumber_fuel)
  show "ser_remaining s' < ser_remaining s" if "GetKeyValueType s = Inr (t, s')"
    using that GetVarUInt_progress(2) [OF assms]
    by (auto simp: GetKeyValueType_def res_simps)
qed

text \<open>Without wrapping lengths, more fuel than remaining bytes never runs out.\<close>

lemma tuple_steps:
  assumes "ser_wf s" "\<And>c s' z. GetVarUInt s = Inr (c, s') \<Longrightarrow> hv_reserve (unat c) = Inr z \<Longrightarrow> steps s' (g c s')"
  shows "steps s (bind_res (GetVarUInt s) (\<lambda>(count, s). bind_res (hv_reserve (unat count)) (\<lambda>_.
     bind_res (g count s) tuple_read)))"
proof (rule steps_bind [OF GetVarUInt_progress(1) [OF assms(1)]], unfold prod.case)
  fix c s' assume a: "GetVarUInt s = Inr (c, s')" "ser_wf s'"
  have "steps s' (bind_res (g c s') tuple_read)" if "hv_reserve (unat c) = Inr z" for z
    by (rule steps_bind [OF assms(2) [OF a(1) that]]) (rule tuple_read_steps)
  then show "steps s' (bind_res (hv_reserve (unat c)) (\<lambda>_. bind_res (g c s') tuple_read))"
    by (intro steps_weaken [OF a(2)]) (auto simp: hv_reserve_def guard_res_def)
qed

lemma get_variant_steps:
  "ser_wf s \<Longrightarrow> no_wrap (ser_buf s) \<Longrightarrow> ser_remaining s < f \<Longrightarrow> steps s (get_variant f s)"
  "ser_wf s \<Longrightarrow> no_wrap (ser_buf s) \<Longrightarrow> ser_remaining s < f \<Longrightarrow> steps s (get_variants f i n s)"
proof (induction f s and f i n s rule: get_variant_get_variants.induct)
  case (1 s)
  then show ?case by simp
next
  case (2 f s)
  show ?case unfolding get_variant.simps
  proof (rule steps_bind [OF GetKeyValueType_steps(1) [OF 2(2)]], unfold prod.case)
    fix t s1 assume a: "GetKeyValueType s = Inr (t, s1)" "ser_wf s1" "ser_buf s1 = ser_buf s"
    have r: "ser_remaining s1 < f" using GetKeyValueType_steps(2) [OF 2(2) a(1)] 2(4) by linarith
    have tup: "steps s1 (bind_res (GetVarUInt s1) (\<lambda>(count, s). bind_res (hv_reserve (unat count)) (\<lambda>_.
       bind_res (get_variants f 0 (unat count) s) tuple_read)))" if t: "t = KVT_Tuple"
    proof (rule tuple_steps [OF a(2)])
      fix c s2 z assume c: "GetVarUInt s1 = Inr (c, s2)" and z: "hv_reserve (unat c) = Inr z"
      have w: "ser_wf s2" "ser_buf s2 = ser_buf s1" "ser_remaining s2 \<le> ser_remaining s1"
        using GetVarUInt_progress(1) [OF a(2)] c by (simp_all add: steps_Inr)
      show "steps s2 (get_variants f 0 (unat c) s2)"
        using 2(1) [OF a(1) refl t c refl z] w a(3) 2(3) r by simp
    qed
    have "steps s1 (bind_res (GetFloatVectorView s1) (\<lambda>(v, s). Inr (V_FloatVector v, s)))"
      by (rule steps_bind [OF GetFloatVectorView_steps [OF a(2)]]) (auto intro: steps_ret)
    with tup GetRawVariant_steps [OF a(2), of t] a(3) 2(3)
    show "steps s1 (if t = KVT_Tuple then
         bind_res (GetVarUInt s1) (\<lambda>(count, s). bind_res (hv_reserve (unat count)) (\<lambda>_.
         bind_res (get_variants f 0 (unat count) s) tuple_read))
       else if t = KVT_FloatVector then bind_res (GetFloatVectorView s1) (\<lambda>(v, s). Inr (V_FloatVector v, s))
       else GetRawVariant t s1)"
      by simp
  qed
next
  case (3 f i s)
  then show ?case by (simp add: steps_ret)
next
  case (4 f i n s)
  show ?case unfolding get_variants.simps
  proof (rule steps_bind [OF 4(1) [OF 4(3-5)]], unfold prod.case)
    fix v s1 assume a: "get_variant f s = Inr (v, s1)" "ser_wf s1" "ser_buf s1 = ser_buf s"
      "ser_remaining s1 \<le> ser_remaining s"
    have "steps s1 (bind_res (get_variants f (i + 1) n s1) (\<lambda>(vs, s). Inr (v # vs, s)))"
      if "guard_res (i < hv_max_size) LogicError = Inr x" for x
    proof (rule steps_bind)
      show "steps s1 (get_variants f (i + 1) n s1)"
        using 4(2) [OF a(1) refl that] a 4(4,5) by simp
    qed (auto intro: steps_ret)
    then show "steps s1 (bind_res (guard_res (i < hv_max_size) LogicError) (\<lambda>_.
        bind_res (get_variants f (i + 1) n s1) (\<lambda>(vs, s). Inr (v # vs, s))))"
      by (intro steps_weaken [OF a(2)]) (auto simp: guard_res_def)
  qed
qed

text \<open>More fuel changes only a result that says the fuel ran out.\<close>

lemma bind_more:
  assumes "m = Inl OutOfFuel \<or> m' = m" "\<And>x. m = Inr x \<Longrightarrow> f x = Inl OutOfFuel \<or> g x = f x"
  shows "bind_res m f = Inl OutOfFuel \<or> bind_res m' g = bind_res m f"
  using assms by (cases m) auto

lemma get_variant_more:
  "f \<le> g \<Longrightarrow> get_variant f s = Inl OutOfFuel \<or> get_variant g s = get_variant f s"
  "f \<le> g \<Longrightarrow> get_variants f i n s = Inl OutOfFuel \<or> get_variants g i n s = get_variants f i n s"
proof (induction f s and f i n s arbitrary: g and g rule: get_variant_get_variants.induct)
  case (2 f s)
  obtain h where g: "g = Suc h" "f \<le> h" using 2(2) by (cases g) auto
  show ?case unfolding g get_variant.simps
  proof (rule bind_more)
    fix x assume x: "GetKeyValueType s = Inr x"
    obtain t s1 where p: "x = (t, s1)" by (cases x)
    have "bind_res (GetVarUInt s1) (\<lambda>(count, s). bind_res (hv_reserve (unat count)) (\<lambda>_.
         bind_res (get_variants f 0 (unat count) s) tuple_read)) = Inl OutOfFuel \<or>
       bind_res (GetVarUInt s1) (\<lambda>(count, s). bind_res (hv_reserve (unat count)) (\<lambda>_.
         bind_res (get_variants h 0 (unat count) s) tuple_read)) =
       bind_res (GetVarUInt s1) (\<lambda>(count, s). bind_res (hv_reserve (unat count)) (\<lambda>_.
         bind_res (get_variants f 0 (unat count) s) tuple_read))" if t: "t = KVT_Tuple"
    proof (rule bind_more)
      fix y assume y: "GetVarUInt s1 = Inr y"
      obtain c s2 where q: "y = (c, s2)" by (cases y)
      have *: "get_variants f 0 (unat c) s2 = Inl OutOfFuel \<or> get_variants h 0 (unat c) s2 = get_variants f 0 (unat c) s2"
        if "hv_reserve (unat c) = Inr z" for z
        by (rule 2(1) [OF x [unfolded p] refl t y [unfolded q] refl that g(2)])
      show "(case y of (count, s) \<Rightarrow> bind_res (hv_reserve (unat count)) (\<lambda>_.
           bind_res (get_variants f 0 (unat count) s) tuple_read)) = Inl OutOfFuel \<or>
         (case y of (count, s) \<Rightarrow> bind_res (hv_reserve (unat count)) (\<lambda>_.
           bind_res (get_variants h 0 (unat count) s) tuple_read)) =
         (case y of (count, s) \<Rightarrow> bind_res (hv_reserve (unat count)) (\<lambda>_.
           bind_res (get_variants f 0 (unat count) s) tuple_read))"
        unfolding q prod.case by (rule bind_more, simp) (rule bind_more, rule *, simp_all)
    qed simp
    then show "(case x of (type, s) \<Rightarrow>
         if type = KVT_Tuple then bind_res (GetVarUInt s) (\<lambda>(count, s). bind_res (hv_reserve (unat count)) (\<lambda>_.
           bind_res (get_variants f 0 (unat count) s) tuple_read))
         else if type = KVT_FloatVector then bind_res (GetFloatVectorView s) (\<lambda>(v, s). Inr (V_FloatVector v, s))
         else GetRawVariant type s) = Inl OutOfFuel \<or>
       (case x of (type, s) \<Rightarrow>
         if type = KVT_Tuple then bind_res (GetVarUInt s) (\<lambda>(count, s). bind_res (hv_reserve (unat count)) (\<lambda>_.
           bind_res (get_variants h 0 (unat count) s) tuple_read))
         else if type = KVT_FloatVector then bind_res (GetFloatVectorView s) (\<lambda>(v, s). Inr (V_FloatVector v, s))
         else GetRawVariant type s) =
       (case x of (type, s) \<Rightarrow>
         if type = KVT_Tuple then bind_res (GetVarUInt s) (\<lambda>(count, s). bind_res (hv_reserve (unat count)) (\<lambda>_.
           bind_res (get_variants f 0 (unat count) s) tuple_read))
         else if type = KVT_FloatVector then bind_res (GetFloatVectorView s) (\<lambda>(v, s). Inr (V_FloatVector v, s))
         else GetRawVariant type s)"
      unfolding p prod.case by simp
  qed simp
next
  case (4 f i n s)
  show ?case unfolding get_variants.simps
  proof (rule bind_more [OF 4(1) [OF 4(3)]])
    fix x assume x: "get_variant f s = Inr x"
    obtain v s1 where p: "x = (v, s1)" by (cases x)
    show "(case x of (v, s) \<Rightarrow> bind_res (guard_res (i < hv_max_size) LogicError) (\<lambda>_.
         bind_res (get_variants f (i + 1) n s) (\<lambda>(vs, s). Inr (v # vs, s)))) = Inl OutOfFuel \<or>
       (case x of (v, s) \<Rightarrow> bind_res (guard_res (i < hv_max_size) LogicError) (\<lambda>_.
         bind_res (get_variants g (i + 1) n s) (\<lambda>(vs, s). Inr (v # vs, s)))) =
       (case x of (v, s) \<Rightarrow> bind_res (guard_res (i < hv_max_size) LogicError) (\<lambda>_.
         bind_res (get_variants f (i + 1) n s) (\<lambda>(vs, s). Inr (v # vs, s))))"
      unfolding p prod.case by (rule bind_more, simp) (rule bind_more, rule 4(2) [OF x [unfolded p] refl _ 4(3)], simp_all)
  qed
qed simp_all

text \<open>Whatever is read, wrapping lengths included, the position stays inside a buffer below 4 GiB.\<close>

definition stays :: "bytes \<Rightarrow> ('a \<times> serializer) res \<Rightarrow> bool" where
  "stays buf r \<longleftrightarrow> (case r of Inl e \<Rightarrow> True | Inr (v, s') \<Rightarrow> ser_wf s' \<and> ser_buf s' = buf)"

lemma stays_simps [simp]:
  "stays buf (Inl e)" "stays buf (Inr (v, s')) \<longleftrightarrow> ser_wf s' \<and> ser_buf s' = buf"
  by (simp_all add: stays_def)

lemma stays_bind:
  assumes "stays buf m" "\<And>v s'. m = Inr (v, s') \<Longrightarrow> ser_wf s' \<Longrightarrow> ser_buf s' = buf \<Longrightarrow> stays buf (f (v, s'))"
  shows "stays buf (bind_res m f)"
  using assms by (cases m) auto

lemma steps_stays: "steps s r \<Longrightarrow> stays (ser_buf s) r"
  by (auto simp: steps_def stays_def split: sum.splits)

lemma get_pvstring_stays:
  assumes "ser_wf s" "length (ser_buf s) < 2 ^ 32"
  shows "stays (ser_buf s) (GetPVString s)"
  unfolding GetPVString_def
proof (rule stays_bind [OF steps_stays [OF GetVarUInt_progress(1) [OF assms(1)]]], unfold prod.case)
  fix l s' assume s': "ser_wf s'" "ser_buf s' = ser_buf s"
  show "stays (ser_buf s) (bind_res (checkbound (ser_pos s') l (ser_len s')) (\<lambda>_.
      Inr (p_string_of_vstr (drop (unat (ser_pos s)) (ser_buf s)), s'\<lparr>ser_pos := ser_pos s' + l\<rparr>)))"
    using s' assms(2) by (auto simp: checkbound_def ser_wf_def not_less)
qed

lemma GetRawVariant_stays:
  assumes "ser_wf s" "length (ser_buf s) < 2 ^ 32"
  shows "stays (ser_buf s) (GetRawVariant t s)"
proof (cases t)
  case KVT_String
  show ?thesis unfolding KVT_String GetRawVariant.simps
    by (rule stays_bind [OF get_pvstring_stays [OF assms]]) simp
next
  case KVT_Uuid
  show ?thesis unfolding KVT_Uuid GetRawVariant.simps
  proof (rule stays_bind [OF steps_stays [OF GetUuid_steps [OF assms(1)]]], unfold prod.case)
    fix u s' assume "ser_wf s'" "ser_buf s' = ser_buf s"
    then show "stays (ser_buf s) (bind_res (variant_of_uuid u) (\<lambda>v. Inr (v, s')))"
      using variant_of_uuid_Inr [of u] by auto
  qed
qed (auto intro!: stays_bind [OF steps_stays] GetVarUInt_progress fixed_steps assms(1) simp: assms(1))

definition reads :: "bytes \<Rightarrow> serializer \<Rightarrow> bool" where
  "reads buf s \<longleftrightarrow> ser_wf s \<and> ser_buf s = buf"

lemma get_variant_stays:
  "reads buf s \<Longrightarrow> length buf < 2 ^ 32 \<Longrightarrow> stays buf (get_variant f s)"
  "reads buf s \<Longrightarrow> length buf < 2 ^ 32 \<Longrightarrow> stays buf (get_variants f i n s)"
proof (induction f s and f i n s rule: get_variant_get_variants.induct)
  case (2 f s)
  then have w: "ser_wf s" "ser_buf s = buf" by (simp_all add: reads_def)
  show ?case unfolding get_variant.simps
  proof (rule stays_bind, unfold prod.case)
    show "stays buf (GetKeyValueType s)" using steps_stays [OF GetKeyValueType_steps(1) [OF w(1)]] w by simp
    fix t s1 assume a: "GetKeyValueType s = Inr (t, s1)" "ser_wf s1" "ser_buf s1 = buf"
    have "stays buf (bind_res (GetVarUInt s1) (\<lambda>(count, s). bind_res (hv_reserve (unat count)) (\<lambda>_.
         bind_res (get_variants f 0 (unat count) s) tuple_read)))" if t: "t = KVT_Tuple"
    proof (rule stays_bind, unfold prod.case)
      show "stays buf (GetVarUInt s1)" using steps_stays [OF GetVarUInt_progress(1) [OF a(2)]] a by simp
      fix c s2 assume c: "GetVarUInt s1 = Inr (c, s2)" "ser_wf s2" "ser_buf s2 = buf"
      show "stays buf (bind_res (hv_reserve (unat c)) (\<lambda>_. bind_res (get_variants f 0 (unat c) s2) tuple_read))"
      proof (cases "hv_reserve (unat c)")
        case (Inr z)
        have "stays buf (get_variants f 0 (unat c) s2)"
          using 2(1) [OF a(1) refl t c(1) refl Inr] c 2(3) by (simp add: reads_def)
        then show ?thesis unfolding Inr bind_res_simps by (rule stays_bind) (simp add: tuple_read_def variant_of_array_def)
      qed simp
    qed
    moreover have "stays buf (bind_res (GetFloatVectorView s1) (\<lambda>(v, s). Inr (V_FloatVector v, s)))"
      using steps_stays [OF GetFloatVectorView_steps [OF a(2)]] a(3) by (intro stays_bind) auto
    moreover have "stays buf (GetRawVariant t s1)" using GetRawVariant_stays [OF a(2)] a(3) 2(3) by simp
    ultimately show "stays buf (if t = KVT_Tuple then
         bind_res (GetVarUInt s1) (\<lambda>(count, s). bind_res (hv_reserve (unat count)) (\<lambda>_.
         bind_res (get_variants f 0 (unat count) s) tuple_read))
       else if t = KVT_FloatVector then bind_res (GetFloatVectorView s1) (\<lambda>(v, s). Inr (V_FloatVector v, s))
       else GetRawVariant t s1)" by simp
  qed
next
  case (4 f i n s)
  show ?case unfolding get_variants.simps
  proof (rule stays_bind [OF 4(1) [OF 4(3,4)]], unfold prod.case)
    fix v s1 assume a: "get_variant f s = Inr (v, s1)" "ser_wf s1" "ser_buf s1 = buf"
    have "stays buf (bind_res (get_variants f (i + 1) n s1) (\<lambda>(vs, s). Inr (v # vs, s)))" if "i < hv_max_size"
      by (rule stays_bind [OF 4(2) [OF a(1) refl]]) (use that a 4(4) in \<open>simp_all add: reads_def\<close>)
    then show "stays buf (bind_res (guard_res (i < hv_max_size) LogicError) (\<lambda>_.
        bind_res (get_variants f (i + 1) n s1) (\<lambda>(vs, s). Inr (v # vs, s))))"
      by (cases "i < hv_max_size") simp_all
  qed
qed (simp_all add: reads_def)

text \<open>If one more unit of fuel changes no result in a buffer, no amount of fuel does.\<close>

lemma get_variants_cong:
  assumes "length buf < 2 ^ 32" "\<And>s. reads buf s \<Longrightarrow> get_variant g s = get_variant f s" "reads buf s"
  shows "get_variants g i n s = get_variants f i n s"
  using assms(3)
proof (induction n arbitrary: i s)
  case (Suc n)
  have "stays buf (get_variant f s)" by (rule get_variant_stays(1) [OF Suc.prems assms(1)])
  then show ?case unfolding get_variants.simps assms(2) [OF Suc.prems]
    using Suc.IH by (cases "get_variant f s") (auto simp: reads_def)
qed simp

lemma get_variant_cong:
  assumes "length buf < 2 ^ 32" "\<And>s. reads buf s \<Longrightarrow> get_variant g s = get_variant f s" "reads buf s"
  shows "get_variant (Suc g) s = get_variant (Suc f) s"
proof -
  have w: "ser_wf s" "ser_buf s = buf" using assms(3) by (simp_all add: reads_def)
  have vs: "get_variants g 0 n s2 = get_variants f 0 n s2" if "reads buf s2" for n s2
    by (rule get_variants_cong [OF assms(1) assms(2) that])
  have "stays buf (GetVarUInt s1)" if "ser_wf s1" "ser_buf s1 = buf" for s1
    using steps_stays [OF GetVarUInt_progress(1) [OF that(1)]] that by simp
  then have tup: "bind_res (GetVarUInt s1) (\<lambda>(count, s). bind_res (hv_reserve (unat count)) (\<lambda>_.
         bind_res (get_variants g 0 (unat count) s) tuple_read)) =
       bind_res (GetVarUInt s1) (\<lambda>(count, s). bind_res (hv_reserve (unat count)) (\<lambda>_.
         bind_res (get_variants f 0 (unat count) s) tuple_read))"
    if "ser_wf s1" "ser_buf s1 = buf" for s1
  proof (cases "GetVarUInt s1")
    case (Inr x)
    obtain c s2 where x: "x = (c, s2)" by (cases x)
    have "reads buf s2" using \<open>\<And>s1. ser_wf s1 \<Longrightarrow> ser_buf s1 = buf \<Longrightarrow> stays buf (GetVarUInt s1)\<close> [OF that] Inr x
      by (simp add: reads_def)
    then show ?thesis by (simp add: Inr x vs)
  qed simp
  have "stays buf (GetKeyValueType s)" using steps_stays [OF GetKeyValueType_steps(1) [OF w(1)]] w by simp
  then show ?thesis unfolding get_variant.simps
    using tup by (cases "GetKeyValueType s") (auto simp: stays_def)
qed

lemma get_variant_stable:
  assumes "length buf < 2 ^ 32" "\<And>s. reads buf s \<Longrightarrow> get_variant (Suc f) s = get_variant f s" "f \<le> g" "reads buf s"
  shows "get_variant g s = get_variant f s"
proof -
  have "\<forall>s. reads buf s \<longrightarrow> get_variant (f + k) s = get_variant f s" for k
  proof (induction k)
    case (Suc k)
    show ?case
    proof (intro allI impI)
      fix s assume "reads buf s"
      then have "get_variant (Suc (f + k)) s = get_variant (Suc f) s"
        using Suc by (intro get_variant_cong [OF assms(1)]) auto
      then show "get_variant (f + Suc k) s = get_variant f s" using assms(2) [OF \<open>reads buf s\<close>] by simp
    qed
  qed simp
  then have "get_variant (f + (g - f)) s = get_variant f s" using assms(4) by blast
  then show ?thesis using assms(3) by simp
qed

text \<open>
  The positions at which a depth of \<open>f\<close> is not enough become fewer with each unit of fuel until they stay the
  same, so one unit for each position and one more decide.
\<close>

definition stuck :: "bytes \<Rightarrow> nat \<Rightarrow> serializer set" where
  "stuck buf f = {s. reads buf s \<and> get_variant f s = Inl OutOfFuel}"

lemma reads_finite:
  "finite {s. reads buf s}" "card {s. reads buf s} \<le> length buf + 1"
proof -
  let ?S = "\<lambda>p. \<lparr>ser_buf = buf, ser_len = word_of_nat (length buf), ser_pos = word_of_nat p\<rparr> :: serializer"
  have sub: "{s. reads buf s} \<subseteq> ?S ` {..length buf}"
  proof
    fix s :: serializer assume "s \<in> {s. reads buf s}"
    then have s: "ser_wf s" "ser_buf s = buf" by (simp_all add: reads_def)
    then have "s = ?S (unat (ser_pos s))" by (cases s) (simp add: ser_wf_def)
    moreover have "unat (ser_pos s) \<le> length buf" using s by (auto simp: ser_wf_def word_le_nat_alt unat_small)
    ultimately show "s \<in> ?S ` {..length buf}" by blast
  qed
  then show "finite {s. reads buf s}" by (rule finite_subset) simp
  have "card {s. reads buf s} \<le> card (?S ` {..length buf})" by (rule card_mono [OF _ sub]) simp
  also have "\<dots> \<le> card {..length buf}" by (rule card_image_le) simp
  finally show "card {s. reads buf s} \<le> length buf + 1" by simp
qed

lemma stuck_step: "stuck buf (Suc f) \<subseteq> stuck buf f"
proof
  fix s assume s: "s \<in> stuck buf (Suc f)"
  have "get_variant f s = Inl OutOfFuel \<or> get_variant (Suc f) s = get_variant f s" by (rule get_variant_more(1)) simp
  then show "s \<in> stuck buf f" using s by (auto simp: stuck_def simp del: get_variant.simps)
qed

lemma stuck_settles: "\<exists>f \<le> length buf + 1. stuck buf (Suc f) = stuck buf f"
proof (rule ccontr)
  assume no: "\<not> ?thesis"
  have "card (stuck buf k) + k \<le> length buf + 1" if "k \<le> length buf + 2" for k
    using that
  proof (induction k)
    case 0
    have "card (stuck buf 0) \<le> card {s. reads buf s}"
      by (rule card_mono [OF reads_finite(1)]) (auto simp: stuck_def)
    then show ?case using reads_finite(2) [of buf] by simp
  next
    case (Suc k)
    have "stuck buf (Suc k) \<subset> stuck buf k" using no stuck_step [of buf k] Suc.prems by auto
    moreover have "finite (stuck buf k)" by (rule finite_subset [OF _ reads_finite(1) [of buf]]) (auto simp: stuck_def)
    ultimately have "card (stuck buf (Suc k)) < card (stuck buf k)" by (intro psubset_card_mono)
    then show ?case using Suc by simp
  qed
  from this [of "length buf + 2"] show False by simp
qed

lemma get_variant_decided:
  assumes "reads buf s" "length buf < 2 ^ 32" "length buf + 1 \<le> f" "length buf + 1 \<le> g"
  shows "get_variant g s = get_variant f s"
proof -
  obtain k where k: "k \<le> length buf + 1" "stuck buf (Suc k) = stuck buf k" using stuck_settles by blast
  have "get_variant (Suc k) s = get_variant k s" if "reads buf s" for s
  proof -
    have "get_variant k s = Inl OutOfFuel \<or> get_variant (Suc k) s = get_variant k s" by (rule get_variant_more(1)) simp
    moreover have "s \<in> stuck buf (Suc k) \<longleftrightarrow> s \<in> stuck buf k" unfolding k(2) ..
    ultimately show ?thesis using that by (auto simp: stuck_def simp del: get_variant.simps)
  qed
  then have "get_variant h s = get_variant k s" if "k \<le> h" for h
    by (rule get_variant_stable [OF assms(2) _ that assms(1)])
  from this [of f] this [of g] show ?thesis using k(1) assms(3,4) by simp
qed

text \<open>
  C24. Reading a variant from any buffer below 4 GiB, however deeply the input nests tuples and whatever counts
  it declares. The model's fuel decides: a depth of \<open>length (ser_buf s) + 2\<close> gives what every greater depth
  gives, so a result that says the fuel ran out means that the code recurses without end. In a buffer from
  which no number of \<open>2 ^ 63\<close> or more can be read, that is never the result, and a successful read leaves
  the reader inside the buffer and does not go back.
\<close>

theorem variant_read_total:
  assumes "ser_wf s" "length (ser_buf s) < 2 ^ 32" "length (ser_buf s) + 2 \<le> f"
  shows "get_variant f s = GetVariant s \<and>
    (no_wrap (ser_buf s) \<longrightarrow> GetVariant s \<noteq> Inl OutOfFuel \<and>
      (case GetVariant s of Inl e \<Rightarrow> True
       | Inr (v, s') \<Rightarrow> ser_wf s' \<and> ser_buf s' = ser_buf s \<and> ser_remaining s' \<le> ser_remaining s))"
proof -
  have "get_variant f s = GetVariant s"
    unfolding GetVariant_def using assms by (intro get_variant_decided [OF _ assms(2)]) (simp_all add: reads_def)
  moreover have "steps s (GetVariant s)" if "no_wrap (ser_buf s)"
    unfolding GetVariant_def
    by (rule get_variant_steps(1) [OF assms(1) that])
      (use assms(1) in \<open>simp add: ser_remaining_def ser_wf_def unat_small\<close>)
  ultimately show ?thesis by (auto simp: steps_def split: sum.splits)
qed

theorem variant_read_total_witness:
  "get_variant 7 (mk_Serializer [11, 2, 4, 8, 14]) = GetVariant (mk_Serializer [11, 2, 4, 8, 14]) \<and>
   GetVariant (mk_Serializer [11, 2, 4, 8, 14]) \<noteq> Inl OutOfFuel"
proof -
  let ?s = "mk_Serializer [11, 2, 4, 8, 14]"
  have "ser_wf ?s" "length (ser_buf ?s) < 2 ^ 32" "length (ser_buf ?s) + 2 \<le> 7"
    by (simp_all add: mk_Serializer_def ser_wf_def)
  moreover have "no_wrap (ser_buf ?s)"
    by (simp add: no_wrap_def mk_Serializer_def GetVarUInt_def get_varint_bytes_def ser_scan_def
        scan_varint_def scan_loop.simps checkbound_def parse_uint64_def parse_uint32_def upt_rec)
  ultimately show ?thesis using variant_read_total [of ?s 7] by simp
qed

text \<open>
  With a wrapping length the recursion need not end: the second element of this tuple of two starts where
  the wrapping length of the first one leads, at the tuple itself.
\<close>

definition endless_tuple :: bytes where
  "endless_tuple = [11, 2, 2, 0xF3, 0xFF, 0xFF, 0xFF, 0xFF, 0xFF, 0xFF, 0xFF, 0xFF, 0x01]"

lemma small_varint:
  assumes "n = 2 \<or> n = 11" "fits (length pre) (length (n # rest))"
  shows "GetVarUInt (ser_at pre (n # rest)) = Inr (ucast n, ser_at (pre @ [n]) rest)"
proof -
  have "scan_varint (length (n # rest)) (n # rest) = 1" using assms(1) by (auto simp: scan_varint_def scan_loop.simps)
  moreover have "parse_uint64 1 (n # rest) = ucast n" using assms(1) by (auto simp: parse_uint64_def parse_uint32_def)
  ultimately show ?thesis by (simp add: GetVarUInt_at [OF assms(2)])
qed

theorem variant_read_endless: "get_variant f (mk_Serializer endless_tuple) = Inl OutOfFuel"
proof (induction f rule: less_induct)
  case (less f)
  let ?v = "[0xF3, 0xFF, 0xFF, 0xFF, 0xFF, 0xFF, 0xFF, 0xFF, 0xFF, 0x01] :: bytes"
  have s: "mk_Serializer endless_tuple = ser_at [] (11 # 2 # 2 # ?v)"
    by (simp add: mk_Serializer_def ser_at_def endless_tuple_def)
  have n: "FromNumber 11 = Inr KVT_Tuple" "FromNumber 2 = Inr KVT_String" by (simp_all add: FromNumber_Inr)
  have scan: "scan_varint (length ?v) ?v = length ?v" by (simp add: scan_varint_def scan_loop.simps)
  have v: "parse_uint64 (length ?v) ?v = 0xFFFFFFFFFFFFFFF3"
    using parse_uint64_unleb [of "length ?v" ?v] by simp
  have str: "GetPVString (ser_at [11, 2, 2] ?v) = Inr (p_string_of_vstr ?v, mk_Serializer endless_tuple)"
    using GetVarUInt_at [of "[11, 2, 2]" ?v] scan v
    by (simp add: GetPVString_def Let_def checkbound_def) (simp add: ser_at_def s)
  show ?case
  proof (cases f)
    case (Suc g)
    have two: "get_variants g 0 2 (ser_at [11, 2] (2 # ?v)) = Inl OutOfFuel"
    proof (cases g)
      case (Suc h)
      have "get_variant g (ser_at [11, 2] (2 # ?v)) = Inr (variant_of_p_string (p_string_of_vstr ?v), mk_Serializer endless_tuple)"
        by (simp add: Suc GetKeyValueType_def small_varint n str)
      moreover have "get_variant g (mk_Serializer endless_tuple) = Inl OutOfFuel" by (rule less) (simp add: \<open>f = Suc g\<close>)
      moreover have "0 < hv_max_size" "1 < hv_max_size" by (simp_all add: hv_max_size_def)
      ultimately show ?thesis by (simp add: numeral_2_eq_2)
    qed (simp add: numeral_2_eq_2)
    show ?thesis
      unfolding s Suc get_variant.simps
      by (simp add: GetKeyValueType_def small_varint n hv_reserve_def hv_max_size_def two)
  qed simp
qed

text \<open>
  The bound check adds in 64 bits: a string length close to \<open>2 ^ 64\<close> passes it. Skipping such a string
  moves the position back to the start of its header; reading it as a view leaves the buffer.
\<close>

lemma checkbound_wraps:
  defines "b \<equiv> [0xF6, 0xFF, 0xFF, 0xFF, 0xFF, 0xFF, 0xFF, 0xFF, 0xFF, 0x01]"
  shows "SkipRawVariant KVT_String (mk_Serializer b) = Inr (mk_Serializer b)"
    "GetVString (mk_Serializer b) = Inl UB"
proof -
  have l: "length b = 10" by (simp add: b_def)
  have scan: "scan_varint 10 b = 10"
    by (simp add: scan_varint_def b_def scan_loop.simps)
  have v: "parse_uint64 10 b = 0xFFFFFFFFFFFFFFF6"
    using parse_uint64_unleb [of 10 b] l by (simp add: b_def)
  have s: "mk_Serializer b = ser_at [] b" by (simp add: mk_Serializer_def ser_at_def)
  have g: "GetVarUInt (ser_at [] b) = Inr (0xFFFFFFFFFFFFFFF6, ser_at b [])"
    using GetVarUInt_at [of "[]" b] l scan v by simp
  show "SkipRawVariant KVT_String (mk_Serializer b) = Inr (mk_Serializer b)"
    unfolding s GetRawVariant.simps SkipRawVariant.simps SkipPVString_def g
    by (simp add: checkbound_def l ser_at_def)
  show "GetVString (mk_Serializer b) = Inl UB"
    unfolding s by (simp add: GetVString_def g checkbound_def l ser_view_def)
qed

end
