(* ===== verification/WrSerial.thy ===== *)
theory WrSerial
  imports Serial
begin

unbundle bit_operations_syntax

section \<open>Writing the binary wire format\<close>

text \<open>
  \<open>tools/serilize/wrserializer.h\<close> and \<open>.cc\<close>: a \<open>WrSerializer\<close> appends to a buffer that starts inside
  the object (256 bytes) or outside it, and moves to the heap when it grows. The model keeps the whole
  buffer, its length being the capacity; a copy past the capacity is \<open>UB\<close>. Sizes are \<open>nat\<close>; the one
  place where \<open>size_t\<close> arithmetic can wrap, the growth policy, has the wrap-around written out.
\<close>

subsection \<open>The buffer and its growth\<close>

datatype buf_kind = InBuf | ExternalBuf | HeapBuf

record wr_serializer =
  wr_buf :: bytes
  wr_len :: nat
  wr_cap :: nat
  wr_kind :: buf_kind
  wr_inBuf :: bytes
  wr_maxCap :: nat

definition wr_kMaxCapacity :: nat where "wr_kMaxCapacity = 2 ^ 63 - 1"

definition mk_GrowthPolicy :: "nat \<Rightarrow> nat" where
  "mk_GrowthPolicy maxCap = (if maxCap > 0 \<and> maxCap < wr_kMaxCapacity then maxCap else wr_kMaxCapacity)"

definition GetNewCapacity :: "nat \<Rightarrow> nat \<Rightarrow> nat \<Rightarrow> nat res" where
  "GetNewCapacity maxCap curCap requestedSize =
     (let newCap = (curCap * 2 + requestedSize) mod 2 ^ 64;
          newCapAligned = newCap - newCap mod 4096;
          result = (if newCap = newCapAligned then newCap else (newCapAligned + 4096) mod 2 ^ 64)
      in if result \<le> maxCap then Inr result
         else if requestedSize > maxCap then Inl (Err ErrLogic)
         else Inr maxCap)"

text \<open>The three constructors; \<open>inBuf\<close> is the uninitialised array of the object.\<close>

definition mk_WrSerializer :: "bytes \<Rightarrow> nat \<Rightarrow> wr_serializer" where
  "mk_WrSerializer inBuf policy =
     \<lparr>wr_buf = inBuf, wr_len = 0, wr_cap = 256, wr_kind = InBuf, wr_inBuf = inBuf, wr_maxCap = policy\<rparr>"

definition mk_WrSerializer_ext :: "bytes \<Rightarrow> bytes \<Rightarrow> nat \<Rightarrow> wr_serializer" where
  "mk_WrSerializer_ext inBuf buf policy =
     \<lparr>wr_buf = buf, wr_len = 0, wr_cap = length buf, wr_kind = ExternalBuf, wr_inBuf = inBuf,
      wr_maxCap = policy\<rparr>"

definition mk_WrSerializer_chunk :: "bytes \<Rightarrow> (bytes \<times> nat) option \<Rightarrow> nat \<Rightarrow> wr_serializer" where
  "mk_WrSerializer_chunk inBuf ch policy =
     (case ch of
        None \<Rightarrow> mk_WrSerializer inBuf policy
      | Some (data, len) \<Rightarrow>
          \<lparr>wr_buf = data, wr_len = len, wr_cap = length data, wr_kind = HeapBuf, wr_inBuf = inBuf,
           wr_maxCap = policy\<rparr>)"

definition HasAllocatedBuffer :: "wr_serializer \<Rightarrow> bool" where
  "HasAllocatedBuffer w \<longleftrightarrow> wr_kind w = HeapBuf"

definition HasHeap :: "wr_serializer \<Rightarrow> bool" where
  "HasHeap w \<longleftrightarrow> wr_kind w \<noteq> InBuf \<and> wr_cap w \<noteq> 0"

text \<open>Moving: the new object (over its own array \<open>inBuf\<close>) and what is left of the old one.\<close>

definition wr_move :: "bytes \<Rightarrow> wr_serializer \<Rightarrow> wr_serializer \<times> wr_serializer" where
  "wr_move inBuf other =
     (let new =
        (if wr_kind other = InBuf
         then other\<lparr>wr_buf := take (wr_len other) (wr_buf other) @ drop (wr_len other) inBuf, wr_inBuf := inBuf\<rparr>
         else other\<lparr>wr_inBuf := inBuf\<rparr>);
        old = other\<lparr>wr_buf := (if wr_kind other = InBuf then wr_buf other else wr_inBuf other),
                    wr_kind := InBuf, wr_len := 0, wr_cap := 0\<rparr>
      in (new, old))"

definition Reserve :: "wr_serializer \<Rightarrow> nat \<Rightarrow> wr_serializer" where
  "Reserve w cap =
     (if cap > wr_cap w
      then w\<lparr>wr_buf := resize cap 0 (take (wr_len w) (wr_buf w)),
             wr_inBuf := (if wr_kind w = InBuf then wr_buf w else wr_inBuf w),
             wr_kind := HeapBuf, wr_cap := cap\<rparr>
      else w)"

definition grow :: "wr_serializer \<Rightarrow> nat \<Rightarrow> wr_serializer res" where
  "grow w sz =
     (if wr_len w + sz > wr_cap w
      then bind_res (GetNewCapacity (wr_maxCap w) (wr_cap w) (wr_len w + sz)) (\<lambda>c. Inr (Reserve w c))
      else Inr w)"

text \<open>Copying \<open>bs\<close> to \<open>buf_ + pos\<close>, then the same at \<open>len_\<close> with \<open>len_\<close> advanced.\<close>

definition wr_copy :: "wr_serializer \<Rightarrow> nat \<Rightarrow> bytes \<Rightarrow> wr_serializer res" where
  "wr_copy w pos bs =
     (if pos + length bs \<le> wr_cap w
      then Inr (w\<lparr>wr_buf := take pos (wr_buf w) @ bs @ drop (pos + length bs) (wr_buf w)\<rparr>)
      else Inl UB)"

definition wr_append :: "wr_serializer \<Rightarrow> bytes \<Rightarrow> wr_serializer res" where
  "wr_append w bs =
     bind_res (wr_copy w (wr_len w) bs) (\<lambda>w. Inr (w\<lparr>wr_len := wr_len w + length bs\<rparr>))"

definition grow_append :: "wr_serializer \<Rightarrow> nat \<Rightarrow> bytes \<Rightarrow> wr_serializer res" where
  "grow_append w sz bs = bind_res (grow w sz) (\<lambda>w. wr_append w bs)"

definition wr_Slice :: "wr_serializer \<Rightarrow> bytes" where
  "wr_Slice w = take (wr_len w) (wr_buf w)"

definition wr_Reset :: "wr_serializer \<Rightarrow> nat \<Rightarrow> wr_serializer" where
  "wr_Reset w len = w\<lparr>wr_len := len\<rparr>"

text \<open>Detaching leaves an empty serializer over the array inside the object.\<close>

definition wr_detached :: "wr_serializer \<Rightarrow> wr_serializer" where
  "wr_detached w =
     w\<lparr>wr_buf := (if wr_kind w = InBuf then wr_buf w else wr_inBuf w), wr_cap := 256, wr_len := 0,
       wr_kind := InBuf\<rparr>"

definition DetachBuf :: "wr_serializer \<Rightarrow> nat \<Rightarrow> bytes \<times> wr_serializer" where
  "DetachBuf w minCap =
     (if \<not> HasAllocatedBuffer w then (resize (max (wr_len w) minCap) 0 (wr_Slice w), wr_detached w)
      else (wr_buf w, wr_detached w))"

definition DetachChunk :: "wr_serializer \<Rightarrow> bytes \<times> wr_serializer" where
  "DetachChunk w = (wr_Slice w, wr_detached w)"

subsection \<open>Writing values\<close>

fun le_bytes :: "nat \<Rightarrow> nat \<Rightarrow> bytes" where
  "le_bytes 0 v = []"
| "le_bytes (Suc n) v = word_of_nat (v mod 256) # le_bytes n (v div 256)"

definition PutUInt8 :: "wr_serializer \<Rightarrow> u8 \<Rightarrow> wr_serializer res" where
  "PutUInt8 w v = grow_append w 1 [v]"
definition PutUInt32 :: "wr_serializer \<Rightarrow> u32 \<Rightarrow> wr_serializer res" where
  "PutUInt32 w v = grow_append w 4 (le_bytes 4 (unat v))"
definition PutUInt64 :: "wr_serializer \<Rightarrow> u64 \<Rightarrow> wr_serializer res" where
  "PutUInt64 w v = grow_append w 8 (le_bytes 8 (unat v))"
definition PutDouble :: "wr_serializer \<Rightarrow> u64 \<Rightarrow> wr_serializer res" where
  "PutDouble w v = grow_append w 8 (le_bytes 8 (unat v))"
definition PutFloat :: "wr_serializer \<Rightarrow> u32 \<Rightarrow> wr_serializer res" where
  "PutFloat w v = grow_append w 4 (le_bytes 4 (unat v))"
definition PutRank :: "wr_serializer \<Rightarrow> u32 \<Rightarrow> wr_serializer res" where
  "PutRank w v = PutFloat w v"

text \<open>The overloads of \<open>PutVarint\<close> and \<open>PutVarUint\<close>: 64-bit, at most 32-bit, and enums.\<close>

definition PutVarint64 :: "wr_serializer \<Rightarrow> 64 word \<Rightarrow> wr_serializer res" where
  "PutVarint64 w v = grow_append w 10 (sint64_pack v)"
definition PutVarUint64 :: "wr_serializer \<Rightarrow> u64 \<Rightarrow> wr_serializer res" where
  "PutVarUint64 w v = grow_append w 10 (uint64_pack v)"
definition PutVarint32 :: "wr_serializer \<Rightarrow> 32 word \<Rightarrow> wr_serializer res" where
  "PutVarint32 w v = grow_append w 10 (sint32_pack v)"
definition PutVarUint32 :: "wr_serializer \<Rightarrow> u32 \<Rightarrow> wr_serializer res" where
  "PutVarUint32 w v = grow_append w 10 (uint32_pack v)"
definition PutVarUint_enum :: "wr_serializer \<Rightarrow> int \<Rightarrow> wr_serializer res" where
  "PutVarUint_enum w v = (if 0 \<le> v \<and> v < 128 then grow_append w 1 [word_of_int v] else Inl Abort)"

definition PutBool :: "wr_serializer \<Rightarrow> bool \<Rightarrow> wr_serializer res" where
  "PutBool w v = grow_append w 1 (boolean_pack v)"
definition PutVString :: "wr_serializer \<Rightarrow> bytes \<Rightarrow> wr_serializer res" where
  "PutVString w str = grow_append w (length str + 10) (string_pack (Some str))"
definition PutSlice :: "wr_serializer \<Rightarrow> bytes \<Rightarrow> wr_serializer res" where
  "PutSlice w sl =
     bind_res (PutUInt32 w (word_of_nat (length sl))) (\<lambda>w. grow_append w (length sl) sl)"
definition wr_Write :: "wr_serializer \<Rightarrow> bytes \<Rightarrow> wr_serializer res" where
  "wr_Write w sl = (if sl = [] then Inr w else grow_append w (length sl) sl)"
definition wr_put_char :: "wr_serializer \<Rightarrow> u8 \<Rightarrow> wr_serializer res" where
  "wr_put_char w c = grow_append w 1 [c]"
definition wr_put_bool :: "wr_serializer \<Rightarrow> bool \<Rightarrow> wr_serializer res" where
  "wr_put_bool w v = wr_Write w (if v then [0x74, 0x72, 0x75, 0x65] else [0x66, 0x61, 0x6c, 0x73, 0x65])"
definition wr_Fill :: "wr_serializer \<Rightarrow> u8 \<Rightarrow> nat \<Rightarrow> wr_serializer res" where
  "wr_Fill w c count = grow_append w count (replicate count c)"

definition PutUuid :: "wr_serializer \<Rightarrow> uuid \<Rightarrow> wr_serializer res" where
  "PutUuid w u = bind_res (PutUInt64 w (uuid0 u)) (\<lambda>w. PutUInt64 w (uuid1 u))"
definition PutStrUuid :: "wr_serializer \<Rightarrow> uuid \<Rightarrow> wr_serializer res" where
  "PutStrUuid w u =
     bind_res (grow w (kStrFormLen + 10)) (\<lambda>w.
     bind_res (wr_append w (uint32_pack (word_of_nat kStrFormLen))) (\<lambda>w.
     bind_res (uuid_PutToStr u (drop (wr_len w) (wr_buf w))) (\<lambda>s. wr_append w (take kStrFormLen s))))"
text \<open>\<open>operator<<(Uuid)\<close> and \<open>PrintJsonUuid\<close> differ in the quote character.\<close>

definition wr_put_quoted_uuid :: "u8 \<Rightarrow> wr_serializer \<Rightarrow> uuid \<Rightarrow> wr_serializer res" where
  "wr_put_quoted_uuid q w u =
     bind_res (grow w (kStrFormLen + 2)) (\<lambda>w.
     bind_res (wr_append w [q]) (\<lambda>w.
     bind_res (uuid_PutToStr u (drop (wr_len w) (wr_buf w))) (\<lambda>s.
     bind_res (wr_append w (take kStrFormLen s)) (\<lambda>w. wr_append w [q]))))"
definition wr_put_uuid :: "wr_serializer \<Rightarrow> uuid \<Rightarrow> wr_serializer res" where
  "wr_put_uuid = wr_put_quoted_uuid 0x27"
definition PrintJsonUuid :: "wr_serializer \<Rightarrow> uuid \<Rightarrow> wr_serializer res" where
  "PrintJsonUuid = wr_put_quoted_uuid 0x22"

definition PutCTag :: "wr_serializer \<Rightarrow> ctag \<Rightarrow> wr_serializer res" where
  "PutCTag w tag = PutVarUint32 w (ctag_asNumber tag)"
definition PutCArrayTag :: "wr_serializer \<Rightarrow> carraytag \<Rightarrow> wr_serializer res" where
  "PutCArrayTag w tag = PutUInt32 w (carraytag_asNumber tag)"

text \<open>\<open>PutCTag(fieldType, tagName, indexNumber)\<close>.\<close>

definition PutCTag_field :: "wr_serializer \<Rightarrow> key_value_type \<Rightarrow> u16 \<Rightarrow> int \<Rightarrow> wr_serializer res" where
  "PutCTag_field w fieldType tagName indexNumber =
     (let put = (\<lambda>g. bind_res (mk_ctag (tag_number g) tagName indexNumber) (PutCTag w)) in
      case fieldType of
        KVT_Int \<Rightarrow> put TAG_VARINT
      | KVT_Int64 \<Rightarrow> put TAG_VARINT
      | KVT_Double \<Rightarrow> bind_res (ToTagType fieldType) put
      | KVT_Float \<Rightarrow> bind_res (ToTagType fieldType) put
      | KVT_String \<Rightarrow> bind_res (ToTagType fieldType) put
      | KVT_Bool \<Rightarrow> bind_res (ToTagType fieldType) put
      | KVT_Null \<Rightarrow> bind_res (ToTagType fieldType) put
      | KVT_Uuid \<Rightarrow> bind_res (ToTagType fieldType) put
      | KVT_Undefined \<Rightarrow> Inl Abort
      | KVT_Tuple \<Rightarrow> Inl Abort
      | KVT_Composite \<Rightarrow> Inl Abort
      | KVT_FloatVector \<Rightarrow> Inl Abort)"

definition PutFloatVectorView :: "wr_serializer \<Rightarrow> float_vector_view \<Rightarrow> wr_serializer res" where
  "PutFloatVectorView w v =
     bind_res (PutVarUint64 w (push_bit 1 (ucast (fv_dim v)) OR (if fv_IsStripped v then 1 else 0))) (\<lambda>w.
     case fv_data v of
       None \<Rightarrow> Inr w
     | Some data \<Rightarrow>
         let memSize = 4 * unat (fv_dim v) in
         bind_res (grow w memSize) (\<lambda>w. wr_append w (take memSize data)))"

definition PutKeyValueType :: "wr_serializer \<Rightarrow> key_value_type \<Rightarrow> wr_serializer res" where
  "PutKeyValueType w t = PutVarUint32 w (word_of_int (ToNumber t))"

fun PutVariant :: "wr_serializer \<Rightarrow> variant \<Rightarrow> wr_serializer res"
  and PutVariants :: "wr_serializer \<Rightarrow> variant list \<Rightarrow> wr_serializer res" where
  "PutVariant w kv =
     bind_res (PutKeyValueType w (variant_Type kv)) (\<lambda>w.
     case kv of
       V_Tuple vs \<Rightarrow> bind_res (PutVarUint64 w (word_of_nat (length vs))) (\<lambda>w. PutVariants w vs)
     | V_Bool b \<Rightarrow> PutBool w b
     | V_Int64 i \<Rightarrow> PutVarint64 w i
     | V_Int i \<Rightarrow> PutVarint32 w i
     | V_Double d \<Rightarrow> PutDouble w d
     | V_Float f \<Rightarrow> PutFloat w f
     | V_String s \<Rightarrow> PutVString w s
     | V_WildString \<Rightarrow> Inl UB
     | V_Null \<Rightarrow> Inr w
     | V_Uuid u \<Rightarrow> PutUuid w u
     | V_FloatVector v \<Rightarrow> PutFloatVectorView w v
     | V_Composite \<Rightarrow> Inl Abort
     | V_Undefined \<Rightarrow> Inl Abort)"
| "PutVariants w [] = Inr w"
| "PutVariants w (v # vs) = bind_res (PutVariant w v) (\<lambda>w. PutVariants w vs)"

subsection \<open>Slices and strings written in place\<close>

text \<open>\<open>StartSlice\<close> reserves a 32-bit length; the destructor of \<open>SliceHelper\<close> fills it in.\<close>

definition StartSlice :: "wr_serializer \<Rightarrow> (nat \<times> wr_serializer) res" where
  "StartSlice w = (let savePos = wr_len w in bind_res (PutUInt32 w 0) (\<lambda>w. Inr (savePos, w)))"

definition SliceHelper_end :: "nat \<Rightarrow> wr_serializer \<Rightarrow> wr_serializer res" where
  "SliceHelper_end pos w =
     (let sliceSize = word_of_int (int (wr_len w) - int pos - 4) :: u32
      in wr_copy w pos (le_bytes 4 (unat sliceSize)))"

definition uint32ByteSize :: "u32 \<Rightarrow> nat" where
  "uint32ByteSize value =
     (if value \<ge> 0x80 then
        let value = drop_bit 7 value in
        if value \<ge> 0x80 then
          let value = drop_bit 7 value in
          if value \<ge> 0x80 then
            let value = drop_bit 7 value in
            if value \<ge> 0x80 then 5 else 4
          else 3
        else 2
      else 1)"

text \<open>\<open>StartVString\<close> only remembers the position; \<open>End\<close> moves the data to make room for the length.\<close>

definition StartVString :: "wr_serializer \<Rightarrow> nat" where
  "StartVString w = wr_len w"

definition VStringHelper_End :: "nat \<Rightarrow> wr_serializer \<Rightarrow> wr_serializer res" where
  "VStringHelper_End pos w =
     (let size = word_of_int (int (wr_len w) - int pos) :: 32 word in
      if sint size < 0 then Inl (Err ErrParseBin)
      else if sint size = 0 then
        bind_res (grow w 1) (\<lambda>w.
        bind_res (wr_copy w pos (uint32_pack 0)) (\<lambda>w. Inr (w\<lparr>wr_len := wr_len w + 1\<rparr>)))
      else
        let bytesToGrow = uint32ByteSize size in
        bind_res (grow w bytesToGrow) (\<lambda>w.
        let w = w\<lparr>wr_len := wr_len w + bytesToGrow\<rparr> in
        bind_res (wr_copy w (pos + bytesToGrow) (take (nat (sint size)) (drop pos (wr_buf w)))) (\<lambda>w.
        wr_copy w pos (uint32_pack size))))"

subsection \<open>Growth\<close>

definition wr_wf :: "wr_serializer \<Rightarrow> bool" where
  "wr_wf w \<longleftrightarrow> wr_len w \<le> wr_cap w \<and> wr_cap w \<le> length (wr_buf w) \<and> wr_cap w \<le> 2 ^ 62"

definition appends :: "wr_serializer \<Rightarrow> bytes \<Rightarrow> wr_serializer \<Rightarrow> bool" where
  "appends w bs w' \<longleftrightarrow> wr_wf w' \<and> wr_Slice w' = wr_Slice w @ bs \<and> wr_maxCap w' = wr_maxCap w"

lemma GetNewCapacity_cases:
  assumes "cap < req" "req \<le> 2 ^ 60"
  shows "if req \<le> maxCap then \<exists>c. GetNewCapacity maxCap cap req = Inr c \<and> req \<le> c \<and> c \<le> 2 ^ 62
    else GetNewCapacity maxCap cap req = Inl (Err ErrLogic)"
proof -
  define n where "n = cap * 2 + req"
  define r where "r = (if n = n - n mod 4096 then n else n - n mod 4096 + 4096)"
  have n: "n mod 2 ^ 64 = n" "n \<le> 3 * 2 ^ 60" "req \<le> n" using assms by (simp_all add: n_def)
  have "n mod 4096 < 4096" by simp
  then have r: "n \<le> r" "r \<le> n + 4096" unfolding r_def by auto
  moreover have "(n - n mod 4096 + 4096) mod 2 ^ 64 = n - n mod 4096 + 4096"
  proof (rule mod_less)
    show "n - n mod 4096 + 4096 < 2 ^ 64" using n(2) by simp
  qed
  ultimately have "GetNewCapacity maxCap cap req =
     (if r \<le> maxCap then Inr r else if req > maxCap then Inl (Err ErrLogic) else Inr maxCap)"
    unfolding GetNewCapacity_def Let_def n_def [symmetric] n(1) r_def by simp
  then show ?thesis using n r by auto
qed

lemma wr_Slice_length: "wr_wf w \<Longrightarrow> length (wr_Slice w) = wr_len w"
  by (simp add: wr_Slice_def wr_wf_def)

lemma Reserve_wf:
  assumes "wr_wf w" "wr_cap w \<le> c" "c \<le> 2 ^ 62"
  shows "wr_wf (Reserve w c)" "wr_Slice (Reserve w c) = wr_Slice w" "wr_len (Reserve w c) = wr_len w"
    "wr_maxCap (Reserve w c) = wr_maxCap w" "wr_cap (Reserve w c) = c"
  using assms by (auto simp: Reserve_def wr_wf_def wr_Slice_def resize_def)

lemma grow_cases:
  assumes "wr_wf w" "wr_len w + sz \<le> 2 ^ 60"
  shows "if wr_len w + sz \<le> wr_cap w \<or> wr_len w + sz \<le> wr_maxCap w
    then \<exists>w'. grow w sz = Inr w' \<and> wr_wf w' \<and> wr_Slice w' = wr_Slice w \<and> wr_len w' = wr_len w \<and>
      wr_maxCap w' = wr_maxCap w \<and> wr_len w + sz \<le> wr_cap w'
    else grow w sz = Inl (Err ErrLogic)"
proof (cases "wr_len w + sz \<le> wr_cap w")
  case True
  with assms show ?thesis by (simp add: grow_def)
next
  case False
  then have "wr_cap w < wr_len w + sz" by simp
  note c = GetNewCapacity_cases [OF this assms(2), of "wr_maxCap w"]
  show ?thesis
  proof (cases "wr_len w + sz \<le> wr_maxCap w")
    case True
    with c obtain c where c: "GetNewCapacity (wr_maxCap w) (wr_cap w) (wr_len w + sz) = Inr c"
      "wr_len w + sz \<le> c" "c \<le> 2 ^ 62" by auto
    have "wr_cap w \<le> c" using c(2) False by linarith
    from Reserve_wf [OF assms(1) this c(3)] c(1,2) False True show ?thesis by (auto simp: grow_def)
  next
    case maxFalse: False
    with c False show ?thesis by (simp add: grow_def)
  qed
qed

lemma wr_append_ok:
  assumes "wr_wf w" "wr_len w + length bs \<le> wr_cap w"
  shows "\<exists>w'. wr_append w bs = Inr w' \<and> appends w bs w' \<and> wr_len w' = wr_len w + length bs"
  using assms by (auto simp: wr_append_def wr_copy_def appends_def wr_wf_def wr_Slice_def)

text \<open>
  Every writing operation comes down to \<open>grow_append\<close>: it succeeds exactly when the growth policy allows
  the requested size, and then the bytes are appended to the contents.
\<close>

lemma grow_append_cases:
  assumes "wr_wf w" "length bs \<le> sz" "wr_len w + sz \<le> 2 ^ 60"
  shows "if wr_len w + sz \<le> wr_cap w \<or> wr_len w + sz \<le> wr_maxCap w
    then \<exists>w'. grow_append w sz bs = Inr w' \<and> appends w bs w'
    else grow_append w sz bs = Inl (Err ErrLogic)"
proof (cases "wr_len w + sz \<le> wr_cap w \<or> wr_len w + sz \<le> wr_maxCap w")
  case True
  obtain w1 where
    w1: "grow w sz = Inr w1" "wr_wf w1" "wr_Slice w1 = wr_Slice w" "wr_len w1 = wr_len w"
      "wr_maxCap w1 = wr_maxCap w" "wr_len w + sz \<le> wr_cap w1"
    using grow_cases [OF assms(1,3)] unfolding if_P [OF True] by blast
  have "wr_len w1 + length bs \<le> wr_cap w1" using w1 assms(2) by simp
  from wr_append_ok [OF w1(2) this] obtain w2 where w2: "wr_append w1 bs = Inr w2" "appends w1 bs w2" by blast
  have "grow_append w sz bs = Inr w2" using w1(1) w2(1) by (simp add: grow_append_def)
  moreover have "appends w bs w2" using w2(2) w1(3,5) by (simp add: appends_def)
  ultimately show ?thesis using True by (simp only: if_True) blast
next
  case False
  with grow_cases [OF assms(1,3)] have "grow w sz = Inl (Err ErrLogic)" by (simp only: if_False)
  then show ?thesis unfolding grow_append_def using False by (simp only: if_False bind_res_simps)
qed

lemma grow_append_appends:
  "wr_wf w \<Longrightarrow> grow_append w sz bs = Inr w' \<Longrightarrow> length bs \<le> sz \<Longrightarrow> wr_len w + sz \<le> 2 ^ 60 \<Longrightarrow> appends w bs w'"
  using grow_append_cases [of w bs sz] by (auto split: if_splits)

lemma appends_len: "wr_wf w \<Longrightarrow> appends w bs w' \<Longrightarrow> wr_len w' = wr_len w + length bs"
proof -
  assume w: "wr_wf w" and a: "appends w bs w'"
  then have "length (wr_Slice w') = length (wr_Slice w @ bs)" by (simp add: appends_def)
  moreover have "wr_wf w'" using a by (simp add: appends_def)
  ultimately show ?thesis using w by (simp add: wr_Slice_length)
qed

lemma appends_wf: "appends w bs w' \<Longrightarrow> wr_wf w'"
  by (simp add: appends_def)

lemma appends_trans: "appends w as w1 \<Longrightarrow> appends w1 bs w2 \<Longrightarrow> appends w (as @ bs) w2"
  by (simp add: appends_def)

lemma appends_refl: "wr_wf w \<Longrightarrow> appends w [] w"
  by (simp add: appends_def)

text \<open>
  C22. The output buffer: whatever its kind (inside the object, external or on the heap), writing a
  64-bit varint either appends exactly its bytes after the old contents, without ever writing past
  the capacity, or throws because the growth policy forbids the size; it throws in no other case.
\<close>

theorem writer_append:
  assumes "wr_wf w" "wr_len w + 10 \<le> 2 ^ 60"
  shows "if wr_len w + 10 \<le> max (wr_cap w) (wr_maxCap w)
    then \<exists>w'. PutVarUint64 w v = Inr w' \<and> wr_Slice w' = wr_Slice w @ uint64_pack v \<and>
      wr_len w' = wr_len w + length (uint64_pack v) \<and> wr_wf w'
    else PutVarUint64 w v = Inl (Err ErrLogic)"
proof -
  have l: "length (uint64_pack v) \<le> 10" by (rule uint64_pack_length)
  from grow_append_cases [OF assms(1) l assms(2)] show ?thesis
    using appends_len [OF assms(1)] by (auto simp: PutVarUint64_def appends_def le_max_iff_disj)
qed

theorem writer_append_witness:
  "\<exists>w'. PutVarUint64 (mk_WrSerializer (replicate 256 0) (mk_GrowthPolicy 0)) 300 = Inr w' \<and>
     wr_Slice w' = [] @ uint64_pack 300 \<and> uint64_pack 300 = [0xAC, 0x02]"
proof -
  let ?w = "mk_WrSerializer (replicate 256 0) (mk_GrowthPolicy 0)"
  have "wr_wf ?w" "wr_len ?w + 10 \<le> 2 ^ 60" by (simp_all add: mk_WrSerializer_def wr_wf_def)
  from writer_append [OF this, of 300]
  have "\<exists>w'. PutVarUint64 ?w 300 = Inr w' \<and> wr_Slice w' = wr_Slice ?w @ uint64_pack 300"
    by (auto simp: mk_WrSerializer_def split: if_splits)
  moreover have "wr_Slice ?w = []" by (simp add: mk_WrSerializer_def wr_Slice_def)
  ultimately show ?thesis by (simp add: uint64_pack_leb leb.simps)
qed

lemma le_bytes_length [simp]: "length (le_bytes n v) = n"
  by (induction n arbitrary: v) simp_all

lemma le_value_le_bytes: "le_value (le_bytes n v) = v mod 256 ^ n"
proof (induction n arbitrary: v)
  case (Suc n)
  have "unat (word_of_nat (v mod 256) :: u8) = v mod 256" by (simp add: unat_byte)
  then show ?case by (simp add: Suc mod_mult2_eq)
qed simp

subsection \<open>Codecs: what one side writes, the other reads\<close>

text \<open>
  The contract of a pair of a writing and a reading operation: the writer appends the encoding of the
  value, and the reader, placed before that encoding, returns the value and stops right after it.
\<close>

locale wire_codec =
  fixes put :: "wr_serializer \<Rightarrow> 'a \<Rightarrow> wr_serializer res"
    and get :: "serializer \<Rightarrow> ('a \<times> serializer) res"
    and enc :: "'a \<Rightarrow> bytes"
    and ok :: "'a \<Rightarrow> bool"
  assumes put_appends: "wr_wf w \<Longrightarrow> ok a \<Longrightarrow> wr_len w + length (enc a) + 10 \<le> 2 ^ 60 \<Longrightarrow>
      put w a = Inr w' \<Longrightarrow> appends w (enc a) w'"
    and get_enc: "ok a \<Longrightarrow> fits (length pre) (length (enc a) + length rest) \<Longrightarrow>
      get (ser_at pre (enc a @ rest)) = Inr (a, ser_at (pre @ enc a) rest)"
begin

text \<open>Reading back at the position the value was written, whatever is written after it.\<close>

lemma put_get:
  assumes "wr_wf w" "ok a" "wr_len w + length (enc a) + 10 \<le> 2 ^ 60" "put w a = Inr w'"
    "length (enc a) + length rest < 2 ^ 32"
  shows "get (ser_at (wr_Slice w) (drop (wr_len w) (wr_Slice w') @ rest)) = Inr (a, ser_at (wr_Slice w') rest)"
proof -
  have a: "appends w (enc a) w'" by (rule put_appends [OF assms(1-4)])
  then have s: "wr_Slice w' = wr_Slice w @ enc a" by (simp add: appends_def)
  have l: "length (wr_Slice w) = wr_len w" by (rule wr_Slice_length [OF assms(1)])
  then have "fits (length (wr_Slice w)) (length (enc a) + length rest)" using assms(3,5) by simp
  from get_enc [OF assms(2) this] show ?thesis by (simp add: s l [symmetric])
qed

text \<open>Two values in a row, the second through its own codec.\<close>

lemma get_then:
  assumes "ok a" "fits (length pre) (length (enc a) + length rest)"
  shows "bind_res (get (ser_at pre (enc a @ rest))) f = f (a, ser_at (pre @ enc a) rest)"
  using get_enc [OF assms] by simp

end

text \<open>Codecs for the scalar types.\<close>

lemma GetVarUInt_pack:
  assumes "fits (length pre) (length (uint64_pack v) + length rest)"
  shows "GetVarUInt (ser_at pre (uint64_pack v @ rest)) = Inr (v, ser_at (pre @ uint64_pack v) rest)"
proof -
  have "fits (length pre) (length (uint64_pack v @ rest))" using assms by simp
  from GetVarUInt_at [OF this] uint64_pack_length(1) [of v] show ?thesis by (auto simp: Let_def)
qed

lemma GetVarUInt_pack32:
  assumes "fits (length pre) (length (uint32_pack v) + length rest)"
  shows "GetVarUInt (ser_at pre (uint32_pack v @ rest)) = Inr (ucast v, ser_at (pre @ uint32_pack v) rest)"
  using GetVarUInt_pack [of pre "ucast v" rest] assms by (simp add: uint32_pack_uint64)

lemma GetVarint_pack:
  assumes "fits (length pre) (length (sint64_pack v) + length rest)"
  shows "GetVarint (ser_at pre (sint64_pack v @ rest)) = Inr (v, ser_at (pre @ sint64_pack v) rest)"
proof -
  have "fits (length pre) (length (sint64_pack v @ rest))" using assms by simp
  from get_varint_bytes_at [OF this] uint64_pack_length(1) [of "zigzag_encode64 v"]
  show ?thesis by (auto simp: GetVarint_def Let_def sint64_pack_def parse_int64_def zigzag_roundtrip)
qed

lemma GetVarint_pack32:
  assumes "fits (length pre) (length (sint32_pack v) + length rest)"
  shows "GetVarint (ser_at pre (sint32_pack v @ rest)) = Inr (scast v, ser_at (pre @ sint32_pack v) rest)"
proof -
  have "fits (length pre) (length (sint32_pack v @ rest))" using assms by simp
  from get_varint_bytes_at [OF this] uint32_pack_length(1) [of "zigzag_encode32 v"]
  show ?thesis by (auto simp: GetVarint_def Let_def sint32_pack_def parse_int64_def zigzag32_roundtrip uint32_pack_uint64)
qed

lemma get_fixed_bytes:
  assumes "fits (length pre) (n + length rest)" "v < 256 ^ n"
  shows "get_fixed n (ser_at pre (le_bytes n v @ rest)) = Inr (v, ser_at (pre @ le_bytes n v) rest)"
proof -
  have l: "fits (length pre) (length (le_bytes n v @ rest))" "n < 2 ^ 63" using assms by simp_all
  from get_fixed_at [OF l] assms(2) show ?thesis by (simp add: le_value_le_bytes)
qed

interpretation u32_codec: wire_codec PutUInt32 GetUInt32 "\<lambda>v. le_bytes 4 (unat v)" "\<lambda>_. True"
proof unfold_locales
  fix v :: u32 and pre rest :: bytes
  assume "fits (length pre) (length (le_bytes 4 (unat v)) + length rest)"
  moreover have "unat v < 256 ^ 4" using unsigned_less [of v, where ?'a = nat] by simp
  ultimately show "GetUInt32 (ser_at pre (le_bytes 4 (unat v) @ rest)) =
      Inr (v, ser_at (pre @ le_bytes 4 (unat v)) rest)"
    by (simp add: GetUInt32_def get_fixed_bytes)
qed (auto simp: PutUInt32_def intro: grow_append_appends)

interpretation u64_codec: wire_codec PutUInt64 GetUInt64 "\<lambda>v. le_bytes 8 (unat v)" "\<lambda>_. True"
proof unfold_locales
  fix v :: u64 and pre rest :: bytes
  assume "fits (length pre) (length (le_bytes 8 (unat v)) + length rest)"
  moreover have "unat v < 256 ^ 8" using unsigned_less [of v, where ?'a = nat] by simp
  ultimately show "GetUInt64 (ser_at pre (le_bytes 8 (unat v) @ rest)) =
      Inr (v, ser_at (pre @ le_bytes 8 (unat v)) rest)"
    by (simp add: GetUInt64_def get_fixed_bytes)
qed (auto simp: PutUInt64_def intro: grow_append_appends)

interpretation double_codec: wire_codec PutDouble GetDouble "\<lambda>v. le_bytes 8 (unat v)" "\<lambda>_. True"
proof unfold_locales
  fix v :: u64 and pre rest :: bytes
  assume "fits (length pre) (length (le_bytes 8 (unat v)) + length rest)"
  from u64_codec.get_enc [OF TrueI this]
  show "GetDouble (ser_at pre (le_bytes 8 (unat v) @ rest)) =
      Inr (v, ser_at (pre @ le_bytes 8 (unat v)) rest)"
    by (simp add: GetDouble_def GetUInt64_def)
qed (auto simp: PutDouble_def intro: grow_append_appends)

interpretation float_codec: wire_codec PutFloat GetFloat "\<lambda>v. le_bytes 4 (unat v)" "\<lambda>_. True"
proof unfold_locales
  fix v :: u32 and pre rest :: bytes
  assume "fits (length pre) (length (le_bytes 4 (unat v)) + length rest)"
  from u32_codec.get_enc [OF TrueI this]
  show "GetFloat (ser_at pre (le_bytes 4 (unat v) @ rest)) =
      Inr (v, ser_at (pre @ le_bytes 4 (unat v)) rest)"
    by (simp add: GetFloat_def GetUInt32_def)
qed (auto simp: PutFloat_def intro: grow_append_appends)

lemma pack_len:
  "length (uint64_pack v) \<le> 10" "length (sint64_pack i) \<le> 10" "length (uint32_pack w) \<le> 10"
  "length (sint32_pack j) \<le> 10"
  using uint64_pack_length(2) [of v] uint64_pack_length(2) [of "zigzag_encode64 i"]
    uint32_pack_length(2) [of w] uint32_pack_length(2) [of "zigzag_encode32 j"]
  by (simp_all add: sint64_pack_def sint32_pack_def)

lemma put_varint_appends:
  assumes "wr_wf w" "wr_len w + 10 \<le> 2 ^ 60"
  shows "PutVarUint64 w v = Inr w' \<Longrightarrow> appends w (uint64_pack v) w'"
    "PutVarint64 w i = Inr w' \<Longrightarrow> appends w (sint64_pack i) w'"
    "PutVarUint32 w x = Inr w' \<Longrightarrow> appends w (uint32_pack x) w'"
    "PutVarint32 w j = Inr w' \<Longrightarrow> appends w (sint32_pack j) w'"
  using assms pack_len
  by (auto simp: PutVarUint64_def PutVarint64_def PutVarUint32_def PutVarint32_def intro!: grow_append_appends)

interpretation varuint_codec: wire_codec PutVarUint64 GetVarUInt uint64_pack "\<lambda>_. True"
  by unfold_locales (auto intro: put_varint_appends GetVarUInt_pack)

interpretation varint_codec: wire_codec PutVarint64 GetVarint sint64_pack "\<lambda>_. True"
  by unfold_locales (auto intro: put_varint_appends GetVarint_pack)

interpretation bool_codec: wire_codec PutBool GetBool boolean_pack "\<lambda>_. True"
proof unfold_locales
  fix b and pre rest :: bytes
  assume l: "fits (length pre) (length (boolean_pack b) + length rest)"
  have p: "boolean_pack b = uint64_pack (if b then 1 else 0)"
    by (simp add: boolean_pack_def uint64_pack_leb leb_small)
  from l have "fits (length pre) (length (uint64_pack (if b then 1 else 0)) + length rest)"
    by (simp add: p)
  from GetVarUInt_pack [OF this]
  show "GetBool (ser_at pre (boolean_pack b @ rest)) = Inr (b, ser_at (pre @ boolean_pack b) rest)"
    by (simp add: GetBool_def p)
qed (auto simp: PutBool_def boolean_pack_def intro!: grow_append_appends)

definition enc_uuid :: "uuid \<Rightarrow> bytes" where
  "enc_uuid u = le_bytes 8 (unat (uuid0 u)) @ le_bytes 8 (unat (uuid1 u))"

interpretation uuid_codec: wire_codec PutUuid GetUuid enc_uuid "\<lambda>_. True"
proof unfold_locales
  fix w u w' assume a: "wr_wf w" "wr_len w + length (enc_uuid u) + 10 \<le> 2 ^ 60" "PutUuid w u = Inr w'"
  then obtain w1 where w1: "PutUInt64 w (uuid0 u) = Inr w1" "PutUInt64 w1 (uuid1 u) = Inr w'"
    by (auto simp: PutUuid_def res_simps)
  from a(2) have b: "wr_len w + 26 \<le> 2 ^ 60" by (simp add: enc_uuid_def)
  have ap1: "appends w (le_bytes 8 (unat (uuid0 u))) w1"
    by (rule u64_codec.put_appends [OF a(1) TrueI _ w1(1)]) (use b in simp)
  have "wr_len w1 = wr_len w + 8" using appends_len [OF a(1) ap1] by simp
  then have "appends w1 (le_bytes 8 (unat (uuid1 u))) w'"
    by (intro u64_codec.put_appends [OF appends_wf [OF ap1] TrueI _ w1(2)]) (use b in simp)
  with ap1 show "appends w (enc_uuid u) w'" unfolding enc_uuid_def by (rule appends_trans)
next
  fix u and pre rest :: bytes
  assume l: "fits (length pre) (length (enc_uuid u) + length rest)"
  show "GetUuid (ser_at pre (enc_uuid u @ rest)) = Inr (u, ser_at (pre @ enc_uuid u) rest)"
    using l u64_codec.get_enc [of pre "uuid0 u" "le_bytes 8 (unat (uuid1 u)) @ rest"]
      u64_codec.get_enc [of "pre @ le_bytes 8 (unat (uuid0 u))" "uuid1 u" rest]
    by (simp add: GetUuid_def enc_uuid_def)
qed

text \<open>Blocks of bytes behind a checked length.\<close>

lemma take_block:
  assumes "fits (length pre) (length bs + length rest)"
  shows "bind_res (checkbound (ser_pos (ser_at pre (bs @ rest))) (word_of_nat (length bs))
        (ser_len (ser_at pre (bs @ rest)))) (\<lambda>_.
      bind_res (ser_view (ser_at pre (bs @ rest)) (ser_pos (ser_at pre (bs @ rest))) (length bs))
        (\<lambda>b. Inr (g b, (ser_at pre (bs @ rest))\<lparr>ser_pos :=
           ser_pos (ser_at pre (bs @ rest)) + word_of_nat (length bs)\<rparr>))) =
    Inr (g bs, ser_at (pre @ bs) rest)"
proof -
  have l: "fits (length pre) (length (bs @ rest))" "length bs < 2 ^ 63" using assms by simp_all
  from block_at [OF l refl, of g] show ?thesis by simp
qed

interpretation slice_codec: wire_codec PutSlice GetSlice
  "\<lambda>s. le_bytes 4 (length s) @ s" "\<lambda>s. length s < 2 ^ 32"
proof unfold_locales
  fix w w' and s :: bytes
  assume a: "wr_wf w" "length s < 2 ^ 32" "wr_len w + length (le_bytes 4 (length s) @ s) + 10 \<le> 2 ^ 60"
    "PutSlice w s = Inr w'"
  then obtain w1 where w1: "PutUInt32 w (word_of_nat (length s)) = Inr w1" "grow_append w1 (length s) s = Inr w'"
    by (auto simp: PutSlice_def res_simps)
  have u: "unat (word_of_nat (length s) :: u32) = length s" using a(2) by (simp add: unat_of_nat)
  have ap1: "appends w (le_bytes 4 (length s)) w1"
    using u32_codec.put_appends [OF a(1) TrueI _ w1(1)] a(3) by (simp add: u)
  have "wr_len w1 = wr_len w + 4" using appends_len [OF a(1) ap1] by simp
  then have "appends w1 s w'"
    by (intro grow_append_appends [OF appends_wf [OF ap1] w1(2)]) (use a(3) in simp_all)
  with ap1 show "appends w (le_bytes 4 (length s) @ s) w'" by (rule appends_trans)
next
  fix s :: bytes and pre rest :: bytes
  assume a: "length s < 2 ^ 32" "fits (length pre) (length (le_bytes 4 (length s) @ s) + length rest)"
  have u: "unat (word_of_nat (length s) :: u32) = length s" using a(1) by (simp add: unat_of_nat)
  have c: "(ucast (word_of_nat (length s) :: u32) :: u64) = word_of_nat (length s)"
    by (metis u of_nat_unat)
  have l: "fits (length (pre @ le_bytes 4 (length s))) (length s + length rest)" using a(2) by simp
  have "GetUInt32 (ser_at pre (le_bytes 4 (length s) @ s @ rest)) =
      Inr (word_of_nat (length s), ser_at (pre @ le_bytes 4 (length s)) (s @ rest))"
    using u32_codec.get_enc [of pre "word_of_nat (length s)" "s @ rest"] a(2) by (simp add: u)
  then show "GetSlice (ser_at pre ((le_bytes 4 (length s) @ s) @ rest)) =
      Inr (s, ser_at (pre @ le_bytes 4 (length s) @ s) rest)"
    using take_block [OF l, of "\<lambda>b. b"] by (simp add: GetSlice_def c u del: ser_at_simps)
qed

definition enc_vstring :: "bytes \<Rightarrow> bytes" where
  "enc_vstring s = uint32_pack (word_of_nat (length s)) @ s"

lemma string_pack_enc: "string_pack (Some s) = enc_vstring s"
  by (simp add: string_pack_def enc_vstring_def)

lemma enc_vstring_len: "length s + 1 \<le> length (enc_vstring s)" "length (enc_vstring s) \<le> length s + 10"
  using uint32_pack_length [of "word_of_nat (length s)"] by (simp_all add: enc_vstring_def)

lemma PutVString_appends:
  assumes "wr_wf w" "wr_len w + length (enc_vstring s) + 10 \<le> 2 ^ 60" "PutVString w s = Inr w'"
  shows "appends w (enc_vstring s) w'"
proof (rule grow_append_appends [OF assms(1)])
  show "grow_append w (length s + 10) (enc_vstring s) = Inr w'"
    using assms(3) by (simp add: PutVString_def string_pack_enc)
  show "length (enc_vstring s) \<le> length s + 10" by (rule enc_vstring_len)
  show "wr_len w + (length s + 10) \<le> 2 ^ 60" using enc_vstring_len(1) [of s] assms(2) by linarith
qed

lemma vstring_header:
  assumes "length s < 2 ^ 32" "fits (length pre) (length (enc_vstring s) + length rest)"
  shows "GetVarUInt (ser_at pre (enc_vstring s @ rest)) =
      Inr (word_of_nat (length s), ser_at (pre @ uint32_pack (word_of_nat (length s))) (s @ rest))"
proof -
  have u: "unat (word_of_nat (length s) :: u32) = length s" using assms(1) by (simp add: unat_of_nat)
  have c: "(ucast (word_of_nat (length s) :: u32) :: u64) = word_of_nat (length s)"
    by (metis u of_nat_unat)
  show ?thesis
    using GetVarUInt_pack32 [of pre "word_of_nat (length s)" "s @ rest"] assms(2) by (simp add: enc_vstring_def c)
qed

interpretation vstring_codec: wire_codec PutVString GetVString enc_vstring "\<lambda>s. length s < 2 ^ 32"
proof unfold_locales
  fix s :: bytes and pre rest :: bytes
  assume a: "length s < 2 ^ 32" "fits (length pre) (length (enc_vstring s) + length rest)"
  have l: "fits (length (pre @ uint32_pack (word_of_nat (length s)))) (length s + length rest)"
    using a(2) by (simp add: enc_vstring_def)
  have u: "unat (word_of_nat (length s) :: u64) = length s" using a(1) by (subst unat_small) simp_all
  show "GetVString (ser_at pre (enc_vstring s @ rest)) = Inr (s, ser_at (pre @ enc_vstring s) rest)"
    using take_block [OF l, of "\<lambda>b. b"]
    by (simp add: GetVString_def vstring_header [OF a] u del: ser_at_simps) (simp add: enc_vstring_def)
qed (auto intro: PutVString_appends)

text \<open>A string inside a variant is read back through its header.\<close>

lemma p_string_enc:
  assumes "length s < 2 ^ 32"
  shows "p_string_of_vstr (enc_vstring s @ rest) = Some s"
proof -
  let ?h = "uint64_pack (word_of_nat (length s))"
  have u: "unat (word_of_nat (length s) :: u32) = length s" using assms by (simp add: unat_of_nat)
  have c: "(ucast (word_of_nat (length s) :: u32) :: u64) = word_of_nat (length s)"
    by (metis u of_nat_unat)
  have e: "enc_vstring s @ rest = ?h @ s @ rest"
    by (simp add: enc_vstring_def uint32_pack_uint64 c)
  have h: "0 < length ?h" using uint64_pack_length(1) [of "word_of_nat (length s)"] by linarith
  have "parse_uint32 (length ?h) (?h @ s @ rest) = ucast (word_of_nat (length s) :: u64)"
    using parse_uint32_low [of "length ?h" "?h @ s @ rest"] h by simp
  moreover have "(ucast (word_of_nat (length s) :: u64) :: u32) = word_of_nat (length s)"
    by (rule bit_word_eqI) (auto simp: bit_simps)
  ultimately have "unat (parse_uint32 (length ?h) (?h @ s @ rest)) = length s" using u by simp
  then show ?thesis
    unfolding e by (simp add: p_string_of_vstr_def Let_def pack_len)
qed

lemma GetPVString_enc:
  assumes "length s < 2 ^ 32" "fits (length pre) (length (enc_vstring s) + length rest)"
  shows "GetPVString (ser_at pre (enc_vstring s @ rest)) = Inr (Some s, ser_at (pre @ enc_vstring s) rest)"
proof -
  have l: "fits (length (pre @ uint32_pack (word_of_nat (length s)))) (length s + length rest)"
    using assms(2) by (simp add: enc_vstring_def)
  have p: "unat (word_of_nat (length pre) :: u64) = length pre" using assms(2) by (subst unat_small) simp_all
  have n: "length s < 2 ^ 63" "length s \<le> length (s @ rest)" using assms(1) by simp_all
  have l': "fits (length (pre @ uint32_pack (word_of_nat (length s)))) (length (s @ rest))" using l by simp
  note adv = ser_at_advance [OF n(2), of "pre @ uint32_pack (word_of_nat (length s))"]
  have "ser_buf (ser_at pre (enc_vstring s @ rest)) = pre @ enc_vstring s @ rest" by simp
  then show ?thesis
    using checkbound_at [OF l' n(1)] adv
    by (simp add: GetPVString_def vstring_header [OF assms] p p_string_enc [OF assms(1)] del: of_nat_add)
      (simp add: enc_vstring_def)
qed

definition ctag_built :: "ctag \<Rightarrow> bool" where
  "ctag_built c \<longleftrightarrow> (\<exists>t nm f. t < 64 \<and> mk_ctag t nm f = Inr c)"

interpretation ctag_codec: wire_codec PutCTag GetCTag "\<lambda>c. uint32_pack (ctag_asNumber c)" ctag_built
proof unfold_locales
  fix c and pre rest :: bytes
  assume "ctag_built c" and l: "fits (length pre) (length (uint32_pack (ctag_asNumber c)) + length rest)"
  then have "ctag_of_number (ucast (ctag_asNumber c)) = Inr c" by (auto simp: ctag_built_def intro: ctag_reread)
  with GetVarUInt_pack32 [OF l]
  show "GetCTag (ser_at pre (uint32_pack (ctag_asNumber c) @ rest)) =
      Inr (c, ser_at (pre @ uint32_pack (ctag_asNumber c)) rest)"
    by (simp add: GetCTag_def)
qed (auto simp: PutCTag_def intro!: put_varint_appends)

definition carraytag_built :: "carraytag \<Rightarrow> bool" where
  "carraytag_built a \<longleftrightarrow> (\<exists>n t. t < 64 \<and> mk_carraytag n t = Inr a)"

interpretation carraytag_codec: wire_codec PutCArrayTag GetCArrayTag
  "\<lambda>a. le_bytes 4 (unat (carraytag_asNumber a))" carraytag_built
proof unfold_locales
  fix a and pre rest :: bytes
  assume "carraytag_built a"
    and l: "fits (length pre) (length (le_bytes 4 (unat (carraytag_asNumber a))) + length rest)"
  then have "carraytag_of_number (carraytag_asNumber a) = Inr a"
    by (auto simp: carraytag_built_def intro: carraytag_reread)
  with u32_codec.get_enc [OF TrueI l]
  show "GetCArrayTag (ser_at pre (le_bytes 4 (unat (carraytag_asNumber a)) @ rest)) =
      Inr (a, ser_at (pre @ le_bytes 4 (unat (carraytag_asNumber a))) rest)"
    by (simp add: GetCArrayTag_def)
next
  fix w a w' assume "wr_wf w" "wr_len w + length (le_bytes 4 (unat (carraytag_asNumber a))) + 10 \<le> 2 ^ 60"
    "PutCArrayTag w a = Inr w'"
  then show "appends w (le_bytes 4 (unat (carraytag_asNumber a))) w'"
    unfolding PutCArrayTag_def by (intro u32_codec.put_appends) simp_all
qed

definition enc_kvt :: "key_value_type \<Rightarrow> bytes" where
  "enc_kvt t = uint32_pack (word_of_int (ToNumber t))"

interpretation kvt_codec: wire_codec PutKeyValueType GetKeyValueType enc_kvt "\<lambda>_. True"
proof unfold_locales
  fix t and pre rest :: bytes
  assume l: "fits (length pre) (length (enc_kvt t) + length rest)"
  have "(ucast (ucast (word_of_int (ToNumber t) :: u32) :: u64) :: u32) = word_of_int (ToNumber t)"
    by (rule bit_word_eqI) (simp add: bit_simps)
  moreover have "sint (word_of_int (ToNumber t) :: u32) = ToNumber t"
    by (cases t) (simp_all add: sint_uint)
  ultimately show "GetKeyValueType (ser_at pre (enc_kvt t @ rest)) = Inr (t, ser_at (pre @ enc_kvt t) rest)"
    using GetVarUInt_pack32 [of pre "word_of_int (ToNumber t)" rest] l
    by (simp add: GetKeyValueType_def enc_kvt_def)
qed (auto simp: PutKeyValueType_def enc_kvt_def intro!: put_varint_appends)

text \<open>A float vector with data has as many floats as its dimension says, and at least one.\<close>

definition fv_wf :: "float_vector_view \<Rightarrow> bool" where
  "fv_wf v \<longleftrightarrow> (case fv_data v of None \<Rightarrow> True | Some d \<Rightarrow> fv_dim v \<noteq> 0 \<and> length d = 4 * unat (fv_dim v))"

definition fv_header :: "float_vector_view \<Rightarrow> u64" where
  "fv_header v = push_bit 1 (ucast (fv_dim v)) OR (if fv_IsStripped v then 1 else 0)"

definition enc_fv :: "float_vector_view \<Rightarrow> bytes" where
  "enc_fv v = uint64_pack (fv_header v) @ (case fv_data v of None \<Rightarrow> [] | Some d \<Rightarrow> d)"

lemma fv_header_fields:
  fixes d :: u16
  shows "drop_bit 1 (ucast (push_bit 1 (ucast d) OR (if b then 1 else 0) :: u64) :: u32) = ucast d"
    "ucast (push_bit 1 (ucast d) OR (if b then 1 else 0) :: u64) AND (1 :: u32) = of_bool b"
proof -
  show "drop_bit 1 (ucast (push_bit 1 (ucast d) OR (if b then 1 else 0) :: u64) :: u32) = ucast d"
    by (rule bit_word_eqI) (auto simp: bit_simps bit_dbl dest: bit_imp_le_length)
  show "ucast (push_bit 1 (ucast d) OR (if b then 1 else 0) :: u64) AND (1 :: u32) = of_bool b"
    by (rule bit_word_eqI) (auto simp: bit_simps bit_dbl)
qed

lemma dim_fits: "FloatVectorDimension_of (ucast (d :: u16)) = Inr d"
proof -
  have u: "unat (ucast d :: u32) = unat d" by (simp add: unsigned_ucast_eq take_bit_nat_eq_self order_less_trans [OF unsigned_less])
  moreover have "unat d < 65536" using unsigned_less [of d, where ?'a = nat] by simp
  moreover have "(ucast (ucast d :: u32) :: u16) = d" by (rule bit_word_eqI) (simp add: bit_simps)
  ultimately show ?thesis by (simp add: FloatVectorDimension_of_def word_less_nat_alt)
qed

interpretation fv_codec: wire_codec PutFloatVectorView GetFloatVectorView enc_fv fv_wf
proof unfold_locales
  fix w v w' assume a: "wr_wf w" "fv_wf v" "wr_len w + length (enc_fv v) + 10 \<le> 2 ^ 60"
    "PutFloatVectorView w v = Inr w'"
  from a(4) obtain w1 where w1: "PutVarUint64 w (fv_header v) = Inr w1"
    "(case fv_data v of None \<Rightarrow> Inr w1
     | Some data \<Rightarrow> let memSize = 4 * unat (fv_dim v) in
         bind_res (grow w1 memSize) (\<lambda>w. wr_append w (take memSize data))) = Inr w'"
    by (auto simp: PutFloatVectorView_def fv_header_def bind_res_Inr)
  have ap1: "appends w (uint64_pack (fv_header v)) w1"
    by (rule varuint_codec.put_appends [OF a(1) TrueI _ w1(1)]) (use a(3) in \<open>simp add: enc_fv_def\<close>)
  show "appends w (enc_fv v) w'"
  proof (cases "fv_data v")
    case None
    with w1 ap1 show ?thesis by (simp add: enc_fv_def)
  next
    case (Some d)
    then have d: "length d = 4 * unat (fv_dim v)" using a(2) by (simp add: fv_wf_def)
    then have g: "grow_append w1 (length d) d = Inr w'" using w1(2) Some by (simp add: grow_append_def)
    have "wr_len w1 = wr_len w + length (uint64_pack (fv_header v))" by (rule appends_len [OF a(1) ap1])
    then have "appends w1 d w'"
      by (intro grow_append_appends [OF appends_wf [OF ap1] g]) (use a(3) Some in \<open>simp_all add: enc_fv_def\<close>)
    with ap1 show ?thesis unfolding enc_fv_def Some option.case by (rule appends_trans)
  qed
next
  fix v and pre rest :: bytes
  assume a: "fv_wf v" "fits (length pre) (length (enc_fv v) + length rest)"
  let ?h = "ucast (fv_header v) :: u32"
  let ?d = "case fv_data v of None \<Rightarrow> [] | Some d \<Rightarrow> d"
  have g: "GetVarUInt (ser_at pre (enc_fv v @ rest)) =
      Inr (fv_header v, ser_at (pre @ uint64_pack (fv_header v)) (?d @ rest))"
    using GetVarUInt_pack [of pre "fv_header v" "?d @ rest"] a(2) by (simp add: enc_fv_def)
  have f: "drop_bit 1 ?h = ucast (fv_dim v)" "?h AND 1 = of_bool (fv_IsStripped v)"
    unfolding fv_header_def by (rule fv_header_fields)+
  obtain dm dt where v: "v = FV dm dt" by (cases v)
  have ud: "unat (ucast dm :: u32) = unat dm"
    by (simp add: unsigned_ucast_eq take_bit_nat_eq_self order_less_trans [OF unsigned_less])
  have uz: "(ucast dm :: u32) = 0 \<longleftrightarrow> dm = 0" using ud by (metis unat_eq_zero)
  show "GetFloatVectorView (ser_at pre (enc_fv v @ rest)) = Inr (v, ser_at (pre @ enc_fv v) rest)"
  proof (cases dt)
    case None
    show ?thesis
    proof (cases "dm = 0")
      case True
      then have "fv_header v = 0" by (simp add: fv_header_def v None fv_IsStripped_def fv_IsEmpty_def)
      then show ?thesis using g by (simp add: GetFloatVectorView_def enc_fv_def v None True)
    next
      case False
      then have st: "fv_IsStripped v" by (simp add: v None fv_IsStripped_def fv_IsEmpty_def fv_IsStrippedOrEmpty_def)
      then have "?h \<noteq> 0" using f(2) by auto
      then show ?thesis using g f st
        by (simp add: GetFloatVectorView_def Let_def v None dim_fits) (simp add: enc_fv_def v None)
    qed
  next
    case (Some d)
    then have d: "length d = 4 * unat dm" "dm \<noteq> 0" using a(1) by (auto simp: fv_wf_def v)
    have st: "\<not> fv_IsStripped v" by (simp add: v Some fv_IsStripped_def fv_IsStrippedOrEmpty_def)
    have "drop_bit 1 ?h \<noteq> 0" using d uz f(1) by (simp add: v)
    then have h: "?h \<noteq> 0" by auto
    have c: "(ucast (ucast dm :: u32) :: u16) = dm" by (rule bit_word_eqI) (simp add: bit_simps)
    have sp: "fv_of_span (ucast dm) d = v" using d by (auto simp: fv_of_span_def c v Some unat_eq_zero)
    have ms: "(ucast (ucast dm :: u32) * 4 :: u64) = word_of_nat (length d)"
      "unat (word_of_nat (length d) :: u64) = length d"
      unfolding mem_size(1) d(1) ud [symmetric] by (rule refl, rule mem_size(3))
    have l: "fits (length (pre @ uint64_pack (fv_header v))) (length d + length rest)"
      using a(2) by (simp add: enc_fv_def v Some)
    have fd: "drop_bit 1 ?h = ucast dm" using f(1) by (simp add: v)
    have dd: "?d = d" by (simp add: v Some)
    note tb = take_block [OF l, of "fv_of_span (ucast dm)"]
    have "GetFloatVectorView (ser_at pre (enc_fv v @ rest)) =
        Inr (v, ser_at ((pre @ uint64_pack (fv_header v)) @ d) rest)"
      unfolding GetFloatVectorView_def g bind_res_simps prod.case Let_def fd f(2) dd ms tb sp
      using h st by simp
    then show ?thesis by (simp add: enc_fv_def v Some)
  qed
qed

subsection \<open>Variants\<close>

fun enc_variant :: "variant \<Rightarrow> bytes" where
  "enc_variant (V_Int i) = enc_kvt KVT_Int @ sint32_pack i"
| "enc_variant (V_Bool b) = enc_kvt KVT_Bool @ boolean_pack b"
| "enc_variant (V_Int64 i) = enc_kvt KVT_Int64 @ sint64_pack i"
| "enc_variant (V_Double d) = enc_kvt KVT_Double @ le_bytes 8 (unat d)"
| "enc_variant (V_Float f) = enc_kvt KVT_Float @ le_bytes 4 (unat f)"
| "enc_variant (V_String s) = enc_kvt KVT_String @ enc_vstring s"
| "enc_variant V_WildString = enc_kvt KVT_String"
| "enc_variant V_Null = enc_kvt KVT_Null"
| "enc_variant (V_Uuid u) = enc_kvt KVT_Uuid @ enc_uuid u"
| "enc_variant (V_FloatVector v) = enc_kvt KVT_FloatVector @ enc_fv v"
| "enc_variant (V_Tuple vs) = enc_kvt KVT_Tuple @ uint64_pack (word_of_nat (length vs)) @ concat (map enc_variant vs)"
| "enc_variant V_Composite = enc_kvt KVT_Composite"
| "enc_variant V_Undefined = enc_kvt KVT_Undefined"

fun variant_ok :: "variant \<Rightarrow> bool" where
  "variant_ok (V_String s) \<longleftrightarrow> length s < 2 ^ 32"
| "variant_ok (V_FloatVector v) \<longleftrightarrow> fv_wf v"
| "variant_ok V_WildString \<longleftrightarrow> False"
| "variant_ok (V_Tuple vs) \<longleftrightarrow> length vs \<le> hv_max_size \<and> (\<forall>v \<in> set vs. variant_ok v)"
| "variant_ok (V_Uuid u) \<longleftrightarrow> uuid_valid u"
| "variant_ok V_Composite \<longleftrightarrow> False"
| "variant_ok V_Undefined \<longleftrightarrow> False"
| "variant_ok _ \<longleftrightarrow> True"

lemma enc_kvt_len: "1 \<le> length (enc_kvt t)"
  unfolding enc_kvt_def by (rule uint32_pack_length)

lemma enc_variant_len: "1 \<le> length (enc_variant v)"
  using enc_kvt_len by (cases v) (simp_all add: le_SucI trans_le_add1)

lemma concat_len_ge: "x \<in> set xs \<Longrightarrow> length (f x) \<le> length (concat (map f xs))"
  by (induction xs) auto

lemma length_le_concat: "length vs \<le> length (concat (map enc_variant vs))"
proof (induction vs)
  case (Cons v vs)
  with enc_variant_len [of v] show ?case by simp
qed simp

text \<open>The writer appends the encoding.\<close>

lemma PutKeyValueType_appends:
  "wr_wf w \<Longrightarrow> wr_len w + 10 \<le> 2 ^ 60 \<Longrightarrow> PutKeyValueType w t = Inr w' \<Longrightarrow> appends w (enc_kvt t) w'"
  by (auto simp: PutKeyValueType_def enc_kvt_def intro!: put_varint_appends)

lemma put_kvt_then:
  assumes "\<And>w1. wr_wf w1 \<Longrightarrow> wr_len w1 + length bs + 10 \<le> 2 ^ 60 \<Longrightarrow> f w1 = Inr w' \<Longrightarrow>
      PutKeyValueType w t = Inr w1 \<Longrightarrow> appends w1 bs w'"
    "wr_wf w" "wr_len w + length (enc_kvt t @ bs) + 10 \<le> 2 ^ 60"
    "bind_res (PutKeyValueType w t) f = Inr w'"
  shows "appends w (enc_kvt t @ bs) w'"
proof -
  from assms(4) obtain w1 where w1: "PutKeyValueType w t = Inr w1" "f w1 = Inr w'"
    by (auto simp: res_simps)
  have ap: "appends w (enc_kvt t) w1" using assms(2,3) w1(1) by (intro PutKeyValueType_appends) simp_all
  have "wr_len w1 = wr_len w + length (enc_kvt t)" by (rule appends_len [OF assms(2) ap])
  then have "appends w1 bs w'" using assms(3) by (intro assms(1) appends_wf [OF ap] w1) simp_all
  with ap show ?thesis by (rule appends_trans)
qed

lemma PutVariant_appends:
  "wr_wf w \<Longrightarrow> variant_ok v \<Longrightarrow> wr_len w + length (enc_variant v) + 10 \<le> 2 ^ 60 \<Longrightarrow>
     PutVariant w v = Inr w' \<Longrightarrow> appends w (enc_variant v) w'"
  "wr_wf w \<Longrightarrow> (\<forall>v \<in> set vs. variant_ok v) \<Longrightarrow> wr_len w + length (concat (map enc_variant vs)) + 10 \<le> 2 ^ 60 \<Longrightarrow>
     PutVariants w vs = Inr w' \<Longrightarrow> appends w (concat (map enc_variant vs)) w'"
proof (induction w v and w vs arbitrary: w' and w' rule: PutVariant_PutVariants.induct)
  case (1 w kv)
  show ?case
  proof (cases kv)
    case (V_Tuple vs)
    let ?n = "uint64_pack (word_of_nat (length vs))" and ?es = "concat (map enc_variant vs)"
    have "appends w (enc_kvt KVT_Tuple @ ?n @ ?es) w'"
    proof (rule put_kvt_then [OF _ 1(2)])
      show "bind_res (PutKeyValueType w KVT_Tuple) (\<lambda>w. bind_res (PutVarUint64 w (word_of_nat (length vs)))
          (\<lambda>w. PutVariants w vs)) = Inr w'" using 1(5) V_Tuple by simp
      fix v1 assume a: "wr_wf v1" "wr_len v1 + length (?n @ ?es) + 10 \<le> 2 ^ 60"
        "bind_res (PutVarUint64 v1 (word_of_nat (length vs))) (\<lambda>w. PutVariants w vs) = Inr w'"
        "PutKeyValueType w KVT_Tuple = Inr v1"
      then obtain w2 where w2: "PutVarUint64 v1 (word_of_nat (length vs)) = Inr w2" "PutVariants w2 vs = Inr w'"
        by (auto simp: res_simps)
      have ap: "appends v1 ?n w2"
        by (rule varuint_codec.put_appends [OF a(1) TrueI _ w2(1)]) (use a(2) in simp)
      have "appends w2 ?es w'"
        by (rule 1(1) [OF _ V_Tuple w2(1) appends_wf [OF ap] _ _ w2(2)])
          (use 1(3) a(2,4) appends_len [OF a(1) ap] V_Tuple in simp_all)
      with ap show "appends v1 (?n @ ?es) w'" by (rule appends_trans)
    qed (use 1(4) V_Tuple in simp)
    then show ?thesis by (simp add: V_Tuple)
  next
    case (V_String s)
    show ?thesis unfolding V_String enc_variant.simps
      by (rule put_kvt_then [OF PutVString_appends 1(2)]) (use 1(4,5) V_String in simp_all)
  next
    case (V_FloatVector v)
    show ?thesis unfolding V_FloatVector enc_variant.simps
      by (rule put_kvt_then [OF fv_codec.put_appends 1(2)]) (use 1(3-5) V_FloatVector in simp_all)
  next
    case (V_Uuid u)
    show ?thesis unfolding V_Uuid enc_variant.simps
      by (rule put_kvt_then [OF uuid_codec.put_appends 1(2)]) (use 1(4,5) V_Uuid in simp_all)
  next
    case (V_Int i)
    show ?thesis unfolding V_Int enc_variant.simps
      by (rule put_kvt_then [OF put_varint_appends(4) 1(2)]) (use 1(4,5) V_Int in simp_all)
  next
    case (V_Int64 i)
    show ?thesis unfolding V_Int64 enc_variant.simps
      by (rule put_kvt_then [OF varint_codec.put_appends 1(2)]) (use 1(4,5) V_Int64 in simp_all)
  next
    case (V_Bool b)
    show ?thesis unfolding V_Bool enc_variant.simps
      by (rule put_kvt_then [OF bool_codec.put_appends 1(2)]) (use 1(4,5) V_Bool in simp_all)
  next
    case (V_Double d)
    show ?thesis unfolding V_Double enc_variant.simps
      by (rule put_kvt_then [OF double_codec.put_appends 1(2)]) (use 1(4,5) V_Double in simp_all)
  next
    case (V_Float d)
    show ?thesis unfolding V_Float enc_variant.simps
      by (rule put_kvt_then [OF float_codec.put_appends 1(2)]) (use 1(4,5) V_Float in simp_all)
  next
    case V_Null
    show ?thesis unfolding V_Null enc_variant.simps
      by (rule PutKeyValueType_appends [OF 1(2)]) (use 1(4,5) V_Null in \<open>auto simp: res_simps\<close>)
  qed (use 1(3) in simp_all)
next
  case (2 w)
  then show ?case by (simp add: appends_refl)
next
  case (3 w v vs)
  from 3(6) obtain w1 where w1: "PutVariant w v = Inr w1" "PutVariants w1 vs = Inr w'"
    by (auto simp: res_simps simp del: PutVariant.simps)
  have ap: "appends w (enc_variant v) w1" using 3(1) [OF 3(3) _ _ w1(1)] 3(4,5) by simp
  have "appends w1 (concat (map enc_variant vs)) w'"
    using 3(2) [OF w1(1) appends_wf [OF ap] _ _ w1(2)] 3(4,5) appends_len [OF 3(3) ap] by simp
  with ap show ?case by (simp add: appends_trans)
qed

text \<open>What a tuple keeps are these bytes.\<close>

lemma enc_kvt_one: "length (enc_kvt t) = 1"
  by (cases t) (simp_all add: enc_kvt_def uint32_pack_def Let_def word_le_nat_alt)

lemma wire_size_enc: "variant_ok v \<Longrightarrow> wire_size v = length (enc_variant v)"
proof (induction v rule: wire_size.induct)
  case (8 w)
  then show ?case
    by (auto simp: enc_kvt_one enc_fv_def fv_header_def fv_wf_def fv_IsStrippedOrEmpty_def split: option.splits)
next
  case (9 vs)
  have "sum_list (map wire_size vs) = length (concat (map enc_variant vs))"
    using 9 by (simp add: length_concat cong: map_cong)
  then show ?case by (simp add: enc_kvt_one)
qed (simp_all add: enc_kvt_one boolean_pack_def enc_vstring_def enc_uuid_def)

lemma read_back_ok: "variant_ok v \<Longrightarrow> read_back v = v"
  by (cases v) (auto simp: read_back_def fv_wf_def split: option.splits intro: float_vector_view.expand)

lemma variant_of_array_enc:
  assumes "\<forall>v \<in> set vs. variant_ok v" "length (enc_variant (V_Tuple vs)) < 2 ^ 32"
  shows "variant_of_array vs = Inr (V_Tuple vs)"
proof -
  have "sum_list (map wire_size vs) = length (concat (map enc_variant vs))"
    using assms(1) by (simp add: length_concat wire_size_enc cong: map_cong)
  moreover have "map read_back vs = vs" using assms(1) by (simp add: read_back_ok map_idI)
  moreover have "V_WildString \<notin> set vs" using assms(1) by auto
  ultimately show ?thesis using assms(2) by (simp add: variant_of_array_def)
qed

text \<open>The reader returns the variant.\<close>

lemma after_kvt:
  assumes "fits (length pre) (length (enc_kvt t @ bs) + length rest)"
  shows "get_variant (Suc f) (ser_at pre ((enc_kvt t @ bs) @ rest)) =
    (let s = ser_at (pre @ enc_kvt t) (bs @ rest) in
     if t = KVT_Tuple then
       bind_res (GetVarUInt s) (\<lambda>(count, s).
       bind_res (hv_reserve (unat count)) (\<lambda>_.
       bind_res (get_variants f 0 (unat count) s) tuple_read))
     else if t = KVT_FloatVector then
       bind_res (GetFloatVectorView s) (\<lambda>(v, s). Inr (V_FloatVector v, s))
     else GetRawVariant t s)"
  using kvt_codec.get_enc [OF TrueI, of pre t "bs @ rest"] assms by (simp add: Let_def)

lemma get_variants_enc:
  assumes "\<And>v pre rest. v \<in> set vs \<Longrightarrow> fits (length pre) (length (enc_variant v) + length rest) \<Longrightarrow>
      get_variant f (ser_at pre (enc_variant v @ rest)) = Inr (v, ser_at (pre @ enc_variant v) rest)"
    "fits (length pre) (length (concat (map enc_variant vs)) + length rest)"
    "i + length vs \<le> hv_max_size"
  shows "get_variants f i (length vs) (ser_at pre (concat (map enc_variant vs) @ rest)) =
    Inr (vs, ser_at (pre @ concat (map enc_variant vs)) rest)"
  using assms
proof (induction vs arbitrary: i pre)
  case (Cons v vs)
  have "get_variant f (ser_at pre (enc_variant v @ concat (map enc_variant vs) @ rest)) =
      Inr (v, ser_at (pre @ enc_variant v) (concat (map enc_variant vs) @ rest))"
    by (rule Cons.prems(1)) (use Cons.prems(2) in simp_all)
  moreover have "get_variants f (i + 1) (length vs) (ser_at (pre @ enc_variant v) (concat (map enc_variant vs) @ rest)) =
      Inr (vs, ser_at ((pre @ enc_variant v) @ concat (map enc_variant vs)) rest)"
    by (rule Cons.IH) (use Cons.prems in simp_all)
  moreover have "i < hv_max_size" using Cons.prems(3) by simp
  ultimately show ?case by simp
qed simp

lemma scast_back: "ucast (scast (i :: 32 word) :: u64) = i"
  by (rule bit_word_eqI) (auto simp: bit_simps)

lemma get_variant_enc:
  "variant_ok v \<Longrightarrow> length (enc_variant v) < f \<Longrightarrow> fits (length pre) (length (enc_variant v) + length rest) \<Longrightarrow>
   get_variant f (ser_at pre (enc_variant v @ rest)) = Inr (v, ser_at (pre @ enc_variant v) rest)"
proof (induction v arbitrary: f pre rest rule: enc_variant.induct)
  case (1 i)
  then obtain g where f: "f = Suc g" by (cases f) auto
  show ?case unfolding f enc_variant.simps
    using 1(3) GetVarint_pack32 [of "pre @ enc_kvt KVT_Int" i rest]
    by (subst after_kvt) (simp_all add: scast_back)
next
  case (2 b)
  then obtain g where f: "f = Suc g" by (cases f) auto
  show ?case unfolding f enc_variant.simps
    using 2(3) bool_codec.get_enc [of "pre @ enc_kvt KVT_Bool" b rest]
    by (subst after_kvt) (auto simp: GetBool_def res_simps)
next
  case (3 i)
  then obtain g where f: "f = Suc g" by (cases f) auto
  show ?case unfolding f enc_variant.simps
    using 3(3) GetVarint_pack [of "pre @ enc_kvt KVT_Int64" i rest]
    by (subst after_kvt) simp_all
next
  case (4 d)
  then obtain g where f: "f = Suc g" by (cases f) auto
  show ?case unfolding f enc_variant.simps
    using 4(3) double_codec.get_enc [of "pre @ enc_kvt KVT_Double" d rest]
    by (subst after_kvt) simp_all
next
  case (5 d)
  then obtain g where f: "f = Suc g" by (cases f) auto
  show ?case unfolding f enc_variant.simps
    using 5(3) float_codec.get_enc [of "pre @ enc_kvt KVT_Float" d rest]
    by (subst after_kvt) simp_all
next
  case (6 s)
  then obtain g where f: "f = Suc g" by (cases f) auto
  show ?case unfolding f enc_variant.simps
    using 6(1,3) GetPVString_enc [of s "pre @ enc_kvt KVT_String" rest]
    by (subst after_kvt) (simp_all add: variant_of_p_string_def)
next
  case 8
  then obtain g where f: "f = Suc g" by (cases f) auto
  show ?case unfolding f enc_variant.simps
    using 8(3) after_kvt [of pre KVT_Null "[]" rest g] by simp
next
  case (9 u)
  then obtain g where f: "f = Suc g" by (cases f) auto
  show ?case unfolding f enc_variant.simps
    using 9(1,3) uuid_codec.get_enc [of "pre @ enc_kvt KVT_Uuid" u rest] uuid_variant_roundtrip [of u]
    by (subst after_kvt) (simp_all add: variant_of_uuid_def)
next
  case (10 v)
  then obtain g where f: "f = Suc g" by (cases f) auto
  show ?case unfolding f enc_variant.simps
    using 10(1,3) fv_codec.get_enc [of v "pre @ enc_kvt KVT_FloatVector" rest]
    by (subst after_kvt) simp_all
next
  case (11 vs)
  then obtain g where f: "f = Suc g" by (cases f) auto
  let ?n = "uint64_pack (word_of_nat (length vs))" and ?es = "concat (map enc_variant vs)"
  have "length vs < 2 ^ 63" using length_le_concat [of vs] 11(4) by simp
  then have u: "unat (word_of_nat (length vs) :: u64) = length vs" by (subst unat_small) simp_all
  have cnt: "GetVarUInt (ser_at (pre @ enc_kvt KVT_Tuple) (?n @ ?es @ rest)) =
      Inr (word_of_nat (length vs), ser_at ((pre @ enc_kvt KVT_Tuple) @ ?n) (?es @ rest))"
    using GetVarUInt_pack [of "pre @ enc_kvt KVT_Tuple" "word_of_nat (length vs)" "?es @ rest"] 11(4) by simp
  have els: "get_variants g 0 (length vs) (ser_at ((pre @ enc_kvt KVT_Tuple) @ ?n) (?es @ rest)) =
      Inr (vs, ser_at (((pre @ enc_kvt KVT_Tuple) @ ?n) @ ?es) rest)"
  proof (rule get_variants_enc)
    fix v and p r :: bytes assume v: "v \<in> set vs" "fits (length p) (length (enc_variant v) + length r)"
    have "length (enc_variant v) \<le> length ?es" by (rule concat_len_ge [OF v(1)])
    then have "length (enc_variant v) < g" using 11(3) enc_kvt_len [of KVT_Tuple] by (simp add: f)
    moreover have "variant_ok v" using 11(2) v(1) by simp
    ultimately show "get_variant g (ser_at p (enc_variant v @ r)) = Inr (v, ser_at (p @ enc_variant v) r)"
      using 11(1) [OF v(1)] v(2) by blast
  qed (use 11(2,4) in simp_all)
  have "hv_reserve (length vs) = Inr ()" using 11(2) by (simp add: hv_reserve_def hv_max_size_def)
  moreover have "variant_of_array vs = Inr (V_Tuple vs)"
    by (rule variant_of_array_enc) (use 11(2,4) in simp_all)
  ultimately show ?case unfolding f enc_variant.simps
    using 11(4) cnt els u by (subst after_kvt) (simp_all add: tuple_read_def)
qed simp_all

interpretation variant_codec: wire_codec PutVariant GetVariant enc_variant variant_ok
proof unfold_locales
  fix v and pre rest :: bytes
  assume a: "variant_ok v" "fits (length pre) (length (enc_variant v) + length rest)"
  show "GetVariant (ser_at pre (enc_variant v @ rest)) = Inr (v, ser_at (pre @ enc_variant v) rest)"
    unfolding GetVariant_def by (intro get_variant_enc [OF a(1) _ a(2)]) simp
qed (auto intro: PutVariant_appends(1))

text \<open>
  C21. Variants on the wire: whatever a successful \<open>PutVariant\<close> writes after the contents of a
  buffer, \<open>GetVariant\<close> started there returns the variant, nested tuples, float vectors and UUIDs included,
  and stops right where the writer stopped, whatever is written after it, as long as fewer than \<open>2 ^ 32\<close> bytes
  are before the reader.
\<close>

theorem variant_roundtrip:
  assumes "wr_wf w" "variant_ok v" "wr_len w + length (enc_variant v) + 10 \<le> 2 ^ 60"
    "PutVariant w v = Inr w'" "length (enc_variant v) + length rest < 2 ^ 32"
  shows "GetVariant (ser_at (wr_Slice w) (drop (wr_len w) (wr_Slice w') @ rest)) =
    Inr (v, ser_at (wr_Slice w') rest)"
  using assms by (rule variant_codec.put_get)

theorem variant_roundtrip_witness:
  "\<exists>w'. PutVariant (mk_WrSerializer (replicate 256 0) (mk_GrowthPolicy 0)) (V_Tuple [V_Bool True, V_Null]) = Inr w' \<and>
     GetVariant (ser_at [] (drop 0 (wr_Slice w') @ [])) = Inr (V_Tuple [V_Bool True, V_Null], ser_at (wr_Slice w') [])"
proof -
  let ?w = "mk_WrSerializer (replicate 256 0) (mk_GrowthPolicy 0)"
  let ?v = "V_Tuple [V_Bool True, V_Null]"
  have w: "wr_wf ?w" by (simp add: mk_WrSerializer_def wr_wf_def)
  have e: "enc_variant ?v = [11, 2, 3, 1, 4]"
    by (simp add: enc_kvt_def uint32_pack_def uint64_pack_def boolean_pack_def)
  then have l: "wr_len ?w + length (enc_variant ?v) + 10 \<le> 2 ^ 60" by (simp add: mk_WrSerializer_def)
  obtain w' where p: "PutVariant ?w ?v = Inr w'"
    by (simp add: PutKeyValueType_def PutVarUint32_def PutVarUint64_def PutBool_def grow_append_def grow_def
        wr_append_def wr_copy_def mk_WrSerializer_def uint32_pack_def uint64_pack_def boolean_pack_def)
  have k: "length (enc_variant ?v) + length ([] :: bytes) < 2 ^ 32" unfolding e by simp
  from variant_roundtrip [OF w _ l p k] p show ?thesis
    by (simp add: mk_WrSerializer_def wr_Slice_def hv_max_size_def)
qed

subsection \<open>Strings and slices written in place\<close>

lemma uint32ByteSize_length: "uint32ByteSize v = length (uint32_pack v)"
  by (simp add: uint32ByteSize_def uint32_pack_def Let_def)

lemma wr_copy_ok:
  assumes "wr_wf w" "pos + length bs \<le> wr_len w"
  obtains w' where "wr_copy w pos bs = Inr w'" "wr_wf w'" "wr_len w' = wr_len w" "wr_maxCap w' = wr_maxCap w"
    "wr_Slice w' = take pos (wr_Slice w) @ bs @ drop (pos + length bs) (wr_Slice w)" 
    "wr_buf w' = take pos (wr_buf w) @ bs @ drop (pos + length bs) (wr_buf w)" "wr_cap w' = wr_cap w"
proof -
  have c: "pos + length bs \<le> wr_cap w" using assms by (simp add: wr_wf_def)
  let ?w = "w\<lparr>wr_buf := take pos (wr_buf w) @ bs @ drop (pos + length bs) (wr_buf w)\<rparr>"
  have "wr_Slice ?w = take pos (wr_Slice w) @ bs @ drop (pos + length bs) (wr_Slice w)"
  proof -
    have "pos \<le> wr_len w" "wr_len w \<le> length (wr_buf w)" using assms by (simp_all add: wr_wf_def)
    then have "min (length (wr_buf w)) pos = pos" "min (wr_len w) pos = pos" "min pos (wr_len w) = pos" by simp_all
    moreover have "length bs \<le> wr_len w - pos" using assms(2) by simp
    ultimately show ?thesis by (simp add: wr_Slice_def drop_take)
  qed
  moreover have "wr_wf ?w" using assms c by (auto simp: wr_wf_def)
  ultimately show ?thesis using c by (intro that [of ?w]) (simp_all add: wr_copy_def)
qed

lemma VStringHelper_End_appends:
  assumes "wr_wf w" "appends w body w1" "length body < 2 ^ 31" "wr_len w1 + 10 \<le> 2 ^ 60"
    "VStringHelper_End (StartVString w) w1 = Inr w2"
  shows "appends w (enc_vstring body) w2"
proof -
  let ?pos = "wr_len w"
  let ?size = "word_of_nat (length body) :: 32 word"
  have wf1: "wr_wf w1" and len1: "wr_len w1 = ?pos + length body"
    and s1: "wr_Slice w1 = wr_Slice w @ body" and m1: "wr_maxCap w1 = wr_maxCap w"
    using assms(2) appends_len [OF assms(1,2)] by (simp_all add: appends_def)
  have lw: "length (wr_Slice w) = ?pos" by (rule wr_Slice_length [OF assms(1)])
  have sz: "word_of_int (int (wr_len w1) - int ?pos) = ?size" by (simp add: len1)
  have ss: "sint ?size = int (length body)"
    using assms(3) by (simp add: signed_of_nat signed_take_bit_int_eq_self)
  note red = assms(5) [unfolded VStringHelper_End_def StartVString_def Let_def sz ss]
  show ?thesis
  proof (cases "body = []")
    case True
    have c10: "wr_len w1 + 1 \<le> 2 ^ 60" using assms(4) by simp
    from red True obtain w3 where w3: "grow w1 1 = Inr w3"
      and w2: "bind_res (wr_copy w3 ?pos (uint32_pack 0)) (\<lambda>w. Inr (w\<lparr>wr_len := wr_len w + 1\<rparr>)) = Inr w2"
      by (auto simp: res_simps)
    have g: "wr_wf w3" "wr_Slice w3 = wr_Slice w1" "wr_len w3 = wr_len w1" "wr_maxCap w3 = wr_maxCap w1"
      using grow_cases [OF wf1 c10] w3 by (auto split: if_splits)
    have e: "uint32_pack 0 = [0]" by (simp add: uint32_pack_def)
    have a: "wr_append w3 [0] = Inr w2" using w2 g(3) len1 True by (simp add: wr_append_def e)
    have "wr_len w3 + length [0 :: u8] \<le> wr_cap w3"
      using w2 len1 True g(3) by (auto simp: wr_copy_def e split: if_splits)
    from wr_append_ok [OF g(1) this] a have "appends w3 [0] w2" by auto
    moreover have "enc_vstring body = [0]" by (simp add: enc_vstring_def True e)
    ultimately show ?thesis using g s1 m1 True by (simp add: appends_def)
  next
    case False
    let ?n = "uint32ByteSize ?size"
    have n: "?n \<le> 5" "length (uint32_pack ?size) = ?n"
      using uint32_pack_length [of ?size] by (simp_all add: uint32ByteSize_length)
    have c10: "wr_len w1 + ?n \<le> 2 ^ 60" using assms(4) n by simp
    from red False obtain w3 where w3: "grow w1 ?n = Inr w3"
      and w2: "bind_res (wr_copy (w3\<lparr>wr_len := wr_len w3 + ?n\<rparr>) (?pos + ?n) (take (length body) (drop ?pos (wr_buf w3))))
        (\<lambda>w. wr_copy w ?pos (uint32_pack ?size)) = Inr w2"
      by (auto simp: bind_res_Inr)
    have g: "wr_wf w3" "wr_Slice w3 = wr_Slice w1" "wr_len w3 = wr_len w1" "wr_maxCap w3 = wr_maxCap w1"
      using grow_cases [OF wf1 c10] w3 by (auto split: if_splits)
    have c3: "wr_len w1 + ?n \<le> wr_cap w3"
      using grow_cases [OF wf1 c10] w3 by (auto split: if_splits)
    have b3: "take (length body) (drop ?pos (wr_buf w3)) = body"
    proof -
      have "take (?pos + length body) (wr_buf w3) = wr_Slice w @ body"
        using g(2,3) s1 len1 by (simp add: wr_Slice_def)
      then have "drop ?pos (take (?pos + length body) (wr_buf w3)) = body" using lw by simp
      then show ?thesis by (simp add: drop_take)
    qed
    have p3: "take ?pos (wr_buf w3) = wr_Slice w"
    proof -
      have "take ?pos (take (?pos + length body) (wr_buf w3)) = take ?pos (wr_Slice w @ body)"
        using g(2,3) s1 len1 by (simp add: wr_Slice_def)
      then show ?thesis using lw by simp
    qed
    let ?w4 = "w3\<lparr>wr_len := wr_len w3 + ?n\<rparr>"
    have wf4: "wr_wf ?w4" using g c3 by (simp add: wr_wf_def)
    have f4: "(?pos + ?n) + length body \<le> wr_len ?w4" using g(3) len1 by simp
    obtain w5 where w5: "wr_copy ?w4 (?pos + ?n) body = Inr w5" "wr_wf w5" "wr_len w5 = wr_len ?w4"
      "wr_maxCap w5 = wr_maxCap ?w4"
      "wr_buf w5 = take (?pos + ?n) (wr_buf ?w4) @ body @ drop (?pos + ?n + length body) (wr_buf ?w4)"
      using wr_copy_ok [OF wf4 f4] by metis
    have f5: "?pos + length (uint32_pack ?size) \<le> wr_len w5" using w5(3) g(3) len1 n by simp
    obtain w6 where w6: "wr_copy w5 ?pos (uint32_pack ?size) = Inr w6" "wr_wf w6" "wr_len w6 = wr_len w5"
      "wr_maxCap w6 = wr_maxCap w5"
      "wr_buf w6 = take ?pos (wr_buf w5) @ uint32_pack ?size @ drop (?pos + length (uint32_pack ?size)) (wr_buf w5)"
      using wr_copy_ok [OF w5(2) f5] by metis
    have eq: "w2 = w6" using w2 by (simp add: b3 w5(1) w6(1))
    have l3: "?pos + ?n \<le> length (wr_buf w3)" using g(1) c3 len1 by (simp add: wr_wf_def)
    have "take ?pos (wr_buf w5) = wr_Slice w" using w5(5) p3 l3 by (simp add: min_def)
    moreover have "drop (?pos + ?n) (wr_buf w5) = body @ drop (?pos + ?n + length body) (wr_buf w3)"
      using w5(5) l3 by simp
    ultimately have "wr_Slice w6 = wr_Slice w @ uint32_pack ?size @ body"
      using w6(3,5) w5(3) g(3) len1 n(2) lw by (simp add: wr_Slice_def)
    then show ?thesis using w6 w5(4) g(4) m1 by (simp add: appends_def enc_vstring_def eq)
  qed
qed

lemma SliceHelper_end_appends:
  assumes "wr_wf w" "wr_len w + 4 \<le> 2 ^ 60" "StartSlice w = Inr (pos, w0)" "appends w0 body w1"
    "length body < 2 ^ 32" "SliceHelper_end pos w1 = Inr w2"
  shows "appends w (le_bytes 4 (length body) @ body) w2"
proof -
  from assms(3) have pos: "pos = wr_len w" and p0: "PutUInt32 w 0 = Inr w0"
    by (auto simp: StartSlice_def Let_def bind_res_Inr)
  have ap0: "appends w (le_bytes 4 0) w0"
    by (rule grow_append_appends [OF assms(1), where sz = 4]) (use p0 assms(2) in \<open>simp_all add: PutUInt32_def\<close>)
  have l0: "wr_len w0 = wr_len w + 4" using appends_len [OF assms(1) ap0] by simp
  have l1: "wr_len w1 = wr_len w + 4 + length body"
    using appends_len [OF appends_wf [OF ap0] assms(4)] l0 by simp
  have s1: "wr_Slice w1 = wr_Slice w @ le_bytes 4 0 @ body" and wf1: "wr_wf w1"
    and m1: "wr_maxCap w1 = wr_maxCap w"
    using ap0 assms(4) by (simp_all add: appends_def)
  have lw: "length (wr_Slice w) = wr_len w" by (rule wr_Slice_length [OF assms(1)])
  have sz: "unat (word_of_int (int (wr_len w1) - int pos - 4) :: u32) = length body"
    using assms(5) by (simp add: l1 pos unat_of_nat)
  have "pos + length (le_bytes 4 (length body)) \<le> wr_len w1" by (simp add: pos l1)
  from wr_copy_ok [OF wf1 this] obtain w' where w': "wr_copy w1 pos (le_bytes 4 (length body)) = Inr w'"
    "wr_wf w'" "wr_maxCap w' = wr_maxCap w1"
    "wr_Slice w' = take pos (wr_Slice w1) @ le_bytes 4 (length body) @ drop (pos + length (le_bytes 4 (length body))) (wr_Slice w1)"
    by blast
  have "w2 = w'" using assms(6) w'(1) unfolding SliceHelper_end_def Let_def sz by simp
  then show ?thesis using w' s1 m1 lw by (simp add: appends_def pos)
qed

text \<open>
  C23. Strings written in place: ending a string whose body was written after \<open>StartVString\<close> leaves
  exactly what \<open>PutVString\<close> of the body would have written (the length prefix has the size reserved
  for it), an empty body included; and a reader gets the body back, as long as fewer than \<open>2 ^ 32\<close> bytes are
  before it.
\<close>

theorem vstring_in_place:
  assumes "wr_wf w" "appends w body w1" "length body < 2 ^ 31" "wr_len w1 + 10 \<le> 2 ^ 60"
    "VStringHelper_End (StartVString w) w1 = Inr w2"
  shows "wr_Slice w2 = wr_Slice w @ string_pack (Some body) \<and>
    (length (string_pack (Some body)) + length rest < 2 ^ 32 \<longrightarrow> GetVString (ser_at (wr_Slice w) (string_pack (Some body) @ rest)) = Inr (body, ser_at (wr_Slice w2) rest))"
proof -
  have a: "wr_Slice w2 = wr_Slice w @ enc_vstring body"
    using VStringHelper_End_appends [OF assms(1-5)] by (simp add: appends_def)
  have "fits (length (wr_Slice w)) (length (enc_vstring body) + length rest)"
    if "length (enc_vstring body) + length rest < 2 ^ 32"
    using wr_Slice_length [OF assms(1)] that assms(4) appends_len [OF assms(1,2)] by simp
  from vstring_codec.get_enc [OF _ this] assms(3) a show ?thesis by (simp add: string_pack_enc)
qed

theorem vstring_in_place_witness:
  "wr_Slice \<lparr>wr_buf = [1, 0x61, 0, 0], wr_len = 2, wr_cap = 4, wr_kind = ExternalBuf, wr_inBuf = [], wr_maxCap = 4096\<rparr> =
     wr_Slice (mk_WrSerializer_ext [] [0, 0, 0, 0] 4096) @ string_pack (Some [0x61])"
proof -
  let ?w = "mk_WrSerializer_ext [] [0, 0, 0, 0] 4096"
  let ?w1 = "\<lparr>wr_buf = [0x61, 0, 0, 0], wr_len = 1, wr_cap = 4, wr_kind = ExternalBuf, wr_inBuf = [], wr_maxCap = 4096\<rparr>"
  let ?w2 = "\<lparr>wr_buf = [1, 0x61, 0, 0], wr_len = 2, wr_cap = 4, wr_kind = ExternalBuf, wr_inBuf = [], wr_maxCap = 4096\<rparr>"
  have w: "wr_wf ?w" by (simp add: mk_WrSerializer_ext_def wr_wf_def)
  have ap: "appends ?w [0x61] ?w1" by (simp add: appends_def mk_WrSerializer_ext_def wr_wf_def wr_Slice_def)
  have e: "VStringHelper_End (StartVString ?w) ?w1 = Inr ?w2"
    by (simp add: VStringHelper_End_def StartVString_def mk_WrSerializer_ext_def Let_def uint32ByteSize_def
        uint32_pack_def grow_def wr_copy_def word_le_nat_alt)
  show ?thesis using vstring_in_place [OF w ap _ _ e, of "[]"] by simp
qed

end
