(* ===== verification/WireLists.thy ===== *)
theory WireLists
  imports WrSerial
begin

section \<open>Codecs of composed values\<close>

text \<open>
  Values the code writes field by field and element by element: a codec of the first value and, depending
  on it, of the second gives a codec of the pair; a codec of an element gives one of a list whose length
  is known to the reader.
\<close>

subsection \<open>Pairs\<close>

definition write_pair :: "(wr_serializer \<Rightarrow> 'a \<Rightarrow> wr_serializer res) \<Rightarrow> ('a \<Rightarrow> wr_serializer \<Rightarrow> 'b \<Rightarrow> wr_serializer res) \<Rightarrow>
    wr_serializer \<Rightarrow> 'a \<times> 'b \<Rightarrow> wr_serializer res" where
  "write_pair p q w ab = bind_res (p w (fst ab)) (\<lambda>w. q (fst ab) w (snd ab))"

definition read_pair :: "(serializer \<Rightarrow> ('a \<times> serializer) res) \<Rightarrow> ('a \<Rightarrow> serializer \<Rightarrow> ('b \<times> serializer) res) \<Rightarrow>
    serializer \<Rightarrow> (('a \<times> 'b) \<times> serializer) res" where
  "read_pair g h s = bind_res (g s) (\<lambda>(a, s). bind_res (h a s) (\<lambda>(b, s). Inr ((a, b), s)))"

lemma then_codec:
  assumes a: "wire_codec p g e ok" and b: "\<And>a. ok a \<Longrightarrow> wire_codec (q a) (h a) (f a) (ok' a)"
  shows "wire_codec (write_pair p q) (read_pair g h) (\<lambda>ab. e (fst ab) @ f (fst ab) (snd ab)) (\<lambda>ab. ok (fst ab) \<and> ok' (fst ab) (snd ab))"
proof unfold_locales
  fix w ab w'
  assume w: "wr_wf w" and ok: "ok (fst ab) \<and> ok' (fst ab) (snd ab)"
    and l: "wr_len w + length (e (fst ab) @ f (fst ab) (snd ab)) + 10 \<le> 2 ^ 60" and put: "write_pair p q w ab = Inr w'"
  obtain w1 where w1: "p w (fst ab) = Inr w1" "q (fst ab) w1 (snd ab) = Inr w'"
    using put by (auto simp: write_pair_def res_simps)
  have 1: "appends w (e (fst ab)) w1"
    by (rule wire_codec.put_appends [OF a w _ _ w1(1)]) (use ok l in auto)
  have "appends w1 (f (fst ab) (snd ab)) w'"
  proof (rule wire_codec.put_appends [OF b appends_wf [OF 1] _ _ w1(2)])
    show "wr_len w1 + length (f (fst ab) (snd ab)) + 10 \<le> 2 ^ 60" using l appends_len [OF w 1] by simp
  qed (use ok in auto)
  then show "appends w (e (fst ab) @ f (fst ab) (snd ab)) w'" by (rule appends_trans [OF 1])
next
  fix ab and pre rest :: bytes
  assume ok: "ok (fst ab) \<and> ok' (fst ab) (snd ab)"
    and l: "fits (length pre) (length (e (fst ab) @ f (fst ab) (snd ab)) + length rest)"
  have "g (ser_at pre (e (fst ab) @ f (fst ab) (snd ab) @ rest)) =
      Inr (fst ab, ser_at (pre @ e (fst ab)) (f (fst ab) (snd ab) @ rest))"
    by (rule wire_codec.get_enc [OF a]) (use ok l in auto)
  moreover have "h (fst ab) (ser_at (pre @ e (fst ab)) (f (fst ab) (snd ab) @ rest)) =
      Inr (snd ab, ser_at ((pre @ e (fst ab)) @ f (fst ab) (snd ab)) rest)"
    by (rule wire_codec.get_enc [OF b]) (use ok l in auto)
  ultimately show "read_pair g h (ser_at pre ((e (fst ab) @ f (fst ab) (snd ab)) @ rest)) =
      Inr (ab, ser_at (pre @ e (fst ab) @ f (fst ab) (snd ab)) rest)"
    by (simp add: read_pair_def)
qed

text \<open>A value known on both sides takes no bytes; a codec carries over to an isomorphic type.\<close>

lemma const_codec: "wire_codec (\<lambda>w _. Inr w) (\<lambda>s. Inr (v, s)) (\<lambda>_. []) (\<lambda>x. x = v)"
  by unfold_locales (simp_all add: appends_refl)

lemma iso_codec:
  assumes c: "wire_codec p g e ok" and i: "\<And>x. ok' x \<Longrightarrow> ok (to_wire x) \<and> of_wire (to_wire x) = x"
  shows "wire_codec (\<lambda>w x. p w (to_wire x)) (\<lambda>s. bind_res (g s) (\<lambda>(a, s). Inr (of_wire a, s))) (\<lambda>x. e (to_wire x)) ok'"
proof unfold_locales
  fix x and pre rest :: bytes assume "ok' x" "fits (length pre) (length (e (to_wire x)) + length rest)"
  then show "bind_res (g (ser_at pre (e (to_wire x) @ rest))) (\<lambda>(a, s). Inr (of_wire a, s)) = Inr (x, ser_at (pre @ e (to_wire x)) rest)"
    using wire_codec.get_enc [OF c] i [of x] by simp
qed (use wire_codec.put_appends [OF c] i in blast)

subsection \<open>Lists\<close>

fun put_list :: "(wr_serializer \<Rightarrow> 'a \<Rightarrow> wr_serializer res) \<Rightarrow> wr_serializer \<Rightarrow> 'a list \<Rightarrow> wr_serializer res" where
  "put_list p w [] = Inr w"
| "put_list p w (x # xs) = bind_res (p w x) (\<lambda>w. put_list p w xs)"

fun get_list :: "(serializer \<Rightarrow> ('a \<times> serializer) res) \<Rightarrow> nat \<Rightarrow> serializer \<Rightarrow> ('a list \<times> serializer) res" where
  "get_list g 0 s = Inr ([], s)"
| "get_list g (Suc n) s =
     bind_res (g s) (\<lambda>(x, s). bind_res (get_list g n s) (\<lambda>(xs, s). Inr (x # xs, s)))"

context wire_codec
begin

lemma put_list_appends:
  "wr_wf w \<Longrightarrow> list_all ok xs \<Longrightarrow> wr_len w + length (concat (map enc xs)) + 10 \<le> 2 ^ 60 \<Longrightarrow>
   put_list put w xs = Inr w' \<Longrightarrow> appends w (concat (map enc xs)) w'"
proof (induction xs arbitrary: w)
  case Nil
  then show ?case by (simp add: appends_refl)
next
  case (Cons x xs)
  obtain w1 where w1: "put w x = Inr w1" "put_list put w1 xs = Inr w'" using Cons.prems(4) by (auto simp: res_simps)
  have 1: "appends w (enc x) w1" by (rule put_appends [OF Cons.prems(1) _ _ w1(1)]) (use Cons.prems in auto)
  have "appends w1 (concat (map enc xs)) w'"
    by (rule Cons.IH [OF appends_wf [OF 1] _ _ w1(2)]) (use Cons.prems appends_len [OF Cons.prems(1) 1] in auto)
  then show ?case using appends_trans [OF 1] by simp
qed

lemma get_list_enc:
  "list_all ok xs \<Longrightarrow> fits (length pre) (length (concat (map enc xs)) + length rest) \<Longrightarrow>
   get_list get (length xs) (ser_at pre (concat (map enc xs) @ rest)) = Inr (xs, ser_at (pre @ concat (map enc xs)) rest)"
proof (induction xs arbitrary: pre)
  case (Cons x xs)
  have "get (ser_at pre (enc x @ concat (map enc xs) @ rest)) = Inr (x, ser_at (pre @ enc x) (concat (map enc xs) @ rest))"
    by (rule get_enc) (use Cons.prems in auto)
  moreover have "get_list get (length xs) (ser_at (pre @ enc x) (concat (map enc xs) @ rest)) =
      Inr (xs, ser_at ((pre @ enc x) @ concat (map enc xs)) rest)"
    by (rule Cons.IH) (use Cons.prems in auto)
  ultimately show ?case by simp
qed simp

lemma list_codec: "wire_codec (put_list put) (get_list get n) (\<lambda>xs. concat (map enc xs)) (\<lambda>xs. length xs = n \<and> list_all ok xs)"
  by unfold_locales (auto intro: put_list_appends get_list_enc)

end

text \<open>A list behind its length as a 64-bit varint.\<close>

lemma counted_codec:
  assumes "wire_codec p g e ok"
  shows "wire_codec (\<lambda>w xs. bind_res (PutVarUint64 w (word_of_nat (length xs))) (\<lambda>w. put_list p w xs))
    (\<lambda>s. bind_res (GetVarUInt s) (\<lambda>(n, s). get_list g (unat n) s))
    (\<lambda>xs. uint64_pack (word_of_nat (length xs)) @ concat (map e xs))
    (\<lambda>xs. length xs < 2 ^ 64 \<and> list_all ok xs)"
proof -
  have pair: "wire_codec (write_pair PutVarUint64 (\<lambda>_. put_list p)) (read_pair GetVarUInt (\<lambda>n. get_list g (unat n)))
      (\<lambda>ab. uint64_pack (fst ab) @ concat (map e (snd ab))) (\<lambda>ab. True \<and> (length (snd ab) = unat (fst ab) \<and> list_all ok (snd ab)))"
    by (rule then_codec [OF varuint_codec.wire_codec_axioms]) (rule wire_codec.list_codec [OF assms])
  have "wire_codec (\<lambda>w xs. write_pair PutVarUint64 (\<lambda>_. put_list p) w (word_of_nat (length xs), xs))
      (\<lambda>s. bind_res (read_pair GetVarUInt (\<lambda>n. get_list g (unat n)) s) (\<lambda>(a, s). Inr (snd a, s)))
      (\<lambda>xs. (\<lambda>ab. uint64_pack (fst ab) @ concat (map e (snd ab))) (word_of_nat (length xs), xs))
      (\<lambda>xs. length xs < 2 ^ 64 \<and> list_all ok xs)"
    by (rule iso_codec [where of_wire = snd, OF pair]) (simp add: unat_small)
  moreover have "bind_res (read_pair GetVarUInt (\<lambda>n. get_list g (unat n)) s) (\<lambda>(a, s). Inr (snd a, s)) =
      bind_res (GetVarUInt s) (\<lambda>(n, s). get_list g (unat n) s)" for s
    by (auto simp: read_pair_def bind_res_def split: sum.splits)
  ultimately show ?thesis by (simp add: write_pair_def)
qed


subsection \<open>Strings\<close>

text \<open>A string of characters on the wire.\<close>

definition string_bytes :: "string \<Rightarrow> bytes" where
  "string_bytes s = map (\<lambda>c. word_of_nat (of_char c)) s"

definition bytes_string :: "bytes \<Rightarrow> string" where
  "bytes_string bs = map (\<lambda>b. char_of (unat b)) bs"

lemma bytes_string_back [simp]: "bytes_string (string_bytes s) = s"
proof -
  have "unat (word_of_nat (of_char c) :: u8) = of_char c" for c :: char
    using nat_of_char_less_256 [of c] by (simp add: unat_of_nat take_bit_nat_eq_self)
  then show ?thesis by (simp add: bytes_string_def string_bytes_def comp_def)
qed

lemma string_bytes_length [simp]: "length (string_bytes s) = length s"
  by (simp add: string_bytes_def)

definition put_string :: "wr_serializer \<Rightarrow> string \<Rightarrow> wr_serializer res" where
  "put_string w s = PutVString w (string_bytes s)"

definition get_string :: "serializer \<Rightarrow> (string \<times> serializer) res" where
  "get_string s = bind_res (GetVString s) (\<lambda>(b, s). Inr (bytes_string b, s))"

interpretation string_codec: wire_codec put_string get_string "\<lambda>s. enc_vstring (string_bytes s)" "\<lambda>s. length s < 2 ^ 32"
proof -
  have "wire_codec (\<lambda>w s. PutVString w (string_bytes s)) (\<lambda>s. bind_res (GetVString s) (\<lambda>(b, s). Inr (bytes_string b, s)))
      (\<lambda>s. enc_vstring (string_bytes s)) (\<lambda>s. length s < 2 ^ 32)"
    by (rule iso_codec [OF vstring_codec.wire_codec_axioms]) simp
  then show "wire_codec put_string get_string (\<lambda>s. enc_vstring (string_bytes s)) (\<lambda>s. length s < 2 ^ 32)"
    unfolding put_string_def get_string_def .
qed

end
