(* ===== verification/Cjson.thy ===== *)
theory Cjson
  imports WireLists
begin

section \<open>CJSON\<close>

text \<open>
  \<open>core/cjson/cjsontools.h\<close> and \<open>.cc\<close>, \<open>core/cjson/cjsonbuilder.h\<close> and \<open>.cc\<close>, \<open>core/cjson/sparse_validator.h\<close>: the
  binary form of documents. A document is a tag word with the type of the value, the tag of its name and,
  for a value that is kept in an index, the number of the field; then the value itself. Here are the
  builder that writes documents, with the copying, skipping and counting of values that were written, and
  a reference notion of a document with its bytes, against which they are measured.
\<close>

subsection \<open>Types of values\<close>

text \<open>The type read from a tag word may be no type at all.\<close>

definition tag_of_number :: "u32 \<Rightarrow> TagType option" where
  "tag_of_number n = find (\<lambda>t. tag_number t = n)
     [TAG_VARINT, TAG_DOUBLE, TAG_STRING, TAG_BOOL, TAG_NULL, TAG_ARRAY, TAG_OBJECT, TAG_END, TAG_UUID, TAG_FLOAT]"

fun same_tags :: "TagType \<Rightarrow> variant list \<Rightarrow> TagType res" where
  "same_tags type [] = Inr type"
| "same_tags type (v # vs) =
     bind_res (ToTagType (variant_Type v)) (\<lambda>t. if type \<noteq> t then Inr TAG_OBJECT else same_tags type vs)"

definition arrayKvType2Tag :: "variant list \<Rightarrow> TagType res" where
  "arrayKvType2Tag values =
     (case values of [] \<Rightarrow> Inr TAG_NULL | v # vs \<Rightarrow> bind_res (ToTagType (variant_Type v)) (\<lambda>t. same_tags t vs))"

definition putTag :: "wr_serializer \<Rightarrow> u16 \<Rightarrow> TagType \<Rightarrow> int \<Rightarrow> wr_serializer res" where
  "putTag w tagName tagType field = bind_res (mk_ctag (tag_number tagType) tagName field) (PutCTag w)"

text \<open>\<open>VariantArray::IsArrayValue\<close> is the flag \<open>isArray\<close>.\<close>

definition putCJsonRef :: "TagType \<Rightarrow> u16 \<Rightarrow> int \<Rightarrow> bool \<Rightarrow> variant list \<Rightarrow> wr_serializer \<Rightarrow> wr_serializer res" where
  "putCJsonRef tagType tagName tagField isArray values w =
     (if isArray
      then bind_res (putTag w tagName TAG_ARRAY tagField) (\<lambda>w. PutVarUint32 w (word_of_nat (length values)))
      else if length values = 1 then putTag w tagName tagType tagField
      else Inr w)"

subsection \<open>Validating and copying\<close>

text \<open>
  What a validator is given: the value as it was read (a number as \<open>int64_t\<close>). The validators of sparse
  indexes know the type, whether the index is an array, and the number of elements it wants.
\<close>

definition validateArrayFieldRestrictions :: "bool \<Rightarrow> nat \<Rightarrow> nat \<Rightarrow> unit res" where
  "validateArrayFieldRestrictions isArray fieldArrayDim arraySize =
     (if isArray \<and> arraySize > 0 \<and> fieldArrayDim > 0 \<and> fieldArrayDim \<noteq> arraySize then Inl (Err ErrParams) else Inr ())"

record sparse_validator =
  sv_type :: key_value_type
  sv_isArray :: bool
  sv_arrayDim :: nat

definition mk_SparseValidator :: "key_value_type \<Rightarrow> bool \<Rightarrow> nat \<Rightarrow> bool \<Rightarrow> sparse_validator res" where
  "mk_SparseValidator t a dim inArray =
     (if inArray \<and> \<not> a then Inl (Err ErrLogic) else Inr \<lparr>sv_type = t, sv_isArray = a, sv_arrayDim = dim\<rparr>)"

definition sv_number_types :: "key_value_type list" where
  "sv_number_types = [KVT_Undefined, KVT_Double, KVT_Int, KVT_Bool, KVT_Int64, KVT_String, KVT_Float]"

definition sv_scalar :: "sparse_validator \<Rightarrow> bool \<Rightarrow> unit res" where
  "sv_scalar sv typeFits = bind_res (validateArrayFieldRestrictions (sv_isArray sv) (sv_arrayDim sv) 1) (\<lambda>_. guard_res typeFits (Err ErrLogic))"

fun sv_check :: "sparse_validator \<Rightarrow> variant \<Rightarrow> unit res" where
  "sv_check sv (V_Int _) = sv_scalar sv (sv_type sv \<in> set sv_number_types)"
| "sv_check sv (V_Int64 _) = sv_scalar sv (sv_type sv \<in> set sv_number_types)"
| "sv_check sv (V_Double _) = sv_scalar sv (sv_type sv \<in> set sv_number_types)"
| "sv_check sv (V_Float _) = sv_scalar sv (sv_type sv \<in> set sv_number_types)"
| "sv_check sv (V_Bool _) = sv_scalar sv (sv_type sv \<in> {KVT_Undefined, KVT_Double, KVT_Int, KVT_Bool, KVT_Int64, KVT_Float})"
| "sv_check sv (V_String v) =
     bind_res (sv_scalar sv (sv_type sv \<in> {KVT_Undefined, KVT_String, KVT_Uuid})) (\<lambda>_.
     if sv_type sv = KVT_Uuid then bind_res (uuid_of_string v) (\<lambda>_. Inr ()) else Inr ())"
| "sv_check sv V_WildString = Inl UB"
| "sv_check sv (V_Uuid _) = sv_scalar sv (sv_type sv \<in> {KVT_Undefined, KVT_String, KVT_Uuid})"
| "sv_check sv V_Null = Inr ()"
| "sv_check sv _ = Inl (Err ErrLogic)"

definition sv_Array :: "nat \<Rightarrow> sparse_validator \<Rightarrow> sparse_validator res" where
  "sv_Array dim sv =
     (if \<not> sv_isArray sv then Inl (Err ErrLogic) else Inr \<lparr>sv_type = sv_type sv, sv_isArray = False, sv_arrayDim = dim\<rparr>)"

text \<open>An array inside an array has elements of the same type and no number of its own.\<close>

definition sa_Array :: "sparse_validator \<Rightarrow> sparse_validator" where
  "sa_Array sv = \<lparr>sv_type = sv_type sv, sv_isArray = False, sv_arrayDim = 0\<rparr>"

definition sv_Object :: "sparse_validator \<Rightarrow> unit res" where
  "sv_Object sv = Inl (Err ErrLogic)"

text \<open>The destructor of the validator of an array, which has counted the elements.\<close>

definition sv_array_end :: "sparse_validator \<Rightarrow> nat \<Rightarrow> unit res" where
  "sv_array_end sv elemsCount = validateArrayFieldRestrictions True (sv_arrayDim sv) elemsCount"

definition kNoValidation :: "variant \<Rightarrow> unit res" where
  "kNoValidation v = Inr ()"

definition copy_with :: "(serializer \<Rightarrow> ('a \<times> serializer) res) \<Rightarrow> ('a \<Rightarrow> variant) \<Rightarrow> (wr_serializer \<Rightarrow> 'a \<Rightarrow> wr_serializer res) \<Rightarrow>
    (variant \<Rightarrow> unit res) \<Rightarrow> serializer \<Rightarrow> wr_serializer \<Rightarrow> (serializer \<times> wr_serializer) res" where
  "copy_with get var put validator rdser wrser =
     bind_res (get rdser) (\<lambda>(val, rdser). bind_res (validator (var val)) (\<lambda>_.
     bind_res (put wrser val) (\<lambda>wrser. Inr (rdser, wrser))))"

definition copyCJsonValue :: "u32 \<Rightarrow> (variant \<Rightarrow> unit res) \<Rightarrow> serializer \<Rightarrow> wr_serializer \<Rightarrow> (serializer \<times> wr_serializer) res" where
  "copyCJsonValue tagType validator rdser wrser =
     (case tag_of_number tagType of
        Some TAG_DOUBLE \<Rightarrow> copy_with GetDouble V_Double PutDouble validator rdser wrser
      | Some TAG_VARINT \<Rightarrow> copy_with GetVarint V_Int64 PutVarint64 validator rdser wrser
      | Some TAG_BOOL \<Rightarrow> copy_with GetBool V_Bool PutBool validator rdser wrser
      | Some TAG_STRING \<Rightarrow> copy_with GetVString V_String PutVString validator rdser wrser
      | Some TAG_NULL \<Rightarrow> Inr (rdser, wrser)
      | Some TAG_UUID \<Rightarrow> copy_with GetUuid V_Uuid PutUuid validator rdser wrser
      | Some TAG_FLOAT \<Rightarrow> copy_with GetFloat V_Float PutFloat validator rdser wrser
      | Some TAG_OBJECT \<Rightarrow> copy_with GetVariant id PutVariant kNoValidation rdser wrser
      | _ \<Rightarrow> Inl (Err ErrParseJson))"

subsection \<open>Skipping and counting\<close>

text \<open>\<open>fieldsArrayOffsets\<close> is a pointer to an array of \<open>unsigned\<close> with an element for each index, or null.\<close>

definition kMaxIndexes :: nat where "kMaxIndexes = 256"

definition add_offset :: "u32 list option \<Rightarrow> int \<Rightarrow> u64 \<Rightarrow> u32 list option res" where
  "add_offset offs field n =
     (case offs of
        None \<Rightarrow> Inr None
      | Some os \<Rightarrow> if nat field < length os then Inr (Some (os[nat field := os ! nat field + ucast n])) else Inl UB)"

text \<open>
  The recursion has fuel: running out is \<open>OutOfFuel\<close>. \<open>skip_items\<close> is the loop over the elements of an array,
  which have tags of their own (\<open>None\<close>) or a common one; \<open>skip_fields\<close> is the loop over an object.
\<close>

function (sequential) skip_tag :: "nat \<Rightarrow> ctag \<Rightarrow> u32 list option \<Rightarrow> serializer \<Rightarrow> (u32 list option \<times> serializer) res"
  and skip_items :: "nat \<Rightarrow> nat \<Rightarrow> ctag option \<Rightarrow> u32 list option \<Rightarrow> serializer \<Rightarrow> (u32 list option \<times> serializer) res"
  and skip_fields :: "nat \<Rightarrow> u32 list option \<Rightarrow> serializer \<Rightarrow> (u32 list option \<times> serializer) res"
where
  "skip_tag 0 tag offs s = Inl OutOfFuel"
| "skip_tag (Suc f) tag offs s =
     (let field = ctag_Field tag in
      case tag_of_number (ctag_Type tag) of
        None \<Rightarrow> Inl (Err ErrParseJson)
      | Some TAG_ARRAY \<Rightarrow>
          if field < 0
          then bind_res (GetCArrayTag s) (\<lambda>(atag, s).
               if carraytag_Type atag = tag_number TAG_OBJECT
               then skip_items f (unat (carraytag_Count atag)) None offs s
               else bind_res (mk_ctag (carraytag_Type atag) 0 (- 1)) (\<lambda>etag.
                    skip_items f (unat (carraytag_Count atag)) (Some etag) offs s))
          else bind_res (GetVarUInt s) (\<lambda>(len, s). bind_res (add_offset offs field len) (\<lambda>offs. Inr (offs, s)))
      | Some TAG_OBJECT \<Rightarrow> skip_fields f offs s
      | Some t \<Rightarrow>
          if field < 0 then bind_res (KVT_of_TagType t) (\<lambda>kvt. bind_res (SkipRawVariant kvt s) (\<lambda>s. Inr (offs, s)))
          else bind_res (add_offset offs field 1) (\<lambda>offs. Inr (offs, s)))"
| "skip_items f 0 tag offs s = Inr (offs, s)"
| "skip_items f (Suc n) tag offs s =
     bind_res (case tag of None \<Rightarrow> GetCTag s | Some etag \<Rightarrow> Inr (etag, s)) (\<lambda>(c, s).
     bind_res (skip_tag f c offs s) (\<lambda>(offs, s). skip_items f n tag offs s))"
| "skip_fields 0 offs s = Inl OutOfFuel"
| "skip_fields (Suc f) offs s =
     bind_res (GetCTag s) (\<lambda>(otag, s). bind_res kCTagEnd (\<lambda>end_tag.
     if otag = end_tag then Inr (offs, s)
     else bind_res (skip_tag f otag offs s) (\<lambda>(offs, s). skip_fields f offs s)))"
  by pat_completeness auto
termination
  by (relation "measures [case_sum (\<lambda>(f, _). f) (case_sum (\<lambda>(f, _). f) (\<lambda>(f, _). f)),
      case_sum (\<lambda>_. 0) (case_sum (\<lambda>(f, n, _). Suc n) (\<lambda>_. 0))]") auto

definition skipCjsonTag :: "ctag \<Rightarrow> u32 list option \<Rightarrow> serializer \<Rightarrow> (u32 list option \<times> serializer) res" where
  "skipCjsonTag tag offs s = skip_tag (2 * ser_remaining s + 2) tag offs s"

text \<open>Counting the values of an array whose elements may be arrays: the number, and whether one is.\<close>

function (sequential) analize_items :: "nat \<Rightarrow> nat \<Rightarrow> nat \<Rightarrow> bool \<Rightarrow> serializer \<Rightarrow> ((nat \<times> bool) \<times> serializer) res" where
  "analize_items 0 n cnt isNested s = Inl OutOfFuel"
| "analize_items (Suc f) 0 cnt isNested s = Inr ((cnt, isNested), s)"
| "analize_items (Suc f) (Suc n) cnt isNested s =
     bind_res (GetCTag s) (\<lambda>(tag, s).
     if ctag_Type tag = tag_number TAG_ARRAY
     then bind_res (GetCArrayTag s) (\<lambda>(nestedArr, s).
          let nestedArrCount = unat (carraytag_Count nestedArr)
          in if carraytag_Type nestedArr = tag_number TAG_OBJECT
             then bind_res (analize_items f nestedArrCount 0 False s) (\<lambda>((sz, _), s).
                  analize_items (Suc f) n (cnt + sz) True s)
             else bind_res (mk_ctag (carraytag_Type nestedArr) 0 (- 1)) (\<lambda>nestedTag.
                  bind_res (skip_items (2 * ser_remaining s + 2) nestedArrCount (Some nestedTag) None s) (\<lambda>(_, s).
                  analize_items (Suc f) n (cnt + nestedArrCount) True s)))
     else bind_res (skipCjsonTag tag None s) (\<lambda>(_, s). analize_items (Suc f) n (cnt + 1) isNested s))"
  by pat_completeness auto
termination
  by (relation "measures [\<lambda>(f, _). f, \<lambda>(_, n, _). n]") auto

definition analizeNestedArray :: "nat \<Rightarrow> serializer \<Rightarrow> ((nat \<times> bool) \<times> serializer) res" where
  "analizeNestedArray count s = analize_items (Suc (ser_remaining s)) count 0 False s"


subsection \<open>The builder\<close>

text \<open>
  A builder writes one object or array. It knows where the tag of its array stands, which is filled in at
  the end; the position is kept in an \<open>int\<close>, so it is negative in a buffer of more than 2 GB. Numbers of elements are
  mathematical. A child builder works on the same buffer; the parent goes on when the child has ended.
\<close>

datatype obj_type = TypeObject | TypeArray | TypeObjectArray | TypePlain

record cjson_builder =
  cb_type :: obj_type
  cb_savePos :: int
  cb_count :: nat
  cb_itemType :: TagType

definition mk_CJsonBuilder :: "wr_serializer \<Rightarrow> obj_type \<Rightarrow> u16 \<Rightarrow> (cjson_builder \<times> wr_serializer) res" where
  "mk_CJsonBuilder w type tag =
     (let b = \<lparr>cb_type = type, cb_savePos = 0, cb_count = 0, cb_itemType = TAG_OBJECT\<rparr>;
          array = bind_res (putTag w tag TAG_ARRAY (- 1)) (\<lambda>w.
            bind_res (mk_carraytag 0 (tag_number TAG_NULL)) (\<lambda>a. bind_res (PutCArrayTag w a) (\<lambda>w'.
            Inr (b\<lparr>cb_savePos := sint (word_of_nat (wr_len w) :: 32 word)\<rparr>, w'))))
      in case type of
           TypeArray \<Rightarrow> array
         | TypeObjectArray \<Rightarrow> array
         | TypeObject \<Rightarrow> bind_res (putTag w tag TAG_OBJECT (- 1)) (\<lambda>w. Inr (b, w))
         | TypePlain \<Rightarrow> Inr (b, w))"

definition cb_counted :: "cjson_builder \<Rightarrow> cjson_builder" where
  "cb_counted b = b\<lparr>cb_count := cb_count b + 1\<rparr>"

text \<open>Starting a child gives the parent and the child.\<close>

definition cb_Object :: "cjson_builder \<Rightarrow> wr_serializer \<Rightarrow> u16 \<Rightarrow> ((cjson_builder \<times> cjson_builder) \<times> wr_serializer) res" where
  "cb_Object b w tag = bind_res (mk_CJsonBuilder w TypeObject tag) (\<lambda>(c, w). Inr ((cb_counted b, c), w))"

definition cb_Array :: "cjson_builder \<Rightarrow> wr_serializer \<Rightarrow> u16 \<Rightarrow> obj_type \<Rightarrow> ((cjson_builder \<times> cjson_builder) \<times> wr_serializer) res" where
  "cb_Array b w tag type = bind_res (mk_CJsonBuilder w type tag) (\<lambda>(c, w). Inr ((cb_counted b, c), w))"

text \<open>Writing the tag of the array to the place that was kept for it (\<open>memcpy\<close>).\<close>

definition cb_patch :: "cjson_builder \<Rightarrow> TagType \<Rightarrow> wr_serializer \<Rightarrow> wr_serializer res" where
  "cb_patch b t w =
     bind_res (mk_carraytag (word_of_nat (cb_count b)) (tag_number t)) (\<lambda>a.
     if cb_savePos b < 0 then Inl UB else wr_copy w (nat (cb_savePos b)) (le_bytes 4 (unat (carraytag_asNumber a))))"

definition cb_End :: "cjson_builder \<Rightarrow> wr_serializer \<Rightarrow> (cjson_builder \<times> wr_serializer) res" where
  "cb_End b w =
     bind_res (case cb_type b of
         TypeArray \<Rightarrow> cb_patch b (cb_itemType b) w
       | TypeObjectArray \<Rightarrow> cb_patch b TAG_OBJECT w
       | TypeObject \<Rightarrow> bind_res kCTagEnd (PutCTag w)
       | TypePlain \<Rightarrow> Inr w) (\<lambda>w. Inr (b\<lparr>cb_type := TypePlain\<rparr>, w))"

text \<open>A value: in an array of one type it has no tag and gives the array its type.\<close>

definition cb_put_as :: "TagType \<Rightarrow> (wr_serializer \<Rightarrow> wr_serializer res) \<Rightarrow> cjson_builder \<Rightarrow> wr_serializer \<Rightarrow> u16 \<Rightarrow>
    (cjson_builder \<times> wr_serializer) res" where
  "cb_put_as t put b w tag =
     (if cb_type b = TypeArray then bind_res (put w) (\<lambda>w. Inr (cb_counted (b\<lparr>cb_itemType := t\<rparr>), w))
      else bind_res (putTag w tag t (- 1)) (\<lambda>w. bind_res (put w) (\<lambda>w. Inr (cb_counted b, w))))"

text \<open>Unlike the others, a UUID has a tag in any array.\<close>

definition cb_put_uuid :: "uuid \<Rightarrow> cjson_builder \<Rightarrow> wr_serializer \<Rightarrow> u16 \<Rightarrow> (cjson_builder \<times> wr_serializer) res" where
  "cb_put_uuid u b w tag =
     bind_res (putTag w tag TAG_UUID (- 1)) (\<lambda>w. bind_res (PutUuid w u) (\<lambda>w. Inr (cb_counted b, w)))"

definition cb_Null :: "cjson_builder \<Rightarrow> wr_serializer \<Rightarrow> u16 \<Rightarrow> (cjson_builder \<times> wr_serializer) res" where
  "cb_Null = cb_put_as TAG_NULL Inr"

fun cb_Put :: "cjson_builder \<Rightarrow> wr_serializer \<Rightarrow> u16 \<Rightarrow> variant \<Rightarrow> (cjson_builder \<times> wr_serializer) res"
  and cb_Puts :: "cjson_builder \<Rightarrow> wr_serializer \<Rightarrow> variant list \<Rightarrow> (cjson_builder \<times> wr_serializer) res"
where
  "cb_Put b w tag (V_Int i) = cb_put_as TAG_VARINT (\<lambda>w. PutVarint32 w i) b w tag"
| "cb_Put b w tag (V_Int64 i) = cb_put_as TAG_VARINT (\<lambda>w. PutVarint64 w i) b w tag"
| "cb_Put b w tag (V_Double d) = cb_put_as TAG_DOUBLE (\<lambda>w. PutDouble w d) b w tag"
| "cb_Put b w tag (V_Float d) = cb_put_as TAG_FLOAT (\<lambda>w. PutFloat w d) b w tag"
| "cb_Put b w tag (V_String s) = cb_put_as TAG_STRING (\<lambda>w. PutVString w s) b w tag"
| "cb_Put b w tag V_WildString = Inl UB"
| "cb_Put b w tag V_Null = cb_Null b w tag"
| "cb_Put b w tag (V_Bool x) = cb_put_as TAG_BOOL (\<lambda>w. PutBool w x) b w tag"
| "cb_Put b w tag (V_Uuid u) = cb_put_uuid u b w tag"
| "cb_Put b w tag (V_Tuple vs) =
     bind_res (cb_Array b w tag TypeObjectArray) (\<lambda>((b, c), w).
     bind_res (cb_Puts c w vs) (\<lambda>(c, w). bind_res (cb_End c w) (\<lambda>(_, w). Inr (b, w))))"
| "cb_Put b w tag _ = Inl (Err ErrAssert)"
| "cb_Puts c w [] = Inr (c, w)"
| "cb_Puts c w (v # vs) = bind_res (cb_Put c w 0 v) (\<lambda>(c, w). cb_Puts c w vs)"

text \<open>References to indexed fields, which are not counted unless they are arrays.\<close>

definition cb_Ref :: "cjson_builder \<Rightarrow> wr_serializer \<Rightarrow> u16 \<Rightarrow> key_value_type \<Rightarrow> int \<Rightarrow> (cjson_builder \<times> wr_serializer) res" where
  "cb_Ref b w tag type field =
     bind_res (if type \<in> {KVT_Tuple, KVT_Composite, KVT_FloatVector} then Inl Abort
       else if type \<in> {KVT_Undefined, KVT_Null} then putTag w tag TAG_NULL (- 1)
       else bind_res (ToTagType type) (\<lambda>t. putTag w tag t field)) (\<lambda>w. Inr (b, w))"

definition cb_ArrayRef :: "cjson_builder \<Rightarrow> wr_serializer \<Rightarrow> u16 \<Rightarrow> int \<Rightarrow> nat \<Rightarrow> (cjson_builder \<times> wr_serializer) res" where
  "cb_ArrayRef b w tag field count =
     bind_res (putTag w tag TAG_ARRAY field) (\<lambda>w. bind_res (PutVarUint32 w (word_of_nat count)) (\<lambda>w. Inr (cb_counted b, w)))"

text \<open>Arrays whose values are at hand: the header of an array, then its values.\<close>

definition cb_header :: "wr_serializer \<Rightarrow> u16 \<Rightarrow> nat \<Rightarrow> u32 \<Rightarrow> wr_serializer res" where
  "cb_header w tag count t =
     bind_res (putTag w tag TAG_ARRAY (- 1)) (\<lambda>w.
     bind_res (mk_carraytag (word_of_nat count) t) (\<lambda>a. PutCArrayTag w a))"

definition cb_HeteroArray :: "cjson_builder \<Rightarrow> wr_serializer \<Rightarrow> u16 \<Rightarrow> nat \<Rightarrow> (cjson_builder \<times> wr_serializer) res" where
  "cb_HeteroArray b w tag count = bind_res (cb_header w tag count (tag_number TAG_OBJECT)) (\<lambda>w. Inr (b, w))"

definition cb_Array_view :: "TagType \<Rightarrow> (wr_serializer \<Rightarrow> 'a \<Rightarrow> wr_serializer res) \<Rightarrow> cjson_builder \<Rightarrow> wr_serializer \<Rightarrow> u16 \<Rightarrow> 'a list \<Rightarrow>
    (cjson_builder \<times> wr_serializer) res" where
  "cb_Array_view t put b w tag data =
     bind_res (cb_header w tag (length data) (tag_number t)) (\<lambda>w.
     bind_res (put_list put w data) (\<lambda>w. Inr (cb_counted b, w)))"

fun copy_values :: "nat \<Rightarrow> u32 \<Rightarrow> serializer \<Rightarrow> wr_serializer \<Rightarrow> (serializer \<times> wr_serializer) res" where
  "copy_values 0 t s w = Inr (s, w)"
| "copy_values (Suc n) t s w = bind_res (copyCJsonValue t kNoValidation s w) (\<lambda>(s, w). copy_values n t s w)"

definition cb_Array_copy :: "cjson_builder \<Rightarrow> wr_serializer \<Rightarrow> u16 \<Rightarrow> serializer \<Rightarrow> u32 \<Rightarrow> nat \<Rightarrow>
    ((cjson_builder \<times> serializer) \<times> wr_serializer) res" where
  "cb_Array_copy b w tag ser tagType count =
     bind_res (cb_header w tag count tagType) (\<lambda>w.
     bind_res (copy_values count tagType ser w) (\<lambda>(ser, w). Inr ((cb_counted b, ser), w)))"

subsection \<open>Documents\<close>

text \<open>
  What CJSON stands for: a scalar, an object with its fields under their tags, an array of scalars of one
  type, an array of values with tags of their own, and the two references to values that are kept in an
  index: a scalar in field \<open>n\<close>, or the next \<open>c\<close> elements of field \<open>n\<close>.
\<close>

datatype doc =
    DVal variant
  | DObj "(u16 \<times> doc) list"
  | DArr TagType "variant list"
  | DMix "doc list"
  | DRef TagType nat
  | DRefs nat u32

fun val_tag :: "variant \<Rightarrow> TagType" where
  "val_tag (V_Int _) = TAG_VARINT"
| "val_tag (V_Int64 _) = TAG_VARINT"
| "val_tag (V_Double _) = TAG_DOUBLE"
| "val_tag (V_Float _) = TAG_FLOAT"
| "val_tag (V_String _) = TAG_STRING"
| "val_tag V_WildString = TAG_STRING"
| "val_tag (V_Bool _) = TAG_BOOL"
| "val_tag (V_Uuid _) = TAG_UUID"
| "val_tag _ = TAG_NULL"

fun val_bytes :: "variant \<Rightarrow> bytes" where
  "val_bytes (V_Int i) = sint32_pack i"
| "val_bytes (V_Int64 i) = sint64_pack i"
| "val_bytes (V_Double d) = le_bytes 8 (unat d)"
| "val_bytes (V_Float d) = le_bytes 4 (unat d)"
| "val_bytes (V_String s) = enc_vstring s"
| "val_bytes (V_Bool b) = boolean_pack b"
| "val_bytes (V_Uuid u) = enc_uuid u"
| "val_bytes _ = []"

fun val_ok :: "variant \<Rightarrow> bool" where
  "val_ok (V_String s) \<longleftrightarrow> length s < 2 ^ 32"
| "val_ok V_WildString \<longleftrightarrow> False"
| "val_ok (V_FloatVector _) \<longleftrightarrow> False"
| "val_ok (V_Tuple _) \<longleftrightarrow> False"
| "val_ok V_Composite \<longleftrightarrow> False"
| "val_ok V_Undefined \<longleftrightarrow> False"
| "val_ok _ \<longleftrightarrow> True"

fun doc_tag :: "doc \<Rightarrow> TagType" where
  "doc_tag (DVal v) = val_tag v"
| "doc_tag (DObj _) = TAG_OBJECT"
| "doc_tag (DRef t _) = t"
| "doc_tag _ = TAG_ARRAY"

fun doc_field :: "doc \<Rightarrow> int" where
  "doc_field (DRef _ n) = int n"
| "doc_field (DRefs n _) = int n"
| "doc_field _ = - 1"

definition the_res :: "'a \<Rightarrow> 'a res \<Rightarrow> 'a" where
  "the_res x r = (case r of Inl _ \<Rightarrow> x | Inr y \<Rightarrow> y)"

definition tag_word :: "TagType \<Rightarrow> u16 \<Rightarrow> int \<Rightarrow> ctag" where
  "tag_word t nm f = the_res (Ctag 0) (mk_ctag (tag_number t) nm f)"

definition tag_bytes :: "TagType \<Rightarrow> u16 \<Rightarrow> int \<Rightarrow> bytes" where
  "tag_bytes t nm f = uint32_pack (ctag_asNumber (tag_word t nm f))"

definition atag_word :: "nat \<Rightarrow> TagType \<Rightarrow> carraytag" where
  "atag_word n t = the_res (Carraytag 0) (mk_carraytag (word_of_nat n) (tag_number t))"

definition atag_bytes :: "nat \<Rightarrow> TagType \<Rightarrow> bytes" where
  "atag_bytes n t = le_bytes 4 (unat (carraytag_asNumber (atag_word n t)))"

definition name_ok :: "u16 \<Rightarrow> bool" where
  "name_ok nm \<longleftrightarrow> uint nm \<le> 4095"

text \<open>The bytes behind the tag of a document.\<close>

fun doc_body :: "doc \<Rightarrow> bytes"
  and fields_body :: "(u16 \<times> doc) list \<Rightarrow> bytes"
  and items_body :: "doc list \<Rightarrow> bytes"
where
  "doc_body (DVal v) = val_bytes v"
| "doc_body (DObj fs) = fields_body fs"
| "doc_body (DArr t vs) = atag_bytes (length vs) t @ concat (map val_bytes vs)"
| "doc_body (DMix ds) = atag_bytes (length ds) TAG_OBJECT @ items_body ds"
| "doc_body (DRef t n) = []"
| "doc_body (DRefs n c) = uint32_pack c"
| "fields_body [] = tag_bytes TAG_END 0 (- 1)"
| "fields_body ((nm, d) # fs) = tag_bytes (doc_tag d) nm (doc_field d) @ doc_body d @ fields_body fs"
| "items_body [] = []"
| "items_body (d # ds) = tag_bytes (doc_tag d) 0 (doc_field d) @ doc_body d @ items_body ds"

text \<open>
  Documents that can be written: names of 12 bits, fields of indexes, arrays of less than \<open>2 ^ 24\<close> elements
  and of the type they say.
\<close>

fun doc_ok :: "doc \<Rightarrow> bool"
  and fields_ok :: "(u16 \<times> doc) list \<Rightarrow> bool"
  and items_ok :: "doc list \<Rightarrow> bool"
where
  "doc_ok (DVal v) \<longleftrightarrow> val_ok v"
| "doc_ok (DObj fs) \<longleftrightarrow> fields_ok fs"
| "doc_ok (DArr t vs) \<longleftrightarrow> length vs < 2 ^ 24 \<and> t \<notin> {TAG_ARRAY, TAG_OBJECT, TAG_END} \<and> (\<forall>v \<in> set vs. val_ok v \<and> val_tag v = t)"
| "doc_ok (DMix ds) \<longleftrightarrow> length ds < 2 ^ 24 \<and> items_ok ds"
| "doc_ok (DRef t n) \<longleftrightarrow> n < kMaxIndexes \<and> t \<notin> {TAG_ARRAY, TAG_OBJECT, TAG_END}"
| "doc_ok (DRefs n c) \<longleftrightarrow> n < kMaxIndexes"
| "fields_ok [] \<longleftrightarrow> True"
| "fields_ok ((nm, d) # fs) \<longleftrightarrow> name_ok nm \<and> doc_ok d \<and> fields_ok fs"
| "items_ok [] \<longleftrightarrow> True"
| "items_ok (d # ds) \<longleftrightarrow> doc_ok d \<and> items_ok ds"

subsection \<open>Tags\<close>

lemma tag_of_number [simp]: "tag_of_number (tag_number t) = Some t"
  by (cases t) (simp_all add: tag_of_number_def)

lemma tag_number_inj [simp]: "tag_number s = tag_number t \<longleftrightarrow> s = t"
  by (metis tag_of_number option.inject)

lemma tag_word_ok:
  assumes "name_ok nm" "- 1 \<le> f" "f < 1023"
  shows "mk_ctag (tag_number t) nm f = Inr (tag_word t nm f)"
proof -
  obtain c where "mk_ctag (tag_number t) nm f = Inr c" using assms by (simp add: mk_ctag_Inr name_ok_def)
  then show ?thesis by (simp add: tag_word_def the_res_def)
qed

lemma name_0 [simp]: "name_ok 0"
  by (simp add: name_ok_def)

lemma tag_word_parts:
  assumes "name_ok nm" "- 1 \<le> f" "f < 1023"
  shows "ctag_Type (tag_word t nm f) = tag_number t" "ctag_Name (tag_word t nm f) = nm" "ctag_Field (tag_word t nm f) = f"
    "ctag_built (tag_word t nm f)"
proof -
  note w = tag_word_ok [OF assms, of t]
  from ctag_parts [OF w tag_number_small]
  show "ctag_Type (tag_word t nm f) = tag_number t" "ctag_Name (tag_word t nm f) = nm" "ctag_Field (tag_word t nm f) = f" .
  show "ctag_built (tag_word t nm f)" unfolding ctag_built_def using w tag_number_small [of t] by blast
qed

lemma atag_word_ok:
  assumes "n < 2 ^ 24"
  shows "mk_carraytag (word_of_nat n) (tag_number t) = Inr (atag_word n t)"
    "carraytag_Type (atag_word n t) = tag_number t" "unat (carraytag_Count (atag_word n t)) = n" "carraytag_built (atag_word n t)"
proof -
  have u: "unat (word_of_nat n :: u32) = n" using assms by (simp add: unat_of_nat)
  have "(word_of_nat n :: u32) < push_bit 24 1" using assms by (simp add: word_less_nat_alt u)
  then show 1: "mk_carraytag (word_of_nat n) (tag_number t) = Inr (atag_word n t)"
    by (simp add: mk_carraytag_def atag_word_def the_res_def)
  from carraytag_parts [OF this tag_number_small] u
  show "carraytag_Type (atag_word n t) = tag_number t" "unat (carraytag_Count (atag_word n t)) = n" by simp_all
  show "carraytag_built (atag_word n t)" unfolding carraytag_built_def using 1 tag_number_small [of t] by blast
qed

lemma GetCTag_tag:
  assumes "name_ok nm" "- 1 \<le> f" "f < 1023" "fits (length pre) (length (tag_bytes t nm f) + length rest)"
  shows "GetCTag (ser_at pre (tag_bytes t nm f @ rest)) = Inr (tag_word t nm f, ser_at (pre @ tag_bytes t nm f) rest)"
  using ctag_codec.get_enc [OF tag_word_parts(4) [OF assms(1-3)]] assms(4) unfolding tag_bytes_def by blast

lemma GetCArrayTag_atag:
  assumes "n < 2 ^ 24" "fits (length pre) (length (atag_bytes n t) + length rest)"
  shows "GetCArrayTag (ser_at pre (atag_bytes n t @ rest)) = Inr (atag_word n t, ser_at (pre @ atag_bytes n t) rest)"
  using carraytag_codec.get_enc [OF atag_word_ok(4) [OF assms(1)]] assms(2) unfolding atag_bytes_def by blast

lemma tag_bytes_len: "1 \<le> length (tag_bytes t nm f)" "length (tag_bytes t nm f) \<le> 5"
  unfolding tag_bytes_def by (rule uint32_pack_length)+

lemma atag_bytes_len [simp]: "length (atag_bytes n t) = 4"
  by (simp add: atag_bytes_def)

lemma kCTagEnd_word: "kCTagEnd = Inr (tag_word TAG_END 0 (- 1))"
  unfolding kCTagEnd_def by (rule tag_word_ok) simp_all

lemma doc_field_range:
  assumes "doc_ok d"
  shows "- 1 \<le> doc_field d" "doc_field d < 1023"
  using assms by (cases d; simp add: kMaxIndexes_def)+

lemma doc_tag_not_end: "doc_ok d \<Longrightarrow> doc_tag d \<noteq> TAG_END"
proof (cases d)
  case (DVal v)
  then show ?thesis by (cases v) auto
qed auto

subsection \<open>Skipping\<close>

lemma SkipPVString_enc:
  assumes "length s < 2 ^ 32" "fits (length pre) (length (enc_vstring s) + length rest)"
  shows "SkipPVString (ser_at pre (enc_vstring s @ rest)) = Inr (ser_at (pre @ enc_vstring s) rest)"
proof -
  have l: "fits (length (pre @ uint32_pack (word_of_nat (length s)))) (length (s @ rest))"
    using assms(2) by (simp add: enc_vstring_def)
  have n: "length s < 2 ^ 63" "length s \<le> length (s @ rest)" using assms(1) by simp_all
  show ?thesis
    using checkbound_at [OF l n(1)] ser_at_advance [OF n(2), of "pre @ uint32_pack (word_of_nat (length s))"]
    by (simp add: SkipPVString_def vstring_header [OF assms] del: of_nat_add) (simp add: enc_vstring_def)
qed

lemma skip_value:
  assumes "val_ok v" "fits (length pre) (length (val_bytes v) + length rest)"
  shows "bind_res (KVT_of_TagType (val_tag v)) (\<lambda>kvt. SkipRawVariant kvt (ser_at pre (val_bytes v @ rest))) =
    Inr (ser_at (pre @ val_bytes v) rest)"
proof (cases v)
  case (V_Bool b)
  then show ?thesis using assms bool_codec.get_enc [of pre b rest] by (auto simp: GetBool_def res_simps)
qed (use assms in \<open>simp_all add: GetVarint_pack GetVarint_pack32 double_codec.get_enc float_codec.get_enc uuid_codec.get_enc SkipPVString_enc\<close>)

text \<open>What a document adds to the offsets of the fields.\<close>

fun doc_refs :: "doc \<Rightarrow> u32 list option \<Rightarrow> u32 list option"
  and fields_refs :: "(u16 \<times> doc) list \<Rightarrow> u32 list option \<Rightarrow> u32 list option"
  and items_refs :: "doc list \<Rightarrow> u32 list option \<Rightarrow> u32 list option"
where
  "doc_refs (DVal v) offs = offs"
| "doc_refs (DObj fs) offs = fields_refs fs offs"
| "doc_refs (DArr t vs) offs = offs"
| "doc_refs (DMix ds) offs = items_refs ds offs"
| "doc_refs (DRef t n) offs = map_option (\<lambda>os. os[n := os ! n + 1]) offs"
| "doc_refs (DRefs n c) offs = map_option (\<lambda>os. os[n := os ! n + c]) offs"
| "fields_refs [] offs = offs"
| "fields_refs ((nm, d) # fs) offs = fields_refs fs (doc_refs d offs)"
| "items_refs [] offs = offs"
| "items_refs (d # ds) offs = items_refs ds (doc_refs d offs)"

definition offs_ok :: "u32 list option \<Rightarrow> bool" where
  "offs_ok offs \<longleftrightarrow> (\<forall>os. offs = Some os \<longrightarrow> length os = kMaxIndexes)"

lemma offs_ok_refs [simp]:
  "offs_ok (doc_refs d offs) = offs_ok offs" "offs_ok (fields_refs fs offs) = offs_ok offs"
  "offs_ok (items_refs ds offs) = offs_ok offs"
  by (induction d offs and fs offs and ds offs rule: doc_refs_fields_refs_items_refs.induct) (auto simp: offs_ok_def)

lemma refs_None [simp]: "doc_refs d None = None" "fields_refs fs None = None" "items_refs ds None = None"
proof -
  have "offs = None \<Longrightarrow> doc_refs d offs = None" "offs = None \<Longrightarrow> fields_refs fs offs = None" "offs = None \<Longrightarrow> items_refs ds offs = None" for offs
    by (induction d offs and fs offs and ds offs rule: doc_refs_fields_refs_items_refs.induct) simp_all
  then show "doc_refs d None = None" "fields_refs fs None = None" "items_refs ds None = None" by simp_all
qed

lemma add_offset_ok:
  "offs_ok offs \<Longrightarrow> n < kMaxIndexes \<Longrightarrow> add_offset offs (int n) c = Inr (map_option (\<lambda>os. os[n := os ! n + ucast c]) offs)"
  by (cases offs) (simp_all add: add_offset_def offs_ok_def)

lemma skip_tag_scalar:
  assumes "t \<notin> {TAG_ARRAY, TAG_OBJECT}" "ctag_Type c = tag_number t"
  shows "skip_tag (Suc f) c offs s =
    (if ctag_Field c < 0 then bind_res (bind_res (KVT_of_TagType t) (\<lambda>kvt. SkipRawVariant kvt s)) (\<lambda>s. Inr (offs, s))
     else bind_res (add_offset offs (ctag_Field c) 1) (\<lambda>offs. Inr (offs, s)))"
proof -
  have "tag_of_number (ctag_Type c) = Some t" using assms(2) by simp
  then show ?thesis using assms(1) by (cases t) (simp_all add: Let_def)
qed

lemma val_tag_scalar: "val_tag v \<notin> {TAG_ARRAY, TAG_OBJECT, TAG_END}"
  by (cases v) simp_all

lemma skip_scalar:
  assumes "val_ok v" "fits (length pre) (length (val_bytes v) + length rest)"
    "ctag_Type c = tag_number (val_tag v)" "ctag_Field c = - 1"
  shows "skip_tag (Suc f) c offs (ser_at pre (val_bytes v @ rest)) = Inr (offs, ser_at (pre @ val_bytes v) rest)"
  using skip_tag_scalar [of "val_tag v" c f offs] val_tag_scalar [of v] skip_value [OF assms(1,2)] assms(3,4) by simp

lemma skip_scalars:
  assumes "\<forall>v \<in> set vs. val_ok v \<and> val_tag v = t" "fits (length pre) (length (concat (map val_bytes vs)) + length rest)"
  shows "skip_items (Suc f) (length vs) (Some (tag_word t 0 (- 1))) offs (ser_at pre (concat (map val_bytes vs) @ rest)) =
    Inr (offs, ser_at (pre @ concat (map val_bytes vs)) rest)"
  using assms
proof (induction vs arbitrary: pre)
  case (Cons v vs)
  have "skip_tag (Suc f) (tag_word t 0 (- 1)) offs (ser_at pre (val_bytes v @ concat (map val_bytes vs) @ rest)) =
      Inr (offs, ser_at (pre @ val_bytes v) (concat (map val_bytes vs) @ rest))"
    by (rule skip_scalar) (use Cons.prems tag_word_parts in auto)
  moreover have "skip_items (Suc f) (length vs) (Some (tag_word t 0 (- 1))) offs (ser_at (pre @ val_bytes v) (concat (map val_bytes vs) @ rest)) =
      Inr (offs, ser_at ((pre @ val_bytes v) @ concat (map val_bytes vs)) rest)"
    by (rule Cons.IH) (use Cons.prems in auto)
  ultimately show ?case by (simp del: skip_tag.simps)
qed simp

lemma ref_simple:
  assumes "t \<notin> {TAG_ARRAY, TAG_OBJECT, TAG_END}" "n < kMaxIndexes" "offs_ok offs" "ctag_Type c = tag_number t" "ctag_Field c = int n"
  shows "skip_tag (Suc f) c offs s = Inr (doc_refs (DRef t n) offs, s)"
  using assms add_offset_ok [of offs n 1] skip_tag_scalar [of t c f offs s]
  by (simp del: skip_tag.simps)


lemma skip_tag_object:
  "ctag_Type c = tag_number TAG_OBJECT \<Longrightarrow> skip_tag (Suc f) c offs s = skip_fields f offs s"
proof -
  assume "ctag_Type c = tag_number TAG_OBJECT"
  then have "tag_of_number (ctag_Type c) = Some TAG_OBJECT" by (simp only: tag_of_number)
  then show ?thesis by simp
qed

lemma skip_tag_array:
  assumes "ctag_Type c = tag_number TAG_ARRAY"
  shows "skip_tag (Suc f) c offs s =
    (if ctag_Field c < 0
     then bind_res (GetCArrayTag s) (\<lambda>(atag, s).
          if carraytag_Type atag = tag_number TAG_OBJECT
          then skip_items f (unat (carraytag_Count atag)) None offs s
          else bind_res (mk_ctag (carraytag_Type atag) 0 (- 1)) (\<lambda>etag.
               skip_items f (unat (carraytag_Count atag)) (Some etag) offs s))
     else bind_res (GetVarUInt s) (\<lambda>(len, s). bind_res (add_offset offs (ctag_Field c) len) (\<lambda>offs. Inr (offs, s))))"
proof -
  from assms have "tag_of_number (ctag_Type c) = Some TAG_ARRAY" by (simp only: tag_of_number)
  then show ?thesis by (simp add: Let_def)
qed

declare skip_tag.simps(2) [simp del]

lemma fields_body_len: "1 \<le> length (fields_body fs)"
proof (cases fs)
  case Nil
  then show ?thesis using tag_bytes_len(1) [of TAG_END 0 "- 1"] by simp
next
  case (Cons p fs')
  then show ?thesis using tag_bytes_len(1) [of "doc_tag (snd p)" "fst p" "doc_field (snd p)"] by (cases p) simp
qed

lemma ucast_back: "ucast (ucast (c :: u32) :: u64) = c"
  by (rule bit_word_eqI) (simp add: bit_simps)

text \<open>
  The tag of a document tells how to skip it: with more than twice its bytes as fuel the reader ends
  behind it.
\<close>

lemma skip_doc:
  "doc_ok d \<Longrightarrow> 2 * length (doc_body d) + 1 \<le> f \<Longrightarrow> fits (length pre) (length (doc_body d) + length rest) \<Longrightarrow>
   offs_ok offs \<Longrightarrow> ctag_Type c = tag_number (doc_tag d) \<Longrightarrow> ctag_Field c = doc_field d \<Longrightarrow>
   skip_tag f c offs (ser_at pre (doc_body d @ rest)) = Inr (doc_refs d offs, ser_at (pre @ doc_body d) rest)"
  "fields_ok fs \<Longrightarrow> 2 * length (fields_body fs) \<le> f \<Longrightarrow> fits (length pre) (length (fields_body fs) + length rest) \<Longrightarrow>
   offs_ok offs \<Longrightarrow>
   skip_fields f offs (ser_at pre (fields_body fs @ rest)) = Inr (fields_refs fs offs, ser_at (pre @ fields_body fs) rest)"
  "items_ok ds \<Longrightarrow> 2 * length (items_body ds) \<le> f \<Longrightarrow> fits (length pre) (length (items_body ds) + length rest) \<Longrightarrow>
   offs_ok offs \<Longrightarrow>
   skip_items f (length ds) None offs (ser_at pre (items_body ds @ rest)) = Inr (items_refs ds offs, ser_at (pre @ items_body ds) rest)"
proof (induction d and fs and ds arbitrary: f pre rest offs c and f pre rest offs and f pre rest offs rule: doc_body_fields_body_items_body.induct)
  case (1 v)
  then obtain g where "f = Suc g" by (cases f) auto
  with 1 skip_scalar [of v pre rest c g offs] show ?case by simp
next
  case (2 fs)
  then obtain g where f: "f = Suc g" by (cases f) auto
  then show ?case using 2 by (simp add: f skip_tag_object)
next
  case (3 t vs)
  then obtain g where f: "f = Suc (Suc g)" by (cases f; cases "f - 1") auto
  let ?b = "concat (map val_bytes vs)" and ?a = "atag_bytes (length vs) t"
  have n: "length vs < 2 ^ 24" and t: "t \<noteq> TAG_OBJECT" using 3(1) by auto
  have "GetCArrayTag (ser_at pre (?a @ ?b @ rest)) = Inr (atag_word (length vs) t, ser_at (pre @ ?a) (?b @ rest))"
    using 3(3) by (intro GetCArrayTag_atag n) simp
  moreover have "mk_ctag (tag_number t) 0 (- 1) = Inr (tag_word t 0 (- 1))" by (rule tag_word_ok) simp_all
  moreover have "skip_items (Suc g) (length vs) (Some (tag_word t 0 (- 1))) offs (ser_at (pre @ ?a) (?b @ rest)) =
      Inr (offs, ser_at ((pre @ ?a) @ ?b) rest)"
    by (rule skip_scalars) (use 3 in auto)
  ultimately show ?case using 3(5,6) t by (simp add: f skip_tag_array atag_word_ok [OF n] del: tag_number.simps)
next
  case (4 ds)
  then obtain g where f: "f = Suc g" by (cases f) auto
  let ?b = "items_body ds" and ?a = "atag_bytes (length ds) TAG_OBJECT"
  have n: "length ds < 2 ^ 24" using 4(2) by simp
  have "GetCArrayTag (ser_at pre (?a @ ?b @ rest)) = Inr (atag_word (length ds) TAG_OBJECT, ser_at (pre @ ?a) (?b @ rest))"
    using 4(4) by (intro GetCArrayTag_atag n) simp
  moreover have "skip_items g (length ds) None offs (ser_at (pre @ ?a) (?b @ rest)) =
      Inr (items_refs ds offs, ser_at ((pre @ ?a) @ ?b) rest)"
    by (rule 4(1)) (use 4 f in auto)
  ultimately show ?case using 4(6,7) by (simp add: f skip_tag_array atag_word_ok [OF n] del: tag_number.simps)
next
  case (5 t n)
  then obtain g where f: "f = Suc g" by (cases f) auto
  with 5 ref_simple [of t n offs c g "ser_at pre rest"] show ?case by simp
next
  case (6 n c')
  then obtain g where f: "f = Suc g" by (cases f) auto
  then show ?case
    using 6 GetVarUInt_pack32 [of pre c' rest] add_offset_ok [of offs n "ucast c'"]
    by (simp add: f skip_tag_array ucast_back del: tag_number.simps)
next
  case 7
  then obtain g where f: "f = Suc g" using tag_bytes_len(1) [of TAG_END 0 "- 1"] by (cases f) auto
  have "GetCTag (ser_at pre (tag_bytes TAG_END 0 (- 1) @ rest)) = Inr (tag_word TAG_END 0 (- 1), ser_at (pre @ tag_bytes TAG_END 0 (- 1)) rest)"
    by (rule GetCTag_tag) (use 7 in auto)
  then show ?case by (simp add: f kCTagEnd_word)
next
  case (8 nm d fs)
  let ?t = "tag_bytes (doc_tag d) nm (doc_field d)" and ?w = "tag_word (doc_tag d) nm (doc_field d)"
  have ok: "name_ok nm" "doc_ok d" "fields_ok fs" using 8(3) by simp_all
  note fr = doc_field_range [OF ok(2)]
  note tl = tag_bytes_len(1) [of "doc_tag d" nm "doc_field d"]
  from 8 tl obtain g where f: "f = Suc g" by (cases f) auto
  have 1: "GetCTag (ser_at pre (?t @ doc_body d @ fields_body fs @ rest)) =
      Inr (?w, ser_at (pre @ ?t) (doc_body d @ fields_body fs @ rest))"
    by (rule GetCTag_tag [OF ok(1) fr]) (use 8(5) in simp)
  have 2: "skip_tag g ?w offs (ser_at (pre @ ?t) (doc_body d @ fields_body fs @ rest)) =
      Inr (doc_refs d offs, ser_at ((pre @ ?t) @ doc_body d) (fields_body fs @ rest))"
  proof (rule 8(1) [OF ok(2) _ _ 8(6)])
    show "2 * length (doc_body d) + 1 \<le> g" using 8(4) tl f fields_body_len [of fs] by simp
  qed (use 8(5) tag_word_parts [OF ok(1) fr] in simp_all)
  have 3: "skip_fields g (doc_refs d offs) (ser_at ((pre @ ?t) @ doc_body d) (fields_body fs @ rest)) =
      Inr (fields_refs fs (doc_refs d offs), ser_at (((pre @ ?t) @ doc_body d) @ fields_body fs) rest)"
    by (rule 8(2)) (use 8(4-6) tl ok f in auto)
  have "?w \<noteq> tag_word TAG_END 0 (- 1)"
  proof
    assume "?w = tag_word TAG_END 0 (- 1)"
    then have "ctag_Type ?w = tag_number TAG_END" using tag_word_parts(1) [of 0 "- 1" TAG_END] by simp
    then show False using tag_word_parts(1) [OF ok(1) fr, of "doc_tag d"] doc_tag_not_end [OF ok(2)]
      by (simp del: tag_number.simps)
  qed
  with 1 2 3 show ?case unfolding f by (simp add: kCTagEnd_word)
next
  case 9
  then show ?case by simp
next
  case (10 d ds)
  let ?t = "tag_bytes (doc_tag d) 0 (doc_field d)" and ?w = "tag_word (doc_tag d) 0 (doc_field d)"
  have ok: "name_ok 0" "doc_ok d" "items_ok ds" using 10(3) by simp_all
  note fr = doc_field_range [OF ok(2)]
  note tl = tag_bytes_len(1) [of "doc_tag d" 0 "doc_field d"]
  have 1: "GetCTag (ser_at pre (?t @ doc_body d @ items_body ds @ rest)) =
      Inr (?w, ser_at (pre @ ?t) (doc_body d @ items_body ds @ rest))"
    by (rule GetCTag_tag [OF ok(1) fr]) (use 10(5) in simp)
  have 2: "skip_tag f ?w offs (ser_at (pre @ ?t) (doc_body d @ items_body ds @ rest)) =
      Inr (doc_refs d offs, ser_at ((pre @ ?t) @ doc_body d) (items_body ds @ rest))"
    by (rule 10(1) [OF ok(2) _ _ 10(6)]) (use 10(4,5) tl tag_word_parts [OF ok(1) fr] in simp_all)
  have 3: "skip_items f (length ds) None (doc_refs d offs) (ser_at ((pre @ ?t) @ doc_body d) (items_body ds @ rest)) =
      Inr (items_refs ds (doc_refs d offs), ser_at (((pre @ ?t) @ doc_body d) @ items_body ds) rest)"
    by (rule 10(2)) (use 10(4-6) tl ok in auto)
  from 1 2 3 show ?case by simp
qed

text \<open>
  C10. Skipping is exact: whatever document stands behind its tag, and whatever follows it, as long as
  fewer than \<open>2 ^ 32\<close> bytes are before the reader, \<open>skipCjsonTag\<close> ends right behind the document, having added to the offset of each field the elements
  the document refers to, nested ones included, and nothing else.
\<close>

theorem cjson_skip_exact:
  assumes "doc_ok d" "name_ok nm" "offs_ok offs"
    "fits (length pre) (length (tag_bytes (doc_tag d) nm (doc_field d) @ doc_body d) + length rest)"
  shows "bind_res (GetCTag (ser_at pre (tag_bytes (doc_tag d) nm (doc_field d) @ doc_body d @ rest))) (\<lambda>(c, s). skipCjsonTag c offs s) =
    Inr (doc_refs d offs, ser_at (pre @ tag_bytes (doc_tag d) nm (doc_field d) @ doc_body d) rest)"
proof -
  let ?t = "tag_bytes (doc_tag d) nm (doc_field d)" and ?c = "tag_word (doc_tag d) nm (doc_field d)"
  note fr = doc_field_range [OF assms(1)]
  have "GetCTag (ser_at pre (?t @ doc_body d @ rest)) = Inr (?c, ser_at (pre @ ?t) (doc_body d @ rest))"
    by (rule GetCTag_tag [OF assms(2) fr]) (use assms(4) in simp)
  moreover have "skipCjsonTag ?c offs (ser_at (pre @ ?t) (doc_body d @ rest)) = Inr (doc_refs d offs, ser_at ((pre @ ?t) @ doc_body d) rest)"
    unfolding skipCjsonTag_def
  proof (rule skip_doc(1) [OF assms(1)])
    have "ser_remaining (ser_at (pre @ ?t) (doc_body d @ rest)) = length (doc_body d @ rest)"
      by (rule remaining_at) (use assms(4) in simp)
    then show "2 * length (doc_body d) + 1 \<le> 2 * ser_remaining (ser_at (pre @ ?t) (doc_body d @ rest)) + 2" by simp
  qed (use assms tag_word_parts [OF assms(2) fr] in simp_all)
  ultimately show ?thesis by simp
qed

theorem cjson_skip_exact_witness:
  "let d = DObj [(1, DVal (V_Bool True)), (2, DMix [DVal V_Null, DRef TAG_STRING 7]), (3, DRefs 5 4)] in
   bind_res (GetCTag (ser_at [] (tag_bytes (doc_tag d) 0 (doc_field d) @ doc_body d @ [9]))) (\<lambda>(c, s). skipCjsonTag c (Some (replicate kMaxIndexes 0)) s) =
     Inr (Some ((replicate kMaxIndexes 0)[7 := 1, 5 := 4]), ser_at (tag_bytes (doc_tag d) 0 (doc_field d) @ doc_body d) [9])"
proof -
  let ?d = "DObj [(1, DVal (V_Bool True)), (2, DMix [DVal V_Null, DRef TAG_STRING 7]), (3, DRefs 5 4)]"
  have ok: "doc_ok ?d" "name_ok 0" "offs_ok (Some (replicate kMaxIndexes 0))"
    by (simp_all add: name_ok_def kMaxIndexes_def offs_ok_def)
  have b: "length (tag_bytes t nm f) \<le> 5" for t nm f by (rule tag_bytes_len)
  have "length (tag_bytes (doc_tag ?d) 0 (doc_field ?d) @ doc_body ?d) \<le> 60"
    using b [of TAG_OBJECT 0 "- 1"] b [of TAG_BOOL 1 "- 1"] b [of TAG_ARRAY 2 "- 1"] b [of TAG_NULL 0 "- 1"]
      b [of TAG_STRING 0 7] b [of TAG_ARRAY 3 5] b [of TAG_END 0 "- 1"] uint32_pack_length(2) [of 4]
    by (simp add: boolean_pack_def)
  then have "fits (length []) (length (tag_bytes (doc_tag ?d) 0 (doc_field ?d) @ doc_body ?d) + length [9::u8])" by simp
  from cjson_skip_exact [OF ok this]
  show ?thesis unfolding Let_def
    by (simp only: append_Nil doc_refs.simps fields_refs.simps items_refs.simps option.map) (simp add: kMaxIndexes_def)
qed

text \<open>
  The position of a reader can go backwards over a string whose length wraps the bound check, so the loop
  over an object need not end: these eleven bytes are a field with such a string, and skipping an object
  that starts with them is back at the first byte after it, forever.
\<close>

definition endless_object :: bytes where
  "endless_object = [0x0A, 0xF5, 0xFF, 0xFF, 0xFF, 0xFF, 0xFF, 0xFF, 0xFF, 0xFF, 0x01]"

lemma endless_field:
  "\<exists>c s. GetCTag (mk_Serializer endless_object) = Inr (c, s) \<and> c \<noteq> tag_word TAG_END 0 (- 1) \<and>
     (\<forall>f offs. skip_tag (Suc f) c offs s = Inr (offs, mk_Serializer endless_object))"
proof -
  let ?l = "[0xF5, 0xFF, 0xFF, 0xFF, 0xFF, 0xFF, 0xFF, 0xFF, 0xFF, 0x01] :: bytes"
  have t: "tag_bytes TAG_STRING 1 (- 1) = [0x0A]"
    by (simp add: tag_bytes_def tag_word_def the_res_def mk_ctag_def Let_def ctag_kNameMax_def ctag_kTypeMask_def uint32_pack_def)
  have s: "mk_Serializer endless_object = ser_at [] (tag_bytes TAG_STRING 1 (- 1) @ ?l)"
    by (simp add: mk_Serializer_def ser_at_def endless_object_def t)
  have n: "name_ok 1" by (simp add: name_ok_def)
  have 1: "GetCTag (mk_Serializer endless_object) = Inr (tag_word TAG_STRING 1 (- 1), ser_at (tag_bytes TAG_STRING 1 (- 1)) ?l)"
    unfolding s using GetCTag_tag [OF n, of "- 1" "[]" TAG_STRING ?l] t by simp
  have v: "uint64_pack 0xFFFFFFFFFFFFFFF5 = ?l"
    by (simp add: uint64_pack_leb leb.simps)
  have g: "GetVarUInt (ser_at (tag_bytes TAG_STRING 1 (- 1)) ?l) = Inr (0xFFFFFFFFFFFFFFF5, ser_at (tag_bytes TAG_STRING 1 (- 1) @ ?l) [])"
    using GetVarUInt_pack [where pre = "tag_bytes TAG_STRING 1 (- 1)" and v = "0xFFFFFFFFFFFFFFF5" and rest = "[]"]
    unfolding v by (simp add: t)
  have "SkipPVString (ser_at (tag_bytes TAG_STRING 1 (- 1)) ?l) = Inr (mk_Serializer endless_object)"
    unfolding SkipPVString_def g s by (simp add: checkbound_def t ser_at_def)
  then have 2: "skip_tag (Suc f) (tag_word TAG_STRING 1 (- 1)) offs (ser_at (tag_bytes TAG_STRING 1 (- 1)) ?l) = Inr (offs, mk_Serializer endless_object)" for f offs
    using skip_tag_scalar [of TAG_STRING "tag_word TAG_STRING 1 (- 1)" f offs] tag_word_parts [OF n, of "- 1" TAG_STRING] by simp
  have "ctag_Type (tag_word TAG_STRING 1 (- 1)) \<noteq> ctag_Type (tag_word TAG_END 0 (- 1))"
    using tag_word_parts(1) [OF n, of "- 1" TAG_STRING] tag_word_parts(1) [of 0 "- 1" TAG_END] by simp
  then have "tag_word TAG_STRING 1 (- 1) \<noteq> tag_word TAG_END 0 (- 1)" by auto
  with 1 2 show ?thesis by blast
qed

text \<open>
  Skipping need not end: the object whose contents are these eleven bytes is skipped forever, with any
  amount of fuel.
\<close>

theorem cjson_skip_endless:
  "skip_fields f offs (mk_Serializer endless_object) = Inl OutOfFuel"
proof (induction f)
  case (Suc f)
  obtain c s where g: "GetCTag (mk_Serializer endless_object) = Inr (c, s)" "c \<noteq> tag_word TAG_END 0 (- 1)"
    "\<forall>f offs. skip_tag (Suc f) c offs s = Inr (offs, mk_Serializer endless_object)"
    using endless_field by blast
  then show ?case using Suc.IH by (cases f) (simp_all add: kCTagEnd_word)
qed simp

end
