(* ===== verification/CjsonWrite.thy ===== *)
theory CjsonWrite
  imports Cjson
begin

section \<open>Writing CJSON\<close>

text \<open>
  What the builder of \<open>core/cjson/cjsonbuilder.cc\<close> writes, against the documents of \<open>Cjson\<close>: driving it through a document
  gives the bytes of the document and, with room to grow, never fails; then copying arrays from a
  reader, and counting the elements of nested arrays.
\<close>

subsection \<open>Building\<close>

text \<open>A document is built with one call of the builder for a scalar or a reference, and a child for an object or array.\<close>

fun write_doc :: "doc \<Rightarrow> u16 \<Rightarrow> cjson_builder \<Rightarrow> wr_serializer \<Rightarrow> (cjson_builder \<times> wr_serializer) res"
  and write_fields :: "(u16 \<times> doc) list \<Rightarrow> cjson_builder \<Rightarrow> wr_serializer \<Rightarrow> (cjson_builder \<times> wr_serializer) res"
  and write_items :: "doc list \<Rightarrow> cjson_builder \<Rightarrow> wr_serializer \<Rightarrow> (cjson_builder \<times> wr_serializer) res"
where
  "write_doc (DVal v) nm b w = cb_Put b w nm v"
| "write_doc (DObj fs) nm b w =
     bind_res (cb_Object b w nm) (\<lambda>((b, c), w). bind_res (write_fields fs c w) (\<lambda>(c, w).
     bind_res (cb_End c w) (\<lambda>(_, w). Inr (b, w))))"
| "write_doc (DArr t vs) nm b w =
     bind_res (cb_Array b w nm TypeArray) (\<lambda>((b, c), w). bind_res (cb_Puts c w vs) (\<lambda>(c, w).
     bind_res (cb_End c w) (\<lambda>(_, w). Inr (b, w))))"
| "write_doc (DMix ds) nm b w =
     bind_res (cb_Array b w nm TypeObjectArray) (\<lambda>((b, c), w). bind_res (write_items ds c w) (\<lambda>(c, w).
     bind_res (cb_End c w) (\<lambda>(_, w). Inr (b, w))))"
| "write_doc (DRef t n) nm b w = bind_res (KVT_of_TagType t) (\<lambda>k. cb_Ref b w nm k (int n))"
| "write_doc (DRefs n c) nm b w = cb_ArrayRef b w nm (int n) (unat c)"
| "write_fields [] b w = Inr (b, w)"
| "write_fields ((nm, d) # fs) b w = bind_res (write_doc d nm b w) (\<lambda>(b, w). write_fields fs b w)"
| "write_items [] b w = Inr (b, w)"
| "write_items (d # ds) b w = bind_res (write_doc d 0 b w) (\<lambda>(b, w). write_items ds b w)"

text \<open>
  What a builder cannot write: an array of one type without elements (its type is not known), or with
  UUIDs (they get tags), a reference to null, and a reference to a scalar as an element of an array (it is not counted).
\<close>

definition counted :: "doc \<Rightarrow> bool" where
  "counted d \<longleftrightarrow> (\<forall>t n. d \<noteq> DRef t n)"

fun buildable :: "doc \<Rightarrow> bool"
  and fields_buildable :: "(u16 \<times> doc) list \<Rightarrow> bool"
  and items_buildable :: "doc list \<Rightarrow> bool"
where
  "buildable (DVal v) \<longleftrightarrow> True"
| "buildable (DObj fs) \<longleftrightarrow> fields_buildable fs"
| "buildable (DArr t vs) \<longleftrightarrow> vs \<noteq> [] \<and> t \<noteq> TAG_UUID"
| "buildable (DMix ds) \<longleftrightarrow> items_buildable ds"
| "buildable (DRef t n) \<longleftrightarrow> t \<noteq> TAG_NULL"
| "buildable (DRefs n c) \<longleftrightarrow> True"
| "fields_buildable [] \<longleftrightarrow> True"
| "fields_buildable ((nm, d) # fs) \<longleftrightarrow> buildable d \<and> fields_buildable fs"
| "items_buildable [] \<longleftrightarrow> True"
| "items_buildable (d # ds) \<longleftrightarrow> counted d \<and> buildable d \<and> items_buildable ds"

lemma putTag_appends:
  assumes "name_ok nm" "- 1 \<le> f" "f < 1023" "wr_wf w" "wr_len w + length (tag_bytes t nm f) + 10 \<le> 2 ^ 60" "putTag w nm t f = Inr w'"
  shows "appends w (tag_bytes t nm f) w'"
proof -
  have "PutCTag w (tag_word t nm f) = Inr w'"
    using assms(6) by (simp add: putTag_def tag_word_ok [OF assms(1-3)])
  then show ?thesis unfolding tag_bytes_def
    by (intro ctag_codec.put_appends assms(4) tag_word_parts(4) [OF assms(1-3)]) (use assms(5) in \<open>simp_all add: tag_bytes_def\<close>)
qed

fun put_raw :: "variant \<Rightarrow> wr_serializer \<Rightarrow> wr_serializer res" where
  "put_raw (V_Int i) w = PutVarint32 w i"
| "put_raw (V_Int64 i) w = PutVarint64 w i"
| "put_raw (V_Double d) w = PutDouble w d"
| "put_raw (V_Float d) w = PutFloat w d"
| "put_raw (V_String s) w = PutVString w s"
| "put_raw V_WildString w = Inl UB"
| "put_raw (V_Bool b) w = PutBool w b"
| "put_raw (V_Uuid u) w = PutUuid w u"
| "put_raw _ w = Inr w"

lemma put_raw_appends:
  assumes "wr_wf w" "val_ok v" "wr_len w + length (val_bytes v) + 10 \<le> 2 ^ 60" "put_raw v w = Inr w'"
  shows "appends w (val_bytes v) w'"
proof (cases v)
  case (V_Uuid u)
  then show ?thesis using assms uuid_codec.put_appends [of w u w'] by simp
qed (use assms in \<open>auto intro: put_varint_appends double_codec.put_appends float_codec.put_appends PutVString_appends
    bool_codec.put_appends appends_refl\<close>)

lemma cb_Put_scalar:
  assumes "val_ok v" "cb_type b \<noteq> TypeArray"
  shows "cb_Put b w nm v = bind_res (putTag w nm (val_tag v) (- 1)) (\<lambda>w. bind_res (put_raw v w) (\<lambda>w. Inr (cb_counted b, w)))"
  using assms by (cases v) (simp_all add: cb_put_as_def cb_put_uuid_def cb_Null_def)

lemma cb_Put_element:
  assumes "val_ok v" "cb_type b = TypeArray" "val_tag v \<noteq> TAG_UUID"
  shows "cb_Put b w nm v = bind_res (put_raw v w) (\<lambda>w. Inr (cb_counted (b\<lparr>cb_itemType := val_tag v\<rparr>), w))"
  using assms by (cases v) (simp_all add: cb_put_as_def cb_Null_def)

lemma cb_Puts_elements:
  "\<forall>v \<in> set vs. val_ok v \<and> val_tag v = t \<Longrightarrow> t \<noteq> TAG_UUID \<Longrightarrow> cb_type b = TypeArray \<Longrightarrow> wr_wf w \<Longrightarrow>
   wr_len w + length (concat (map val_bytes vs)) + 10 \<le> 2 ^ 60 \<Longrightarrow> cb_Puts b w vs = Inr (b', w') \<Longrightarrow>
   appends w (concat (map val_bytes vs)) w' \<and> cb_type b' = TypeArray \<and> cb_savePos b' = cb_savePos b \<and>
   cb_count b' = cb_count b + length vs \<and> (vs \<noteq> [] \<longrightarrow> cb_itemType b' = t)"
proof (induction vs arbitrary: b w)
  case Nil
  then show ?case by (simp add: appends_refl)
next
  case (Cons v vs)
  have v: "val_ok v" "val_tag v = t" using Cons.prems(1) by simp_all
  let ?b = "cb_counted (b\<lparr>cb_itemType := t\<rparr>)"
  obtain w1 where w1: "put_raw v w = Inr w1" "cb_Puts ?b w1 vs = Inr (b', w')"
    using Cons.prems(2,3,6) cb_Put_element [OF v(1) Cons.prems(3)] v(2) by (auto simp: res_simps)
  have 1: "appends w (val_bytes v) w1" by (rule put_raw_appends [OF Cons.prems(4) v(1) _ w1(1)]) (use Cons.prems(5) in simp)
  have "appends w1 (concat (map val_bytes vs)) w' \<and> cb_type b' = TypeArray \<and> cb_savePos b' = cb_savePos ?b \<and>
      cb_count b' = cb_count ?b + length vs \<and> (vs \<noteq> [] \<longrightarrow> cb_itemType b' = t)"
    by (rule Cons.IH [OF _ Cons.prems(2) _ appends_wf [OF 1] _ w1(2)])
      (use Cons.prems appends_len [OF Cons.prems(4) 1] in \<open>simp_all add: cb_counted_def\<close>)
  moreover have "cb_itemType b' = t" if "vs = []" using w1(2) that by (auto simp: cb_counted_def)
  ultimately show ?case using appends_trans [OF 1] by (auto simp: cb_counted_def)
qed

text \<open>The place kept for the tag of an array, and filling it in.\<close>

lemma array_builder:
  assumes "type \<in> {TypeArray, TypeObjectArray}" "name_ok nm" "wr_wf w" "wr_len w + 20 \<le> 2 ^ 31" "mk_CJsonBuilder w type nm = Inr (b, w1)"
  obtains w0 where "appends w (tag_bytes TAG_ARRAY nm (- 1)) w0" "appends w0 (atag_bytes 0 TAG_NULL) w1"
    "b = \<lparr>cb_type = type, cb_savePos = int (wr_len w0), cb_count = 0, cb_itemType = TAG_OBJECT\<rparr>" "wr_len w0 < 2 ^ 31"
proof -
  obtain w0 where w0: "putTag w nm TAG_ARRAY (- 1) = Inr w0" "PutCArrayTag w0 (atag_word 0 TAG_NULL) = Inr w1"
    and b: "b = \<lparr>cb_type = type, cb_savePos = sint (word_of_nat (wr_len w0) :: 32 word), cb_count = 0, cb_itemType = TAG_OBJECT\<rparr>"
    using assms(1,5) atag_word_ok(1) [of 0 TAG_NULL] by (auto simp: mk_CJsonBuilder_def Let_def res_simps)
  note tl = tag_bytes_len(2) [of TAG_ARRAY nm "- 1"]
  have 1: "appends w (tag_bytes TAG_ARRAY nm (- 1)) w0"
    by (rule putTag_appends [OF assms(2) _ _ assms(3) _ w0(1)]) (use assms(4) tl in simp_all)
  have l: "wr_len w0 < 2 ^ 31" "wr_len w0 \<le> wr_len w + 5" using appends_len [OF assms(3) 1] tl assms(4) by simp_all
  have "carraytag_built (atag_word 0 TAG_NULL)" by (rule atag_word_ok) simp
  then have 2: "appends w0 (atag_bytes 0 TAG_NULL) w1"
    unfolding atag_bytes_def by (intro carraytag_codec.put_appends appends_wf [OF 1] w0(2)) (use l assms(4) in simp_all)
  have "sint (word_of_nat (wr_len w0) :: 32 word) = int (wr_len w0)"
    using l(1) by (simp add: signed_of_nat signed_take_bit_int_eq_self)
  with b have "b = \<lparr>cb_type = type, cb_savePos = int (wr_len w0), cb_count = 0, cb_itemType = TAG_OBJECT\<rparr>" by simp
  from that [OF 1 2 this l(1)] show ?thesis .
qed

lemma cb_patch_appends:
  assumes "wr_wf w" "appends w (atag_bytes m u) w0" "appends w0 body w1" "cb_savePos b = int (wr_len w)" "cb_count b = n" "n < 2 ^ 24"
    "cb_patch b t w1 = Inr w2"
  shows "appends w (atag_bytes n t @ body) w2"
proof -
  have a: "appends w (atag_bytes m u @ body) w1" by (rule appends_trans [OF assms(2,3)])
  then have wf1: "wr_wf w1" and s1: "wr_Slice w1 = wr_Slice w @ atag_bytes m u @ body" and m1: "wr_maxCap w1 = wr_maxCap w"
    by (simp_all add: appends_def)
  have l: "wr_len w + length (atag_bytes n t) \<le> wr_len w1" using appends_len [OF assms(1) a] by simp
  have lw: "length (wr_Slice w) = wr_len w" by (rule wr_Slice_length [OF assms(1)])
  obtain w' where w': "wr_copy w1 (wr_len w) (atag_bytes n t) = Inr w'" "wr_wf w'" "wr_maxCap w' = wr_maxCap w1"
    "wr_Slice w' = take (wr_len w) (wr_Slice w1) @ atag_bytes n t @ drop (wr_len w + length (atag_bytes n t)) (wr_Slice w1)"
    using wr_copy_ok [OF wf1 l] by blast
  have "w2 = w'"
    using assms(4-7) w'(1) atag_word_ok(1) [OF assms(6), of t] by (simp add: cb_patch_def atag_bytes_def)
  then show ?thesis using w' s1 m1 lw by (simp add: appends_def)
qed

lemma cb_End_object:
  assumes "cb_type c = TypeObject" "wr_wf w" "wr_len w + 20 \<le> 2 ^ 31" "cb_End c w = Inr (c', w')"
  shows "appends w (tag_bytes TAG_END 0 (- 1)) w'"
proof -
  have "PutCTag w (tag_word TAG_END 0 (- 1)) = Inr w'" using assms(1,4) by (auto simp: cb_End_def kCTagEnd_word res_simps)
  then show ?thesis unfolding tag_bytes_def
    by (intro ctag_codec.put_appends assms(2) tag_word_parts(4)) (use assms(3) tag_bytes_len(2) [of TAG_END 0 "- 1"] in \<open>simp_all add: tag_bytes_def\<close>)
qed

lemma cb_End_array:
  assumes "cb_type c \<in> {TypeArray, TypeObjectArray}" "cb_End c w = Inr (c', w')"
  shows "cb_patch c (if cb_type c = TypeArray then cb_itemType c else TAG_OBJECT) w = Inr w'"
  using assms by (auto simp: cb_End_def res_simps)

text \<open>A child for an array, given what its elements write.\<close>

lemma array_appends:
  assumes "type \<in> {TypeArray, TypeObjectArray}" "name_ok nm" "wr_wf w" "wr_len w + length (tag_bytes TAG_ARRAY nm (- 1) @ atag_bytes n t @ body) + 20 \<le> 2 ^ 31"
    "bind_res (cb_Array b w nm type) (\<lambda>((b, c), w). bind_res (elems c w) (\<lambda>(c, w). bind_res (cb_End c w) (\<lambda>(_, w). Inr (b, w)))) = Inr (b', w')"
    "n < 2 ^ 24"
    and elems: "\<And>c w0 w1 c1. cb_type c = type \<Longrightarrow> cb_count c = 0 \<Longrightarrow> wr_wf w0 \<Longrightarrow> wr_len w0 + length body + 20 \<le> 2 ^ 31 \<Longrightarrow> elems c w0 = Inr (c1, w1) \<Longrightarrow>
      appends w0 body w1 \<and> cb_type c1 = type \<and> cb_savePos c1 = cb_savePos c \<and> cb_count c1 = n \<and>
      (if type = TypeArray then cb_itemType c1 else TAG_OBJECT) = t"
  shows "appends w (tag_bytes TAG_ARRAY nm (- 1) @ atag_bytes n t @ body) w' \<and> b' = cb_counted b"
proof -
  obtain c w1 c1 w2 c2 where st: "mk_CJsonBuilder w type nm = Inr (c, w1)" "elems c w1 = Inr (c1, w2)" "cb_End c1 w2 = Inr (c2, w')"
    and b': "b' = cb_counted b"
    using assms(5) by (auto simp: cb_Array_def res_simps)
  have "wr_len w + 20 \<le> 2 ^ 31" using assms(4) by simp
  then obtain w0 where 1: "appends w (tag_bytes TAG_ARRAY nm (- 1)) w0" "appends w0 (atag_bytes 0 TAG_NULL) w1"
    "c = \<lparr>cb_type = type, cb_savePos = int (wr_len w0), cb_count = 0, cb_itemType = TAG_OBJECT\<rparr>"
    by (rule array_builder [OF assms(1-3) _ st(1)])
  note l = appends_len [OF assms(3) 1(1)] appends_len [OF appends_wf [OF 1(1)] 1(2)]
  have 2: "appends w1 body w2 \<and> cb_type c1 = type \<and> cb_savePos c1 = cb_savePos c \<and> cb_count c1 = n \<and>
      (if type = TypeArray then cb_itemType c1 else TAG_OBJECT) = t"
    by (rule elems [OF _ _ appends_wf [OF 1(2)] _ st(2)]) (use 1(3) l assms(4) in simp_all)
  have "cb_patch c1 t w2 = Inr w'" using cb_End_array [OF _ st(3)] 2 assms(1) by auto
  then have "appends w0 (atag_bytes n t @ body) w'"
    by (intro cb_patch_appends [OF appends_wf [OF 1(1)] 1(2) _ _ _ assms(6)]) (use 1(3) 2 in simp_all)
  with appends_trans [OF 1(1)] b' show ?thesis by blast
qed

lemma write_doc_appends:
  "doc_ok d \<Longrightarrow> buildable d \<Longrightarrow> name_ok nm \<Longrightarrow> cb_type b \<noteq> TypeArray \<Longrightarrow> wr_wf w \<Longrightarrow>
   wr_len w + length (tag_bytes (doc_tag d) nm (doc_field d) @ doc_body d) + 20 \<le> 2 ^ 31 \<Longrightarrow> write_doc d nm b w = Inr (b', w') \<Longrightarrow>
   appends w (tag_bytes (doc_tag d) nm (doc_field d) @ doc_body d) w' \<and> b' = (if counted d then cb_counted b else b)"
  "fields_ok fs \<Longrightarrow> fields_buildable fs \<Longrightarrow> cb_type b = TypeObject \<Longrightarrow> wr_wf w \<Longrightarrow>
   wr_len w + length (fields_body fs) + 20 \<le> 2 ^ 31 \<Longrightarrow> bind_res (write_fields fs b w) (\<lambda>(c, w). cb_End c w) = Inr (b', w') \<Longrightarrow>
   appends w (fields_body fs) w'"
  "items_ok ds \<Longrightarrow> items_buildable ds \<Longrightarrow> cb_type b = TypeObjectArray \<Longrightarrow> wr_wf w \<Longrightarrow>
   wr_len w + length (items_body ds) + 20 \<le> 2 ^ 31 \<Longrightarrow> write_items ds b w = Inr (b', w') \<Longrightarrow>
   appends w (items_body ds) w' \<and> cb_type b' = TypeObjectArray \<and> cb_savePos b' = cb_savePos b \<and> cb_count b' = cb_count b + length ds"
proof (induction d and fs and ds arbitrary: nm b b' w w' and b b' w w' and b b' w w' rule: doc_body_fields_body_items_body.induct)
  case (1 v)
  obtain w1 where w1: "putTag w nm (val_tag v) (- 1) = Inr w1" "put_raw v w1 = Inr w'" "b' = cb_counted b"
    using 1(1,4,7) by (auto simp: cb_Put_scalar res_simps)
  have t: "appends w (tag_bytes (val_tag v) nm (- 1)) w1"
    by (rule putTag_appends [OF 1(3) _ _ 1(5) _ w1(1)]) (use 1(6) in simp_all)
  have "appends w1 (val_bytes v) w'"
    by (rule put_raw_appends [OF appends_wf [OF t] _ _ w1(2)]) (use 1(1,6) appends_len [OF 1(5) t] in simp_all)
  with appends_trans [OF t] w1(3) show ?case by (simp add: counted_def)
next
  case (2 fs)
  let ?c = "\<lparr>cb_type = TypeObject, cb_savePos = 0, cb_count = 0, cb_itemType = TAG_OBJECT\<rparr>"
  obtain w1 c1 w2 c2 where st: "putTag w nm TAG_OBJECT (- 1) = Inr w1"
    "write_fields fs ?c w1 = Inr (c1, w2)" "cb_End c1 w2 = Inr (c2, w')" "b' = cb_counted b"
    using 2(8) by (auto simp: cb_Object_def mk_CJsonBuilder_def res_simps)
  have t: "appends w (tag_bytes TAG_OBJECT nm (- 1)) w1"
    by (rule putTag_appends [OF 2(4) _ _ 2(6) _ st(1)]) (use 2(7) in simp_all)
  have "appends w1 (fields_body fs) w'"
  proof (rule 2(1) [OF _ _ _ appends_wf [OF t]])
    show "bind_res (write_fields fs ?c w1) (\<lambda>(c, w). cb_End c w) = Inr (c2, w')" using st by simp
  qed (use 2(2,3,7) appends_len [OF 2(6) t] in simp_all)
  with appends_trans [OF t] st(4) show ?case by (simp add: counted_def)
next
  case (3 t vs)
  have ok: "\<forall>v \<in> set vs. val_ok v \<and> val_tag v = t" "t \<noteq> TAG_UUID" "vs \<noteq> []" "length vs < 2 ^ 24" using 3(1,2) by auto
  have "appends w (tag_bytes TAG_ARRAY nm (- 1) @ atag_bytes (length vs) t @ concat (map val_bytes vs)) w' \<and> b' = cb_counted b"
  proof (rule array_appends [where type = TypeArray, OF _ 3(3) 3(5) _ _ ok(4)])
    fix c w0 w1 c1 assume a: "cb_type c = TypeArray" "cb_count c = 0" "wr_wf w0" "wr_len w0 + length (concat (map val_bytes vs)) + 20 \<le> 2 ^ 31"
      "cb_Puts c w0 vs = Inr (c1, w1)"
    then show "appends w0 (concat (map val_bytes vs)) w1 \<and> cb_type c1 = TypeArray \<and> cb_savePos c1 = cb_savePos c \<and> cb_count c1 = length vs \<and>
        (if TypeArray = TypeArray then cb_itemType c1 else TAG_OBJECT) = t"
      using cb_Puts_elements [OF ok(1,2) a(1,3) _ a(5)] ok(3) by simp
  qed (use 3(6,7) in simp_all)
  then show ?case by (simp add: counted_def)
next
  case (4 ds)
  have ok: "items_ok ds" "items_buildable ds" "length ds < 2 ^ 24" using 4(2,3) by auto
  have "appends w (tag_bytes TAG_ARRAY nm (- 1) @ atag_bytes (length ds) TAG_OBJECT @ items_body ds) w' \<and> b' = cb_counted b"
  proof (rule array_appends [where type = TypeObjectArray, OF _ 4(4) 4(6) _ _ ok(3)])
    fix c w0 w1 c1 assume a: "cb_type c = TypeObjectArray" "cb_count c = 0" "wr_wf w0" "wr_len w0 + length (items_body ds) + 20 \<le> 2 ^ 31"
      "write_items ds c w0 = Inr (c1, w1)"
    from 4(1) [OF ok(1,2) a(1,3,4,5)] a(2)
    show "appends w0 (items_body ds) w1 \<and> cb_type c1 = TypeObjectArray \<and> cb_savePos c1 = cb_savePos c \<and> cb_count c1 = length ds \<and>
        (if TypeObjectArray = TypeArray then cb_itemType c1 else TAG_OBJECT) = TAG_OBJECT"
      by simp
  qed (use 4(7,8) in simp_all)
  then show ?case by (simp add: counted_def)
next
  case (5 t n)
  have t: "putTag w nm t (int n) = Inr w'" "b' = b"
    using 5(1,2,7) by (cases t; auto simp: cb_Ref_def res_simps)+
  have "appends w (tag_bytes t nm (int n)) w'"
    by (rule putTag_appends [OF 5(3) _ _ 5(5) _ t(1)]) (use 5(1,6) in \<open>simp_all add: kMaxIndexes_def\<close>)
  with t show ?case by (simp add: counted_def)
next
  case (6 n c)
  obtain w1 where w1: "putTag w nm TAG_ARRAY (int n) = Inr w1" "PutVarUint32 w1 c = Inr w'" "b' = cb_counted b"
    using 6(7) by (auto simp: cb_ArrayRef_def res_simps)
  have t: "appends w (tag_bytes TAG_ARRAY nm (int n)) w1"
    by (rule putTag_appends [OF 6(3) _ _ 6(5) _ w1(1)]) (use 6(1,6) in \<open>simp_all add: kMaxIndexes_def\<close>)
  have "appends w1 (uint32_pack c) w'"
    by (rule put_varint_appends(3) [OF appends_wf [OF t] _ w1(2)]) (use 6(6) appends_len [OF 6(5) t] in simp_all)
  with appends_trans [OF t] w1(3) show ?case by (simp add: counted_def)
next
  case 7
  then show ?case by (simp add: cb_End_object)
next
  case (8 nm d fs)
  obtain b1 w1 where w1: "write_doc d nm b w = Inr (b1, w1)" "bind_res (write_fields fs b1 w1) (\<lambda>(c, w). cb_End c w) = Inr (b', w')"
    using 8(8) by (auto simp: res_simps)
  have ok: "doc_ok d" "buildable d" "name_ok nm" "fields_ok fs" "fields_buildable fs" using 8(3,4) by simp_all
  have 1: "appends w (tag_bytes (doc_tag d) nm (doc_field d) @ doc_body d) w1 \<and> b1 = (if counted d then cb_counted b else b)"
    by (rule 8(1) [OF ok(1-3) _ 8(6) _ w1(1)]) (use 8(5,7) in simp_all)
  then have a: "appends w (tag_bytes (doc_tag d) nm (doc_field d) @ doc_body d) w1" by blast
  have "appends w1 (fields_body fs) w'"
    by (rule 8(2) [OF ok(4,5) _ appends_wf [OF a] _ w1(2)]) (use 1 8(5,7) appends_len [OF 8(6) a] in \<open>simp_all add: cb_counted_def\<close>)
  with appends_trans [OF a] show ?case by simp
next
  case 9
  then show ?case by (simp add: appends_refl)
next
  case (10 d ds)
  obtain b1 w1 where w1: "write_doc d 0 b w = Inr (b1, w1)" "write_items ds b1 w1 = Inr (b', w')"
    using 10(8) by (auto simp: res_simps)
  have ok: "doc_ok d" "buildable d" "counted d" "items_ok ds" "items_buildable ds" using 10(3,4) by simp_all
  have 1: "appends w (tag_bytes (doc_tag d) 0 (doc_field d) @ doc_body d) w1 \<and> b1 = (if counted d then cb_counted b else b)"
    by (rule 10(1) [OF ok(1,2) name_0 _ 10(6) _ w1(1)]) (use 10(5,7) in simp_all)
  then have a: "appends w (tag_bytes (doc_tag d) 0 (doc_field d) @ doc_body d) w1" by blast
  have "appends w1 (items_body ds) w' \<and> cb_type b' = TypeObjectArray \<and> cb_savePos b' = cb_savePos b1 \<and> cb_count b' = cb_count b1 + length ds"
    by (rule 10(2) [OF ok(4,5) _ appends_wf [OF a] _ w1(2)]) (use 1 10(5,7) appends_len [OF 10(6) a] in \<open>simp_all add: cb_counted_def\<close>)
  with appends_trans [OF a] 1 ok(3) show ?case by (simp add: cb_counted_def)
qed

text \<open>With room to grow, no step of the builder fails.\<close>

definition roomy :: "wr_serializer \<Rightarrow> nat \<Rightarrow> bool" where
  "roomy w n \<longleftrightarrow> wr_wf w \<and> wr_len w + n + 20 \<le> 2 ^ 31 \<and> 2 ^ 31 \<le> wr_maxCap w"

lemma roomy_le: "roomy w n \<Longrightarrow> m \<le> n \<Longrightarrow> roomy w m"
  by (simp add: roomy_def)

lemma roomy_after: "roomy w n \<Longrightarrow> appends w bs w' \<Longrightarrow> length bs + m \<le> n \<Longrightarrow> roomy w' m"
  using appends_len [of w bs w'] by (auto simp: roomy_def appends_def)

lemma roomy_wf: "roomy w n \<Longrightarrow> wr_wf w"
  by (simp add: roomy_def)

lemma grow_append_roomy: "roomy w n \<Longrightarrow> length bs \<le> sz \<Longrightarrow> sz \<le> n + 20 \<Longrightarrow> \<exists>w'. grow_append w sz bs = Inr w'"
  using grow_append_cases [of w bs sz] by (auto simp: roomy_def split: if_splits)

lemma put_word_roomy:
  assumes "roomy w 0"
  shows "\<exists>w'. PutVarUint32 w x = Inr w'" "\<exists>w'. PutVarint32 w i = Inr w'" "\<exists>w'. PutVarint64 w j = Inr w'"
    "\<exists>w'. PutUInt32 w x = Inr w'" "\<exists>w'. PutDouble w d = Inr w'" "\<exists>w'. PutFloat w x = Inr w'" "\<exists>w'. PutBool w b = Inr w'"
    "\<exists>w'. PutUInt64 w d = Inr w'"
  using assms pack_len
  by (auto simp: PutVarUint32_def PutVarint32_def PutVarint64_def PutUInt32_def PutDouble_def PutFloat_def PutBool_def PutUInt64_def
      boolean_pack_def intro!: grow_append_roomy)

lemma putTag_roomy:
  assumes "name_ok nm" "- 1 \<le> f" "f < 1023" "roomy w 0"
  shows "\<exists>w'. putTag w nm t f = Inr w'"
  using put_word_roomy(1) [OF assms(4)] by (auto simp: putTag_def tag_word_ok [OF assms(1-3)] PutCTag_def)

lemma put_raw_roomy:
  assumes "val_ok v" "roomy w (length (val_bytes v))"
  obtains w' where "put_raw v w = Inr w'"
proof -
  have r: "roomy w 0" by (rule roomy_le [OF assms(2)]) simp
  have "\<exists>w'. put_raw v w = Inr w'"
  proof (cases v)
    case (V_String s)
    then show ?thesis using assms(2) enc_vstring_len [of s]
      by (auto simp: PutVString_def string_pack_enc intro!: grow_append_roomy [OF assms(2)])
  next
    case (V_Uuid u)
    obtain w1 where w1: "PutUInt64 w (uuid0 u) = Inr w1" using put_word_roomy(8) [OF r] by blast
    have "appends w (le_bytes 8 (unat (uuid0 u))) w1"
      by (rule u64_codec.put_appends [OF roomy_wf [OF r] TrueI _ w1]) (use r in \<open>simp add: roomy_def\<close>)
    then have "roomy w1 0" by (rule roomy_after [OF assms(2)]) (simp add: V_Uuid enc_uuid_def)
    with w1 show ?thesis using put_word_roomy(8) by (simp add: V_Uuid PutUuid_def)
  qed (use put_word_roomy [OF r] assms(1) in simp_all)
  with that show thesis by blast
qed

lemma cb_Puts_roomy:
  "\<forall>v \<in> set vs. val_ok v \<and> val_tag v = t \<Longrightarrow> t \<noteq> TAG_UUID \<Longrightarrow> cb_type b = TypeArray \<Longrightarrow> roomy w (length (concat (map val_bytes vs))) \<Longrightarrow>
   \<exists>b' w'. cb_Puts b w vs = Inr (b', w')"
proof (induction vs arbitrary: b w)
  case (Cons v vs)
  have v: "val_ok v" "val_tag v = t" using Cons.prems(1) by simp_all
  obtain w1 where w1: "put_raw v w = Inr w1"
    by (rule put_raw_roomy [OF v(1)], rule roomy_le [OF Cons.prems(4)]) simp_all
  have 1: "appends w (val_bytes v) w1"
    by (rule put_raw_appends [OF roomy_wf [OF Cons.prems(4)] v(1) _ w1]) (use Cons.prems(4) in \<open>simp add: roomy_def\<close>)
  have "\<exists>b' w'. cb_Puts (cb_counted (b\<lparr>cb_itemType := t\<rparr>)) w1 vs = Inr (b', w')"
    by (rule Cons.IH [OF _ Cons.prems(2) _ roomy_after [OF Cons.prems(4) 1]]) (use Cons.prems in \<open>simp_all add: cb_counted_def\<close>)
  then show ?case using cb_Put_element [OF v(1) Cons.prems(3)] v(2) Cons.prems(2) w1 by simp
qed simp

lemma array_roomy:
  assumes "type \<in> {TypeArray, TypeObjectArray}" "name_ok nm" "roomy w (length (tag_bytes TAG_ARRAY nm (- 1) @ atag_bytes n t @ body))"
    "n < 2 ^ 24"
    and elems: "\<And>c w0. cb_type c = type \<Longrightarrow> cb_count c = 0 \<Longrightarrow> roomy w0 (length body) \<Longrightarrow>
      \<exists>c1 w1. elems c w0 = Inr (c1, w1) \<and> appends w0 body w1 \<and> cb_type c1 = type \<and> cb_savePos c1 = cb_savePos c \<and> cb_count c1 = n"
  shows "\<exists>b' w'. bind_res (cb_Array b w nm type) (\<lambda>((b, c), w). bind_res (elems c w) (\<lambda>(c, w). bind_res (cb_End c w) (\<lambda>(_, w). Inr (b, w)))) = Inr (b', w')"
proof -
  note wf = roomy_wf [OF assms(3)]
  have r: "roomy w 0" by (rule roomy_le [OF assms(3)]) simp
  obtain wa where wa: "putTag w nm TAG_ARRAY (- 1) = Inr wa" using putTag_roomy [OF assms(2) _ _ r, of "- 1"] by auto
  have a: "appends w (tag_bytes TAG_ARRAY nm (- 1)) wa"
    by (rule putTag_appends [OF assms(2) _ _ wf _ wa]) (use assms(3) in \<open>simp_all add: roomy_def\<close>)
  have "roomy wa 0" by (rule roomy_after [OF assms(3) a]) simp
  then obtain wb where wb: "PutCArrayTag wa (atag_word 0 TAG_NULL) = Inr wb" using put_word_roomy(4) by (auto simp: PutCArrayTag_def)
  obtain c where mk: "mk_CJsonBuilder w type nm = Inr (c, wb)"
    using assms(1) wa wb atag_word_ok(1) [of 0 TAG_NULL] by (auto simp: mk_CJsonBuilder_def Let_def)
  have "wr_len w + 20 \<le> 2 ^ 31" using r by (simp add: roomy_def)
  then obtain w0 where 1: "appends w (tag_bytes TAG_ARRAY nm (- 1)) w0" "appends w0 (atag_bytes 0 TAG_NULL) wb"
    "c = \<lparr>cb_type = type, cb_savePos = int (wr_len w0), cb_count = 0, cb_itemType = TAG_OBJECT\<rparr>"
    by (rule array_builder [OF assms(1,2) wf _ mk])
  have "appends w (tag_bytes TAG_ARRAY nm (- 1) @ atag_bytes 0 TAG_NULL) wb" by (rule appends_trans [OF 1(1,2)])
  from roomy_after [OF assms(3) this] have "roomy wb (length body)" by simp
  from elems [OF _ _ this, of c] 1(3) obtain c1 w1 where el: "elems c wb = Inr (c1, w1)" "appends wb body w1" "cb_type c1 = type"
    "cb_savePos c1 = cb_savePos c" "cb_count c1 = n" by auto
  have len: "wr_len w0 + 4 \<le> wr_len w1"
    using appends_len [OF appends_wf [OF 1(1)] appends_trans [OF 1(2) el(2)]] by simp
  have wf1: "wr_wf w1" by (rule appends_wf [OF el(2)])
  have l: "wr_len w0 + length (atag_bytes n t') \<le> wr_len w1" for t' using len by simp
  have pt: "\<exists>w'. cb_patch c1 t' w1 = Inr w'" for t'
    using wr_copy_ok [OF wf1 l, of t'] atag_word_ok(1) [OF assms(4), of t'] el(4,5) 1(3)
    by (auto simp: cb_patch_def atag_bytes_def)
  have "\<exists>c2 w'. cb_End c1 w1 = Inr (c2, w')"
    using assms(1) el(3) pt [of "cb_itemType c1"] pt [of TAG_OBJECT] by (auto simp: cb_End_def)
  then show ?thesis using mk el(1) by (auto simp: cb_Array_def)
qed


lemma write_doc_roomy:
  "doc_ok d \<Longrightarrow> buildable d \<Longrightarrow> name_ok nm \<Longrightarrow> cb_type b \<noteq> TypeArray \<Longrightarrow>
   roomy w (length (tag_bytes (doc_tag d) nm (doc_field d) @ doc_body d)) \<Longrightarrow> \<exists>b' w'. write_doc d nm b w = Inr (b', w')"
  "fields_ok fs \<Longrightarrow> fields_buildable fs \<Longrightarrow> cb_type b = TypeObject \<Longrightarrow> roomy w (length (fields_body fs)) \<Longrightarrow>
   \<exists>b' w'. bind_res (write_fields fs b w) (\<lambda>(c, w). cb_End c w) = Inr (b', w')"
  "items_ok ds \<Longrightarrow> items_buildable ds \<Longrightarrow> cb_type b = TypeObjectArray \<Longrightarrow> roomy w (length (items_body ds)) \<Longrightarrow>
   \<exists>b' w'. write_items ds b w = Inr (b', w')"
proof (induction d and fs and ds arbitrary: nm b w and b w and b w rule: doc_body_fields_body_items_body.induct)
  case (1 v)
  have r: "roomy w 0" by (rule roomy_le [OF 1(5)]) simp
  obtain w1 where w1: "putTag w nm (val_tag v) (- 1) = Inr w1" using putTag_roomy [OF 1(3) _ _ r, of "- 1"] by auto
  have "appends w (tag_bytes (val_tag v) nm (- 1)) w1"
    by (rule putTag_appends [OF 1(3) _ _ roomy_wf [OF r] _ w1]) (use 1(5) in \<open>simp_all add: roomy_def\<close>)
  then have "roomy w1 (length (val_bytes v))" by (rule roomy_after [OF 1(5)]) simp
  then obtain w2 where "put_raw v w1 = Inr w2" using 1(1) by (auto intro: put_raw_roomy)
  then show ?case using 1(1,4) w1 by (simp add: cb_Put_scalar)
next
  case (2 fs)
  let ?c = "\<lparr>cb_type = TypeObject, cb_savePos = 0, cb_count = 0, cb_itemType = TAG_OBJECT\<rparr>"
  have r: "roomy w 0" by (rule roomy_le [OF 2(6)]) simp
  obtain w1 where w1: "putTag w nm TAG_OBJECT (- 1) = Inr w1" using putTag_roomy [OF 2(4) _ _ r, of "- 1"] by auto
  have "appends w (tag_bytes TAG_OBJECT nm (- 1)) w1"
    by (rule putTag_appends [OF 2(4) _ _ roomy_wf [OF r] _ w1]) (use 2(6) in \<open>simp_all add: roomy_def\<close>)
  then have "roomy w1 (length (fields_body fs))" by (rule roomy_after [OF 2(6)]) simp
  from 2(1) [OF _ _ _ this, of ?c] 2(2,3) obtain b' w' where "bind_res (write_fields fs ?c w1) (\<lambda>(c, w). cb_End c w) = Inr (b', w')" by auto
  then show ?case using w1 by (auto simp: cb_Object_def mk_CJsonBuilder_def res_simps)
next
  case (3 t vs)
  have ok: "\<forall>v \<in> set vs. val_ok v \<and> val_tag v = t" "t \<noteq> TAG_UUID" "length vs < 2 ^ 24" using 3(1,2) by auto
  show ?case unfolding write_doc.simps
  proof (rule array_roomy [where n = "length vs" and t = t and body = "concat (map val_bytes vs)"])
    fix c :: cjson_builder and w0 assume a: "cb_type c = TypeArray" "cb_count c = 0" "roomy w0 (length (concat (map val_bytes vs)))"
    obtain c1 w1 where p: "cb_Puts c w0 vs = Inr (c1, w1)" using cb_Puts_roomy [OF ok(1,2) a(1,3)] by blast
    from cb_Puts_elements [OF ok(1,2) a(1) roomy_wf [OF a(3)] _ p] a(2,3) p
    show "\<exists>c1 w1. cb_Puts c w0 vs = Inr (c1, w1) \<and> appends w0 (concat (map val_bytes vs)) w1 \<and> cb_type c1 = TypeArray \<and>
        cb_savePos c1 = cb_savePos c \<and> cb_count c1 = length vs" by (simp add: roomy_def)
  qed (use 3(3,5) ok in simp_all)
next
  case (4 ds)
  have ok: "items_ok ds" "items_buildable ds" "length ds < 2 ^ 24" using 4(2,3) by auto
  show ?case unfolding write_doc.simps
  proof (rule array_roomy [where n = "length ds" and t = TAG_OBJECT and body = "items_body ds"])
    fix c :: cjson_builder and w0 assume a: "cb_type c = TypeObjectArray" "cb_count c = 0" "roomy w0 (length (items_body ds))"
    obtain c1 w1 where p: "write_items ds c w0 = Inr (c1, w1)" using 4(1) [OF ok(1,2) a(1,3)] by blast
    have "wr_len w0 + length (items_body ds) + 20 \<le> 2 ^ 31" using a(3) by (simp add: roomy_def)
    from write_doc_appends(3) [OF ok(1,2) a(1) roomy_wf [OF a(3)] this p] a(2) p
    show "\<exists>c1 w1. write_items ds c w0 = Inr (c1, w1) \<and> appends w0 (items_body ds) w1 \<and> cb_type c1 = TypeObjectArray \<and>
        cb_savePos c1 = cb_savePos c \<and> cb_count c1 = length ds" by simp
  qed (use 4(4,6) ok in simp_all)
next
  case (5 t n)
  have r: "roomy w 0" by (rule roomy_le [OF 5(5)]) simp
  obtain w1 where w1: "putTag w nm t (int n) = Inr w1" using putTag_roomy [OF 5(3) _ _ r, of "int n"] 5(1) by (auto simp: kMaxIndexes_def)
  then show ?case using 5(1,2) by (cases t) (simp_all add: cb_Ref_def)
next
  case (6 n c)
  have r: "roomy w 0" by (rule roomy_le [OF 6(5)]) simp
  obtain w1 where w1: "putTag w nm TAG_ARRAY (int n) = Inr w1"
    using putTag_roomy [OF 6(3) _ _ r, of "int n"] 6(1) by (auto simp: kMaxIndexes_def)
  have "appends w (tag_bytes TAG_ARRAY nm (int n)) w1"
    by (rule putTag_appends [OF 6(3) _ _ roomy_wf [OF r] _ w1]) (use 6(1,5) in \<open>simp_all add: roomy_def kMaxIndexes_def\<close>)
  then have "roomy w1 0" by (rule roomy_after [OF 6(5)]) simp
  from put_word_roomy(1) [OF this, of c] w1 show ?case by (auto simp: cb_ArrayRef_def)
next
  case 7
  then show ?case using put_word_roomy(1) [OF roomy_le [OF 7(4)], of "ctag_asNumber (tag_word TAG_END 0 (- 1))"]
    by (auto simp: cb_End_def kCTagEnd_word PutCTag_def)
next
  case (8 nm d fs)
  have ok: "doc_ok d" "buildable d" "name_ok nm" "fields_ok fs" "fields_buildable fs" using 8(3,4) by simp_all
  have t: "cb_type b \<noteq> TypeArray" using 8(5) by simp
  let ?e = "tag_bytes (doc_tag d) nm (doc_field d) @ doc_body d"
  have r: "roomy w (length ?e)" by (rule roomy_le [OF 8(6)]) simp
  obtain b1 w1 where w1: "write_doc d nm b w = Inr (b1, w1)" using 8(1) [OF ok(1-3) t r] by blast
  have "wr_len w + length ?e + 20 \<le> 2 ^ 31" using r by (simp add: roomy_def)
  from write_doc_appends(1) [OF ok(1-3) t roomy_wf [OF r] this w1]
  have 1: "appends w ?e w1" "cb_type b1 = TypeObject" using 8(5) by (simp_all add: cb_counted_def)
  have "roomy w1 (length (fields_body fs))" by (rule roomy_after [OF 8(6) 1(1)]) simp
  from 8(2) [OF ok(4,5) 1(2) this] w1 show ?case by simp
next
  case 9
  then show ?case by simp
next
  case (10 d ds)
  have ok: "doc_ok d" "buildable d" "items_ok ds" "items_buildable ds" using 10(3,4) by simp_all
  have t: "cb_type b \<noteq> TypeArray" using 10(5) by simp
  let ?e = "tag_bytes (doc_tag d) 0 (doc_field d) @ doc_body d"
  have r: "roomy w (length ?e)" by (rule roomy_le [OF 10(6)]) simp
  obtain b1 w1 where w1: "write_doc d 0 b w = Inr (b1, w1)" using 10(1) [OF ok(1,2) name_0 t r] by blast
  have "wr_len w + length ?e + 20 \<le> 2 ^ 31" using r by (simp add: roomy_def)
  from write_doc_appends(1) [OF ok(1,2) name_0 t roomy_wf [OF r] this w1]
  have 1: "appends w ?e w1" "cb_type b1 = TypeObjectArray" using 10(5) by (simp_all add: cb_counted_def)
  have "roomy w1 (length (items_body ds))" by (rule roomy_after [OF 10(6) 1(1)]) simp
  from 10(2) [OF ok(3,4) 1(2) this] w1 show ?case by simp
qed

text \<open>
  C9. The builder writes documents: whatever document, nested to any depth, is built through children that
  are started, filled and ended in the order of the code, in a buffer that may grow, every call succeeds, the
  contents of the buffer are extended by exactly the bytes of the document, with the number and the type
  of the elements in the tag of every array, and skipping what was written ends at the end of the buffer with the
  references counted.
\<close>

theorem cjson_builder_exact:
  assumes "doc_ok d" "buildable d" "name_ok nm" "cb_type b \<noteq> TypeArray" "wr_wf w" "2 ^ 31 \<le> wr_maxCap w"
    "wr_len w + length (tag_bytes (doc_tag d) nm (doc_field d) @ doc_body d) + 20 \<le> 2 ^ 31"
  shows "\<exists>b' w'. write_doc d nm b w = Inr (b', w') \<and>
    wr_Slice w' = wr_Slice w @ tag_bytes (doc_tag d) nm (doc_field d) @ doc_body d \<and>
    bind_res (GetCTag (ser_at (wr_Slice w) (drop (wr_len w) (wr_Slice w')))) (\<lambda>(c, s). skipCjsonTag c None s) =
      Inr (None, ser_at (wr_Slice w') [])"
proof -
  let ?t = "tag_bytes (doc_tag d) nm (doc_field d)"
  have "roomy w (length (?t @ doc_body d))" using assms(5-7) by (simp add: roomy_def)
  then obtain b' w' where w': "write_doc d nm b w = Inr (b', w')"
    using write_doc_roomy(1) [OF assms(1-4)] by blast
  have s: "wr_Slice w' = wr_Slice w @ ?t @ doc_body d"
    using write_doc_appends(1) [OF assms(1-5,7) w'] by (simp add: appends_def)
  have l: "length (wr_Slice w) = wr_len w" by (rule wr_Slice_length [OF assms(5)])
  note fr = doc_field_range [OF assms(1)]
  have g: "GetCTag (ser_at (wr_Slice w) (?t @ doc_body d)) = Inr (tag_word (doc_tag d) nm (doc_field d), ser_at (wr_Slice w @ ?t) (doc_body d))"
    using GetCTag_tag [OF assms(3) fr, where rest = "doc_body d"] l assms(7) by simp
  have rem: "ser_remaining (ser_at (wr_Slice w @ ?t) (doc_body d)) = length (doc_body d)"
    by (rule remaining_at) (use l assms(7) in simp)
  have "skip_tag (2 * length (doc_body d) + 2) (tag_word (doc_tag d) nm (doc_field d)) None (ser_at (wr_Slice w @ ?t) (doc_body d @ [])) =
      Inr (doc_refs d None, ser_at ((wr_Slice w @ ?t) @ doc_body d) [])"
    by (rule skip_doc(1) [OF assms(1)]) (use tag_word_parts [OF assms(3) fr] l assms(7) in \<open>simp_all add: offs_ok_def\<close>)
  moreover have "doc_refs d None = None" by (rule refs_None)
  ultimately have "skipCjsonTag (tag_word (doc_tag d) nm (doc_field d)) None (ser_at (wr_Slice w @ ?t) (doc_body d)) =
      Inr (None, ser_at (wr_Slice w') [])"
    by (simp add: skipCjsonTag_def rem s)
  with g w' s l show ?thesis by simp
qed

lemma le_bytes_4: "le_bytes 4 v = [word_of_nat (v mod 256), word_of_nat (v div 256 mod 256), word_of_nat (v div 65536 mod 256), word_of_nat (v div 16777216 mod 256)]"
proof -
  have 4: "(4 :: nat) = Suc (Suc (Suc (Suc 0)))" by simp
  have d: "v div 256 div 256 = v div 65536" "v div 65536 div 256 = v div 16777216" by (simp_all add: div_mult2_eq [symmetric])
  show ?thesis by (simp only: 4 le_bytes.simps d)
qed

lemma tag_examples:
  "tag_bytes TAG_OBJECT 0 (- 1) = [6]" "tag_bytes TAG_ARRAY 1 (- 1) = [13]" "tag_bytes TAG_ARRAY 2 5 = [0x95, 0x80, 0x0C]"
  "tag_bytes TAG_END 0 (- 1) = [7]"
  by (simp_all add: tag_bytes_def tag_word_def the_res_def mk_ctag_def Let_def ctag_kNameMax_def ctag_kTypeMask_def uint32_pack_def)

lemma atag_example: "atag_bytes (Suc (Suc 0)) TAG_BOOL = [2, 0, 0, 3]"
  by (simp add: atag_bytes_def atag_word_def mk_carraytag_def the_res_def le_bytes_4)

theorem cjson_builder_exact_witness:
  "let w = mk_WrSerializer (replicate 256 0) (mk_GrowthPolicy 0);
       b = \<lparr>cb_type = TypePlain, cb_savePos = 0, cb_count = 0, cb_itemType = TAG_OBJECT\<rparr>;
       d = DObj [(1, DArr TAG_BOOL [V_Bool True, V_Bool False]), (2, DRefs 5 3)]
   in \<exists>b' w'. write_doc d 0 b w = Inr (b', w') \<and>
     wr_Slice w' = [6, 13, 2, 0, 0, 3, 1, 0, 0x95, 0x80, 0x0C, 3, 7]"
proof -
  let ?w = "mk_WrSerializer (replicate 256 0) (mk_GrowthPolicy 0)"
  let ?b = "\<lparr>cb_type = TypePlain, cb_savePos = 0, cb_count = 0, cb_itemType = TAG_OBJECT\<rparr>"
  let ?d = "DObj [(1, DArr TAG_BOOL [V_Bool True, V_Bool False]), (2, DRefs 5 3)]"
  have e: "tag_bytes (doc_tag ?d) 0 (doc_field ?d) @ doc_body ?d = [6, 13, 2, 0, 0, 3, 1, 0, 0x95, 0x80, 0x0C, 3, 7]"
    by (simp add: tag_examples atag_example boolean_pack_def uint32_pack_def)
  have "doc_ok ?d" "buildable ?d" "name_ok 0" "cb_type ?b \<noteq> TypeArray" "wr_wf ?w" "2 ^ 31 \<le> wr_maxCap ?w"
    by (simp_all add: name_ok_def kMaxIndexes_def mk_WrSerializer_def wr_wf_def mk_GrowthPolicy_def wr_kMaxCapacity_def)
  moreover have "wr_len ?w + length (tag_bytes (doc_tag ?d) 0 (doc_field ?d) @ doc_body ?d) + 20 \<le> 2 ^ 31"
    unfolding e by (simp add: mk_WrSerializer_def)
  ultimately show ?thesis
    using cjson_builder_exact [of ?d 0 ?b ?w] unfolding e by (auto simp: mk_WrSerializer_def wr_Slice_def Let_def)
qed

subsection \<open>Copying\<close>

lemma zigzag_scast: "zigzag_encode64 (scast i) = ucast (zigzag_encode32 i)" for i :: "32 word"
proof -
  have "inj zigzag_encode64" by (rule injI) (metis zigzag_roundtrip)
  then have "surj zigzag_encode64" by (rule finite_UNIV_inj_surj [rotated]) simp
  then obtain x where x: "ucast (zigzag_encode32 i) = zigzag_encode64 x" by (rule surjE)
  then have "x = scast i" using zigzag_roundtrip [of x] zigzag32_roundtrip [of i] by simp
  with x show ?thesis by simp
qed

lemma sint_pack_scast: "sint64_pack (scast i) = sint32_pack i"
  by (simp add: sint64_pack_def sint32_pack_def uint32_pack_uint64 zigzag_scast)


lemma copy_with_codec:
  assumes "wire_codec put get enc ok" "ok x" "fits (length pre) (length (enc x) + length rest)"
  shows "copy_with get var put kNoValidation (ser_at pre (enc x @ rest)) w = bind_res (put w x) (\<lambda>w. Inr (ser_at (pre @ enc x) rest, w))"
  using wire_codec.get_enc [OF assms] by (simp add: copy_with_def kNoValidation_def)

text \<open>An integer is read as 64 bits wide, whatever width it was written with: its bytes are the same.\<close>

fun widened :: "variant \<Rightarrow> variant" where
  "widened (V_Int i) = V_Int64 (scast i)"
| "widened v = v"

lemma widened_same [simp]: "val_bytes (widened v) = val_bytes v" "val_ok (widened v) = val_ok v" "val_tag (widened v) = val_tag v"
  by (cases v; simp add: sint_pack_scast)+

lemma copy_value:
  assumes "val_ok v" "fits (length pre) (length (val_bytes v) + length rest)"
  shows "copyCJsonValue (tag_number (val_tag v)) kNoValidation (ser_at pre (val_bytes v @ rest)) w =
    bind_res (put_raw (widened v) w) (\<lambda>w. Inr (ser_at (pre @ val_bytes v) rest, w))"
proof (cases v)
  case (V_Int i)
  have "fits (length pre) (length (sint64_pack (scast i)) + length rest)" using assms(2) V_Int by (simp add: sint_pack_scast)
  from copy_with_codec [OF varint_codec.wire_codec_axioms TrueI this, of V_Int64 w] show ?thesis
    unfolding copyCJsonValue_def tag_of_number by (simp add: V_Int sint_pack_scast)
next
  case (V_Int64 i)
  from copy_with_codec [OF varint_codec.wire_codec_axioms TrueI, of pre i rest] assms(2) V_Int64 show ?thesis
    unfolding copyCJsonValue_def tag_of_number by simp
next
  case (V_Double i)
  from copy_with_codec [OF double_codec.wire_codec_axioms TrueI, of pre i rest] assms(2) V_Double show ?thesis
    unfolding copyCJsonValue_def tag_of_number by simp
next
  case (V_Float i)
  from copy_with_codec [OF float_codec.wire_codec_axioms TrueI, of pre i rest] assms(2) V_Float show ?thesis
    unfolding copyCJsonValue_def tag_of_number by simp
next
  case (V_Bool i)
  from copy_with_codec [OF bool_codec.wire_codec_axioms TrueI, of pre i rest] assms(2) V_Bool show ?thesis
    unfolding copyCJsonValue_def tag_of_number by simp
next
  case (V_String i)
  from copy_with_codec [OF vstring_codec.wire_codec_axioms, of i pre rest] assms V_String show ?thesis
    unfolding copyCJsonValue_def tag_of_number by simp
next
  case (V_Uuid i)
  from copy_with_codec [OF uuid_codec.wire_codec_axioms TrueI, of pre i rest] assms(2) V_Uuid show ?thesis
    unfolding copyCJsonValue_def tag_of_number by simp
next
  case V_Null
  show ?thesis unfolding copyCJsonValue_def tag_of_number by (simp add: V_Null)
qed (use assms(1) in simp_all)

lemma copy_values_appends:
  "\<forall>v \<in> set vs. val_ok v \<and> val_tag v = t \<Longrightarrow> fits (length pre) (length (concat (map val_bytes vs)) + length rest) \<Longrightarrow>
   roomy w (length (concat (map val_bytes vs))) \<Longrightarrow>
   \<exists>w'. copy_values (length vs) (tag_number t) (ser_at pre (concat (map val_bytes vs) @ rest)) w =
      Inr (ser_at (pre @ concat (map val_bytes vs)) rest, w') \<and> appends w (concat (map val_bytes vs)) w'"
proof (induction vs arbitrary: pre w)
  case Nil
  then show ?case by (simp add: appends_refl roomy_wf)
next
  case (Cons v vs)
  let ?r = "concat (map val_bytes vs)"
  have v: "val_ok v" "val_tag v = t" using Cons.prems(1) by simp_all
  have r: "roomy w (length (val_bytes v))" by (rule roomy_le [OF Cons.prems(3)]) simp
  obtain w1 where w1: "put_raw (widened v) w = Inr w1" by (rule put_raw_roomy [of "widened v" w]) (use v r in simp_all)
  have 1: "appends w (val_bytes v) w1"
    using put_raw_appends [OF roomy_wf [OF r], of "widened v" w1] v(1) w1 r by (simp add: roomy_def)
  have c: "copyCJsonValue (tag_number t) kNoValidation (ser_at pre (val_bytes v @ ?r @ rest)) w = Inr (ser_at (pre @ val_bytes v) (?r @ rest), w1)"
    using copy_value [OF v(1), of pre "?r @ rest" w] Cons.prems(2) w1 v(2) by simp
  have "roomy w1 (length ?r)" by (rule roomy_after [OF Cons.prems(3) 1]) simp
  then obtain w' where w': "copy_values (length vs) (tag_number t) (ser_at (pre @ val_bytes v) (?r @ rest)) w1 =
      Inr (ser_at ((pre @ val_bytes v) @ ?r) rest, w')" "appends w1 ?r w'"
    using Cons.IH [of "pre @ val_bytes v" w1] Cons.prems(1,2) by auto
  show ?case using c w' appends_trans [OF 1 w'(2)] by simp
qed

text \<open>
  C39. Copying an array of scalars: from a reader before its elements the builder takes over exactly the given
  number of elements and writes the array with the same bytes, whatever the width its
  integers were written with; the reader, with fewer than \<open>2 ^ 32\<close> bytes before it, ends behind the elements.
\<close>

theorem cjson_array_copied:
  assumes "\<forall>v \<in> set vs. val_ok v \<and> val_tag v = t" "length vs < 2 ^ 24" "name_ok nm" "wr_wf w" "2 ^ 31 \<le> wr_maxCap w"
    "wr_len w + length (tag_bytes TAG_ARRAY nm (- 1) @ doc_body (DArr t vs)) + 20 \<le> 2 ^ 31"
    "fits (length pre) (length (concat (map val_bytes vs)) + length rest)"
  shows "\<exists>w'. cb_Array_copy b w nm (ser_at pre (concat (map val_bytes vs) @ rest)) (tag_number t) (length vs) =
      Inr ((cb_counted b, ser_at (pre @ concat (map val_bytes vs)) rest), w') \<and>
    wr_Slice w' = wr_Slice w @ tag_bytes TAG_ARRAY nm (- 1) @ doc_body (DArr t vs)"
proof -
  let ?b = "concat (map val_bytes vs)" and ?t = "tag_bytes TAG_ARRAY nm (- 1)" and ?a = "atag_bytes (length vs) t"
  have r: "roomy w (length (?t @ ?a @ ?b))" using assms(4-6) by (simp add: roomy_def)
  have r0: "roomy w 0" by (rule roomy_le [OF r]) simp
  obtain w1 where w1: "putTag w nm TAG_ARRAY (- 1) = Inr w1" using putTag_roomy [OF assms(3) _ _ r0, of "- 1"] by auto
  have 1: "appends w ?t w1"
    by (rule putTag_appends [OF assms(3) _ _ assms(4) _ w1]) (use r in \<open>simp_all add: roomy_def\<close>)
  have r1: "roomy w1 (length (?a @ ?b))" by (rule roomy_after [OF r 1]) simp
  have r10: "roomy w1 0" by (rule roomy_le [OF r1]) simp
  obtain w2 where w2: "PutCArrayTag w1 (atag_word (length vs) t) = Inr w2"
    using put_word_roomy(4) [OF r10, of "carraytag_asNumber (atag_word (length vs) t)"] by (auto simp: PutCArrayTag_def)
  have 2: "appends w1 ?a w2" unfolding atag_bytes_def
    by (rule carraytag_codec.put_appends [OF appends_wf [OF 1] atag_word_ok(4) [OF assms(2)] _ w2]) (use r1 in \<open>simp add: roomy_def\<close>)
  have r2: "roomy w2 (length ?b)" by (rule roomy_after [OF r1 2]) simp
  obtain w3 where w3: "copy_values (length vs) (tag_number t) (ser_at pre (?b @ rest)) w2 = Inr (ser_at (pre @ ?b) rest, w3)" "appends w2 ?b w3"
    using copy_values_appends [OF assms(1,7) r2] by blast
  have "appends w (?t @ ?a @ ?b) w3" using appends_trans [OF 1 appends_trans [OF 2 w3(2)]] by simp
  moreover have "cb_Array_copy b w nm (ser_at pre (?b @ rest)) (tag_number t) (length vs) = Inr ((cb_counted b, ser_at (pre @ ?b) rest), w3)"
    using w1 w2 w3(1) atag_word_ok(1) [OF assms(2), of t] by (simp add: cb_Array_copy_def cb_header_def)
  ultimately show ?thesis by (auto simp: appends_def)
qed

theorem cjson_array_copied_witness:
  "let w = mk_WrSerializer (replicate 256 0) (mk_GrowthPolicy 0);
       b = \<lparr>cb_type = TypeObject, cb_savePos = 0, cb_count = 4, cb_itemType = TAG_OBJECT\<rparr>
   in \<exists>w'. cb_Array_copy b w 1 (ser_at [9] ([1, 0] @ [7])) (tag_number TAG_BOOL) 2 = Inr ((cb_counted b, ser_at [9, 1, 0] [7]), w') \<and>
     wr_Slice w' = [13, 2, 0, 0, 3, 1, 0]"
proof -
  let ?w = "mk_WrSerializer (replicate 256 0) (mk_GrowthPolicy 0)"
  let ?b = "\<lparr>cb_type = TypeObject, cb_savePos = 0, cb_count = 4, cb_itemType = TAG_OBJECT\<rparr>"
  let ?vs = "[V_Bool True, V_Bool False]"
  have e: "tag_bytes TAG_ARRAY 1 (- 1) @ doc_body (DArr TAG_BOOL ?vs) = [13, 2, 0, 0, 3, 1, 0]"
    by (simp add: tag_examples atag_example boolean_pack_def)
  have c: "concat (map val_bytes ?vs) = [1, 0]" by (simp add: boolean_pack_def)
  have n: "length ?vs = 2" by simp
  have "\<forall>v \<in> set ?vs. val_ok v \<and> val_tag v = TAG_BOOL" "length ?vs < 2 ^ 24" "name_ok 1" "wr_wf ?w" "2 ^ 31 \<le> wr_maxCap ?w"
    by (simp_all add: name_ok_def mk_WrSerializer_def wr_wf_def mk_GrowthPolicy_def wr_kMaxCapacity_def)
  moreover have "wr_len ?w + length (tag_bytes TAG_ARRAY 1 (- 1) @ doc_body (DArr TAG_BOOL ?vs)) + 20 \<le> 2 ^ 31"
    unfolding e by (simp add: mk_WrSerializer_def)
  moreover have "fits (length [9 :: u8]) (length (concat (map val_bytes ?vs)) + length [7 :: u8])" unfolding c by simp
  ultimately show ?thesis
    using cjson_array_copied [of ?vs TAG_BOOL 1 ?w "[9]" "[7]" ?b] unfolding e c n by (auto simp: mk_WrSerializer_def wr_Slice_def Let_def)
qed

subsection \<open>Counting the elements of nested arrays\<close>

fun leaves :: "doc \<Rightarrow> nat" where
  "leaves (DMix ds) = sum_list (map leaves ds)"
| "leaves (DArr t vs) = length vs"
| "leaves _ = 1"

fun is_array :: "doc \<Rightarrow> bool" where
  "is_array (DMix _) \<longleftrightarrow> True"
| "is_array (DArr _ _) \<longleftrightarrow> True"
| "is_array _ \<longleftrightarrow> False"

text \<open>Arrays that come from outside have no references to arrays as elements.\<close>

fun no_refs :: "doc \<Rightarrow> bool" where
  "no_refs (DMix ds) \<longleftrightarrow> (\<forall>d \<in> set ds. no_refs d)"
| "no_refs (DRefs _ _) \<longleftrightarrow> False"
| "no_refs _ \<longleftrightarrow> True"

lemma not_array_tag: "doc_ok d \<Longrightarrow> no_refs d \<Longrightarrow> doc_tag d = TAG_ARRAY \<longleftrightarrow> is_array d"
proof (cases d)
  case (DVal v)
  then show ?thesis using val_tag_scalar [of v] by auto
qed auto

lemma leaves_single: "\<not> is_array d \<Longrightarrow> leaves d = 1"
  by (cases d) simp_all

lemma analize_step:
  assumes "doc_ok d" "fits (length pre) (length (tag_bytes (doc_tag d) 0 (doc_field d) @ doc_body d) + length rest)" "\<not> is_array d" "no_refs d"
  shows "analize_items (Suc f) (Suc n) cnt nest (ser_at pre (tag_bytes (doc_tag d) 0 (doc_field d) @ doc_body d @ rest)) =
    analize_items (Suc f) n (cnt + 1) nest (ser_at (pre @ tag_bytes (doc_tag d) 0 (doc_field d) @ doc_body d) rest)"
proof -
  let ?t = "tag_bytes (doc_tag d) 0 (doc_field d)" and ?c = "tag_word (doc_tag d) 0 (doc_field d)"
  note fr = doc_field_range [OF assms(1)]
  note c = tag_word_parts [OF name_0 fr, of "doc_tag d"]
  have 1: "GetCTag (ser_at pre (?t @ doc_body d @ rest)) = Inr (?c, ser_at (pre @ ?t) (doc_body d @ rest))"
    by (rule GetCTag_tag [OF name_0 fr]) (use assms(2) in simp)
  have "ser_remaining (ser_at (pre @ ?t) (doc_body d @ rest)) = length (doc_body d @ rest)"
    by (rule remaining_at) (use assms(2) in simp)
  then have "skipCjsonTag ?c None (ser_at (pre @ ?t) (doc_body d @ rest)) = Inr (doc_refs d None, ser_at ((pre @ ?t) @ doc_body d) rest)"
    unfolding skipCjsonTag_def by (intro skip_doc(1) [OF assms(1)]) (use assms(2) c in \<open>simp_all add: offs_ok_def\<close>)
  moreover have "ctag_Type ?c \<noteq> tag_number TAG_ARRAY"
    using c(1) not_array_tag [OF assms(1,4)] assms(3) by (simp del: tag_number.simps)
  ultimately show ?thesis using 1 by simp
qed

lemma analize_head:
  assumes "doc_tag d = TAG_ARRAY" "doc_field d = - 1" "doc_body d = atag_bytes m t @ body" "m < 2 ^ 24"
    "fits (length pre) (length (tag_bytes (doc_tag d) 0 (doc_field d) @ doc_body d) + length rest)"
  shows "analize_items (Suc f) (Suc n) cnt nest (ser_at pre (tag_bytes (doc_tag d) 0 (doc_field d) @ doc_body d @ rest)) =
    (let s = ser_at (pre @ tag_bytes (doc_tag d) 0 (doc_field d) @ atag_bytes m t) (body @ rest)
     in if t = TAG_OBJECT
        then bind_res (analize_items f m 0 False s) (\<lambda>((sz, _), s). analize_items (Suc f) n (cnt + sz) True s)
        else bind_res (skip_items (2 * ser_remaining s + 2) m (Some (tag_word t 0 (- 1))) None s) (\<lambda>(_, s).
             analize_items (Suc f) n (cnt + m) True s))"
proof -
  let ?t = "tag_bytes TAG_ARRAY 0 (- 1)" and ?a = "atag_bytes m t"
  have 1: "GetCTag (ser_at pre (?t @ ?a @ body @ rest)) = Inr (tag_word TAG_ARRAY 0 (- 1), ser_at (pre @ ?t) (?a @ body @ rest))"
    by (rule GetCTag_tag) (use assms in simp_all)
  have 2: "GetCArrayTag (ser_at (pre @ ?t) (?a @ body @ rest)) = Inr (atag_word m t, ser_at ((pre @ ?t) @ ?a) (body @ rest))"
    by (rule GetCArrayTag_atag [OF assms(4)]) (use assms in simp)
  have 3: "mk_ctag (tag_number t) 0 (- 1) = Inr (tag_word t 0 (- 1))" by (rule tag_word_ok) simp_all
  have "ctag_Type (tag_word TAG_ARRAY 0 (- 1)) = tag_number TAG_ARRAY" by (rule tag_word_parts) simp_all
  with 1 2 3 atag_word_ok(2,3) [OF assms(4), of t] assms(1-3) show ?thesis
    by (cases "t = TAG_OBJECT") (simp_all add: Let_def del: tag_number.simps)
qed

lemma analize_exact:
  "doc_ok d \<Longrightarrow> d = DMix ds' \<Longrightarrow> (\<forall>d \<in> set ds'. no_refs d) \<Longrightarrow> length (items_body ds') < f \<Longrightarrow> fits (length pre) (length (items_body ds') + length rest) \<Longrightarrow>
   analize_items f (length ds') cnt nest (ser_at pre (items_body ds' @ rest)) =
     Inr ((cnt + sum_list (map leaves ds'), nest \<or> list_ex is_array ds'), ser_at (pre @ items_body ds') rest)"
  "fields_ok fs \<Longrightarrow> f = f"
  "items_ok ds \<Longrightarrow> (\<forall>d \<in> set ds. no_refs d) \<Longrightarrow> length (items_body ds) < f \<Longrightarrow> fits (length pre) (length (items_body ds) + length rest) \<Longrightarrow>
   analize_items f (length ds) cnt nest (ser_at pre (items_body ds @ rest)) =
     Inr ((cnt + sum_list (map leaves ds), nest \<or> list_ex is_array ds), ser_at (pre @ items_body ds) rest)"
proof (induction d and fs and ds arbitrary: ds' f cnt nest pre rest and f and f cnt nest pre rest rule: doc_body_fields_body_items_body.induct)
  case (4 ds)
  then show ?case by simp
next
  case 9
  then obtain g where "f = Suc g" by (cases f) auto
  then show ?case by simp
next
  case (10 d ds)
  let ?t = "tag_bytes (doc_tag d) 0 (doc_field d)"
  have ok: "doc_ok d" "items_ok ds" and nr: "no_refs d" "\<forall>d \<in> set ds. no_refs d" using 10(3,4) by simp_all
  note tl = tag_bytes_len(1) [of "doc_tag d" 0 "doc_field d"]
  from 10(5) obtain g where f: "f = Suc g" by (cases f) auto
  have l: "fits (length pre) (length (?t @ doc_body d) + length (items_body ds @ rest))" using 10(6) by simp
  have rest': "analize_items f (length ds) cnt' nest' (ser_at (pre @ ?t @ doc_body d) (items_body ds @ rest)) =
      Inr ((cnt' + sum_list (map leaves ds), nest' \<or> list_ex is_array ds), ser_at ((pre @ ?t @ doc_body d) @ items_body ds) rest)" for cnt' nest'
    by (rule 10(2) [OF ok(2) nr(2)]) (use 10(5,6) in simp_all)
  show ?case
  proof (cases "is_array d")
    case False
    then show ?thesis
      using analize_step [OF ok(1) l False nr(1), of g "length ds" cnt nest] rest' [of "cnt + 1" nest] leaves_single [OF False] f by simp
  next
    case True
    then consider t vs where "d = DArr t vs" | ds' where "d = DMix ds'" by (cases d) auto
    then show ?thesis
    proof cases
      case (1 t vs)
      let ?b = "concat (map val_bytes vs)" and ?s = "ser_at (pre @ ?t @ atag_bytes (length vs) t) (concat (map val_bytes vs) @ items_body ds @ rest)"
      have n: "length vs < 2 ^ 24" "t \<noteq> TAG_OBJECT" "\<forall>v \<in> set vs. val_ok v \<and> val_tag v = t" using ok(1) 1 by auto
      have "skip_items (Suc k) (length vs) (Some (tag_word t 0 (- 1))) None ?s =
          Inr (None, ser_at ((pre @ ?t @ atag_bytes (length vs) t) @ ?b) (items_body ds @ rest))" for k
        by (rule skip_scalars [OF n(3)]) (use l 1 in simp)
      then have "skip_items (2 * ser_remaining ?s + 2) (length vs) (Some (tag_word t 0 (- 1))) None ?s =
          Inr (None, ser_at (pre @ ?t @ doc_body d) (items_body ds @ rest))" by (simp add: 1)
      then show ?thesis
        using analize_head [of d "length vs" t ?b pre "items_body ds @ rest" g "length ds" cnt nest] rest' [of "cnt + length vs" True] n(1,2) l f
        by (simp add: 1 Let_def)
    next
      case (2 ds')
      let ?a = "atag_bytes (length ds') TAG_OBJECT"
      have n: "length ds' < 2 ^ 24" using ok(1) 2 by simp
      have "analize_items g (length ds') 0 False (ser_at (pre @ ?t @ ?a) (items_body ds' @ items_body ds @ rest)) =
          Inr ((0 + sum_list (map leaves ds'), False \<or> list_ex is_array ds'), ser_at ((pre @ ?t @ ?a) @ items_body ds') (items_body ds @ rest))"
        by (rule 10(1) [OF ok(1) 2]) (use nr(1) 2 10(5) tl f l in simp_all)
      then show ?thesis
        using analize_head [of d "length ds'" TAG_OBJECT "items_body ds'" pre "items_body ds @ rest" g "length ds" cnt nest]
          rest' [of "cnt + sum_list (map leaves ds')" True] n l f
        by (simp add: 2 Let_def)
    qed
  qed
qed simp_all

text \<open>
  C40. Counting an array that came in, with fewer than \<open>2 ^ 32\<close> bytes before the reader: however deeply arrays
  are nested in it, and whatever else its elements hold, the count is the number of its elements that are not arrays, elements of inner arrays
  included; it is called nested exactly when one of its own elements is an array, and the reader ends behind it.
\<close>

theorem cjson_nested_count:
  assumes "items_ok ds" "\<forall>d \<in> set ds. no_refs d" "fits (length pre) (length (items_body ds) + length rest)"
  shows "analizeNestedArray (length ds) (ser_at pre (items_body ds @ rest)) =
    Inr ((leaves (DMix ds), \<exists>d \<in> set ds. is_array d), ser_at (pre @ items_body ds) rest)"
proof -
  have "ser_remaining (ser_at pre (items_body ds @ rest)) = length (items_body ds @ rest)"
    by (rule remaining_at) (use assms(3) in simp)
  then show ?thesis unfolding analizeNestedArray_def using analize_exact(3) [OF assms(1,2) _ assms(3)]
    by (simp add: list_ex_iff)
qed

theorem cjson_nested_count_witness:
  "let ds = [DVal V_Null, DMix [DVal V_Null, DArr TAG_BOOL [V_Bool True, V_Bool False]], DObj []]
   in analizeNestedArray (length ds) (ser_at [] (items_body ds @ [9])) = Inr ((5, True), ser_at (items_body ds) [9])"
proof -
  let ?ds = "[DVal V_Null, DMix [DVal V_Null, DArr TAG_BOOL [V_Bool True, V_Bool False]], DObj []]"
  have b: "length (tag_bytes t nm f) \<le> 5" for t nm f by (rule tag_bytes_len)
  have "length (items_body ?ds) \<le> 50"
    using b [of TAG_NULL 0 "- 1"] b [of TAG_ARRAY 0 "- 1"] b [of TAG_OBJECT 0 "- 1"] b [of TAG_END 0 "- 1"]
    by (simp add: boolean_pack_def)
  then have "fits (length []) (length (items_body ?ds) + length [9 :: u8])" by simp
  moreover have "items_ok ?ds" "\<forall>d \<in> set ?ds. no_refs d" by simp_all
  ultimately have "analizeNestedArray (length ?ds) (ser_at [] (items_body ?ds @ [9])) =
      Inr ((leaves (DMix ?ds), \<exists>d \<in> set ?ds. is_array d), ser_at ([] @ items_body ?ds) [9])"
    by (intro cjson_nested_count)
  then show ?thesis unfolding Let_def by simp
qed

end
