(* ===== verification/TagPaths.thy ===== *)
theory TagPaths
  imports KeyValueType
begin

section \<open>Paths of tags and the cache of indexed paths\<close>

text \<open>
  \<open>core/cjson/indexed_path_node.h\<close>, \<open>core/cjson/tagspath.h\<close> and \<open>.cc\<close>: a path in a document is a list of
  tag names, one with indexes a list of nodes that are names or array indexes, where the largest index
  stands for a star. \<open>core/cjson/tagspathcache.h\<close>: the trie from paths to the properties of indexed
  fields. Its shared pointers are modelled twice, as a tree and, in the last part, as cells of a store,
  because copies of a cache share all levels but the first.
\<close>

subsection \<open>Paths with indexes\<close>

datatype indexed_path_node = NodeIndex u32 | NodeName u16

definition IsTagName :: "indexed_path_node \<Rightarrow> bool" where
  "IsTagName n = (case n of NodeName _ \<Rightarrow> True | NodeIndex _ \<Rightarrow> False)"

definition IsTagIndex :: "indexed_path_node \<Rightarrow> bool" where
  "IsTagIndex n = (case n of NodeIndex _ \<Rightarrow> True | NodeName _ \<Rightarrow> False)"

text \<open>Both members are always there; the one of the other type has its initial value.\<close>

definition GetTagName :: "indexed_path_node \<Rightarrow> u16" where
  "GetTagName n = (case n of NodeName t \<Rightarrow> t | NodeIndex _ \<Rightarrow> 0)"

definition GetTagIndex :: "indexed_path_node \<Rightarrow> u32" where
  "GetTagIndex n = (case n of NodeIndex i \<Rightarrow> i | NodeName _ \<Rightarrow> TagIndex_all_v)"

definition IsTagNameEmpty :: "indexed_path_node \<Rightarrow> bool" where
  "IsTagNameEmpty n \<longleftrightarrow> IsTagName n \<and> TagName_IsEmpty (GetTagName n)"

definition IsTagIndexNotAll :: "indexed_path_node \<Rightarrow> bool" where
  "IsTagIndexNotAll n \<longleftrightarrow> IsTagIndex n \<and> \<not> TagIndex_IsAll (GetTagIndex n)"

definition node_Match_index :: "indexed_path_node \<Rightarrow> u32 \<Rightarrow> bool" where
  "node_Match_index n tag \<longleftrightarrow> IsTagIndex n \<and> TagIndex_eq (GetTagIndex n) tag"

definition node_Match_name :: "indexed_path_node \<Rightarrow> u16 \<Rightarrow> bool" where
  "node_Match_name n tag \<longleftrightarrow> IsTagName n \<and> GetTagName n = tag"

definition node_eq :: "indexed_path_node \<Rightarrow> indexed_path_node \<Rightarrow> bool" where
  "node_eq n m =
     (if IsTagName n \<noteq> IsTagName m then False
      else if IsTagIndex n then TagIndex_eq (GetTagIndex n) (GetTagIndex m)
      else GetTagName n = GetTagName m)"

definition indexed_of_tags :: "u16 list \<Rightarrow> indexed_path_node list" where
  "indexed_of_tags tp = map NodeName tp"

subsection \<open>Comparing paths\<close>

text \<open>The loop of \<open>ComparePrefix\<close>, on what is left of the two paths, with the two positions.\<close>

function compare_prefix_loop ::
  "indexed_path_node list \<Rightarrow> indexed_path_node list \<Rightarrow> nat \<Rightarrow> nat \<Rightarrow> nat \<times> nat \<times> bool"
where
  "compare_prefix_loop lhs rhs lI rI =
     (if lI < length lhs \<and> rI < length rhs
      then let l = lhs ! lI; r = rhs ! rI
           in if IsTagIndex l
              then if IsTagIndex r
                   then if TagIndex_eq (GetTagIndex l) (GetTagIndex r)
                        then compare_prefix_loop lhs rhs (lI + 1) (rI + 1)
                        else (lI + 1, rI + 1, False)
                   else compare_prefix_loop lhs rhs (lI + 1) rI
              else if IsTagName r
                   then if GetTagName l = GetTagName r
                        then compare_prefix_loop lhs rhs (lI + 1) (rI + 1)
                        else (lI + 1, rI + 1, False)
                   else compare_prefix_loop lhs rhs lI (rI + 1)
      else (lI, rI, True))"
  by pat_completeness auto
termination
  by (relation "measure (\<lambda>(lhs, rhs, lI, rI). (length lhs - lI) + (length rhs - rI))") auto

declare compare_prefix_loop.simps [simp del]

definition ComparePrefix ::
  "indexed_path_node list \<Rightarrow> indexed_path_node list \<Rightarrow> nat \<times> nat \<times> bool" where
  "ComparePrefix lhs rhs = compare_prefix_loop lhs rhs 0 0"

datatype path_compare_type = IgnoreAllOmittedIndexes | NotIgnoreLeftTrailingIndexes | NotIgnoreTrailingIndexes

text \<open>The length without the trailing indexes, and the loop over the trailing indexes of both paths.\<close>

fun trailing_start :: "indexed_path_node list \<Rightarrow> nat \<Rightarrow> nat" where
  "trailing_start lhs 0 = 0"
| "trailing_start lhs (Suc n) = (if IsTagIndex (lhs ! n) then trailing_start lhs n else Suc n)"

function compare_trailing ::
  "indexed_path_node list \<Rightarrow> indexed_path_node list \<Rightarrow> nat \<Rightarrow> nat \<Rightarrow> (nat \<times> nat) option"
where
  "compare_trailing lhs rhs lI rI =
     (if lI < length lhs \<and> rI < length rhs
      then if IsTagIndex (rhs ! rI)
           then if \<not> TagIndex_eq (GetTagIndex (lhs ! lI)) (GetTagIndex (rhs ! rI)) then None
                else compare_trailing lhs rhs (lI + 1) (rI + 1)
           else None
      else Some (lI, rI))"
  by pat_completeness auto
termination
  by (relation "measure (\<lambda>(lhs, rhs, lI, rI). length lhs - lI)") auto

declare compare_trailing.simps [simp del]

definition path_Compare ::
  "path_compare_type \<Rightarrow> indexed_path_node list \<Rightarrow> indexed_path_node list \<Rightarrow> bool" where
  "path_Compare ct lhs rhs =
     (let lPrefix = (if ct \<noteq> IgnoreAllOmittedIndexes then trailing_start lhs (length lhs) else length lhs)
      in case ComparePrefix (take lPrefix lhs) rhs of (lI, rI, result) \<Rightarrow>
         if \<not> result then False
         else case (if ct \<noteq> IgnoreAllOmittedIndexes
                    then case compare_trailing lhs rhs lI rI of
                           None \<Rightarrow> None
                         | Some (lI, rI) \<Rightarrow> if lI \<noteq> length lhs then None else Some rI
                    else if list_all IsTagIndex (drop lI lhs) then Some rI else None) of
                None \<Rightarrow> False
              | Some rI \<Rightarrow>
                  if ct = NotIgnoreTrailingIndexes then rI = length rhs
                  else list_all IsTagIndex (drop rI rhs))"

definition path_ComparePrefix :: "indexed_path_node list \<Rightarrow> indexed_path_node list \<Rightarrow> bool" where
  "path_ComparePrefix lhs rhs = snd (snd (ComparePrefix lhs rhs))"

text \<open>Against a path without indexes, and whether it is a prefix of one.\<close>

definition node_is :: "indexed_path_node \<Rightarrow> u16 \<Rightarrow> bool" where
  "node_is n name \<longleftrightarrow> IsTagName n \<and> GetTagName n = name"

definition path_Compare_tags :: "indexed_path_node list \<Rightarrow> u16 list \<Rightarrow> bool" where
  "path_Compare_tags lhs rhs =
     (if length rhs > length lhs then False
      else list_all2 node_is (take (length rhs) lhs) rhs \<and> list_all IsTagIndex (drop (length rhs) lhs))"

definition IsNestedOrEqualTo :: "indexed_path_node list \<Rightarrow> u16 list \<Rightarrow> bool" where
  "IsNestedOrEqualTo path other =
     (if length path > length other then False
      else list_all2 node_is path (take (length path) other))"

text \<open>The scope that appends a node on construction and removes it on destruction.\<close>

definition TagsPathScope_enter :: "indexed_path_node list \<Rightarrow> indexed_path_node \<Rightarrow> indexed_path_node list" where
  "TagsPathScope_enter path n = (if \<not> IsTagNameEmpty n then path @ [n] else path)"

definition TagsPathScope_leave :: "indexed_path_node list \<Rightarrow> indexed_path_node \<Rightarrow> indexed_path_node list" where
  "TagsPathScope_leave path n = (if path \<noteq> [] \<and> \<not> IsTagNameEmpty n then butlast path else path)"

subsection \<open>Properties of the comparison\<close>

text \<open>A path read as its leading indexes and its names, each with the indexes that follow it.\<close>

fun path_groups :: "indexed_path_node list \<Rightarrow> u32 list \<times> (u16 \<times> u32 list) list" where
  "path_groups [] = ([], [])"
| "path_groups (NodeIndex i # p) = (i # fst (path_groups p), snd (path_groups p))"
| "path_groups (NodeName t # p) = ([], (t, fst (path_groups p)) # snd (path_groups p))"

text \<open>Two runs of indexes agree when they match as far as both go.\<close>

fun idx_agree :: "u32 list \<Rightarrow> u32 list \<Rightarrow> bool" where
  "idx_agree (i # is) (j # js) \<longleftrightarrow> TagIndex_eq i j \<and> idx_agree is js"
| "idx_agree _ _ \<longleftrightarrow> True"

text \<open>What the three comparisons mean: only in the last group does it matter which indexes are omitted.\<close>

fun groups_match ::
  "path_compare_type \<Rightarrow> u32 list \<Rightarrow> (u16 \<times> u32 list) list \<Rightarrow> u32 list \<Rightarrow> (u16 \<times> u32 list) list \<Rightarrow> bool"
where
  "groups_match ct is ((t, is') # gs) js ((u, js') # hs) \<longleftrightarrow>
     idx_agree is js \<and> t = u \<and> groups_match ct is' gs js' hs"
| "groups_match ct is [] js [] \<longleftrightarrow> idx_agree is js \<and>
     (case ct of IgnoreAllOmittedIndexes \<Rightarrow> True
      | NotIgnoreLeftTrailingIndexes \<Rightarrow> length is \<le> length js
      | NotIgnoreTrailingIndexes \<Rightarrow> length is = length js)"
| "groups_match ct is [] js (h # hs) \<longleftrightarrow> False"
| "groups_match ct is (g # gs) js [] \<longleftrightarrow> False"

text \<open>The two loops by recursion on what is left of the paths.\<close>

fun align :: "indexed_path_node list \<Rightarrow> indexed_path_node list \<Rightarrow>
    (indexed_path_node list \<times> indexed_path_node list) option" where
  "align [] r = Some ([], r)"
| "align (x # l) [] = Some (x # l, [])"
| "align (NodeIndex i # l) (NodeIndex j # r) = (if TagIndex_eq i j then align l r else None)"
| "align (NodeIndex i # l) (NodeName u # r) = align l (NodeName u # r)"
| "align (NodeName t # l) (NodeIndex j # r) = align (NodeName t # l) r"
| "align (NodeName t # l) (NodeName u # r) = (if t = u then align l r else None)"

lemma node_tests [simp]:
  "IsTagIndex (NodeIndex i)" "\<not> IsTagIndex (NodeName t)" "IsTagName (NodeName t)" "\<not> IsTagName (NodeIndex i)"
  "GetTagIndex (NodeIndex i) = i" "GetTagName (NodeName t) = t"
  by (simp_all add: IsTagIndex_def IsTagName_def GetTagIndex_def GetTagName_def)

definition loop_result ::
  "indexed_path_node list \<Rightarrow> indexed_path_node list \<Rightarrow>
   (indexed_path_node list \<times> indexed_path_node list) option \<Rightarrow> nat \<times> nat \<times> bool \<Rightarrow> bool"
where
  "loop_result lhs rhs rest res = (case res of (lI, rI, ok) \<Rightarrow>
     if ok then lI \<le> length lhs \<and> rI \<le> length rhs \<and> rest = Some (drop lI lhs, drop rI rhs) else rest = None)"

lemma align_loop:
  "lI \<le> length lhs \<Longrightarrow> rI \<le> length rhs \<Longrightarrow>
   loop_result lhs rhs (align (drop lI lhs) (drop rI rhs)) (compare_prefix_loop lhs rhs lI rI)"
proof (induction lhs rhs lI rI rule: compare_prefix_loop.induct)
  case (1 lhs rhs lI rI)
  show ?case
  proof (cases "lI < length lhs \<and> rI < length rhs")
    case False
    then consider "drop lI lhs = []" "lI = length lhs" | x l where "drop lI lhs = x # l" "drop rI rhs = []"
      using 1(5,6) by (cases "drop lI lhs") auto
    then show ?thesis using False 1(5,6)
      by cases (simp_all add: compare_prefix_loop.simps loop_result_def)
  next
    case True
    then have d: "drop lI lhs = lhs ! lI # drop (Suc lI) lhs" "drop rI rhs = rhs ! rI # drop (Suc rI) rhs"
      by (simp_all add: Cons_nth_drop_Suc)
    have stop: "loop_result lhs rhs None (i, j, False)" for i j by (simp add: loop_result_def)
    note IH = 1(1-4) [OF True refl refl]
    show ?thesis using True IH
      by (cases "lhs ! lI"; cases "rhs ! rI")
        (simp_all add: d stop compare_prefix_loop.simps [of lhs rhs lI rI] Let_def del: drop_eq_Nil)
  qed
qed

fun trail :: "indexed_path_node list \<Rightarrow> indexed_path_node list \<Rightarrow>
    (indexed_path_node list \<times> indexed_path_node list) option" where
  "trail (x # l) (y # r) =
     (if IsTagIndex y \<and> TagIndex_eq (GetTagIndex x) (GetTagIndex y) then trail l r else None)"
| "trail l r = Some (l, r)"

lemma trail_loop:
  "lI \<le> length lhs \<Longrightarrow> rI \<le> length rhs \<Longrightarrow>
   trail (drop lI lhs) (drop rI rhs) = map_option (\<lambda>(a, b). (drop a lhs, drop b rhs)) (compare_trailing lhs rhs lI rI) \<and>
   (\<forall>a b. compare_trailing lhs rhs lI rI = Some (a, b) \<longrightarrow> a \<le> length lhs \<and> b \<le> length rhs)"
proof (induction lhs rhs lI rI rule: compare_trailing.induct)
  case (1 lhs rhs lI rI)
  show ?case
  proof (cases "lI < length lhs \<and> rI < length rhs")
    case False
    then have "drop lI lhs = [] \<or> drop rI rhs = []" by auto
    then have "trail (drop lI lhs) (drop rI rhs) = Some (drop lI lhs, drop rI rhs)"
      by (cases "drop lI lhs"; cases "drop rI rhs") auto
    then show ?thesis using False 1(2,3)
      by (subst (1 2) compare_trailing.simps) (simp only: if_False option.map prod.case, simp)
  next
    case True
    then have d: "drop lI lhs = lhs ! lI # drop (Suc lI) lhs" "drop rI rhs = rhs ! rI # drop (Suc rI) rhs"
      by (simp_all add: Cons_nth_drop_Suc)
    show ?thesis using True 1(1) [OF True]
      by (simp add: d compare_trailing.simps [of lhs rhs lI rI] del: drop_eq_Nil)
  qed
qed

lemma trailing_start_le: "trailing_start lhs n \<le> n"
  by (induction n) auto

lemma trailing_start_idx:
  "n \<le> length lhs \<Longrightarrow> \<forall>i. trailing_start lhs n \<le> i \<and> i < n \<longrightarrow> IsTagIndex (lhs ! i)"
  by (induction n) (auto simp: less_Suc_eq)

lemma trailing_start_name: "trailing_start lhs n = Suc k \<Longrightarrow> \<not> IsTagIndex (lhs ! k)"
  by (induction n) (auto split: if_splits)

text \<open>The stripped path and the trailing indexes.\<close>

lemma stripped:
  obtains l ks where "lhs = l @ map NodeIndex ks" "l = take (trailing_start lhs (length lhs)) lhs"
    "trailing_start lhs (length lhs) = length l" "l = [] \<or> IsTagName (last l)"
proof -
  let ?n = "trailing_start lhs (length lhs)"
  have le: "?n \<le> length lhs" by (rule trailing_start_le)
  have "\<forall>x \<in> set (drop ?n lhs). IsTagIndex x"
    using trailing_start_idx [of "length lhs" lhs] by (auto simp: in_set_conv_nth)
  then have "\<forall>x \<in> set (drop ?n lhs). \<exists>i. x = NodeIndex i"
    by (metis indexed_path_node.exhaust node_tests(2))
  then have "\<exists>ks. drop ?n lhs = map NodeIndex ks"
    by (simp only: ex_map_conv)
  then obtain ks where ks: "drop ?n lhs = map NodeIndex ks" ..
  have l: "take ?n lhs = [] \<or> IsTagName (last (take ?n lhs))"
  proof (cases ?n)
    case 0
    then show ?thesis by simp
  next
    case (Suc k)
    then have "\<not> IsTagIndex (lhs ! k)" by (rule trailing_start_name)
    moreover have "last (take ?n lhs) = lhs ! k" using Suc le by (simp add: take_Suc_conv_app_nth)
    ultimately show ?thesis by (cases "lhs ! k") simp_all
  qed
  show thesis
  proof (rule that [of "take ?n lhs" ks])
    show "lhs = take ?n lhs @ map NodeIndex ks" unfolding ks [symmetric] by simp
  qed (use l le in simp_all)
qed

lemma groups_idx: "path_groups (map NodeIndex ks) = (ks, [])"
  by (induction ks) simp_all

lemma groups_name: "IsTagName x \<Longrightarrow> x \<in> set p \<Longrightarrow> snd (path_groups p) \<noteq> []"
  by (induction p rule: path_groups.induct) auto

lemma groups_all_idx: "list_all IsTagIndex p \<longleftrightarrow> snd (path_groups p) = []"
  by (induction p rule: path_groups.induct) simp_all

lemma idx_agree_Nil [simp]: "idx_agree is []"
  by (cases "is") simp_all

lemma match_names:
  "groups_match ct is (g # gs) js hs \<longleftrightarrow> (\<exists>js' hs'. hs = (fst g, js') # hs' \<and> idx_agree is js \<and> groups_match ct (snd g) gs js' hs')"
  by (cases g; cases hs) auto

lemma match_skip_l: "groups_match ct (i # is) gs [] (h # hs) = groups_match ct is gs [] (h # hs)"
  by (cases gs; cases h) (auto simp: match_names)

lemma match_skip_r: "groups_match ct [] (g # gs) (j # js) hs = groups_match ct [] (g # gs) js hs"
  by (simp add: match_names)

lemma match_both: "groups_match ct (i # is) gs (j # js) hs \<longleftrightarrow> TagIndex_eq i j \<and> groups_match ct is gs js hs"
  by (cases gs; cases hs; cases ct) (auto simp: match_names)

lemma match_ignore:
  "(case align l r of None \<Rightarrow> False | Some (l', r') \<Rightarrow> list_all IsTagIndex l' \<and> list_all IsTagIndex r') \<longleftrightarrow>
   groups_match IgnoreAllOmittedIndexes (fst (path_groups l)) (snd (path_groups l)) (fst (path_groups r)) (snd (path_groups r))"
proof (induction l r rule: align.induct)
  case (1 r)
  then show ?case by (cases "snd (path_groups r)") (simp_all add: groups_all_idx)
next
  case (2 x l)
  have "snd (path_groups (x # l)) = [] \<or> \<not> list_all IsTagIndex (x # l)" unfolding groups_all_idx by simp
  then show ?case by (cases "snd (path_groups (x # l))") (simp_all add: groups_all_idx)
qed (simp_all add: match_both match_skip_l match_skip_r match_names)

definition trail_ok :: "path_compare_type \<Rightarrow> (indexed_path_node list \<times> indexed_path_node list) option \<Rightarrow> bool" where
  "trail_ok ct res = (case res of None \<Rightarrow> False | Some (l, r) \<Rightarrow>
     l = [] \<and> (if ct = NotIgnoreTrailingIndexes then r = [] else list_all IsTagIndex r))"

lemma trail_ok_simps [simp]:
  "\<not> trail_ok ct None"
  "trail_ok ct (Some (l, r)) \<longleftrightarrow> l = [] \<and> (if ct = NotIgnoreTrailingIndexes then r = [] else list_all IsTagIndex r)"
  by (simp_all add: trail_ok_def)

lemma path_groups_Nil [simp]: "path_groups p = ([], []) \<longleftrightarrow> p = []"
  by (cases p rule: path_groups.cases) simp_all

lemma trail_match:
  "ct \<noteq> IgnoreAllOmittedIndexes \<Longrightarrow>
   trail_ok ct (trail (map NodeIndex ks) r) \<longleftrightarrow> groups_match ct ks [] (fst (path_groups r)) (snd (path_groups r))"
proof (induction ks arbitrary: r)
  case Nil
  show ?case
    by (cases "snd (path_groups r)"; cases "path_groups r"; cases ct)
      (use Nil in \<open>auto simp: groups_all_idx path_groups_Nil [symmetric] simp del: path_groups_Nil\<close>)
next
  case (Cons k ks)
  show ?case
  proof (cases r rule: path_groups.cases)
    case 1
    then show ?thesis using Cons.prems by (cases ct) simp_all
  next
    case (2 i p)
    then show ?thesis using Cons by (simp add: match_both)
  next
    case (3 t p)
    then show ?thesis by simp
  qed
qed

lemma match_strict:
  "ct \<noteq> IgnoreAllOmittedIndexes \<Longrightarrow> l = [] \<or> IsTagName (last l) \<Longrightarrow>
   (case align l r of None \<Rightarrow> False | Some (l', r') \<Rightarrow> trail_ok ct (trail (l' @ map NodeIndex ks) r')) \<longleftrightarrow>
   groups_match ct (fst (path_groups (l @ map NodeIndex ks))) (snd (path_groups (l @ map NodeIndex ks)))
     (fst (path_groups r)) (snd (path_groups r))"
proof (induction l r rule: align.induct)
  case (1 r)
  then show ?case by (simp add: trail_match groups_idx)
next
  case (2 x l)
  then have "snd (path_groups ((x # l) @ map NodeIndex ks)) \<noteq> []"
    by (intro groups_name [of "last (x # l)"]) auto
  then show ?case
    by (cases "snd (path_groups ((x # l) @ map NodeIndex ks))") simp_all
qed (auto simp: match_both match_skip_l match_skip_r match_names split: if_splits)

text \<open>
  C35. Comparing two indexed paths, in each of the three modes, is comparing their groups: the names
  must be the same, the indexes behind each name must match (a star matches every index) as far as both
  paths give them, and the mode says whether the last group may be shorter on the left, or at all.
\<close>

theorem path_compare_groups:
  "path_Compare ct lhs rhs \<longleftrightarrow>
   groups_match ct (fst (path_groups lhs)) (snd (path_groups lhs)) (fst (path_groups rhs)) (snd (path_groups rhs))"
proof (cases "ct = IgnoreAllOmittedIndexes")
  case True
  have "loop_result lhs rhs (align lhs rhs) (ComparePrefix lhs rhs)"
    using align_loop [of 0 lhs 0 rhs] by (simp add: ComparePrefix_def)
  then show ?thesis using True match_ignore [of lhs rhs]
    by (cases "ComparePrefix lhs rhs") (auto simp: path_Compare_def loop_result_def split: if_splits)
next
  case False
  obtain l ks where l: "lhs = l @ map NodeIndex ks" "trailing_start lhs (length lhs) = length l"
      "l = [] \<or> IsTagName (last l)" by (rule stripped [of lhs])
  obtain lI rI ok where cp: "ComparePrefix l rhs = (lI, rI, ok)" by (cases "ComparePrefix l rhs")
  have loop: "loop_result l rhs (align l rhs) (lI, rI, ok)"
    using align_loop [of 0 l 0 rhs] cp by (simp add: ComparePrefix_def)
  have tk: "take (length l) lhs = l" using l(1) by simp
  have cmp: "path_Compare ct lhs rhs \<longleftrightarrow> (if \<not> ok then False else
      (case compare_trailing lhs rhs lI rI of None \<Rightarrow> False
       | Some (a, b) \<Rightarrow> a = length lhs \<and>
           (if ct = NotIgnoreTrailingIndexes then b = length rhs else list_all IsTagIndex (drop b rhs))))"
    using False tk cp by (simp add: path_Compare_def Let_def l(2) split: option.split)
  show ?thesis
  proof (cases ok)
    case False
    then show ?thesis
      using cmp loop match_strict [OF \<open>ct \<noteq> IgnoreAllOmittedIndexes\<close> l(3), where r = rhs and ks = ks]
      by (simp add: loop_result_def l(1))
  next
    case True
    then have al: "align l rhs = Some (drop lI l, drop rI rhs)" "lI \<le> length l" "rI \<le> length rhs"
      using loop by (simp_all add: loop_result_def)
    have "lI \<le> length lhs" using al(2) l(1) by simp
    note tr = trail_loop [OF this al(3)]
    have "path_Compare ct lhs rhs \<longleftrightarrow> trail_ok ct (trail (drop lI l @ map NodeIndex ks) (drop rI rhs))"
      using cmp True tr al(2) by (cases "compare_trailing lhs rhs lI rI") (auto simp: l(1) split: if_splits)
    then show ?thesis
      using match_strict [OF \<open>ct \<noteq> IgnoreAllOmittedIndexes\<close> l(3), where r = rhs and ks = ks] al(1) by (simp add: l(1))
  qed
qed

lemma path_compare_examples:
  "path_Compare IgnoreAllOmittedIndexes [NodeName 1, NodeIndex 5, NodeName 2] [NodeName 1, NodeName 2, NodeIndex 3]"
  "\<not> path_Compare NotIgnoreLeftTrailingIndexes [NodeName 1, NodeIndex 5] [NodeName 1]"
  "path_Compare NotIgnoreLeftTrailingIndexes [NodeName 1] [NodeName 1, NodeIndex 5]"
  "path_Compare NotIgnoreTrailingIndexes [NodeIndex 7, NodeName 1, NodeIndex 5] [NodeName 1, NodeIndex TagIndex_all_v]"
  by (simp_all add: path_compare_groups TagIndex_eq_def TagIndex_IsAll_def)

text \<open>The scope leaves the path as it found it.\<close>

lemma TagsPathScope_restores: "TagsPathScope_leave (TagsPathScope_enter path n) n = path"
  by (simp add: TagsPathScope_enter_def TagsPathScope_leave_def)

subsection \<open>The cache from paths to fields\<close>

record field_properties =
  fp_indexNumber :: int
  fp_arrayDim :: nat
  fp_valueType :: key_value_type
  fp_isIndexed :: bool
  fp_isArray :: bool
  fp_isSparse :: bool

definition kNotIndexed :: field_properties where
  "kNotIndexed = \<lparr>fp_indexNumber = -1, fp_arrayDim = 0, fp_valueType = KVT_Undefined, fp_isIndexed = False,
     fp_isArray = False, fp_isSparse = False\<rparr>"

definition mk_FieldProperties :: "int \<Rightarrow> nat \<Rightarrow> bool \<Rightarrow> key_value_type \<Rightarrow> bool \<Rightarrow> field_properties" where
  "mk_FieldProperties indexNumber arrayDim isArray valueType isSparse =
     \<lparr>fp_indexNumber = indexNumber, fp_arrayDim = arrayDim, fp_valueType = valueType, fp_isIndexed = True,
      fp_isArray = isArray, fp_isSparse = isSparse\<rparr>"

definition IsRegularIndex :: "field_properties \<Rightarrow> bool" where
  "IsRegularIndex f \<longleftrightarrow> fp_isIndexed f \<and> \<not> fp_isSparse f"

definition IsSparseIndex :: "field_properties \<Rightarrow> bool" where
  "IsSparseIndex f \<longleftrightarrow> fp_isIndexed f \<and> fp_isSparse f"

definition IndexNumber :: "field_properties \<Rightarrow> int" where
  "IndexNumber f = (if fp_isIndexed f \<and> \<not> fp_isSparse f then fp_indexNumber f else -1)"

definition SparseNumber :: "field_properties \<Rightarrow> int" where
  "SparseNumber f = fp_indexNumber f"

text \<open>The dimension is kept as \<open>size_t\<close> and read as \<open>uint32_t\<close>.\<close>

definition ArrayDim :: "field_properties \<Rightarrow> u32" where
  "ArrayDim f = word_of_nat (fp_arrayDim f)"

text \<open>An entry is the cache one level deeper, if there is one, and the field of the path that ends here.\<close>

datatype tags_path_cache = TPC (tpc_entries: "(tags_path_cache option \<times> field_properties) list")

abbreviation (input) cache_entry :: "tags_path_cache option \<times> field_properties" where
  "cache_entry \<equiv> (None, kNotIndexed)"

definition tpc_Clear :: "tags_path_cache \<Rightarrow> tags_path_cache" where
  "tpc_Clear c = TPC []"

definition tpc_Empty :: "tags_path_cache \<Rightarrow> bool" where
  "tpc_Empty c \<longleftrightarrow> tpc_entries c = []"

definition tpc_grown :: "u16 \<Rightarrow> tags_path_cache \<Rightarrow> (tags_path_cache option \<times> field_properties) list" where
  "tpc_grown tag c =
     (if length (tpc_entries c) \<le> unat tag then resize (unat tag + 1) cache_entry (tpc_entries c) else tpc_entries c)"

fun tpc_Set :: "u16 list \<Rightarrow> field_properties \<Rightarrow> tags_path_cache \<Rightarrow> tags_path_cache res" where
  "tpc_Set [] field c = Inl Abort"
| "tpc_Set (tag # path) field c =
     (let es = tpc_grown tag c; e = es ! unat tag
      in if path = [] then Inr (TPC (es[unat tag := (fst e, field)]))
         else bind_res (tpc_Set path field (case fst e of None \<Rightarrow> TPC [] | Some sub \<Rightarrow> sub)) (\<lambda>sub.
              Inr (TPC (es[unat tag := (Some sub, snd e)]))))"

text \<open>One step of a lookup: an answer (\<open>Inl\<close>), or the cache to go on in.\<close>

definition checkPathTag :: "u16 \<Rightarrow> nat \<Rightarrow> tags_path_cache \<Rightarrow> field_properties + tags_path_cache" where
  "checkPathTag tag path_size c =
     (if length (tpc_entries c) \<le> unat tag then Inl kNotIndexed
      else let e = tpc_entries c ! unat tag
           in if path_size = 1 then Inl (snd e)
              else case fst e of None \<Rightarrow> Inl kNotIndexed | Some sub \<Rightarrow> Inr sub)"

fun tpc_Lookup :: "u16 list \<Rightarrow> tags_path_cache \<Rightarrow> field_properties res" where
  "tpc_Lookup [] c = Inl Abort"
| "tpc_Lookup (tag # path) c =
     (case checkPathTag tag (length (tag # path)) c of
        Inl fieldProperties \<Rightarrow> Inr fieldProperties
      | Inr sub \<Rightarrow> tpc_Lookup path sub)"

fun tpc_lookup_loop :: "indexed_path_node list \<Rightarrow> tags_path_cache \<Rightarrow> field_properties res" where
  "tpc_lookup_loop [] c = Inl Abort"
| "tpc_lookup_loop (n # path) c =
     (if \<not> IsTagName n then tpc_lookup_loop path c
      else case checkPathTag (GetTagName n) (length (n # path)) c of
             Inl fieldProperties \<Rightarrow> Inr fieldProperties
           | Inr sub \<Rightarrow> tpc_lookup_loop path sub)"

definition tpc_Lookup_indexed :: "indexed_path_node list \<Rightarrow> tags_path_cache \<Rightarrow> field_properties res" where
  "tpc_Lookup_indexed path c =
     (if path = [] \<or> \<not> IsTagName (last path) then Inl Abort else tpc_lookup_loop path c)"

text \<open>The calls of the visitor, each with the path it sees.\<close>

function tpc_Walk :: "u16 list \<Rightarrow> tags_path_cache \<Rightarrow> (u16 list \<times> field_properties) list res"
  and tpc_walk_from :: "u16 list \<Rightarrow> nat \<Rightarrow> (tags_path_cache option \<times> field_properties) list \<Rightarrow>
    (u16 list \<times> field_properties) list res"
where
  "tpc_Walk path (TPC es) = tpc_walk_from path 0 es"
| "tpc_walk_from path i [] = Inr []"
| "tpc_walk_from path i (e # es) =
     bind_res (TagName_of_uint (word_of_nat i)) (\<lambda>tag.
     bind_res (case fst e of None \<Rightarrow> Inr [] | Some sub \<Rightarrow> tpc_Walk (path @ [tag]) sub) (\<lambda>deeper.
     bind_res (tpc_walk_from path (i + 1) es) (\<lambda>rest.
     Inr ((if fp_isIndexed (snd e) then [(path @ [tag], snd e)] else []) @ deeper @ rest))))"
  by pat_completeness auto
termination
  by (relation "measure (\<lambda>x. case x of Inl (p, c) \<Rightarrow> size c | Inr (p, i, es) \<Rightarrow> size_list (size_prod (size_option size) (\<lambda>_. 0)) es)")
    (auto split: prod.splits)

subsection \<open>An index of fields by paths\<close>

text \<open>
  What the users of the cache rely on: a put at a permitted key never fails, is read back there and
  leaves every other permitted key alone. Hence after a run of puts the last one at a key is read.
\<close>

fun put_all :: "('k \<Rightarrow> 'v \<Rightarrow> 's \<Rightarrow> 's res) \<Rightarrow> ('k \<times> 'v) list \<Rightarrow> 's \<Rightarrow> 's res" where
  "put_all put [] s = Inr s"
| "put_all put (kv # kvs) s = bind_res (put (fst kv) (snd kv) s) (put_all put kvs)"

lemma put_all_append: "put_all put (as @ bs) s = bind_res (put_all put as s) (put_all put bs)"
proof (induction as arbitrary: s)
  case (Cons a as)
  then show ?case by (cases "put (fst a) (snd a) s") simp_all
qed simp

locale path_index =
  fixes emp :: 's
    and put :: "'k \<Rightarrow> 'v \<Rightarrow> 's \<Rightarrow> 's res"
    and at :: "'k \<Rightarrow> 's \<Rightarrow> 'v"
    and none :: 'v
    and permitted :: "'k \<Rightarrow> bool"
  assumes at_emp: "at k emp = none"
    and put_ok: "permitted k \<Longrightarrow> \<exists>s'. put k v s = Inr s'"
    and at_put: "put k v s = Inr s' \<Longrightarrow> permitted q \<Longrightarrow> at q s' = (if q = k then v else at q s)"
begin

lemma put_all_ok: "\<forall>kv \<in> set kvs. permitted (fst kv) \<Longrightarrow> \<exists>s'. put_all put kvs s = Inr s'"
proof (induction kvs arbitrary: s)
  case (Cons kv kvs)
  obtain s' where "put (fst kv) (snd kv) s = Inr s'" using put_ok [of "fst kv" "snd kv" s] Cons.prems by auto
  then show ?case using Cons by simp
qed simp

lemma at_put_all:
  "put_all put kvs s = Inr s' \<Longrightarrow> permitted q \<Longrightarrow>
   at q s' = (case map_of (rev kvs) q of None \<Rightarrow> at q s | Some v \<Rightarrow> v)"
proof (induction kvs arbitrary: s)
  case (Cons kv kvs)
  then obtain t where t: "put (fst kv) (snd kv) s = Inr t" "put_all put kvs t = Inr s'"
    by (auto simp: res_simps)
  show ?case using Cons.IH [OF t(2) Cons.prems(2)] at_put [OF t(1) Cons.prems(2)]
    by (simp add: map_of_append map_add_def split: option.splits)
qed simp

lemma at_built: "put_all put kvs emp = Inr s' \<Longrightarrow> permitted q \<Longrightarrow>
   at q s' = (case map_of (rev kvs) q of None \<Rightarrow> none | Some v \<Rightarrow> v)"
  using at_put_all [of kvs emp s' q] by (simp add: at_emp split: option.splits)

end

subsection \<open>The cache is such an index\<close>

fun tpc_field :: "u16 list \<Rightarrow> tags_path_cache \<Rightarrow> field_properties" where
  "tpc_field [] c = kNotIndexed"
| "tpc_field (tag # path) c =
     (if length (tpc_entries c) \<le> unat tag then kNotIndexed
      else let e = tpc_entries c ! unat tag
           in if path = [] then snd e
              else case fst e of None \<Rightarrow> kNotIndexed | Some sub \<Rightarrow> tpc_field path sub)"

lemma tpc_Lookup_field: "path \<noteq> [] \<Longrightarrow> tpc_Lookup path c = Inr (tpc_field path c)"
proof (induction path arbitrary: c)
  case (Cons tag path)
  then show ?case by (cases "path = []") (auto simp: checkPathTag_def Let_def split: option.splits)
qed simp

lemma tpc_field_empty [simp]: "tpc_field path (TPC []) = kNotIndexed"
  by (cases path) simp_all

lemma tpc_grown_length: "unat tag < length (tpc_grown tag c)"
  by (simp add: tpc_grown_def)

lemma tpc_grown_nth: "i < length (tpc_grown tag c) \<Longrightarrow>
    tpc_grown tag c ! i = (if i < length (tpc_entries c) then tpc_entries c ! i else cache_entry)"
  by (auto simp: tpc_grown_def nth_resize)

lemma tpc_grown_le: "length (tpc_entries c) \<le> length (tpc_grown tag c)"
  by (simp add: tpc_grown_def)

lemma tpc_Set_ok: "path \<noteq> [] \<Longrightarrow> \<exists>c'. tpc_Set path f c = Inr c'"
proof (induction path arbitrary: c)
  case (Cons tag path)
  then show ?case by (cases "path = []") (auto simp: Let_def res_simps)
qed simp

lemma tpc_field_grown:
  "tpc_field (tag # path) c =
     (let es = tpc_grown t c
      in if length es \<le> unat tag then kNotIndexed
         else let e = es ! unat tag
              in if path = [] then snd e else case fst e of None \<Rightarrow> kNotIndexed | Some sub \<Rightarrow> tpc_field path sub)"
  using tpc_grown_le [of c t] by (auto simp: Let_def tpc_grown_nth)

lemma tpc_field_Set:
  "tpc_Set path f c = Inr c' \<Longrightarrow> tpc_field q c' = (if q = path then f else tpc_field q c)"
proof (induction path arbitrary: c c' q)
  case (Cons tag path)
  let ?es = "tpc_grown tag c" let ?e = "?es ! unat tag"
  have ln: "unat tag < length ?es" by (rule tpc_grown_length)
  have eq: "unat tag = unat u \<longleftrightarrow> u = tag" for u by (auto simp: word_unat_eq_iff)
  show ?case
  proof (cases q)
    case (Cons t p)
    note old = tpc_field_grown [of t p c tag]
    show ?thesis
    proof (cases "path = []")
      case True
      then have "c' = TPC (?es[unat tag := (fst ?e, f)])" using Cons.prems by (simp add: Let_def)
      then show ?thesis using ln old True Cons by (simp add: Let_def nth_list_update eq)
    next
      case False
      let ?sub = "case fst ?e of None \<Rightarrow> TPC [] | Some sub \<Rightarrow> sub"
      obtain s where s: "tpc_Set path f ?sub = Inr s" "c' = TPC (?es[unat tag := (Some s, snd ?e)])"
        using Cons.prems False by (auto simp: Let_def res_simps)
      show ?thesis
        using Cons.IH [OF s(1), of p] ln old False Cons s(2)
        by (auto simp: Let_def nth_list_update eq split: option.splits)
    qed
  qed (use Cons.prems in auto)
qed simp

interpretation tpc: path_index "TPC []" tpc_Set tpc_field kNotIndexed "\<lambda>path. path \<noteq> []"
  by unfold_locales (simp_all add: tpc_Set_ok tpc_field_Set)

text \<open>A path with indexes is looked up by its names alone.\<close>

definition path_names :: "indexed_path_node list \<Rightarrow> u16 list" where
  "path_names path = map GetTagName (filter IsTagName path)"

lemma tpc_lookup_loop_names:
  "path \<noteq> [] \<Longrightarrow> IsTagName (last path) \<Longrightarrow> tpc_lookup_loop path c = tpc_Lookup (path_names path) c"
proof (induction path arbitrary: c)
  case (Cons n path)
  show ?case
  proof (cases "path = []")
    case True
    then show ?thesis using Cons.prems by (simp add: path_names_def checkPathTag_def Let_def)
  next
    case False
    then have "path_names path \<noteq> []"
      using Cons.prems by (auto simp: path_names_def filter_empty_conv intro: last_in_set)
    then have "1 < length (path_names (n # path)) \<longleftrightarrow> IsTagName n \<or> 1 < length (path_names path)"
      "IsTagName n \<Longrightarrow> length (path_names (n # path)) \<noteq> 1" by (auto simp: path_names_def)
    then show ?thesis using False Cons
      by (auto simp: path_names_def checkPathTag_def Let_def split: option.splits)
  qed
qed simp

text \<open>The caches that \<open>Set\<close> builds have at most 65536 entries per level, so that \<open>Walk\<close> does not throw.\<close>

inductive tpc_wf :: "tags_path_cache \<Rightarrow> bool" where
  tpc_wf_TPC: "length es \<le> 65536 \<Longrightarrow> (\<And>sub f. (Some sub, f) \<in> set es \<Longrightarrow> tpc_wf sub) \<Longrightarrow> tpc_wf (TPC es)"

inductive_simps tpc_wf_simps: "tpc_wf (TPC es)"

lemma tpc_wf_empty [simp]: "tpc_wf (TPC [])"
  by (rule tpc_wf_TPC) simp_all

lemma tpc_grown_set: "e \<in> set (tpc_grown tag c) \<Longrightarrow> e \<in> set (tpc_entries c) \<or> e = cache_entry"
  by (auto simp: tpc_grown_def resize_def dest: in_set_takeD split: if_splits)

lemma tpc_grown_wf: "tpc_wf c \<Longrightarrow> length (tpc_grown tag c) \<le> 65536"
  "tpc_wf c \<Longrightarrow> (Some sub, f) \<in> set (tpc_grown tag c) \<Longrightarrow> tpc_wf sub"
proof -
  assume wf: "tpc_wf c"
  show "length (tpc_grown tag c) \<le> 65536"
    using wf unsigned_less [of tag, where ?'a = nat] by (cases c) (simp add: tpc_grown_def tpc_wf_simps)
  show "(Some sub, f) \<in> set (tpc_grown tag c) \<Longrightarrow> tpc_wf sub"
    using wf by (cases c) (auto simp: tpc_wf_simps dest!: tpc_grown_set)
qed

lemma tpc_wf_update:
  "tpc_wf c \<Longrightarrow> (\<And>sub. fst e = Some sub \<Longrightarrow> tpc_wf sub) \<Longrightarrow> tpc_wf (TPC ((tpc_grown tag c)[i := e]))"
  by (rule tpc_wf_TPC) (auto simp: tpc_grown_wf(1) dest!: set_update_subset_insert [THEN subsetD] intro: tpc_grown_wf(2))

lemma tpc_wf_Set: "tpc_Set path f c = Inr c' \<Longrightarrow> tpc_wf c \<Longrightarrow> tpc_wf c'"
proof (induction path arbitrary: c c')
  case (Cons tag path)
  let ?e = "tpc_grown tag c ! unat tag"
  have mem: "?e \<in> set (tpc_grown tag c)" by (simp add: tpc_grown_length)
  have e: "tpc_wf sub" if "fst ?e = Some sub" for sub
    using tpc_grown_wf(2) [OF Cons.prems(2)] mem that by (metis prod.collapse)
  show ?case
  proof (cases "path = []")
    case True
    then show ?thesis using Cons.prems e by (auto simp: Let_def intro!: tpc_wf_update)
  next
    case False
    then obtain s where s: "tpc_Set path f (case fst ?e of None \<Rightarrow> TPC [] | Some sub \<Rightarrow> sub) = Inr s"
        "c' = TPC ((tpc_grown tag c)[unat tag := (Some s, snd ?e)])"
      using Cons.prems(1) by (auto simp: Let_def res_simps)
    have "tpc_wf s" using Cons.IH [OF s(1)] e by (auto split: option.splits)
    then show ?thesis unfolding s(2) using Cons.prems(2) by (auto intro!: tpc_wf_update)
  qed
qed simp

lemma tpc_wf_put_all: "put_all tpc_Set kvs c = Inr c' \<Longrightarrow> tpc_wf c \<Longrightarrow> tpc_wf c'"
  by (induction kvs arbitrary: c) (auto simp: res_simps dest: tpc_wf_Set)

text \<open>What the entry of a tag holds for the rest of a path.\<close>

definition entry_field :: "tags_path_cache option \<times> field_properties \<Rightarrow> u16 list \<Rightarrow> field_properties" where
  "entry_field e q =
     (if q = [] then snd e else case fst e of None \<Rightarrow> kNotIndexed | Some sub \<Rightarrow> tpc_field q sub)"

lemma tpc_field_entry:
  "tpc_field (t # q) (TPC es) = (if unat t < length es then entry_field (es ! unat t) q else kNotIndexed)"
  by (auto simp: entry_field_def Let_def)

lemma kNotIndexed_not [simp]: "\<not> fp_isIndexed kNotIndexed"
  by (simp add: kNotIndexed_def)

text \<open>The visits of a walk: each indexed path once, with its field.\<close>

definition visits :: "u16 list \<Rightarrow> (u16 list \<Rightarrow> field_properties) \<Rightarrow> (u16 list \<times> field_properties) list \<Rightarrow> bool" where
  "visits path at vs \<longleftrightarrow> distinct (map fst vs) \<and>
     (\<forall>p f. (p, f) \<in> set vs \<longleftrightarrow> (\<exists>q. q \<noteq> [] \<and> p = path @ q \<and> f = at q \<and> fp_isIndexed f))"

definition visits_from ::
  "u16 list \<Rightarrow> nat \<Rightarrow> (tags_path_cache option \<times> field_properties) list \<Rightarrow> (u16 list \<times> field_properties) list \<Rightarrow> bool" where
  "visits_from path i es vs \<longleftrightarrow> distinct (map fst vs) \<and>
     (\<forall>p f. (p, f) \<in> set vs \<longleftrightarrow>
        (\<exists>t q. i \<le> unat t \<and> unat t < i + length es \<and> p = path @ t # q \<and>
           f = entry_field (es ! (unat t - i)) q \<and> fp_isIndexed f))"

lemma visits_fromI: "visits_from path 0 es vs \<Longrightarrow> visits path (\<lambda>q. tpc_field q (TPC es)) vs"
  unfolding visits_def visits_from_def
  by (auto simp: neq_Nil_conv tpc_field_entry simp del: tpc_field.simps split: if_splits)

lemma visits_from_Nil: "visits_from path i [] []"
  by (simp add: visits_from_def)

lemma visits_from_Cons:
  assumes i: "i < 65536" "unat (tag :: u16) = i"
    and deeper: "case fst e of None \<Rightarrow> ds = [] | Some sub \<Rightarrow> visits (path @ [tag]) (\<lambda>q. tpc_field q sub) ds"
    and rest: "visits_from path (i + 1) es rs"
  shows "visits_from path i (e # es) ((if fp_isIndexed (snd e) then [(path @ [tag], snd e)] else []) @ ds @ rs)"
proof -
  have ds: "(p, f) \<in> set ds \<longleftrightarrow> (\<exists>q. q \<noteq> [] \<and> p = path @ tag # q \<and> f = entry_field e q \<and> fp_isIndexed f)" for p f
    using deeper by (cases "fst e") (auto simp: visits_def entry_field_def)
  have dd: "distinct (map fst ds)" using deeper by (cases "fst e") (auto simp: visits_def)
  have rs: "(p, f) \<in> set rs \<longleftrightarrow> (\<exists>t q. i < unat t \<and> unat t < i + Suc (length es) \<and> p = path @ t # q \<and>
      f = entry_field ((e # es) ! (unat t - i)) q \<and> fp_isIndexed f)" for p f
  proof -
    have "(e # es) ! (unat t - i) = es ! (unat t - Suc i)" if "i < unat t" for t :: u16
      using that by (simp add: nth_Cons')
    then show ?thesis using rest by (auto simp: visits_from_def Suc_le_eq)
  qed
  have tag: "unat t = i \<longleftrightarrow> t = tag" for t using i by (auto simp: word_unat_eq_iff)
  have apart: "p \<noteq> p'" if "(p, f) \<in> set ds \<or> p = path @ [tag]" "(p', f') \<in> set rs" for p f p' f'
    using that by (auto simp: ds rs i(2))
  have here: "(path @ [tag], f) \<notin> set ds" for f by (simp add: ds)
  have "(p, f) \<in> set ((if fp_isIndexed (snd e) then [(path @ [tag], snd e)] else []) @ ds @ rs) \<longleftrightarrow>
      (\<exists>t q. i \<le> unat t \<and> unat t < i + length (e # es) \<and> p = path @ t # q \<and>
           f = entry_field ((e # es) ! (unat t - i)) q \<and> fp_isIndexed f)" (is "?l \<longleftrightarrow> ?r") for p f
  proof -
    have "?l \<longleftrightarrow> (\<exists>q. p = path @ tag # q \<and> f = entry_field e q \<and> fp_isIndexed f) \<or> (p, f) \<in> set rs"
      by (auto simp: ds entry_field_def split: if_splits)
    also have "\<dots> \<longleftrightarrow> ?r"
    proof
      assume ?r
      then obtain t q where "i \<le> unat t" "unat t < i + length (e # es)" "p = path @ t # q"
        "f = entry_field ((e # es) ! (unat t - i)) q" "fp_isIndexed f" by blast
      then show "(\<exists>q. p = path @ tag # q \<and> f = entry_field e q \<and> fp_isIndexed f) \<or> (p, f) \<in> set rs"
        unfolding rs using tag [of t] by (cases "unat t = i") auto
    next
      assume "(\<exists>q. p = path @ tag # q \<and> f = entry_field e q \<and> fp_isIndexed f) \<or> (p, f) \<in> set rs"
      then show ?r unfolding rs
      proof (elim disjE exE conjE)
        fix q assume "p = path @ tag # q" "f = entry_field e q" "fp_isIndexed f"
        then show ?r using i(2) by (intro exI [of _ tag] exI [of _ q]) simp
      qed (metis less_imp_le length_Cons)
    qed
    finally show ?thesis .
  qed
  moreover have "distinct (map fst ((if fp_isIndexed (snd e) then [(path @ [tag], snd e)] else []) @ ds @ rs))"
    using dd rest apart here by (fastforce simp: visits_from_def)
  ultimately show ?thesis unfolding visits_from_def by blast
qed

lemma tpc_walk_visits:
  "tpc_wf c \<Longrightarrow> \<exists>vs. tpc_Walk path c = Inr vs \<and> visits path (\<lambda>q. tpc_field q c) vs"
proof (induction c arbitrary: path rule: tpc_wf.induct)
  case (tpc_wf_TPC es)
  have "i + length es' \<le> 65536 \<Longrightarrow> set es' \<subseteq> set es \<Longrightarrow>
      \<exists>vs. tpc_walk_from path i es' = Inr vs \<and> visits_from path i es' vs" for i es'
  proof (induction es' arbitrary: i)
    case Nil
    then show ?case by (simp add: visits_from_Nil)
  next
    case (Cons e es')
    have i: "i < 65536" using Cons.prems(1) by simp
    let ?tag = "word_of_nat i :: u16"
    have tag: "unat ?tag = i" using i by (simp add: unat_of_nat take_bit_nat_eq_self)
    have "ucast (word_of_nat i :: u64) = ?tag"
      using i by (simp add: word_unat_eq_iff unsigned_ucast_eq unsigned_take_bit_eq unat_of_nat take_bit_nat_eq_self)
    then have t: "TagName_of_uint (word_of_nat i) = Inr ?tag"
      using i by (simp add: TagName_of_uint_def word_less_nat_alt unat_of_nat take_bit_nat_eq_self)
    obtain ds where ds: "(case fst e of None \<Rightarrow> Inr [] | Some sub \<Rightarrow> tpc_Walk (path @ [?tag]) sub) = Inr ds"
        "case fst e of None \<Rightarrow> ds = [] | Some sub \<Rightarrow> visits (path @ [?tag]) (\<lambda>q. tpc_field q sub) ds"
      using tpc_wf_TPC.IH [where path = "path @ [?tag]", of "the (fst e)" "snd e"] Cons.prems(2)
      by (cases e; cases "fst e") auto
    obtain rs where "tpc_walk_from path (i + 1) es' = Inr rs" "visits_from path (i + 1) es' rs"
      using Cons.IH [of "i + 1"] Cons.prems by auto
    then show ?case using visits_from_Cons [OF i tag ds(2)] ds(1) by (simp add: t)
  qed
  from this [of 0 es] show ?case using tpc_wf_TPC.hyps(1) visits_fromI [of path es] by auto
qed

text \<open>
  C14. A cache built by a run of \<open>Set\<close> answers every lookup with the field of the last \<open>Set\<close> at exactly
  that path (and \<open>kNotIndexed\<close> where there was none), also through a path with indexes, whose names
  alone count; \<open>Walk\<close> visits each path of an indexed field exactly once, with that field.
\<close>

theorem path_cache_correct:
  assumes sets: "put_all tpc_Set kvs (TPC []) = Inr c" and path: "path \<noteq> []"
  shows "tpc_Lookup path c = Inr (case map_of (rev kvs) path of None \<Rightarrow> kNotIndexed | Some f \<Rightarrow> f) \<and>
    (IsTagName (last ipath) \<and> ipath \<noteq> [] \<longrightarrow> tpc_Lookup_indexed ipath c = tpc_Lookup (path_names ipath) c) \<and>
    (\<exists>vs. tpc_Walk [] c = Inr vs \<and> distinct (map fst vs) \<and>
       (\<forall>p f. (p, f) \<in> set vs \<longleftrightarrow> p \<noteq> [] \<and> tpc_Lookup p c = Inr f \<and> fp_isIndexed f))"
proof (intro conjI impI)
  show "tpc_Lookup path c = Inr (case map_of (rev kvs) path of None \<Rightarrow> kNotIndexed | Some f \<Rightarrow> f)"
    using tpc.at_built [OF sets path] path by (simp add: tpc_Lookup_field)
  show "tpc_Lookup_indexed ipath c = tpc_Lookup (path_names ipath) c" if "IsTagName (last ipath) \<and> ipath \<noteq> []"
    using that by (simp add: tpc_Lookup_indexed_def tpc_lookup_loop_names)
  have "tpc_wf c" using tpc_wf_put_all [OF sets] by simp
  then obtain vs where "tpc_Walk [] c = Inr vs" "visits [] (\<lambda>q. tpc_field q c) vs"
    using tpc_walk_visits by blast
  then show "\<exists>vs. tpc_Walk [] c = Inr vs \<and> distinct (map fst vs) \<and>
       (\<forall>p f. (p, f) \<in> set vs \<longleftrightarrow> p \<noteq> [] \<and> tpc_Lookup p c = Inr f \<and> fp_isIndexed f)"
    by (auto simp: visits_def tpc_Lookup_field)
qed

theorem path_cache_correct_witness:
  "\<exists>c. put_all tpc_Set [([1, 2], mk_FieldProperties 3 0 False KVT_Int False), ([1], mk_FieldProperties 4 0 True KVT_Bool True)] (TPC []) = Inr c \<and>
     tpc_Lookup [1, 2] c = Inr (mk_FieldProperties 3 0 False KVT_Int False) \<and>
     tpc_Lookup_indexed [NodeIndex 7, NodeName 1, NodeIndex 0, NodeName 2] c = tpc_Lookup [1, 2] c"
proof -
  let ?kvs = "[([1, 2], mk_FieldProperties 3 0 False KVT_Int False), ([1], mk_FieldProperties 4 0 True KVT_Bool True)] :: (u16 list \<times> field_properties) list"
  obtain c where c: "put_all tpc_Set ?kvs (TPC []) = Inr c" using tpc.put_all_ok [of ?kvs "TPC []"] by auto
  then show ?thesis
    using path_cache_correct [OF c, where path = "[1, 2]" and ipath = "[NodeIndex 7, NodeName 1, NodeIndex 0, NodeName 2]"]
    by (simp add: path_names_def)
qed

subsection \<open>The cache with its shared pointers\<close>

text \<open>
  A store of caches: an entry holds the address of the next level. Copying a cache, as copying a tags
  matcher does, copies its entries and with them the addresses, so the levels below are shared.
\<close>

type_synonym cache_store = "(nat option \<times> field_properties) list list"

definition ptr_grown :: "u16 \<Rightarrow> nat \<Rightarrow> cache_store \<Rightarrow> (nat option \<times> field_properties) list" where
  "ptr_grown tag a st =
     (if length (st ! a) \<le> unat tag then resize (unat tag + 1) (None, kNotIndexed) (st ! a) else st ! a)"

fun ptr_Set :: "u16 list \<Rightarrow> field_properties \<Rightarrow> nat \<Rightarrow> cache_store \<Rightarrow> cache_store res" where
  "ptr_Set [] field a st = Inl Abort"
| "ptr_Set (tag # path) field a st =
     (let es = ptr_grown tag a st; e = es ! unat tag
      in if path = [] then Inr (st[a := es[unat tag := (fst e, field)]])
         else case fst e of
             None \<Rightarrow> ptr_Set path field (length st) (st[a := es[unat tag := (Some (length st), snd e)]] @ [[]])
           | Some b \<Rightarrow> ptr_Set path field b (st[a := es]))"

fun ptr_Lookup :: "u16 list \<Rightarrow> nat \<Rightarrow> cache_store \<Rightarrow> field_properties res" where
  "ptr_Lookup [] a st = Inl Abort"
| "ptr_Lookup (tag # path) a st =
     (if length (st ! a) \<le> unat tag then Inr kNotIndexed
      else let e = st ! a ! unat tag
           in if path = [] then Inr (snd e)
              else case fst e of None \<Rightarrow> Inr kNotIndexed | Some b \<Rightarrow> ptr_Lookup path b st)"

definition ptr_copy :: "nat \<Rightarrow> cache_store \<Rightarrow> nat \<times> cache_store" where
  "ptr_copy a st = (length st, st @ [st ! a])"

definition ptr_Clear :: "nat \<Rightarrow> cache_store \<Rightarrow> cache_store" where
  "ptr_Clear a st = st[a := []]"

text \<open>A tree laid out in the store on the cells \<open>F\<close>, none of them shared.\<close>

inductive tree_at :: "cache_store \<Rightarrow> nat \<Rightarrow> tags_path_cache \<Rightarrow> nat set \<Rightarrow> bool"
  and entry_at :: "cache_store \<Rightarrow> nat option \<times> field_properties \<Rightarrow>
    tags_path_cache option \<times> field_properties \<Rightarrow> nat set \<Rightarrow> bool"
  for st :: cache_store
where
  tree_at: "a < length st \<Longrightarrow> length (st ! a) = length es \<Longrightarrow>
    (\<And>i. i < length es \<Longrightarrow> entry_at st (st ! a ! i) (es ! i) (G i)) \<Longrightarrow>
    (\<And>i. i < length es \<Longrightarrow> a \<notin> G i) \<Longrightarrow>
    (\<And>i j. i < length es \<Longrightarrow> j < length es \<Longrightarrow> i \<noteq> j \<Longrightarrow> G i \<inter> G j = {}) \<Longrightarrow>
    F = insert a (\<Union>i<length es. G i) \<Longrightarrow> tree_at st a (TPC es) F"
| entry_none: "entry_at st (None, f) (None, f) {}"
| entry_some: "tree_at st b c F \<Longrightarrow> entry_at st (Some b, f) (Some c, f) F"

inductive_simps entry_at_simps: "entry_at st (None, f) e F" "entry_at st (Some b, f) e F"
inductive_cases tree_atE: "tree_at st a c F"

lemma tree_at_frame:
  "tree_at st a c F \<Longrightarrow> length st \<le> length st' \<Longrightarrow> (\<And>b. b \<in> F \<Longrightarrow> st' ! b = st ! b) \<Longrightarrow> tree_at st' a c F"
  "entry_at st x e F \<Longrightarrow> length st \<le> length st' \<Longrightarrow> (\<And>b. b \<in> F \<Longrightarrow> st' ! b = st ! b) \<Longrightarrow> entry_at st' x e F"
proof (induction rule: tree_at_entry_at.inducts)
  case (tree_at a es G F)
  have a: "st' ! a = st ! a" using tree_at(7,9) by simp
  show ?case
  proof (rule tree_at_entry_at.tree_at [where G = G])
    show "entry_at st' (st' ! a ! i) (es ! i) (G i)" if "i < length es" for i
      unfolding a by (rule tree_at(4) [OF that tree_at(8)]) (use tree_at(7,9) that in auto)
  qed (use tree_at a in auto)
qed (auto intro: tree_at_entry_at.intros)

lemma tree_at_bound:
  "tree_at st a c F \<Longrightarrow> F \<subseteq> {..<length st}" "entry_at st x e F \<Longrightarrow> F \<subseteq> {..<length st}"
  by (induction rule: tree_at_entry_at.inducts) auto

lemma tree_at_empty: "a < length st \<Longrightarrow> st ! a = [] \<Longrightarrow> tree_at st a (TPC []) {a}"
  by (rule tree_at) auto


lemma ptr_grown_entries:
  assumes t: "tree_at st a c F"
  obtains G :: "nat \<Rightarrow> nat set" where "length (ptr_grown tag a st) = length (tpc_grown tag c)"
    "\<And>i. i < length (tpc_grown tag c) \<Longrightarrow> entry_at st (ptr_grown tag a st ! i) (tpc_grown tag c ! i) (G i)"
    "\<And>i. a \<notin> G i" "\<And>i j. i \<noteq> j \<Longrightarrow> G i \<inter> G j = {}" "\<And>i. G i \<subseteq> F" "a < length st" "a \<in> F"
proof -
  obtain es where c: "c = TPC es" by (cases c)
  obtain G :: "nat \<Rightarrow> nat set" where 1: "a < length st" "length (st ! a) = length es"
      "\<And>i. i < length es \<Longrightarrow> entry_at st (st ! a ! i) (es ! i) (G i)" "\<And>i. i < length es \<Longrightarrow> a \<notin> G i"
      "\<And>i j. i < length es \<Longrightarrow> j < length es \<Longrightarrow> i \<noteq> j \<Longrightarrow> G i \<inter> G j = {}" "F = insert a (\<Union>i<length es. G i)"
    using t unfolding c by (rule tree_atE) blast
  let ?G = "\<lambda>i. if i < length es then G i else {}"
  have "entry_at st (ptr_grown tag a st ! i) (tpc_grown tag c ! i) (?G i)" if "i < length (tpc_grown tag c)" for i
    using 1 that by (auto simp: c ptr_grown_def tpc_grown_def nth_resize intro: entry_none)
  then show thesis using 1 by (intro that [of ?G]) (auto simp: c ptr_grown_def tpc_grown_def)
qed

lemma tree_at_update:
  assumes es: "length gs = length es" "\<And>i. i < length es \<Longrightarrow> entry_at st (gs ! i) (es ! i) (G i)"
    and G: "\<And>i. a \<notin> G i" "\<And>i j. i \<noteq> j \<Longrightarrow> G i \<inter> G j = {}"
    and new: "t < length es" "entry_at st' x e H" "a \<notin> H" "\<And>j. j \<noteq> t \<Longrightarrow> H \<inter> G j = {}"
    and st': "a < length st'" "st' ! a = gs[t := x]" "length st \<le> length st'" "\<And>b j. j \<noteq> t \<Longrightarrow> b \<in> G j \<Longrightarrow> st' ! b = st ! b"
  shows "tree_at st' a (TPC (es[t := e])) (insert a (\<Union>i<length es. (G(t := H)) i))"
proof (rule tree_at [where G = "G(t := H)"])
  show "entry_at st' (st' ! a ! i) (es[t := e] ! i) ((G(t := H)) i)" if "i < length (es[t := e])" for i
  proof (cases "i = t")
    case True
    then show ?thesis using new(1,2) es(1) st'(2) by simp
  next
    case False
    have "entry_at st' (gs ! i) (es ! i) (G i)"
      by (rule tree_at_frame(2) [OF es(2)]) (use that False st'(3,4) in auto)
    then show ?thesis using False st'(2) by simp
  qed
next
  show "(G(t := H)) i \<inter> (G(t := H)) j = {}" if "i \<noteq> j" for i j
    using that G(2) new(4) by (auto simp: Int_commute)
qed (use st' G(1) new(3) es(1) in auto)

lemma ptr_Set_refines:
  "tree_at st a c F \<Longrightarrow> path \<noteq> [] \<Longrightarrow>
   \<exists>st' c' F'. ptr_Set path f a st = Inr st' \<and> tpc_Set path f c = Inr c' \<and> tree_at st' a c' F' \<and>
     length st \<le> length st' \<and> F' \<subseteq> F \<union> {length st..} \<and> (\<forall>b < length st. b \<notin> F \<longrightarrow> st' ! b = st ! b)"
proof (induction path arbitrary: a st c F)
  case (Cons tag path)
  obtain G :: "nat \<Rightarrow> nat set" where len: "length (ptr_grown tag a st) = length (tpc_grown tag c)"
    and ent: "\<And>i. i < length (tpc_grown tag c) \<Longrightarrow> entry_at st (ptr_grown tag a st ! i) (tpc_grown tag c ! i) (G i)"
    and G: "\<And>i. a \<notin> G i" "\<And>i j. i \<noteq> j \<Longrightarrow> G i \<inter> G j = {}" "\<And>i. G i \<subseteq> F" and a: "a < length st" "a \<in> F"
    by (rule ptr_grown_entries [OF Cons.prems(1), of tag]) (rule that)
  let ?gs = "ptr_grown tag a st" let ?es = "tpc_grown tag c" let ?t = "unat tag"
  have t: "?t < length ?es" by (rule tpc_grown_length)
  have Flt: "F \<subseteq> {..<length st}" by (rule tree_at_bound(1) [OF Cons.prems(1)])
  obtain b fld e where be: "?gs ! ?t = (b, fld)" "?es ! ?t = (e, fld)" "entry_at st (b, fld) (e, fld) (G ?t)"
    using ent [OF t] by (cases "?gs ! ?t"; cases "?es ! ?t") (auto elim: entry_at.cases)
  show ?case
  proof (cases "path = []")
    case True
    have new: "entry_at st (b, f) (e, f) (G ?t)"
      using be(3) by (cases b; cases e) (auto simp: entry_at_simps intro: tree_at_entry_at.intros)
    have "tree_at (st[a := ?gs[?t := (b, f)]]) a (TPC (?es[?t := (e, f)])) (insert a (\<Union>i<length ?es. (G(?t := G ?t)) i))"
      by (rule tree_at_update [OF len ent G(1,2) t tree_at_frame(2) [OF new]]) (use G a in \<open>auto simp: nth_list_update\<close>)
    then show ?thesis using True be a G(3) by (auto simp: Let_def nth_list_update)
  next
    case False
    obtain b' st1 sub H where sub: "ptr_Set (tag # path) f a st = ptr_Set path f b' st1"
      "tpc_Set (tag # path) f c = bind_res (tpc_Set path f sub) (\<lambda>s. Inr (TPC (?es[?t := (Some s, fld)])))"
      "tree_at st1 b' sub H" "a \<notin> H" "H \<subseteq> G ?t \<union> {length st..}" "st1 ! a = ?gs[?t := (Some b', fld)]"
      "length st \<le> length st1" "\<And>b. b < length st \<Longrightarrow> b \<noteq> a \<Longrightarrow> st1 ! b = st ! b"
    proof (cases b)
      case None
      then have e: "e = None" using be(3) by (auto simp: entry_at_simps)
      have "tree_at (st[a := ?gs[?t := (Some (length st), fld)]] @ [[]]) (length st) (TPC []) {length st}"
        by (rule tree_at_empty) (simp_all add: nth_append)
      then show thesis using False None e be a
        by (intro that [of "length st" "st[a := ?gs[?t := (Some (length st), fld)]] @ [[]]" "TPC []" "{length st}"])
          (auto simp: Let_def nth_append)
    next
      case (Some d)
      then obtain s where e: "e = Some s" "tree_at st d s (G ?t)" using be(3) by (auto simp: entry_at_simps)
      have "?gs[?t := (Some d, fld)] = ?gs" using be(1) Some by (metis list_update_id)
      moreover have "tree_at (st[a := ?gs]) d s (G ?t)"
        by (rule tree_at_frame(1) [OF e(2)]) (use G(1) in \<open>metis length_list_update le_refl nth_list_update_neq\<close>)+
      ultimately show thesis using False Some e be a G(1)
        by (intro that [of d "st[a := ?gs]" s "G ?t"]) (auto simp: Let_def)
    qed
    obtain st' s' F' where IH: "ptr_Set path f b' st1 = Inr st'" "tpc_Set path f sub = Inr s'" "tree_at st' b' s' F'"
      "length st1 \<le> length st'" "F' \<subseteq> H \<union> {length st1..}" "\<forall>b < length st1. b \<notin> H \<longrightarrow> st' ! b = st1 ! b"
      using Cons.IH [OF sub(3) False] by blast
    have F': "F' \<subseteq> G ?t \<union> {length st..}" using IH(5) sub(5,7) by auto
    have far: "b \<notin> {length st..}" if "b \<in> G j" for b j using G(3) [of j] Flt that by auto
    have keep: "st' ! b = st ! b" if "b < length st" "b \<notin> F" for b
    proof -
      have "b \<noteq> a" "b \<notin> H" using that a(2) sub(5) G(3) [of ?t] by auto
      then show ?thesis using that IH(6) sub(7,8) by simp
    qed
    have keepG: "st' ! b = st ! b" if "j \<noteq> ?t" "b \<in> G j" for b j
    proof -
      have "b < length st" "b \<noteq> a" "b \<notin> H" using that far [of b j] G(1,2) sub(5) by fastforce+
      then show ?thesis using IH(6) sub(7,8) by simp
    qed
    have "tree_at st' a (TPC (?es[?t := (Some s', fld)])) (insert a (\<Union>i<length ?es. (G(?t := F')) i))"
    proof (rule tree_at_update [OF len ent G(1,2) t entry_some [OF IH(3)]])
      show "a \<notin> F'" using F' G(1) a(1) by auto
      show "F' \<inter> G j = {}" if "j \<noteq> ?t" for j using F' far [of _ j] G(2) [OF that] by blast
      show "st' ! a = ?gs[?t := (Some b', fld)]" using IH(6) sub(4,6,7) a(1) by simp
    qed (use keepG sub(7) IH(4) a in auto)
    moreover have "insert a (\<Union>i<length ?es. (G(?t := F')) i) \<subseteq> F \<union> {length st..}"
      using F' G(3) a(2) by (fastforce split: if_splits)
    moreover have "length st \<le> length st'" using sub(7) IH(4) by simp
    moreover have "tpc_Set (tag # path) f c = Inr (TPC (?es[?t := (Some s', fld)]))" unfolding sub(2) IH(2) by simp
    moreover have "ptr_Set (tag # path) f a st = Inr st'" unfolding sub(1) by (rule IH(1))
    ultimately show ?thesis using keep by (metis (no_types, lifting))
  qed
qed simp


lemma ptr_Lookup_tree:
  "tree_at st a c F \<Longrightarrow> path \<noteq> [] \<Longrightarrow> ptr_Lookup path a st = Inr (tpc_field path c)"
proof (induction path arbitrary: a c F)
  case (Cons tag path)
  have "\<exists>es. c = TPC es \<and> length (st ! a) = length es \<and> (\<forall>i < length es. \<exists>G. entry_at st (st ! a ! i) (es ! i) G)"
    using Cons.prems(1) by (rule tree_atE) blast
  then obtain es where c: "c = TPC es" and l: "length (st ! a) = length es"
    and e: "\<And>i. i < length es \<Longrightarrow> \<exists>G. entry_at st (st ! a ! i) (es ! i) G" by blast
  show ?case
  proof (cases "unat tag < length es")
    case True
    obtain G where g: "entry_at st (st ! a ! unat tag) (es ! unat tag) G" using e [OF True] ..
    show ?thesis
    proof (cases "path = []")
      case True
      then show ?thesis using g l c by (auto simp: Let_def elim!: entry_at.cases)
    next
      case False
      then show ?thesis using g l c \<open>unat tag < length es\<close> Cons.IH
        by (cases "st ! a ! unat tag"; cases "fst (st ! a ! unat tag)") (auto simp: Let_def entry_at_simps)
    qed
  qed (simp add: l c)
qed simp

text \<open>
  C36. Through its shared pointers \<open>Set\<close> does what it does on the tree as long as the levels of the cache
  belong to it alone: it succeeds, leaves a tree with the new field, writes no cell outside the cache but
  new ones, and \<open>Lookup\<close> through the pointers reads the tree.
\<close>

theorem ptr_cache_refines:
  assumes "tree_at st a c F" "path \<noteq> []"
  shows "\<exists>st' c' F'. ptr_Set path f a st = Inr st' \<and> tpc_Set path f c = Inr c' \<and> tree_at st' a c' F' \<and>
     (\<forall>b < length st. b \<notin> F \<longrightarrow> st' ! b = st ! b) \<and> F' \<subseteq> F \<union> {length st..} \<and>
     (\<forall>q. q \<noteq> [] \<longrightarrow> ptr_Lookup q a st' = tpc_Lookup q c')"
proof -
  obtain st' c' F' where "ptr_Set path f a st = Inr st'" "tpc_Set path f c = Inr c'" "tree_at st' a c' F'"
      "F' \<subseteq> F \<union> {length st..}" "\<forall>b < length st. b \<notin> F \<longrightarrow> st' ! b = st ! b"
    using ptr_Set_refines [OF assms, of f] by blast
  moreover from this have "\<forall>q. q \<noteq> [] \<longrightarrow> ptr_Lookup q a st' = tpc_Lookup q c'"
    by (simp add: ptr_Lookup_tree tpc_Lookup_field)
  ultimately show ?thesis by blast
qed

theorem ptr_cache_refines_witness:
  "\<exists>st' c' F'. ptr_Set [1, 2] kNotIndexed 0 [[]] = Inr st' \<and> tpc_Set [1, 2] kNotIndexed (TPC []) = Inr c' \<and> tree_at st' 0 c' F'"
  using ptr_cache_refines [of "[[]]" 0 "TPC []" "{0}" "[1, 2]" kNotIndexed] tree_at_empty [of 0 "[[]]"] by auto

text \<open>
  Copies share the levels below the first: after a copy, a \<open>Set\<close> in the copy at a path that has a common
  first tag with an old one changes what the original answers.
\<close>

definition shared_set :: "(field_properties res \<times> field_properties res) res" where
  "shared_set =
     bind_res (ptr_Set [1, 2] kNotIndexed 0 [[]]) (\<lambda>st.
     bind_res (ptr_Set [1, 3] (mk_FieldProperties 5 0 False KVT_Int True) (fst (ptr_copy 0 st)) (snd (ptr_copy 0 st))) (\<lambda>st'.
     Inr (ptr_Lookup [1, 3] 0 st, ptr_Lookup [1, 3] 0 st')))"

lemma ptr_copy_shares: "shared_set = Inr (Inr kNotIndexed, Inr (mk_FieldProperties 5 0 False KVT_Int True))"
  by code_simp

end
