(* ===== verification/Strings.thy ===== *)
theory Strings
  imports Prelude Uuid KeyValueType
begin

section \<open>Strings\<close>

text \<open>
  \<open>tools/stringstools.h\<close> and \<open>.cc\<close>: the functions on byte strings that the parsers, the serializers and the
  comparison of strings use. A string is a list of characters of one byte; comparisons of \<open>char\<close> values are signed,
  as on the platforms the code is built for. The functions that decode UTF-8 with the vendored library, random
  strings and the printing of floating point numbers are left out.
\<close>

subsection \<open>Characters\<close>

abbreviation code :: "char \<Rightarrow> nat" where "code \<equiv> of_char"

definition schar :: "char \<Rightarrow> int" where
  "schar c = (if code c < 128 then int (code c) else int (code c) - 256)"

definition is_alpha :: "char \<Rightarrow> bool" where
  "is_alpha c \<longleftrightarrow> (65 \<le> code c \<and> code c \<le> 90) \<or> (97 \<le> code c \<and> code c \<le> 122)"

definition is_digit :: "char \<Rightarrow> bool" where
  "is_digit c \<longleftrightarrow> 48 \<le> code c \<and> code c \<le> 57"

definition issign :: "char \<Rightarrow> bool" where
  "issign c \<longleftrightarrow> c = CHR ''+'' \<or> c = CHR ''-''"

definition to_lower :: "char \<Rightarrow> char" where
  "to_lower c = (if 65 \<le> code c \<and> code c \<le> 90 then char_of (code c + 32) else c)"

text \<open>\<open>std::isspace\<close>, \<open>std::isalnum\<close> and \<open>isxdigit\<close> in the C locale.\<close>

definition is_space :: "char \<Rightarrow> bool" where
  "is_space c \<longleftrightarrow> code c = 32 \<or> (9 \<le> code c \<and> code c \<le> 13)"

definition is_xdigit :: "char \<Rightarrow> bool" where
  "is_xdigit c \<longleftrightarrow> is_digit c \<or> (65 \<le> code c \<and> code c \<le> 70) \<or> (97 \<le> code c \<and> code c \<le> 102)"

subsection \<open>Comparison\<close>

definition iequals :: "string \<Rightarrow> string \<Rightarrow> bool" where
  "iequals lhs rhs \<longleftrightarrow> length lhs = length rhs \<and> list_all2 (\<lambda>l r. to_lower l = to_lower r) lhs rhs"

fun iless :: "string \<Rightarrow> string \<Rightarrow> bool" where
  "iless (l # lhs) (r # rhs) =
     (if to_lower l \<noteq> to_lower r then schar (to_lower l) < schar (to_lower r) else iless lhs rhs)"
| "iless lhs rhs = (length lhs < length rhs)"

text \<open>The numbers of the results and \<open>operator-\<close>, which turns a result around.\<close>

fun cr_code :: "comparation_result \<Rightarrow> u32" where
  "cr_code CR_Eq = 1"
| "cr_code CR_Lt = 2"
| "cr_code CR_Le = 3"
| "cr_code CR_Gt = 4"
| "cr_code CR_Ge = 5"
| "cr_code CR_NotComparable = 8"

definition cr_of_code :: "u32 \<Rightarrow> comparation_result" where
  "cr_of_code n = (if n = 1 then CR_Eq else if n = 2 then CR_Lt else if n = 3 then CR_Le else if n = 4 then CR_Gt
     else if n = 5 then CR_Ge else CR_NotComparable)"

unbundle bit_operations_syntax

definition cr_and :: "comparation_result \<Rightarrow> comparation_result \<Rightarrow> bool" where
  "cr_and lhs rhs \<longleftrightarrow> cr_code lhs AND cr_code rhs \<noteq> 0"

definition cr_neg :: "comparation_result \<Rightarrow> comparation_result" where
  "cr_neg v = (let ltOrGt = cr_code CR_Lt OR cr_code CR_Gt in
     if cr_code v AND ltOrGt \<noteq> 0 then cr_of_code (cr_code v XOR ltOrGt) else v)"

fun collate_ASCII :: "string \<Rightarrow> string \<Rightarrow> comparation_result" where
  "collate_ASCII (l # lhs) (r # rhs) =
     (if schar (to_lower l) > schar (to_lower r) then CR_Gt
      else if schar (to_lower l) < schar (to_lower r) then CR_Lt
      else collate_ASCII lhs rhs)"
| "collate_ASCII lhs rhs =
     (if length lhs > length rhs then CR_Gt else if length lhs < length rhs then CR_Lt else CR_Eq)"

text \<open>\<open>memcmp\<close> of the first \<open>n\<close> bytes: negative, zero or positive.\<close>

fun memcmp :: "string \<Rightarrow> string \<Rightarrow> nat \<Rightarrow> int" where
  "memcmp (l # lhs) (r # rhs) (Suc n) = (if l = r then memcmp lhs rhs n else int (code l) - int (code r))"
| "memcmp lhs rhs n = 0"

definition collate_None :: "string \<Rightarrow> string \<Rightarrow> comparation_result" where
  "collate_None lhs rhs =
     (let l1 = length lhs; l2 = length rhs; res = memcmp lhs rhs (min l1 l2) in
      if res \<noteq> 0 then (if res < 0 then CR_Lt else CR_Gt)
      else if l1 < l2 then CR_Lt else if l1 > l2 then CR_Gt else CR_Eq)"

text \<open>
  \<open>collateCompare<CollateCustom>\<close> on decoded characters: the priorities come from the sorting table. The sizes
  that decide between strings of equal priorities are those of the encoded strings.
\<close>

fun collate_Custom :: "('c \<Rightarrow> int) \<Rightarrow> nat \<Rightarrow> nat \<Rightarrow> 'c list \<Rightarrow> 'c list \<Rightarrow> comparation_result" where
  "collate_Custom priority lsize rsize (l # lhs) (r # rhs) =
     (if priority l > priority r then CR_Gt
      else if priority l < priority r then CR_Lt
      else collate_Custom priority lsize rsize lhs rhs)"
| "collate_Custom priority lsize rsize lhs rhs =
     (if lsize > rsize then CR_Gt else if lsize < rsize then CR_Lt else CR_Eq)"

subsection \<open>Affixes\<close>

definition checkIfStartsWith :: "bool \<Rightarrow> string \<Rightarrow> string \<Rightarrow> bool" where
  "checkIfStartsWith sensitive pattern str \<longleftrightarrow>
     (if pattern = [] then False
      else if length pattern > length str then False
      else list_all (\<lambda>i. if sensitive then pattern ! i = str ! i else to_lower (pattern ! i) = to_lower (str ! i))
        [0..<length pattern])"

definition checkIfEndsWith :: "bool \<Rightarrow> string \<Rightarrow> string \<Rightarrow> bool" where
  "checkIfEndsWith sensitive pattern src \<longleftrightarrow>
     (if length pattern > length src then False
      else if length pattern = 0 then True
      else let offset = length src - length pattern in
        list_all (\<lambda>i. if sensitive then src ! (offset + i) = pattern ! i
          else to_lower (src ! (offset + i)) = to_lower (pattern ! i)) [0..<length pattern])"

definition endsWith :: "string \<Rightarrow> string \<Rightarrow> bool" where
  "endsWith source ending \<longleftrightarrow>
     (if length source \<ge> length ending then drop (length source - length ending) source = ending else False)"

definition ensureEndsWith :: "string \<Rightarrow> string \<Rightarrow> string" where
  "ensureEndsWith source ending =
     (if source \<noteq> [] \<and> \<not> endsWith source ending then source @ ending else source)"

definition skipSpace :: "string \<Rightarrow> string" where
  "skipSpace str = dropWhile is_space str"

definition trimSpaces :: "string \<Rightarrow> string" where
  "trimSpaces str = rev (dropWhile is_space (rev (dropWhile is_space str)))"

subsection \<open>Checks\<close>

definition validateObjectName :: "string \<Rightarrow> bool \<Rightarrow> bool" where
  "validateObjectName name allowSpecialChars \<longleftrightarrow>
     (if name = [] then False
      else list_all (\<lambda>ch. is_alpha ch \<or> is_digit ch \<or> ch = CHR ''_'' \<or> ch = CHR ''-'' \<or> ch = CHR ''#'' \<or>
        (ch = CHR ''@'' \<and> allowSpecialChars)) name)"

definition validateUserNsName :: "string \<Rightarrow> bool" where
  "validateUserNsName name \<longleftrightarrow>
     (if name = [] then False
      else list_all (\<lambda>ch. is_alpha ch \<or> is_digit ch \<or> ch = CHR ''_'' \<or> ch = CHR ''-'') name)"

definition isPrintable :: "string \<Rightarrow> bool" where
  "isPrintable str \<longleftrightarrow> (if length str > 256 then False else list_all (\<lambda>ch. schar ch \<ge> 32) str)"

definition isBlank :: "string \<Rightarrow> bool" where
  "isBlank str \<longleftrightarrow> (if str = [] then True else list_all is_space str)"

text \<open>\<open>charMultilinePos\<close>: the line and column after the characters from \<open>search_start\<close> to \<open>pos\<close>.\<close>

definition charMultilinePos :: "string \<Rightarrow> nat \<Rightarrow> nat \<Rightarrow> nat \<times> nat \<Rightarrow> nat \<times> nat" where
  "charMultilinePos str pos search_start =
     fold (\<lambda>ch (line, col). if ch = CHR ''\<newline>'' then (line + 1, 0) else (line, col + 1)) (take (pos - search_start) (drop search_start str))"

subsection \<open>Splitting\<close>

lemma length_dropWhile_Cons: "dropWhile P xs = y # ys \<Longrightarrow> length ys < length xs"
  by (metis length_Cons length_dropWhile_le less_eq_Suc_le)

function split_str :: "string \<Rightarrow> string \<Rightarrow> bool \<Rightarrow> string list" where
  "split_str str delimiters trimEmpty =
     (let tok = takeWhile (\<lambda>c. c \<notin> set delimiters) str in
      case dropWhile (\<lambda>c. c \<notin> set delimiters) str of
        [] \<Rightarrow> (if tok \<noteq> [] \<or> \<not> trimEmpty then [tok] else [])
      | _ # rest \<Rightarrow>
          if tok \<noteq> [] \<or> \<not> trimEmpty then tok # split_str rest delimiters trimEmpty
          else split_str rest delimiters trimEmpty)"
  by pat_completeness auto

termination
  by (relation "measure (\<lambda>(str, _, _). length str)") (auto dest: length_dropWhile_Cons)

declare split_str.simps [simp del]

subsection \<open>JSON escapes\<close>

text \<open>\<open>u32toax\<close> of the vendored \<open>itoa\<close>: \<open>n\<close> upper-case hexadecimal digits.\<close>

definition hex_lut :: string where "hex_lut = ''0123456789ABCDEF''"

definition u32toax :: "nat \<Rightarrow> nat \<Rightarrow> string" where
  "u32toax val n = map (\<lambda>i. hex_lut ! (val div 16 ^ (n - 1 - i) mod 16)) [0..<n]"

definition escape_char :: "bool \<Rightarrow> char \<Rightarrow> string" where
  "escape_char add_quotes ch =
     (if code ch = 8 then [CHR 0x5C, CHR ''b'']
      else if code ch = 12 then [CHR 0x5C, CHR ''f'']
      else if code ch = 10 then [CHR 0x5C, CHR ''n'']
      else if code ch = 13 then [CHR 0x5C, CHR ''r'']
      else if code ch = 9 then [CHR 0x5C, CHR ''t'']
      else if ch = CHR 0x5C then [CHR 0x5C, CHR 0x5C]
      else if ch = CHR 0x22 then [CHR 0x5C, CHR 0x22] @ (if add_quotes then [CHR 0x22] else [])
      else if code ch < 32 then [CHR 0x5C, CHR ''u''] @ u32toax (code ch) 4
      else [ch])"

definition escapeString_to :: "string \<Rightarrow> string \<Rightarrow> bool \<Rightarrow> string" where
  "escapeString_to str result add_quotes = fold (\<lambda>ch result. result @ escape_char add_quotes ch) str result"

definition escapeString :: "string \<Rightarrow> string" where
  "escapeString str = escapeString_to str [] False"

text \<open>\<open>c & ~' '\<close> clears the bit that tells the cases apart.\<close>

definition isHexDigit :: "char \<Rightarrow> bool" where
  "isHexDigit c \<longleftrightarrow> (48 \<le> code c \<and> code c \<le> 57) \<or>
     (65 \<le> sint (word_of_nat (code c) AND NOT 32 :: u8) \<and> sint (word_of_nat (code c) AND NOT 32 :: u8) \<le> 70)"

definition charToInt :: "char \<Rightarrow> int" where
  "charToInt c = (if schar c \<le> 57 then schar c - 48 else sint (word_of_nat (code c) AND NOT 32 :: u8) - 65 + 10)"

text \<open>The four digits after \<open>\u\<close>: their value when all of them are hexadecimal.\<close>

fun hex_code :: "string \<Rightarrow> nat \<Rightarrow> nat option" where
  "hex_code [] acc = Some acc"
| "hex_code (c # cs) acc = (if isHexDigit c then hex_code cs (acc * 16 + nat (charToInt c)) else None)"

text \<open>The UTF-8 bytes of a code below 0x10000.\<close>

definition utf8_of_code :: "nat \<Rightarrow> string" where
  "utf8_of_code n =
     (if n < 0x80 then [char_of n]
      else if n < 0x800 then [char_of (0xC0 OR n div 64), char_of (0x80 OR n mod 64)]
      else [char_of (0xE0 OR n div 4096), char_of (0x80 OR n div 64 mod 64), char_of (0x80 OR n mod 64)])"

fun unescapeString :: "string \<Rightarrow> string" where
  "unescapeString [] = []"
| "unescapeString [c] = [c]"
| "unescapeString (c # d # cs) =
     (if c = CHR 0x5C then
        if d = CHR 0x22 \<or> d = CHR 0x5C \<or> d = CHR ''/'' then d # unescapeString cs
        else if d = CHR ''b'' then CHR 0x08 # unescapeString cs
        else if d = CHR ''f'' then CHR 0x0C # unescapeString cs
        else if d = CHR ''n'' then CHR 0x0A # unescapeString cs
        else if d = CHR ''r'' then CHR 0x0D # unescapeString cs
        else if d = CHR ''t'' then CHR 0x09 # unescapeString cs
        else if d = CHR ''u'' then
          if length cs \<ge> 4 then
            case hex_code (take 4 cs) 0 of
              Some n \<Rightarrow>
                if 0 < n \<and> n \<le> 0xFFFF then utf8_of_code n @ unescapeString (drop 4 cs)
                else [CHR 0x5C, CHR ''u''] @ unescapeString cs
            | None \<Rightarrow> [CHR 0x5C, CHR ''u''] @ unescapeString cs
          else [CHR 0x5C, CHR ''u''] @ unescapeString cs
        else [c, d] @ unescapeString cs
      else c # unescapeString (d # cs))"

subsection \<open>URL decoding\<close>

definition url_digit :: "char \<Rightarrow> int" where
  "url_digit a =
     (let a = (if schar a \<ge> 97 then schar a - 32 else schar a) in if a \<ge> 65 then a - (65 - 10) else a - 48)"

fun urldecode2 :: "string \<Rightarrow> string" where
  "urldecode2 [] = []"
| "urldecode2 (c # cs) =
     (if c = CHR ''%'' \<and> length cs \<ge> 2 \<and> cs ! 0 \<noteq> CHR 0x00 \<and> cs ! 1 \<noteq> CHR 0x00 \<and> is_xdigit (cs ! 0) \<and> is_xdigit (cs ! 1)
      then char_of (nat ((16 * url_digit (cs ! 0) + url_digit (cs ! 1)) mod 256)) # urldecode2 (drop 2 cs)
      else if c = CHR ''+'' then CHR '' '' # urldecode2 cs
      else c # urldecode2 cs)"

subsection \<open>Types of values\<close>

definition trueToken :: string where "trueToken = ''true''"
definition falseToken :: string where "falseToken = ''false''"

definition token_at :: "string \<Rightarrow> nat \<Rightarrow> char \<Rightarrow> bool" where
  "token_at tok i c \<longleftrightarrow> i < length tok \<and> tok ! i = c"

text \<open>The loop from the second character on: the flags, or \<open>None\<close> for the early return of \<open>String\<close>.\<close>

fun detect_loop :: "string \<Rightarrow> nat \<Rightarrow> bool \<Rightarrow> bool \<Rightarrow> bool \<Rightarrow> (bool \<times> bool \<times> bool) option" where
  "detect_loop [] i isDouble isDigit isBool = Some (isDouble, isDigit, isBool)"
| "detect_loop (c # cs) i isDouble isDigit isBool =
     (if isDouble \<or> isDigit \<or> isBool then
        if isDigit \<or> isDouble then
          if \<not> is_digit c then
            if c = CHR ''.'' then
              if isDouble then None else detect_loop cs (i + 1) True isDigit isBool
            else None
          else detect_loop cs (i + 1) isDouble isDigit isBool
        else detect_loop cs (i + 1) isDouble isDigit (isBool \<and> (token_at trueToken i c \<or> token_at falseToken i c))
      else Some (isDouble, isDigit, isBool))"

definition detectValueType :: "string \<Rightarrow> key_value_type" where
  "detectValueType val =
     (case val of
        [] \<Rightarrow> KVT_Undefined
      | c # cs \<Rightarrow>
          let flags =
            (if is_digit c then Some (True, False)
             else if length val > 1 then
               if c = CHR ''-'' \<or> c = CHR ''+'' then Some (val ! 1 \<noteq> CHR ''.'', False)
               else Some (False, c = trueToken ! 0 \<or> c = falseToken ! 0)
             else None) in
          case flags of
            None \<Rightarrow> KVT_String
          | Some (isDigit, isBool) \<Rightarrow>
              (case detect_loop cs 1 False isDigit isBool of
                 None \<Rightarrow> KVT_String
               | Some (isDouble, isDigit, isBool) \<Rightarrow>
                   if isDigit then (if isDouble then KVT_Double else KVT_Int64)
                   else if isBool then KVT_Bool
                   else KVT_String))"

subsection \<open>Orders of strings\<close>

text \<open>
  What a comparison function promises: its results are exact, comparing the other way round turns the result around,
  being equal is transitive and compatible with being less, and being less is transitive.
\<close>

locale three_way =
  fixes cmp :: "'a \<Rightarrow> 'a \<Rightarrow> comparation_result"
  assumes exact: "cmp x y \<in> {CR_Lt, CR_Eq, CR_Gt}"
    and turn: "cmp y x = cr_neg (cmp x y)"
    and eq_trans: "cmp x y = CR_Eq \<Longrightarrow> cmp y z = r \<Longrightarrow> cmp x z = r"
    and lt_trans: "cmp x y = CR_Lt \<Longrightarrow> cmp y z = CR_Lt \<Longrightarrow> cmp x z = CR_Lt"
begin

definition below :: "'a \<Rightarrow> 'a \<Rightarrow> bool" where
  "below x y \<longleftrightarrow> cmp x y \<noteq> CR_Gt"

lemma cr_neg_simps: "cr_neg CR_Lt = CR_Gt" "cr_neg CR_Gt = CR_Lt" "cr_neg CR_Eq = CR_Eq"
  by (simp_all add: cr_neg_def cr_of_code_def Let_def)

lemma refl: "cmp x x = CR_Eq"
  using exact [of x x] turn [of x x] by (auto simp: cr_neg_simps)

lemma eq_sym: "cmp x y = CR_Eq \<Longrightarrow> cmp y x = CR_Eq"
  using turn [of y x] by (simp add: cr_neg_simps)

lemma below_total: "below x y \<or> below y x"
  using turn [of y x] exact [of x y] by (auto simp: below_def cr_neg_simps)

lemma below_trans:
  assumes "below x y" "below y z"
  shows "below x z"
proof (cases "cmp x y = CR_Eq")
  case True
  have "cmp x z = cmp y z" by (rule eq_trans [OF True]) simp
  then show ?thesis using assms(2) by (simp add: below_def)
next
  case xy: False
  then have lt: "cmp x y = CR_Lt" using assms(1) exact [of x y] by (auto simp: below_def)
  show ?thesis
  proof (cases "cmp y z = CR_Eq")
    case True
    have "cmp z x = cmp y x" by (rule eq_trans [OF eq_sym [OF True]]) simp
    then have "cmp x z = cmp x y" using turn [of x z] turn [of x y] by simp
    then show ?thesis using lt by (simp add: below_def)
  next
    case False
    then have "cmp y z = CR_Lt" using assms(2) exact [of y z] by (auto simp: below_def)
    then show ?thesis using lt_trans [OF lt] by (simp add: below_def)
  qed
qed

lemma below_antisym: "below x y \<Longrightarrow> below y x \<Longrightarrow> cmp x y = CR_Eq"
  using turn [of y x] exact [of x y] by (auto simp: below_def cr_neg_simps)

end

text \<open>The comparison of lists of integers that both collations rest on.\<close>

fun lex_cmp :: "int list \<Rightarrow> int list \<Rightarrow> comparation_result" where
  "lex_cmp (x # xs) (y # ys) = (if x > y then CR_Gt else if x < y then CR_Lt else lex_cmp xs ys)"
| "lex_cmp [] [] = CR_Eq"
| "lex_cmp [] (_ # _) = CR_Lt"
| "lex_cmp (_ # _) [] = CR_Gt"

lemma lex_cmp_eq [simp]: "lex_cmp xs ys = CR_Eq \<longleftrightarrow> xs = ys"
  by (induction xs ys rule: lex_cmp.induct) auto

lemma lex_cmp_exact: "lex_cmp xs ys \<in> {CR_Lt, CR_Eq, CR_Gt}"
  by (induction xs ys rule: lex_cmp.induct) auto

lemma lex_cmp_gt: "lex_cmp xs ys = CR_Gt \<longleftrightarrow> lex_cmp ys xs = CR_Lt"
  by (induction xs ys rule: lex_cmp.induct) auto

lemma lex_cmp_lt_Cons: "lex_cmp (x # xs) zs = CR_Lt \<longleftrightarrow>
    (\<exists>y ys. zs = y # ys \<and> (x < y \<or> x = y \<and> lex_cmp xs ys = CR_Lt))"
  by (cases zs) auto

lemma lex_cmp_trans: "lex_cmp xs ys = CR_Lt \<Longrightarrow> lex_cmp ys zs = CR_Lt \<Longrightarrow> lex_cmp xs zs = CR_Lt"
proof (induction xs arbitrary: ys zs)
  case Nil
  then obtain y ys' where "ys = y # ys'" by (cases ys) auto
  then have "zs \<noteq> []" using Nil(2) by auto
  then show ?case by (cases zs) auto
next
  case (Cons x xs)
  from Cons.prems(1) obtain y ys' where y: "ys = y # ys'" "x < y \<or> x = y \<and> lex_cmp xs ys' = CR_Lt"
    unfolding lex_cmp_lt_Cons by blast
  from Cons.prems(2) [unfolded y(1)] obtain z zs' where z: "zs = z # zs'" "y < z \<or> y = z \<and> lex_cmp ys' zs' = CR_Lt"
    unfolding lex_cmp_lt_Cons by blast
  have "x < z \<or> x = z \<and> lex_cmp xs zs' = CR_Lt" using y(2) z(2) Cons.IH [of ys' zs'] by auto
  then show ?case unfolding lex_cmp_lt_Cons z(1) by blast
qed

lemma three_way_lex: "three_way (\<lambda>x y. lex_cmp (f x) (f y))"
proof
  fix x y z r
  have n: "cr_neg CR_Lt = CR_Gt" "cr_neg CR_Gt = CR_Lt" "cr_neg CR_Eq = CR_Eq"
    by (simp_all add: cr_neg_def cr_of_code_def Let_def)
  show "lex_cmp (f x) (f y) \<in> {CR_Lt, CR_Eq, CR_Gt}" by (rule lex_cmp_exact)
  show "lex_cmp (f y) (f x) = cr_neg (lex_cmp (f x) (f y))"
  proof (cases "lex_cmp (f x) (f y)")
    case CR_Eq
    then have "f x = f y" by simp
    with CR_Eq show ?thesis by (simp add: n del: lex_cmp_eq)
  qed (use lex_cmp_exact [of "f x" "f y"] lex_cmp_gt [of "f x" "f y"] lex_cmp_gt [of "f y" "f x"] n in auto)
  show "lex_cmp (f x) (f y) = CR_Eq \<Longrightarrow> lex_cmp (f y) (f z) = r \<Longrightarrow> lex_cmp (f x) (f z) = r" by simp
  show "lex_cmp (f x) (f y) = CR_Lt \<Longrightarrow> lex_cmp (f y) (f z) = CR_Lt \<Longrightarrow> lex_cmp (f x) (f z) = CR_Lt"
    by (rule lex_cmp_trans)
qed

definition ascii_key :: "string \<Rightarrow> int list" where "ascii_key s = map (\<lambda>c. schar (to_lower c)) s"
definition byte_key :: "string \<Rightarrow> int list" where "byte_key s = map (\<lambda>c. int (code c)) s"

lemma collate_ASCII_lex: "collate_ASCII lhs rhs = lex_cmp (ascii_key lhs) (ascii_key rhs)"
proof (induction lhs arbitrary: rhs)
  case Nil
  show ?case by (cases rhs) (simp_all add: ascii_key_def)
next
  case (Cons l lhs)
  show ?case using Cons.IH by (cases rhs) (simp_all add: ascii_key_def)
qed

lemma collate_None_lex: "collate_None lhs rhs = lex_cmp (byte_key lhs) (byte_key rhs)"
proof (induction lhs arbitrary: rhs)
  case Nil
  then show ?case by (cases rhs) (simp_all add: collate_None_def byte_key_def)
next
  case (Cons l lhs)
  show ?case
  proof (cases rhs)
    case Nil
    then show ?thesis by (simp add: collate_None_def byte_key_def)
  next
    case r: (Cons r rs)
    show ?thesis
    proof (cases "l = r")
      case True
      have "collate_None (l # lhs) (l # rs) = collate_None lhs rs" by (simp add: collate_None_def Let_def)
      then show ?thesis using Cons.IH [of rs] r True by (simp add: byte_key_def)
    next
      case False
      then have "code l \<noteq> code r" by simp
      with False r show ?thesis by (auto simp: collate_None_def byte_key_def Let_def)
    qed
  qed
qed

interpretation ascii: three_way collate_ASCII
proof -
  have "collate_ASCII = (\<lambda>x y. lex_cmp (ascii_key x) (ascii_key y))" by (simp add: collate_ASCII_lex fun_eq_iff)
  then show "three_way collate_ASCII" using three_way_lex [of ascii_key] by simp
qed

interpretation bytewise: three_way collate_None
proof -
  have "collate_None = (\<lambda>x y. lex_cmp (byte_key x) (byte_key y))" by (simp add: collate_None_lex fun_eq_iff)
  then show "three_way collate_None" using three_way_lex [of byte_key] by simp
qed

lemma schar_inj: "schar c = schar d \<longleftrightarrow> c = d"
proof
  assume s: "schar c = schar d"
  define m n where "m = code c" and "n = code d"
  have "m < 256" "n < 256" by (simp_all add: m_def n_def)
  then have "m = n" using s unfolding schar_def m_def [symmetric] n_def [symmetric] by (simp split: if_splits)
  then show "c = d" by (simp add: m_def n_def)
qed simp

lemma ascii_key_iequals: "ascii_key lhs = ascii_key rhs \<longleftrightarrow> iequals lhs rhs"
  unfolding ascii_key_def iequals_def list_eq_iff_nth_eq list_all2_conv_all_nth
  by (auto simp: schar_inj)

lemma iless_lex: "iless lhs rhs \<longleftrightarrow> lex_cmp (ascii_key lhs) (ascii_key rhs) = CR_Lt"
proof (induction lhs arbitrary: rhs)
  case Nil
  show ?case by (cases rhs) (simp_all add: ascii_key_def)
next
  case (Cons l lhs)
  show ?case using Cons.IH by (cases rhs) (auto simp: ascii_key_def schar_inj)
qed

text \<open>
  C30. The comparisons of strings are orders: \<open>collateCompare\<close> without and with ASCII collation is a total order up
  to equality of bytes and up to \<open>iequals\<close> respectively, comparing the other way round turns the result around,
  and \<open>iless\<close> is the strict part of the second.
\<close>

theorem collate_orders:
  "collate_None a b \<in> {CR_Lt, CR_Eq, CR_Gt} \<and> (collate_None a b = CR_Eq \<longleftrightarrow> a = b) \<and> collate_None b a = cr_neg (collate_None a b) \<and>
   (bytewise.below a b \<and> bytewise.below b c \<longrightarrow> bytewise.below a c) \<and> (bytewise.below a b \<or> bytewise.below b a) \<and>
   collate_ASCII a b \<in> {CR_Lt, CR_Eq, CR_Gt} \<and> (collate_ASCII a b = CR_Eq \<longleftrightarrow> iequals a b) \<and> collate_ASCII b a = cr_neg (collate_ASCII a b) \<and>
   (ascii.below a b \<and> ascii.below b c \<longrightarrow> ascii.below a c) \<and> (ascii.below a b \<or> ascii.below b a) \<and>
   (iless a b \<longleftrightarrow> collate_ASCII a b = CR_Lt)"
proof (intro conjI)
  have b: "byte_key a = byte_key b \<longleftrightarrow> a = b" by (auto simp: byte_key_def inj_map_eq_map inj_on_def)
  show "collate_None a b = CR_Eq \<longleftrightarrow> a = b" unfolding collate_None_lex by (simp add: b)
  show "collate_ASCII a b = CR_Eq \<longleftrightarrow> iequals a b" unfolding collate_ASCII_lex by (simp add: ascii_key_iequals)
  show "iless a b \<longleftrightarrow> collate_ASCII a b = CR_Lt" unfolding collate_ASCII_lex by (rule iless_lex)
  show "bytewise.below a b \<and> bytewise.below b c \<longrightarrow> bytewise.below a c" using bytewise.below_trans by blast
  show "ascii.below a b \<and> ascii.below b c \<longrightarrow> ascii.below a c" using ascii.below_trans by blast
qed (rule bytewise.exact bytewise.turn bytewise.below_total ascii.exact ascii.turn ascii.below_total)+

theorem collate_orders_witness:
  "ascii.below ''a'' ''B'' \<and> ascii.below ''B'' ''c'' \<and> ascii.below ''a'' ''c'' \<and> bytewise.below ''B'' ''a'' \<and> iless ''a'' ''B''"
proof -
  have i: "ascii.below ''a'' ''B''" "ascii.below ''B'' ''c''" "bytewise.below ''B'' ''a''"
    unfolding ascii.below_def bytewise.below_def by code_simp+
  have "collate_ASCII ''a'' ''B'' = CR_Lt" by code_simp
  then show ?thesis using collate_orders [of "''a''" "''B''" "''c''"] i by blast
qed

subsection \<open>Splitting puts nothing away but delimiters\<close>

text \<open>The tokens with the delimiters that were removed between them.\<close>

fun weave :: "string list \<Rightarrow> string \<Rightarrow> string" where
  "weave (t # ts) (d # ds) = t @ d # weave ts ds"
| "weave ts ds = concat ts"

lemma split_str_unfold:
  assumes "takeWhile (\<lambda>c. c \<notin> set ds) s = tok"
  shows "dropWhile (\<lambda>c. c \<notin> set ds) s = [] \<Longrightarrow> split_str s ds b = (if tok \<noteq> [] \<or> \<not> b then [tok] else [])"
    "dropWhile (\<lambda>c. c \<notin> set ds) s = d # rest \<Longrightarrow>
      split_str s ds b = (if tok \<noteq> [] \<or> \<not> b then tok # split_str rest ds b else split_str rest ds b)"
  using assms by (simp_all add: split_str.simps [of s] Let_def del: dropWhile_eq_Nil_conv)

lemma split_str_weave:
  "\<exists>seps. set seps \<subseteq> set ds \<and> length (split_str s ds False) = length seps + 1 \<and> weave (split_str s ds False) seps = s \<and>
    (\<forall>t \<in> set (split_str s ds False). set t \<inter> set ds = {}) \<and>
    split_str s ds True = filter (\<lambda>t. t \<noteq> []) (split_str s ds False)"
proof (induction s rule: measure_induct_rule [where f = length])
  case (less s)
  define tok where "tok = takeWhile (\<lambda>c. c \<notin> set ds) s"
  have tok: "set tok \<inter> set ds = {}" unfolding tok_def by (auto dest: set_takeWhileD)
  note u = split_str_unfold [OF tok_def [symmetric]]
  have s: "s = tok @ dropWhile (\<lambda>c. c \<notin> set ds) s" by (simp add: tok_def)
  show ?case
  proof (cases "dropWhile (\<lambda>c. c \<notin> set ds) s")
    case Nil
    then have "tok = s" using s by (simp del: dropWhile_eq_Nil_conv)
    then show ?thesis using u(1) [OF Nil] tok by (intro exI [of _ "[]"]) simp
  next
    case (Cons d rest)
    have d: "d \<in> set ds" using Cons hd_dropWhile [of "\<lambda>c. c \<notin> set ds" s] by auto
    from less.IH [OF length_dropWhile_Cons [OF Cons]] obtain seps where i: "set seps \<subseteq> set ds"
      "length (split_str rest ds False) = length seps + 1" "weave (split_str rest ds False) seps = rest"
      "\<forall>t \<in> set (split_str rest ds False). set t \<inter> set ds = {}"
      "split_str rest ds True = filter (\<lambda>t. t \<noteq> []) (split_str rest ds False)" by blast
    have "s = tok @ d # rest" using s Cons by simp
    then show ?thesis using u(2) [OF Cons] i d tok by (intro exI [of _ "d # seps"]) simp
  qed
qed

text \<open>
  C32. Splitting a string keeps every character but the delimiters between the tokens: the tokens, one more than the
  delimiters removed, contain no delimiter, and with those delimiters between them they are the string; trimming
  leaves out exactly the empty tokens.
\<close>

theorem split_partitions:
  "\<exists>seps tokens. split_str str delimiters False = tokens \<and> split_str str delimiters True = filter (\<lambda>t. t \<noteq> []) tokens \<and>
     set seps \<subseteq> set delimiters \<and> length tokens = length seps + 1 \<and> weave tokens seps = str \<and>
     set (concat tokens) \<inter> set delimiters = {}"
proof -
  obtain seps where s: "set seps \<subseteq> set delimiters" "length (split_str str delimiters False) = length seps + 1"
    "weave (split_str str delimiters False) seps = str"
    "\<forall>t \<in> set (split_str str delimiters False). set t \<inter> set delimiters = {}"
    "split_str str delimiters True = filter (\<lambda>t. t \<noteq> []) (split_str str delimiters False)"
    using split_str_weave [of delimiters str] by blast
  have "set (concat (split_str str delimiters False)) \<inter> set delimiters = {}" using s(4) by auto
  then show ?thesis using s(1-3,5) by (intro exI [of _ seps] exI [of _ "split_str str delimiters False"]) simp
qed

subsection \<open>Escaped strings are read back\<close>

lemma escapeString_concat: "escapeString s = concat (map (escape_char False) s)"
proof -
  have "fold (\<lambda>ch result. result @ escape_char b ch) s r = r @ concat (map (escape_char b) s)" for r b
    by (induction s arbitrary: r) simp_all
  then show ?thesis by (simp add: escapeString_def escapeString_to_def)
qed

lemma unescape_plain: "c \<noteq> CHR 0x5C \<Longrightarrow> unescapeString (c # s) = c # unescapeString s"
  by (cases s) simp_all

lemma take_4_append: "length xs = 4 \<Longrightarrow> take 4 (xs @ ys) = xs" "length xs = 4 \<Longrightarrow> drop 4 (xs @ ys) = ys"
  by simp_all

lemma unescape_control:
  assumes "hex_code h 0 = Some n" "length h = 4" "0 < n" "n < 0x80"
  shows "unescapeString (CHR 0x5C # CHR ''u'' # h @ s) = char_of n # unescapeString s"
  using assms by (simp add: utf8_of_code_def)

lemma hex_digit_code:
  assumes "d < 16"
  shows "isHexDigit (hex_lut ! d) \<and> charToInt (hex_lut ! d) = int d"
proof -
  have "list_all (\<lambda>d. isHexDigit (hex_lut ! d) \<and> charToInt (hex_lut ! d) = int d) [0..<16]" by code_simp
  then show ?thesis using assms by (simp add: list_all_iff)
qed

lemma hex_code_u32toax:
  assumes "n < 256"
  shows "hex_code (u32toax n 4) 0 = Some n" "length (u32toax n 4) = 4"
proof -
  have "n div 16 < 16" using assms by auto
  moreover have "u32toax n 4 = [hex_lut ! 0, hex_lut ! 0, hex_lut ! (n div 16), hex_lut ! (n mod 16)]"
    using assms by (simp add: u32toax_def upt_rec)
  ultimately show "hex_code (u32toax n 4) 0 = Some n" "length (u32toax n 4) = 4"
    using hex_digit_code [of 0] hex_digit_code [of "n div 16"] hex_digit_code [of "n mod 16"] by simp_all
qed

lemma unescape_escape_char:
  assumes "c \<noteq> CHR 0x00"
  shows "unescapeString (escape_char False c @ s) = c # unescapeString s"
proof -
  have p: "code c \<noteq> 0"
  proof
    assume "code c = 0"
    then have "code c = code (CHR 0x00)" by simp
    with assms show False by (simp only: of_char_eq_iff)
  qed
  have e: "code c = 8 \<longleftrightarrow> c = CHR 0x08" "code c = 12 \<longleftrightarrow> c = CHR 0x0C" "code c = 10 \<longleftrightarrow> c = CHR 0x0A"
    "code c = 13 \<longleftrightarrow> c = CHR 0x0D" "code c = 9 \<longleftrightarrow> c = CHR 0x09"
    using of_char_eq_iff [where 'a = nat, of c "CHR 0x08"] of_char_eq_iff [where 'a = nat, of c "CHR 0x0C"]
      of_char_eq_iff [where 'a = nat, of c "CHR 0x0A"] of_char_eq_iff [where 'a = nat, of c "CHR 0x0D"]
      of_char_eq_iff [where 'a = nat, of c "CHR 0x09"] by simp_all
  consider "code c = 8" | "code c = 12" | "code c = 10" | "code c = 13" | "code c = 9" | "c = CHR 0x5C" | "c = CHR 0x22"
    | "code c \<notin> {8, 9, 10, 12, 13}" "c \<noteq> CHR 0x5C" "c \<noteq> CHR 0x22" by blast
  then show ?thesis
  proof cases
    case 8
    show ?thesis
    proof (cases "code c < 32")
      case True
      have "escape_char False c = CHR 0x5C # CHR ''u'' # u32toax (code c) 4"
        using 8 True by (simp add: escape_char_def)
      then show ?thesis
        using unescape_control [of "u32toax (code c) 4" "code c" s] hex_code_u32toax [of "code c"] True p by simp
    next
      case False
      then have "escape_char False c = [c]" using 8 by (simp add: escape_char_def)
      then show ?thesis using unescape_plain [OF 8(2)] by simp
    qed
  qed (simp_all only: e, simp_all add: escape_char_def)
qed

text \<open>
  C31. Escaping is undone: \<open>unescapeString\<close> gives back any string that \<open>escapeString\<close> has escaped and that has no
  character 0, whatever bytes it has otherwise.
\<close>

theorem unescape_escape:
  assumes "CHR 0x00 \<notin> set str"
  shows "unescapeString (escapeString str) = str"
  using assms by (induction str) (auto simp: escapeString_concat unescape_escape_char)

theorem unescape_escape_witness:
  "unescapeString (escapeString [CHR 0x22, CHR 0x01, CHR ''a'', CHR 0x5C, CHR 0xD0]) =
     [CHR 0x22, CHR 0x01, CHR ''a'', CHR 0x5C, CHR 0xD0]"
  by (rule unescape_escape) simp

text \<open>The character 0 does not survive: its escape is not read back.\<close>

lemma unescape_escape_NUL: "unescapeString (escapeString [CHR 0x00]) \<noteq> [CHR 0x00]"
  by code_simp

subsection \<open>What is detected\<close>

definition digits :: "string \<Rightarrow> bool" where "digits s = list_all is_digit s"

lemma digits_simps [simp]:
  "digits []" "digits (c # s) \<longleftrightarrow> is_digit c \<and> digits s" "digits (s @ s') \<longleftrightarrow> digits s \<and> digits s'"
  by (simp_all add: digits_def)

definition is_decimal :: "string \<Rightarrow> bool" where
  "is_decimal s \<longleftrightarrow> (\<exists>a b. s = a @ CHR ''.'' # b \<and> digits a \<and> digits b)"

lemma dot_no_digit [simp]: "\<not> is_digit CHR ''.''"
  by (simp add: is_digit_def)

lemma is_decimal_Cons:
  "is_decimal (c # s) \<longleftrightarrow> (c = CHR ''.'' \<and> digits s) \<or> (is_digit c \<and> is_decimal s)"
proof
  assume "is_decimal (c # s)"
  then obtain a b where a: "c # s = a @ CHR ''.'' # b" "digits a" "digits b" by (auto simp: is_decimal_def)
  then show "(c = CHR ''.'' \<and> digits s) \<or> (is_digit c \<and> is_decimal s)"
    by (cases a) (auto simp: is_decimal_def)
next
  assume "(c = CHR ''.'' \<and> digits s) \<or> (is_digit c \<and> is_decimal s)"
  then show "is_decimal (c # s)"
  proof
    assume "c = CHR ''.'' \<and> digits s"
    then show ?thesis unfolding is_decimal_def by (intro exI [of _ "[]"] exI [of _ s]) simp
  next
    assume "is_digit c \<and> is_decimal s"
    then obtain a b where "s = a @ CHR ''.'' # b" "digits a" "digits b" "is_digit c" by (auto simp: is_decimal_def)
    then show ?thesis unfolding is_decimal_def by (intro exI [of _ "c # a"] exI [of _ b]) simp
  qed
qed

lemma is_decimal_Nil [simp]: "\<not> is_decimal []"
  by (simp add: is_decimal_def)

lemma decimal_not_digits: "is_decimal s \<Longrightarrow> \<not> digits s"
  by (auto simp: is_decimal_def)

lemma detect_loop_double: "detect_loop s i True b False = (if digits s then Some (True, b, False) else None)"
  by (induction s arbitrary: i) auto

lemma detect_loop_digit:
  "detect_loop s i False True False =
     (if digits s then Some (False, True, False) else if is_decimal s then Some (True, True, False) else None)"
proof (induction s arbitrary: i)
  case (Cons c s)
  then show ?case using decimal_not_digits [of s] by (auto simp: detect_loop_double is_decimal_Cons)
qed simp

lemma detect_loop_none: "detect_loop s i False False False = Some (False, False, False)"
  by (cases s) simp_all

definition bool_like :: "string \<Rightarrow> nat \<Rightarrow> bool" where
  "bool_like s i \<longleftrightarrow> (\<forall>j < length s. token_at trueToken (i + j) (s ! j) \<or> token_at falseToken (i + j) (s ! j))"

lemma bool_like_Cons:
  "bool_like (c # s) i \<longleftrightarrow> (token_at trueToken i c \<or> token_at falseToken i c) \<and> bool_like s (Suc i)"
  unfolding bool_like_def by (auto simp: less_Suc_eq_0_disj)

lemma detect_loop_bool: "detect_loop s i False False True = Some (False, False, bool_like s i)"
proof (induction s arbitrary: i)
  case (Cons c s)
  then show ?case
    by (cases "token_at trueToken i c \<or> token_at falseToken i c") (auto simp: bool_like_Cons detect_loop_none)
qed (simp add: bool_like_def)

text \<open>An optional sign.\<close>

fun unsigned_part :: "string \<Rightarrow> string" where
  "unsigned_part (c # s) = (if issign c then s else c # s)"
| "unsigned_part [] = []"

text \<open>
  C33. The type detected for a string: a non-empty sequence of digits with an optional sign is an \<open>Int64\<close>, the same
  with one dot after at least one digit a \<open>Double\<close>; a \<open>Bool\<close> is any string of two to five characters
  each of which stands at its place in \<open>true\<close> or in \<open>false\<close>; the empty string is \<open>Undefined\<close>.
\<close>

theorem detected_type:
  "(detectValueType s = KVT_Int64 \<longleftrightarrow> unsigned_part s \<noteq> [] \<and> digits (unsigned_part s)) \<and>
   (detectValueType s = KVT_Double \<longleftrightarrow>
      is_decimal (unsigned_part s) \<and> hd (unsigned_part s) \<noteq> CHR ''.'') \<and>
   (detectValueType s = KVT_Bool \<longleftrightarrow> 2 \<le> length s \<and> bool_like s 0) \<and>
   (detectValueType s = KVT_Undefined \<longleftrightarrow> s = [])"
proof (cases s)
  case Nil
  then show ?thesis by (simp add: detectValueType_def is_decimal_def)
next
  case (Cons c cs)
  have tf: "bool_like s 0 \<longleftrightarrow> (c = CHR ''t'' \<or> c = CHR ''f'') \<and> bool_like cs 1"
    unfolding Cons bool_like_Cons by (auto simp: token_at_def trueToken_def falseToken_def)
  have sd: "issign c \<Longrightarrow> \<not> is_digit c" by (auto simp: issign_def is_digit_def)
  have tfd: "c = CHR ''t'' \<or> c = CHR ''f'' \<Longrightarrow> \<not> is_digit c \<and> \<not> issign c" by (auto simp: issign_def is_digit_def)
  show ?thesis
  proof (cases "is_digit c")
    case True
    then have "\<not> issign c" "\<not> bool_like s 0" using sd tf tfd by auto
    moreover have "c \<noteq> CHR ''.''" using True by auto
    ultimately show ?thesis
      using True decimal_not_digits [of cs]
      by (auto simp: Cons detectValueType_def detect_loop_digit is_decimal_Cons)
  next
    case nd: False
    show ?thesis
    proof (cases cs)
      case Nil
      then show ?thesis using nd by (auto simp: Cons detectValueType_def is_decimal_Cons)
    next
      case cs: (Cons d ds)
      show ?thesis
      proof (cases "issign c")
        case True
        then have b: "\<not> bool_like s 0" using tf tfd by auto
        have c: "c = CHR ''-'' \<or> c = CHR ''+''" using True by (auto simp: issign_def)
        have "detectValueType s = (case detect_loop cs 1 False (d \<noteq> CHR ''.'') False of None \<Rightarrow> KVT_String
            | Some (isDouble, isDigit, isBool) \<Rightarrow> if isDigit then if isDouble then KVT_Double else KVT_Int64
                else if isBool then KVT_Bool else KVT_String)"
          using c nd cs by (simp add: Cons detectValueType_def)
        then show ?thesis
          using b True decimal_not_digits [of ds]
          by (cases "d = CHR ''.''") (auto simp: Cons cs detect_loop_digit detect_loop_none is_decimal_Cons)
      next
        case ns: False
        then have s: "c \<noteq> CHR ''-''" "c \<noteq> CHR ''+''" by (auto simp: issign_def)
        have "detectValueType s = (case detect_loop cs 1 False False (c = CHR ''t'' \<or> c = CHR ''f'') of None \<Rightarrow> KVT_String
            | Some (isDouble, isDigit, isBool) \<Rightarrow> if isDigit then if isDouble then KVT_Double else KVT_Int64
                else if isBool then KVT_Bool else KVT_String)"
          using nd s cs by (simp add: Cons detectValueType_def trueToken_def falseToken_def del: detect_loop.simps)
        also have "\<dots> = (if (c = CHR ''t'' \<or> c = CHR ''f'') \<and> bool_like cs 1 then KVT_Bool else KVT_String)"
          by (cases "c = CHR ''t'' \<or> c = CHR ''f''") (simp_all only: detect_loop_bool detect_loop_none option.case prod.case
              if_True if_False simp_thms)
        finally have "detectValueType s = (if (c = CHR ''t'' \<or> c = CHR ''f'') \<and> bool_like cs 1 then KVT_Bool else KVT_String)" .
        then show ?thesis using nd ns tf cs by (auto simp: Cons is_decimal_Cons)
      qed
    qed
  qed
qed

text \<open>Mixtures of the two words are taken for truth values.\<close>

lemma detect_mixed: "detectValueType ''tr'' = KVT_Bool" "detectValueType ''trle'' = KVT_Bool" "detectValueType ''talse'' = KVT_Bool"
  by code_simp+

subsection \<open>URL decoding\<close>

lemma length_urldecode2: "length (urldecode2 s) \<le> length s"
  by (induction s rule: urldecode2.induct) auto

lemma urldecode2_plain: "set s \<inter> {CHR ''%'', CHR ''+''} = {} \<Longrightarrow> urldecode2 s = s"
  by (induction s rule: urldecode2.induct) auto

text \<open>
  URL decoding never needs more room than the string it decodes, which is the size of the buffer it is given,
  and changes nothing in a string without percent and plus signs.
\<close>

lemma url_decode_bound:
  "length (urldecode2 str) \<le> length str \<and> (urldecode2 str \<noteq> str \<longrightarrow> CHR ''%'' \<in> set str \<or> CHR ''+'' \<in> set str)"
  using length_urldecode2 [of str] urldecode2_plain [of str] by auto

end
