(* ===== verification/PayloadType.thy ===== *)
theory PayloadType
  imports WireLists Strings
begin

section \<open>Payload types\<close>

text \<open>
  \<open>core/payload/payloadfieldtype.h\<close> and \<open>.cc\<close>, \<open>core/payload/payloadtypeimpl.h\<close> and
  \<open>core/payload/payloadtype.cc\<close>: the fields of the payload of a namespace, in the order of their
  numbers, with an index of them by name (in any case) and by JSON path. Offsets are \<open>size_t\<close>; field
  numbers are \<open>int\<close> and here natural numbers. Of an embedder, whose work is a service, only the name
  of its field and of the fields it reads are kept. Operations that may throw after they have changed the
  object return the object together with the outcome.
\<close>

subsection \<open>Fields\<close>

record embedder =
  emb_FieldName :: string
  emb_Fields :: "string list"

record payload_field =
  pf_type :: key_value_type
  pf_name :: string
  pf_jsonPaths :: "string list"
  pf_offset :: u64
  pf_arrayDims :: u16
  pf_isArray :: bool
  pf_upsertEmbedder :: "embedder option"

definition mk_PayloadFieldType :: "key_value_type \<Rightarrow> string \<Rightarrow> string list \<Rightarrow> bool \<Rightarrow> u16 \<Rightarrow> payload_field res" where
  "mk_PayloadFieldType t n j a dims =
     (if t = KVT_FloatVector \<and> dims = 0 then Inl Abort
      else Inr \<lparr>pf_type = t, pf_name = n, pf_jsonPaths = j, pf_offset = 0, pf_arrayDims = dims, pf_isArray = a,
                pf_upsertEmbedder = None\<rparr>)"

fun kvt_ElemSizeof :: "key_value_type \<Rightarrow> u64 res" where
  "kvt_ElemSizeof KVT_Bool = Inr 1"
| "kvt_ElemSizeof KVT_Int = Inr 4"
| "kvt_ElemSizeof KVT_Int64 = Inr 8"
| "kvt_ElemSizeof KVT_Uuid = Inr 16"
| "kvt_ElemSizeof KVT_Double = Inr 8"
| "kvt_ElemSizeof KVT_String = Inr 8"
| "kvt_ElemSizeof KVT_FloatVector = Inr 8"
| "kvt_ElemSizeof _ = Inl Abort"

definition ElemSizeof :: "payload_field \<Rightarrow> u64 res" where
  "ElemSizeof f = kvt_ElemSizeof (pf_type f)"

text \<open>\<open>PayloadFieldValue::Array\<close> is two 32-bit integers.\<close>

definition Sizeof :: "payload_field \<Rightarrow> u64 res" where
  "Sizeof f = (if pf_isArray f then Inr 8 else ElemSizeof f)"

definition pf_IsFloatVector :: "payload_field \<Rightarrow> bool" where
  "pf_IsFloatVector f \<longleftrightarrow> pf_type f = KVT_FloatVector"

definition pf_ToString :: "payload_field \<Rightarrow> string" where
  "pf_ToString f = ''{ type: '' @ KVT_Name (pf_type f) @ '', name: '' @ pf_name f @ '', jsonpaths: ['' @
     (case pf_jsonPaths f of [] \<Rightarrow> '''' | j # js \<Rightarrow> j @ concat (map (\<lambda>p. '', '' @ p) js)) @ ''] }''"

subsection \<open>The state and its lookups\<close>

text \<open>
  The keys of \<open>fieldsByName_\<close> are compared regardless of case, so they are kept in lower case.
\<close>

record payload_type =
  pt_fields :: "payload_field list"
  pt_fieldsByName :: "string \<Rightarrow> nat option"
  pt_fieldsByJsonPath :: "string \<Rightarrow> nat option"
  pt_name :: string
  pt_strFields :: "nat list"

definition name_key :: "string \<Rightarrow> string" where
  "name_key s = map to_lower s"

text \<open>The constructor takes the given fields as they are: it does not enter them into the indexes.\<close>

definition mk_PayloadTypeImpl :: "string \<Rightarrow> payload_field list \<Rightarrow> payload_type" where
  "mk_PayloadTypeImpl name fs =
     \<lparr>pt_fields = fs, pt_fieldsByName = Map.empty, pt_fieldsByJsonPath = Map.empty, pt_name = name, pt_strFields = []\<rparr>"

definition pt_NumFields :: "payload_type \<Rightarrow> nat" where
  "pt_NumFields pt = length (pt_fields pt)"

definition pt_Field :: "payload_type \<Rightarrow> nat \<Rightarrow> payload_field res" where
  "pt_Field pt field = (if field < pt_NumFields pt then Inr (pt_fields pt ! field) else Inl Abort)"

definition pt_SetName :: "payload_type \<Rightarrow> string \<Rightarrow> payload_type" where
  "pt_SetName pt name = pt\<lparr>pt_name := name\<rparr>"

definition pt_FieldByName :: "payload_type \<Rightarrow> string \<Rightarrow> nat res" where
  "pt_FieldByName pt field =
     (case pt_fieldsByName pt (name_key field) of None \<Rightarrow> Inl (Err ErrLogic) | Some i \<Rightarrow> Inr i)"

definition pt_FieldByName_opt :: "payload_type \<Rightarrow> string \<Rightarrow> nat \<Rightarrow> bool \<times> nat" where
  "pt_FieldByName_opt pt name field =
     (case pt_fieldsByName pt (name_key name) of None \<Rightarrow> (False, field) | Some i \<Rightarrow> (True, i))"

definition pt_Contains :: "payload_type \<Rightarrow> string \<Rightarrow> bool" where
  "pt_Contains pt field \<longleftrightarrow> pt_fieldsByName pt (name_key field) \<noteq> None"

definition pt_FieldByJsonPath :: "payload_type \<Rightarrow> string \<Rightarrow> int" where
  "pt_FieldByJsonPath pt jsonPath =
     (case pt_fieldsByJsonPath pt jsonPath of None \<Rightarrow> -1 | Some i \<Rightarrow> int i)"

definition pt_TotalSize :: "payload_type \<Rightarrow> u64 res" where
  "pt_TotalSize pt =
     (if pt_fields pt \<noteq> []
      then bind_res (Sizeof (last (pt_fields pt))) (\<lambda>sz. Inr (pf_offset (last (pt_fields pt)) + sz))
      else Inr 0)"

definition pt_ToString :: "payload_type \<Rightarrow> string" where
  "pt_ToString pt = concat (map (\<lambda>f.
     KVT_Name (pf_type f) @ (if pf_isArray f then ''[]'' else '''') @ '' '' @ [CHR 0x27] @ pf_name f @ [CHR 0x27] @
     '' json:'' @ [CHR 0x22] @ concat (map (\<lambda>jp. jp @ '';'') (pf_jsonPaths f)) @ [CHR 0x22, CHR 0x0A]) (pt_fields pt))"

definition CheckEmbeddersAuxiliaryField :: "payload_type \<Rightarrow> string \<Rightarrow> string" where
  "CheckEmbeddersAuxiliaryField pt fieldName =
     (case find (\<lambda>f. case pf_upsertEmbedder f of None \<Rightarrow> False | Some e \<Rightarrow> fieldName \<in> set (emb_Fields e)) (pt_fields pt) of
        None \<Rightarrow> ''''
      | Some f \<Rightarrow> (case pf_upsertEmbedder f of None \<Rightarrow> '''' | Some e \<Rightarrow> emb_FieldName e))"

subsection \<open>Adding a field\<close>

text \<open>
  The two checks. \<open>checkNewJsonPathBeforeAdd\<close> refuses a nested path when a path of the payload is a
  proper prefix of it, up to a dot. A subscript at the end of the string reads the terminator.
\<close>

definition pt_checkNewNameBeforeAdd :: "payload_type \<Rightarrow> payload_field \<Rightarrow> unit res" where
  "pt_checkNewNameBeforeAdd pt f =
     (case pt_fieldsByName pt (name_key (pf_name f)) of None \<Rightarrow> Inr () | Some i \<Rightarrow> Inl (Err ErrLogic))"

definition str_find :: "char \<Rightarrow> string \<Rightarrow> nat option" where
  "str_find c s = (let n = length (takeWhile (\<lambda>x. x \<noteq> c) s) in if n < length s then Some n else None)"

definition path_overwrites :: "string \<Rightarrow> string \<Rightarrow> bool" where
  "path_overwrites jsonPath jpfld \<longleftrightarrow>
     take (length jpfld) jsonPath = jpfld \<and> length jpfld < length jsonPath \<and> jsonPath ! length jpfld = CHR ''.''"

definition pt_checkNewJsonPathBeforeAdd :: "payload_type \<Rightarrow> string \<Rightarrow> unit res" where
  "pt_checkNewJsonPathBeforeAdd pt jsonPath =
     (case str_find CHR ''.'' jsonPath of
        None \<Rightarrow> Inr ()
      | Some pos \<Rightarrow>
          if pos < length jsonPath - 1 \<and>
             list_ex (\<lambda>fld. list_ex (path_overwrites jsonPath) (pf_jsonPaths fld)) (pt_fields pt)
          then Inl (Err ErrLogic) else Inr ())"

text \<open>The loop over the JSON paths enters each path before it checks it.\<close>

fun pt_add_paths :: "payload_type \<Rightarrow> nat \<Rightarrow> string list \<Rightarrow> payload_type \<times> unit res" where
  "pt_add_paths pt fieldNo [] = (pt, Inr ())"
| "pt_add_paths pt fieldNo (jp # jps) =
     (if jp = [] then pt_add_paths pt fieldNo jps
      else
        let old = pt_fieldsByJsonPath pt jp;
            pt = (if old = None then pt\<lparr>pt_fieldsByJsonPath := (pt_fieldsByJsonPath pt)(jp \<mapsto> fieldNo)\<rparr> else pt)
        in if old \<noteq> None \<and> old \<noteq> Some fieldNo
           then (pt, bind_res (pt_Field pt (the old)) (\<lambda>_. Inl (Err ErrLogic)))
           else case pt_checkNewJsonPathBeforeAdd pt jp of
                  Inl e \<Rightarrow> (pt, Inl e)
                | Inr _ \<Rightarrow> pt_add_paths pt fieldNo jps)"

definition pt_Add :: "payload_type \<Rightarrow> payload_field \<Rightarrow> payload_type \<times> unit res" where
  "pt_Add pt f =
     (case pt_checkNewNameBeforeAdd pt f of
        Inl e \<Rightarrow> (pt, Inl e)
      | Inr _ \<Rightarrow>
          case pt_TotalSize pt of
            Inl e \<Rightarrow> (pt, Inl e)
          | Inr sz \<Rightarrow>
              let f = f\<lparr>pf_offset := sz\<rparr>; fieldNo = length (pt_fields pt)
              in case pt_add_paths pt fieldNo (pf_jsonPaths f) of
                   (pt, Inl e) \<Rightarrow> (pt, Inl e)
                 | (pt, Inr _) \<Rightarrow>
                     let m = pt_fieldsByName pt; k = name_key (pf_name f)
                     in (pt\<lparr>pt_fieldsByName := (if m k = None then m(k \<mapsto> fieldNo) else m),
                            pt_strFields := (if pf_type f = KVT_String then pt_strFields pt @ [fieldNo] else pt_strFields pt),
                            pt_fields := pt_fields pt @ [f]\<rparr>, Inr ()))"

subsection \<open>Dropping and replacing a field\<close>

text \<open>The offsets from field \<open>idx\<close> on, given the field before it.\<close>

fun set_offsets :: "payload_field option \<Rightarrow> payload_field list \<Rightarrow> payload_field list res" where
  "set_offsets prev [] = Inr []"
| "set_offsets prev (f # fs) =
     bind_res (case prev of None \<Rightarrow> Inr 0 | Some p \<Rightarrow> bind_res (Sizeof p) (\<lambda>sz. Inr (pf_offset p + sz))) (\<lambda>off.
     let f = f\<lparr>pf_offset := off\<rparr>
     in bind_res (set_offsets (Some f) fs) (\<lambda>fs. Inr (f # fs)))"

definition pt_Drop :: "payload_type \<Rightarrow> string \<Rightarrow> payload_type res" where
  "pt_Drop pt name =
     (case pt_fieldsByName pt (name_key name) of
        None \<Rightarrow> Inr pt
      | Some fieldIdx \<Rightarrow>
          if \<not> fieldIdx < length (pt_fields pt) then Inl UB
          else
            let dec = (\<lambda>i. if i > fieldIdx then i - 1 else i);
                payloadField = pt_fields pt ! fieldIdx;
                kept = filter (\<lambda>i. \<not> (i = fieldIdx \<and> pf_type payloadField = KVT_String)) (pt_strFields pt);
                before = take fieldIdx (pt_fields pt)
            in bind_res (set_offsets (if before = [] then None else Some (last before)) (drop (Suc fieldIdx) (pt_fields pt))) (\<lambda>after.
               Inr (pt\<lparr>pt_fieldsByName := ((map_option dec \<circ> pt_fieldsByName pt)(name_key name := None)),
                       pt_fieldsByJsonPath := (\<lambda>jp. if jp \<in> set (pf_jsonPaths payloadField) then None
                                                    else map_option dec (pt_fieldsByJsonPath pt jp)),
                       pt_strFields := map dec kept,
                       pt_fields := before @ after\<rparr>)))"

definition pt_checkEmbedderFields :: "payload_type \<Rightarrow> payload_field \<Rightarrow> unit res" where
  "pt_checkEmbedderFields pt f =
     (case pf_upsertEmbedder f of
        None \<Rightarrow> Inr ()
      | Some e \<Rightarrow>
          if list_all (\<lambda>field. pt_fieldsByName pt (name_key field) \<noteq> None) (emb_Fields e) then Inr ()
          else Inl (Err ErrLogic))"

definition pt_Replace :: "payload_type \<Rightarrow> nat \<Rightarrow> payload_field \<Rightarrow> payload_type res" where
  "pt_Replace pt field f =
     bind_res (guard_res (field < length (pt_fields pt)) (Err ErrAssert)) (\<lambda>_.
     let fld = pt_fields pt ! field
     in bind_res (guard_res (pf_name fld = pf_name f \<and> pf_type fld = pf_type f \<and> pf_jsonPaths fld = pf_jsonPaths f \<and>
            pf_offset fld = pf_offset f) (Err ErrAssert)) (\<lambda>_.
        bind_res (Sizeof fld) (\<lambda>s. bind_res (Sizeof f) (\<lambda>s'. bind_res (guard_res (s = s') (Err ErrAssert)) (\<lambda>_.
        bind_res (ElemSizeof fld) (\<lambda>s. bind_res (ElemSizeof f) (\<lambda>s'.
        bind_res (guard_res (s = s' \<and> pf_isArray fld = pf_isArray f \<and> pf_IsFloatVector f) (Err ErrAssert)) (\<lambda>_.
        bind_res (pt_checkEmbedderFields pt f) (\<lambda>_.
        Inr (pt\<lparr>pt_fields := (pt_fields pt)[field := f]\<rparr>))))))))))"

subsection \<open>The wire format\<close>

text \<open>\<open>FloatVectorDimension\<close> of a 64-bit value.\<close>

definition FloatVectorDimension_of64 :: "u64 \<Rightarrow> u16 res" where
  "FloatVectorDimension_of64 v = (if v > 65535 then Inl (Err ErrLogic) else Inr (ucast v))"

definition put_field :: "wr_serializer \<Rightarrow> payload_field \<Rightarrow> wr_serializer res" where
  "put_field w field =
     bind_res (PutKeyValueType w (pf_type field)) (\<lambda>w.
     bind_res (if pf_type field = KVT_FloatVector then PutVarUint32 w (ucast (pf_arrayDims field)) else Inr w) (\<lambda>w.
     bind_res (put_string w (pf_name field)) (\<lambda>w.
     bind_res (PutVarUint64 w (pf_offset field)) (\<lambda>w.
     bind_res (ElemSizeof field) (\<lambda>sz. bind_res (PutVarUint64 w sz) (\<lambda>w.
     bind_res (PutVarUint32 w (if pf_isArray field then 1 else 0)) (\<lambda>w.
     bind_res (PutVarUint64 w (word_of_nat (length (pf_jsonPaths field)))) (\<lambda>w.
     put_list put_string w (pf_jsonPaths field)))))))))"

text \<open>\<open>hdrOffset\<close> is the offset of a member in \<open>key_string_impl\<close>, fixed by the compiler.\<close>

definition pt_serialize :: "u64 \<Rightarrow> wr_serializer \<Rightarrow> payload_type \<Rightarrow> wr_serializer res" where
  "pt_serialize hdrOffset w pt =
     bind_res (PutVarUint64 w hdrOffset) (\<lambda>w.
     bind_res (PutVarUint32 w (word_of_nat (pt_NumFields pt))) (\<lambda>w.
     put_list put_field w (pt_fields pt)))"

definition get_field :: "serializer \<Rightarrow> (payload_field \<times> serializer) res" where
  "get_field s =
     bind_res (GetKeyValueType s) (\<lambda>(t, s).
     bind_res (if t = KVT_FloatVector
               then bind_res (GetVarUInt s) (\<lambda>(v, s). bind_res (FloatVectorDimension_of64 v) (\<lambda>d. Inr (d, s)))
               else Inr (0, s)) (\<lambda>(dim, s).
     bind_res (get_string s) (\<lambda>(name, s).
     bind_res (GetVarUInt s) (\<lambda>(offset, s).
     bind_res (GetVarUInt s) (\<lambda>(elemSizeof, s).
     bind_res (GetVarUInt s) (\<lambda>(isArray, s).
     bind_res (GetVarUInt s) (\<lambda>(jsonPathsCount, s).
     bind_res (get_list get_string (unat jsonPathsCount) s) (\<lambda>(jsonPaths, s).
     bind_res (mk_PayloadFieldType t name jsonPaths (isArray \<noteq> 0) dim) (\<lambda>ft.
     Inr (ft\<lparr>pf_offset := offset\<rparr>, s))))))))))"

text \<open>A field that was read is entered into the indexes; an entry that is there stays.\<close>

definition map_emplace :: "('k \<Rightarrow> 'v option) \<Rightarrow> 'k \<Rightarrow> 'v \<Rightarrow> 'k \<Rightarrow> 'v option" where
  "map_emplace m k v = (if m k = None then m(k \<mapsto> v) else m)"

definition pt_enter :: "payload_type \<Rightarrow> payload_field \<Rightarrow> payload_type" where
  "pt_enter pt ft =
     (let n = length (pt_fields pt)
      in pt\<lparr>pt_fieldsByName := map_emplace (pt_fieldsByName pt) (name_key (pf_name ft)) n,
            pt_strFields := (if pf_type ft = KVT_String then pt_strFields pt @ [n] else pt_strFields pt),
            pt_fieldsByJsonPath := fold (\<lambda>jp m. map_emplace m jp n) (pf_jsonPaths ft) (pt_fieldsByJsonPath pt),
            pt_fields := pt_fields pt @ [ft]\<rparr>)"

fun pt_read_fields :: "nat \<Rightarrow> payload_type \<Rightarrow> serializer \<Rightarrow> payload_type \<times> serializer res" where
  "pt_read_fields 0 pt s = (pt, Inr s)"
| "pt_read_fields (Suc n) pt s =
     (case get_field s of Inl e \<Rightarrow> (pt, Inl e) | Inr (ft, s) \<Rightarrow> pt_read_fields n (pt_enter pt ft) s)"

definition pt_deserialize :: "payload_type \<Rightarrow> serializer \<Rightarrow> payload_type \<times> serializer res" where
  "pt_deserialize pt s =
     (let pt = pt\<lparr>pt_fields := [], pt_fieldsByName := Map.empty, pt_fieldsByJsonPath := Map.empty, pt_strFields := []\<rparr>
      in case bind_res (GetVarUInt s) (\<lambda>(exportHdrOffset, s). GetVarUInt s) of
           Inl e \<Rightarrow> (pt, Inl e)
         | Inr (count, s) \<Rightarrow> pt_read_fields (unat count) pt s)"

subsection \<open>The indexes and the fields agree\<close>

text \<open>
  \<open>k\<close> is the number of fields given to the constructor, which are in no index. The fields from \<open>k\<close> on are
  found by name and by each of their JSON paths, the string fields are listed in order, and each field
  starts where the one before it ends.
\<close>

definition sized :: "payload_field \<Rightarrow> bool" where
  "sized f \<longleftrightarrow> pf_isArray f \<or> pf_type f \<in> {KVT_Bool, KVT_Int, KVT_Int64, KVT_Uuid, KVT_Double, KVT_String, KVT_FloatVector}"

definition size_of :: "payload_field \<Rightarrow> u64" where
  "size_of f = (case Sizeof f of Inl _ \<Rightarrow> 0 | Inr sz \<Rightarrow> sz)"

lemma Sizeof_sized: "sized f \<Longrightarrow> Sizeof f = Inr (size_of f)"
  by (cases "pf_type f") (simp_all add: sized_def size_of_def Sizeof_def ElemSizeof_def)

lemma size_of_offset [simp]: "size_of (f\<lparr>pf_offset := x\<rparr>) = size_of f" "sized (f\<lparr>pf_offset := x\<rparr>) = sized f"
  by (simp_all add: size_of_def Sizeof_def ElemSizeof_def sized_def)

definition names_ok :: "nat \<Rightarrow> payload_field list \<Rightarrow> (string \<Rightarrow> nat option) \<Rightarrow> bool" where
  "names_ok k fs m \<longleftrightarrow> (\<forall>key i. m key = Some i \<longleftrightarrow> k \<le> i \<and> i < length fs \<and> key = name_key (pf_name (fs ! i)))"

definition paths_ok :: "nat \<Rightarrow> payload_field list \<Rightarrow> (string \<Rightarrow> nat option) \<Rightarrow> bool" where
  "paths_ok k fs m \<longleftrightarrow> (\<forall>jp i. m jp = Some i \<longleftrightarrow> k \<le> i \<and> i < length fs \<and> jp \<noteq> [] \<and> jp \<in> set (pf_jsonPaths (fs ! i)))"

definition strs_ok :: "nat \<Rightarrow> payload_field list \<Rightarrow> nat list \<Rightarrow> bool" where
  "strs_ok k fs is \<longleftrightarrow> is = filter (\<lambda>i. pf_type (fs ! i) = KVT_String) [k..<length fs]"

definition offsets_ok :: "nat \<Rightarrow> payload_field list \<Rightarrow> bool" where
  "offsets_ok k fs \<longleftrightarrow> (\<forall>i. k \<le> i \<and> i < length fs \<longrightarrow>
     pf_offset (fs ! i) = (if i = 0 then 0 else pf_offset (fs ! (i - 1)) + size_of (fs ! (i - 1))))"

definition pt_wf :: "nat \<Rightarrow> payload_type \<Rightarrow> bool" where
  "pt_wf k pt \<longleftrightarrow> k \<le> length (pt_fields pt) \<and> list_all sized (pt_fields pt) \<and>
     names_ok k (pt_fields pt) (pt_fieldsByName pt) \<and> paths_ok k (pt_fields pt) (pt_fieldsByJsonPath pt) \<and>
     strs_ok k (pt_fields pt) (pt_strFields pt) \<and> offsets_ok k (pt_fields pt)"

lemma pt_wf_mk: "list_all sized fs \<Longrightarrow> pt_wf (length fs) (mk_PayloadTypeImpl name fs)"
  by (auto simp: pt_wf_def mk_PayloadTypeImpl_def names_ok_def paths_ok_def strs_ok_def offsets_ok_def)

text \<open>Adding at the end.\<close>

lemma names_ok_append:
  assumes "names_ok k fs m" "k \<le> length fs" "m (name_key (pf_name f)) = None"
  shows "names_ok k (fs @ [f]) (m(name_key (pf_name f) \<mapsto> length fs))"
  using assms by (auto simp: names_ok_def nth_append less_Suc_eq) (metis option.distinct(1))+

lemma paths_ok_append:
  assumes "paths_ok k fs m" "k \<le> length fs" "\<And>jp. jp \<in> set (pf_jsonPaths f) \<Longrightarrow> m jp = None"
  shows "paths_ok k (fs @ [f]) (\<lambda>jp. if jp \<noteq> [] \<and> jp \<in> set (pf_jsonPaths f) then Some (length fs) else m jp)"
  using assms by (auto simp: paths_ok_def nth_append less_Suc_eq) (metis option.distinct(1))+

lemma strs_ok_append:
  "strs_ok k fs is \<Longrightarrow> k \<le> length fs \<Longrightarrow>
   strs_ok k (fs @ [f]) (if pf_type f = KVT_String then is @ [length fs] else is)"
  by (auto simp: strs_ok_def nth_append intro!: filter_cong)

lemma offsets_ok_append:
  "offsets_ok k fs \<Longrightarrow> pf_offset f = (if fs = [] then 0 else pf_offset (last fs) + size_of (last fs)) \<Longrightarrow> offsets_ok k (fs @ [f])"
  by (auto simp: offsets_ok_def nth_append less_Suc_eq last_conv_nth)

lemma pt_TotalSize_wf:
  "list_all sized (pt_fields pt) \<Longrightarrow>
   pt_TotalSize pt = Inr (if pt_fields pt = [] then 0 else pf_offset (last (pt_fields pt)) + size_of (last (pt_fields pt)))"
  by (auto simp: pt_TotalSize_def list_all_iff Sizeof_sized)

text \<open>The paths of a new field, one after the other.\<close>

definition path_free :: "payload_type \<Rightarrow> string \<Rightarrow> bool" where
  "path_free pt jp \<longleftrightarrow> jp = [] \<or> pt_fieldsByJsonPath pt jp = None \<and> pt_checkNewJsonPathBeforeAdd pt jp = Inr ()"

lemma checkNew_fields: "pt_fields pt' = pt_fields pt \<Longrightarrow> pt_checkNewJsonPathBeforeAdd pt' jp = pt_checkNewJsonPathBeforeAdd pt jp"
  by (simp add: pt_checkNewJsonPathBeforeAdd_def split: option.split)

definition entered :: "payload_type \<Rightarrow> nat \<Rightarrow> string list \<Rightarrow> payload_type" where
  "entered pt n jps = pt\<lparr>pt_fieldsByJsonPath :=
     (\<lambda>jp. if jp \<noteq> [] \<and> jp \<in> set jps then Some n else pt_fieldsByJsonPath pt jp)\<rparr>"

lemma entered_Nil [simp]: "entered pt n [] = pt"
  by (simp add: entered_def)

lemma entered_simps [simp]: "pt_fields (entered pt n jps) = pt_fields pt"
  "pt_fieldsByJsonPath (entered pt n jps) jp = (if jp \<noteq> [] \<and> jp \<in> set jps then Some n else pt_fieldsByJsonPath pt jp)"
  by (simp_all add: entered_def)

lemma entered_skip: "jp = [] \<or> jp \<in> set ds \<Longrightarrow> entered pt n (ds @ jp # jps) = entered pt n (ds @ jps)"
  unfolding entered_def by (rule arg_cong [where f = "\<lambda>m. pt\<lparr>pt_fieldsByJsonPath := m\<rparr>"]) auto

lemma entered_more: "jp \<noteq> [] \<Longrightarrow>
    (entered pt n ds)\<lparr>pt_fieldsByJsonPath := (pt_fieldsByJsonPath (entered pt n ds))(jp \<mapsto> n)\<rparr> = entered pt n (ds @ [jp])"
  by (auto simp: entered_def fun_eq_iff)

lemma pt_add_paths_cases:
  assumes n: "\<And>jp. pt_fieldsByJsonPath pt0 jp \<noteq> Some n"
  shows "list_all (path_free pt0) ds \<Longrightarrow> pt_add_paths (entered pt0 n ds) n jps = (pt', r) \<Longrightarrow>
    (r = Inr () \<longleftrightarrow> list_all (path_free pt0) jps) \<and> (r = Inr () \<longrightarrow> pt' = entered pt0 n (ds @ jps))"
proof (induction jps arbitrary: ds)
  case (Cons jp jps)
  have chk: "pt_checkNewJsonPathBeforeAdd (entered pt0 n es) p = pt_checkNewJsonPathBeforeAdd pt0 p" for es p
    by (rule checkNew_fields) simp
  consider (skip) "jp = [] \<or> jp \<in> set ds" | (new) "jp \<noteq> []" "jp \<notin> set ds" by blast
  then show ?case
  proof cases
    case skip
    then have free: "path_free pt0 jp" using Cons.prems(1) by (auto simp: path_free_def list_all_iff)
    have "pt_add_paths (entered pt0 n ds) n jps = (pt', r)"
      using Cons.prems(2) skip free by (auto simp: Let_def chk path_free_def split: if_splits)
    from Cons.IH [OF Cons.prems(1) this] show ?thesis using free by (simp add: entered_skip [OF skip])
  next
    case new
    show ?thesis
    proof (cases "path_free pt0 jp")
      case True
      then have "pt_fieldsByJsonPath (entered pt0 n ds) jp = None" "pt_checkNewJsonPathBeforeAdd pt0 jp = Inr ()"
        using new by (simp_all add: path_free_def)
      then have "pt_add_paths (entered pt0 n (ds @ [jp])) n jps = (pt', r)"
        using Cons.prems(2) new by (simp add: Let_def chk entered_more del: entered_simps(2))
      from Cons.IH [OF _ this] show ?thesis using True Cons.prems(1) by simp
    next
      case False
      then have "r \<noteq> Inr ()"
        using Cons.prems(2) new n [of jp]
        by (auto simp: Let_def path_free_def pt_Field_def chk checkNew_fields [of "_\<lparr>pt_fieldsByJsonPath := _\<rparr>" "entered pt0 n ds"] split: if_splits sum.splits)
      then show ?thesis using False by simp
    qed
  qed
qed simp

lemma pt_Add_cases:
  assumes wf: "pt_wf k pt" and add: "pt_Add pt f = (pt', r)"
  shows "(r = Inr () \<longleftrightarrow> \<not> pt_Contains pt (pf_name f) \<and> list_all (path_free pt) (pf_jsonPaths f)) \<and>
    (r = Inr () \<longrightarrow> pt_fields pt' = pt_fields pt @ [f\<lparr>pf_offset :=
        (if pt_fields pt = [] then 0 else pf_offset (last (pt_fields pt)) + size_of (last (pt_fields pt)))\<rparr>]) \<and>
    (r = Inr () \<longrightarrow> sized f \<longrightarrow> pt_wf k pt')"
proof (cases "pt_Contains pt (pf_name f)")
  case True
  then show ?thesis using add by (auto simp: pt_Add_def pt_checkNewNameBeforeAdd_def pt_Contains_def)
next
  case False
  then have name: "pt_fieldsByName pt (name_key (pf_name f)) = None" by (simp add: pt_Contains_def)
  let ?n = "length (pt_fields pt)"
  let ?off = "if pt_fields pt = [] then 0 else pf_offset (last (pt_fields pt)) + size_of (last (pt_fields pt))"
  have w: "k \<le> ?n" "list_all sized (pt_fields pt)" "names_ok k (pt_fields pt) (pt_fieldsByName pt)"
    "paths_ok k (pt_fields pt) (pt_fieldsByJsonPath pt)" "strs_ok k (pt_fields pt) (pt_strFields pt)" "offsets_ok k (pt_fields pt)"
    using wf by (simp_all add: pt_wf_def)
  have fresh: "pt_fieldsByJsonPath pt jp \<noteq> Some ?n" for jp using w(4) by (simp add: paths_ok_def)
  obtain p r' where p: "pt_add_paths pt ?n (pf_jsonPaths f) = (p, r')" by (cases "pt_add_paths pt ?n (pf_jsonPaths f)")
  note c = pt_add_paths_cases [OF fresh, where ds = "[]", simplified, OF p]
  have tot: "pt_TotalSize pt = Inr ?off" by (rule pt_TotalSize_wf [OF w(2)])
  show ?thesis
  proof (cases "r' = Inr ()")
    case False
    then show ?thesis using add p c tot name
      by (auto simp: pt_Add_def pt_checkNewNameBeforeAdd_def Let_def split: sum.splits)
  next
    case True
    have none: "jp = [] \<or> pt_fieldsByJsonPath pt jp = None" if "jp \<in> set (pf_jsonPaths f)" for jp
      using c True that by (auto simp: list_all_iff path_free_def)
    have p': "p = entered pt ?n (pf_jsonPaths f)" using c True by simp
    have pt': "r = Inr ()" "pt' = p\<lparr>pt_fieldsByName := (pt_fieldsByName pt)(name_key (pf_name f) \<mapsto> ?n),
        pt_strFields := (if pf_type f = KVT_String then pt_strFields pt @ [?n] else pt_strFields pt),
        pt_fields := pt_fields pt @ [f\<lparr>pf_offset := ?off\<rparr>]\<rparr>"
      using add p True tot name by (auto simp: pt_Add_def pt_checkNewNameBeforeAdd_def Let_def p' entered_def)
    have "pt_wf k pt'" if "sized f"
    proof -
      let ?f = "f\<lparr>pf_offset := ?off\<rparr>"
      have none0: "pt_fieldsByJsonPath pt [] = None"
        using w(4) by (cases "pt_fieldsByJsonPath pt []") (auto simp: paths_ok_def)
      have "names_ok k (pt_fields pt @ [?f]) ((pt_fieldsByName pt)(name_key (pf_name ?f) \<mapsto> ?n))"
        by (rule names_ok_append [OF w(3,1)]) (simp add: name)
      moreover have "paths_ok k (pt_fields pt @ [?f]) (\<lambda>jp. if jp \<noteq> [] \<and> jp \<in> set (pf_jsonPaths ?f) then Some ?n else pt_fieldsByJsonPath pt jp)"
        by (rule paths_ok_append [OF w(4,1)]) (use none none0 in auto)
      moreover have "strs_ok k (pt_fields pt @ [?f]) (if pf_type ?f = KVT_String then pt_strFields pt @ [?n] else pt_strFields pt)"
        by (rule strs_ok_append [OF w(5,1)])
      moreover have "offsets_ok k (pt_fields pt @ [?f])"
        by (rule offsets_ok_append [OF w(6)]) simp
      ultimately show ?thesis using w(1,2) that unfolding pt'(2) p' entered_def pt_wf_def by simp
    qed
    then show ?thesis using False pt' c True by simp
  qed
qed

subsection \<open>Dropping\<close>

lemma set_offsets_ok:
  "list_all sized fs \<Longrightarrow> (case prev of None \<Rightarrow> True | Some p \<Rightarrow> sized p) \<Longrightarrow>
   \<exists>fs'. set_offsets prev fs = Inr fs' \<and> length fs' = length fs \<and> list_all sized fs' \<and>
     (\<forall>j < length fs. \<exists>o'. fs' ! j = (fs ! j)\<lparr>pf_offset := o'\<rparr>) \<and>
     (\<forall>j < length fs. pf_offset (fs' ! j) =
        (if j = 0 then case prev of None \<Rightarrow> 0 | Some p \<Rightarrow> pf_offset p + size_of p
         else pf_offset (fs' ! (j - 1)) + size_of (fs' ! (j - 1))))"
proof (induction fs arbitrary: prev)
  case (Cons f fs)
  let ?off = "case prev of None \<Rightarrow> 0 | Some p \<Rightarrow> pf_offset p + size_of p"
  let ?f = "f\<lparr>pf_offset := ?off\<rparr>"
  have off: "(case prev of None \<Rightarrow> Inr 0 | Some p \<Rightarrow> bind_res (Sizeof p) (\<lambda>sz. Inr (pf_offset p + sz))) = Inr ?off"
    using Cons.prems(2) by (cases prev) (simp_all add: Sizeof_sized)
  obtain fs' where fs': "set_offsets (Some ?f) fs = Inr fs'" "length fs' = length fs" "list_all sized fs'"
    "\<forall>j < length fs. \<exists>o'. fs' ! j = (fs ! j)\<lparr>pf_offset := o'\<rparr>"
    "\<forall>j < length fs. pf_offset (fs' ! j) = (if j = 0 then pf_offset ?f + size_of ?f else pf_offset (fs' ! (j - 1)) + size_of (fs' ! (j - 1)))"
    using Cons.IH [of "Some ?f"] Cons.prems(1) by auto
  have "set_offsets prev (f # fs) = Inr (?f # fs')" using off fs'(1) by (simp add: Let_def)
  moreover have "\<forall>j < length (f # fs). \<exists>o'. (?f # fs') ! j = ((f # fs) ! j)\<lparr>pf_offset := o'\<rparr>"
    using fs'(4) by (auto simp: nth_Cons' )
  moreover have "\<forall>j < length (f # fs). pf_offset ((?f # fs') ! j) =
      (if j = 0 then ?off else pf_offset ((?f # fs') ! (j - 1)) + size_of ((?f # fs') ! (j - 1)))"
    using fs'(5) by (auto simp: nth_Cons' )
  ultimately show ?case using fs'(2,3) Cons.prems(1) by (intro exI [of _ "?f # fs'"]) simp
qed simp

text \<open>The number of a field after the drop of field \<open>i\<close>, and back.\<close>

definition dec_from :: "nat \<Rightarrow> nat \<Rightarrow> nat" where
  "dec_from i j = (if j > i then j - 1 else j)"

definition skip_at :: "nat \<Rightarrow> nat \<Rightarrow> nat" where
  "skip_at i j = (if j < i then j else Suc j)"

lemma dec_skip: "j \<noteq> i \<Longrightarrow> dec_from i j = l \<longleftrightarrow> j = skip_at i l"
  by (auto simp: dec_from_def skip_at_def)

lemma skip_ne [simp]: "skip_at i l \<noteq> i"
  by (simp add: skip_at_def)

lemma dropped_map:
  assumes m: "\<And>x j. m x = Some j \<longleftrightarrow> k \<le> j \<and> j < n \<and> P x j" and i: "k \<le> i" "i < n"
    and gone: "\<And>x. gone x \<Longrightarrow> m x = None \<or> m x = Some i" "\<And>x. m x = Some i \<Longrightarrow> gone x"
  shows "(if gone x then None else map_option (dec_from i) (m x)) = Some l \<longleftrightarrow>
    k \<le> l \<and> l < n - 1 \<and> P x (skip_at i l)"
proof
  assume "(if gone x then None else map_option (dec_from i) (m x)) = Some l"
  then obtain j where j: "m x = Some j" "\<not> gone x" "dec_from i j = l" by (auto split: if_splits)
  then have "j \<noteq> i" using gone(2) by auto
  then have "j = skip_at i l" using j(3) dec_skip by simp
  then show "k \<le> l \<and> l < n - 1 \<and> P x (skip_at i l)"
    using j(1) m i by (auto simp: skip_at_def split: if_splits)
next
  assume r: "k \<le> l \<and> l < n - 1 \<and> P x (skip_at i l)"
  then have j: "m x = Some (skip_at i l)" using m i by (auto simp: skip_at_def)
  then have "\<not> gone x" using gone(1) [of x] by auto
  then show "(if gone x then None else map_option (dec_from i) (m x)) = Some l"
    using j dec_skip [of "skip_at i l" i l] by simp
qed

lemma filter_upt_skip:
  "k \<le> i \<Longrightarrow> i < n \<Longrightarrow> map (dec_from i) (filter (\<lambda>j. P j \<and> j \<noteq> i) [k..<n]) = filter (\<lambda>l. P (skip_at i l)) [k..<n - 1]"
proof -
  assume i: "k \<le> i" "i < n"
  have cut: "[k..<m] = [k..<i] @ [i..<m]" if "i \<le> m" for m
    using upt_add_eq_append [OF i(1), of "m - i"] that by simp
  have s: "[k..<n] = [k..<i] @ i # [Suc i..<n]" "[k..<n - 1] = [k..<i] @ [i..<n - 1]"
    using cut [of n] cut [of "n - 1"] i by (simp_all add: upt_conv_Cons)
  have a: "map (dec_from i) (filter (\<lambda>j. P j \<and> j \<noteq> i) [k..<i]) = filter (\<lambda>l. P (skip_at i l)) [k..<i]"
  proof -
    have "filter (\<lambda>j. P j \<and> j \<noteq> i) [k..<i] = filter (\<lambda>l. P (skip_at i l)) [k..<i]"
      by (rule filter_cong) (auto simp: skip_at_def)
    then show ?thesis by (simp only:) (rule map_idI, auto simp: dec_from_def)
  qed
  have b: "map (dec_from i) (filter (\<lambda>j. P j \<and> j \<noteq> i) [Suc i..<n]) = filter (\<lambda>l. P (skip_at i l)) [i..<n - 1]"
  proof -
    have u: "[Suc i..<n] = map Suc [i..<n - 1]" using i by (simp add: map_Suc_upt)
    have "filter (\<lambda>j. P j \<and> j \<noteq> i) [Suc i..<n] = map Suc (filter (\<lambda>l. P (Suc l) \<and> Suc l \<noteq> i) [i..<n - 1])"
      unfolding u by (simp add: filter_map comp_def)
    moreover have "filter (\<lambda>l. P (Suc l) \<and> Suc l \<noteq> i) [i..<n - 1] = filter (\<lambda>l. P (skip_at i l)) [i..<n - 1]"
      by (rule filter_cong) (auto simp: skip_at_def)
    ultimately show ?thesis by (simp only: map_map) (rule map_idI, auto simp: dec_from_def)
  qed
  show ?thesis unfolding s by (simp add: a b)
qed

lemma pt_Drop_cases:
  assumes wf: "pt_wf k pt"
  shows "case pt_fieldsByName pt (name_key name) of
      None \<Rightarrow> pt_Drop pt name = Inr pt
    | Some i \<Rightarrow> \<exists>pt'. pt_Drop pt name = Inr pt' \<and> pt_wf k pt' \<and> length (pt_fields pt') = length (pt_fields pt) - 1 \<and>
        (\<forall>l < length (pt_fields pt) - 1. \<exists>off. pt_fields pt' ! l = (pt_fields pt ! skip_at i l)\<lparr>pf_offset := off\<rparr>)"
proof (cases "pt_fieldsByName pt (name_key name)")
  case None
  then show ?thesis by (simp add: pt_Drop_def)
next
  case (Some i)
  let ?fs = "pt_fields pt" let ?n = "length (pt_fields pt)" let ?f = "?fs ! i"
  have w: "k \<le> ?n" "list_all sized ?fs" "names_ok k ?fs (pt_fieldsByName pt)"
    "paths_ok k ?fs (pt_fieldsByJsonPath pt)" "strs_ok k ?fs (pt_strFields pt)" "offsets_ok k ?fs"
    using wf by (simp_all add: pt_wf_def)
  have i: "k \<le> i" "i < ?n" "name_key name = name_key (pf_name ?f)"
    using w(3) Some by (auto simp: names_ok_def)
  let ?before = "take i ?fs" let ?prev = "if ?before = [] then None else Some (last ?before)"
  have prev: "case ?prev of None \<Rightarrow> True | Some p \<Rightarrow> sized p"
  proof -
    have "last ?before \<in> set ?fs" if "?before \<noteq> []" using last_in_set [OF that] by (rule in_set_takeD)
    then show ?thesis using w(2) by (simp add: list_all_iff)
  qed
  have dr: "list_all sized (drop (Suc i) ?fs)" using w(2) by (auto simp: list_all_iff dest: in_set_dropD)
  obtain after where after: "set_offsets ?prev (drop (Suc i) ?fs) = Inr after" "length after = ?n - Suc i" "list_all sized after"
    "\<And>j. j < ?n - Suc i \<Longrightarrow> \<exists>o'. after ! j = (?fs ! (Suc i + j))\<lparr>pf_offset := o'\<rparr>"
    "\<And>j. j < ?n - Suc i \<Longrightarrow> pf_offset (after ! j) = (if j = 0 then case ?prev of None \<Rightarrow> 0 | Some p \<Rightarrow> pf_offset p + size_of p
         else pf_offset (after ! (j - 1)) + size_of (after ! (j - 1)))"
    using set_offsets_ok [OF dr prev] by (auto simp: add.commute)
  let ?fs' = "?before @ after"
  let ?pt' = "pt\<lparr>pt_fieldsByName := (map_option (dec_from i) \<circ> pt_fieldsByName pt)(name_key name := None),
      pt_fieldsByJsonPath := (\<lambda>jp. if jp \<in> set (pf_jsonPaths ?f) then None else map_option (dec_from i) (pt_fieldsByJsonPath pt jp)),
      pt_strFields := map (dec_from i) (filter (\<lambda>l. \<not> (l = i \<and> pf_type ?f = KVT_String)) (pt_strFields pt)),
      pt_fields := ?fs'\<rparr>"
  have dec: "dec_from i = (\<lambda>j. if j > i then j - 1 else j)" by (simp add: dec_from_def fun_eq_iff)
  have drop: "pt_Drop pt name = Inr ?pt'"
    using Some i(2) after(1) by (simp add: pt_Drop_def Let_def dec [symmetric])
  have len: "length ?fs' = ?n - 1" using after(2) i by simp
  have nth: "\<exists>off. ?fs' ! l = (?fs ! skip_at i l)\<lparr>pf_offset := off\<rparr>" if "l < ?n - 1" for l
  proof (cases "l < i")
    case True
    then have "?fs' ! l = (?fs ! skip_at i l)\<lparr>pf_offset := pf_offset (?fs ! l)\<rparr>"
      using i by (simp add: nth_append skip_at_def)
    then show ?thesis ..
  next
    case False
    then show ?thesis using after(4) [of "l - i"] that i by (simp add: nth_append skip_at_def)
  qed
  have same: "pf_name (?fs' ! l) = pf_name (?fs ! skip_at i l)" "pf_jsonPaths (?fs' ! l) = pf_jsonPaths (?fs ! skip_at i l)"
    "pf_type (?fs' ! l) = pf_type (?fs ! skip_at i l)" if "l < ?n - 1" for l
    using nth [OF that] by auto
  have "names_ok k ?fs' (\<lambda>key. if key = name_key name then None else map_option (dec_from i) (pt_fieldsByName pt key))"
    unfolding names_ok_def len
  proof (intro allI)
    fix key l
    show "((if key = name_key name then None else map_option (dec_from i) (pt_fieldsByName pt key)) = Some l) =
        (k \<le> l \<and> l < ?n - 1 \<and> key = name_key (pf_name (?fs' ! l)))"
      using dropped_map [of "pt_fieldsByName pt" k ?n "\<lambda>key j. key = name_key (pf_name (?fs ! j))" i "\<lambda>key. key = name_key name" key l]
        w(3) Some i same(1) [of l] by (auto simp: names_ok_def)
  qed
  moreover have "(map_option (dec_from i) \<circ> pt_fieldsByName pt)(name_key name := None) =
      (\<lambda>key. if key = name_key name then None else map_option (dec_from i) (pt_fieldsByName pt key))" by auto
  moreover have "paths_ok k ?fs' (\<lambda>jp. if jp \<in> set (pf_jsonPaths ?f) then None else map_option (dec_from i) (pt_fieldsByJsonPath pt jp))"
    unfolding paths_ok_def len
  proof (intro allI)
    fix jp l
    have P: "pt_fieldsByJsonPath pt x = Some j \<longleftrightarrow> k \<le> j \<and> j < ?n \<and> x \<noteq> [] \<and> x \<in> set (pf_jsonPaths (?fs ! j))" for x j
      using w(4) by (simp add: paths_ok_def)
    have g: "pt_fieldsByJsonPath pt x = None \<or> pt_fieldsByJsonPath pt x = Some i" if "x \<in> set (pf_jsonPaths ?f)" for x
      using P [of x i] P [of x] i that by (cases "x = []"; cases "pt_fieldsByJsonPath pt x") auto
    show "((if jp \<in> set (pf_jsonPaths ?f) then None else map_option (dec_from i) (pt_fieldsByJsonPath pt jp)) = Some l) =
        (k \<le> l \<and> l < ?n - 1 \<and> jp \<noteq> [] \<and> jp \<in> set (pf_jsonPaths (?fs' ! l)))"
      using dropped_map [of "pt_fieldsByJsonPath pt" k ?n "\<lambda>x j. x \<noteq> [] \<and> x \<in> set (pf_jsonPaths (?fs ! j))" i "\<lambda>x. x \<in> set (pf_jsonPaths ?f)" jp l]
        P g i same(2) [of l] by auto
  qed
  moreover have "strs_ok k ?fs' (map (dec_from i) (filter (\<lambda>l. \<not> (l = i \<and> pf_type ?f = KVT_String)) (pt_strFields pt)))"
  proof -
    have "filter (\<lambda>l. \<not> (l = i \<and> pf_type ?f = KVT_String)) (pt_strFields pt) =
        filter (\<lambda>j. pf_type (?fs ! j) = KVT_String \<and> j \<noteq> i) [k..<?n]"
      using w(5) unfolding strs_ok_def by (simp add: filter_filter) (rule filter_cong, auto)
    moreover have "filter (\<lambda>l. pf_type (?fs ! skip_at i l) = KVT_String) [k..<?n - 1] =
        filter (\<lambda>l. pf_type (?fs' ! l) = KVT_String) [k..<?n - 1]"
      by (rule filter_cong) (simp_all add: same(3))
    ultimately show ?thesis unfolding strs_ok_def len
      using filter_upt_skip [OF i(1,2), of "\<lambda>j. pf_type (?fs ! j) = KVT_String"] by simp
  qed
  moreover have "offsets_ok k ?fs'"
    unfolding offsets_ok_def len
  proof (intro allI impI)
    fix l assume l: "k \<le> l \<and> l < ?n - 1"
    show "pf_offset (?fs' ! l) = (if l = 0 then 0 else pf_offset (?fs' ! (l - 1)) + size_of (?fs' ! (l - 1)))"
    proof (cases "l < i")
      case True
      then show ?thesis using w(6) l i by (auto simp: offsets_ok_def nth_append)
    next
      case False
      then show ?thesis using after(5) [of "l - i"] l i
        by (cases "l = i") (auto simp: nth_append last_conv_nth min_def)
    qed
  qed
  moreover have "list_all sized ?fs'" using w(2) after(3) by (auto simp: list_all_iff dest: in_set_takeD)
  ultimately have "pt_wf k ?pt'" unfolding pt_wf_def using i len by simp
  then show ?thesis using Some drop len nth by auto
qed

lemma pt_Replace_wf:
  assumes wf: "pt_wf k pt" and r: "pt_Replace pt i f = Inr pt'"
  shows "pt_wf k pt' \<and> i < length (pt_fields pt) \<and> pt_fields pt' = (pt_fields pt)[i := f]"
proof -
  let ?fs = "pt_fields pt"
  have i: "i < length ?fs" and same: "pf_name (?fs ! i) = pf_name f" "pf_type (?fs ! i) = pf_type f"
    "pf_jsonPaths (?fs ! i) = pf_jsonPaths f" "pf_offset (?fs ! i) = pf_offset f" "pf_isArray (?fs ! i) = pf_isArray f"
    and pt': "pt' = pt\<lparr>pt_fields := ?fs[i := f]\<rparr>"
    using r by (auto simp: pt_Replace_def Let_def res_simps)
  have sz: "size_of (?fs ! i) = size_of f" "sized (?fs ! i) = sized f"
    using same by (simp_all add: size_of_def Sizeof_def ElemSizeof_def sized_def)
  have nth: "pf_name (?fs[i := f] ! j) = pf_name (?fs ! j)" "pf_jsonPaths (?fs[i := f] ! j) = pf_jsonPaths (?fs ! j)"
    "pf_type (?fs[i := f] ! j) = pf_type (?fs ! j)" "pf_offset (?fs[i := f] ! j) = pf_offset (?fs ! j)"
    "size_of (?fs[i := f] ! j) = size_of (?fs ! j)" for j
    using same sz i by (cases "i = j"; simp)+
  have "list_all sized (?fs[i := f])"
    using wf sz(2) i by (auto simp: pt_wf_def list_all_length nth_list_update)
  then have "pt_wf k pt'"
    using wf unfolding pt' pt_wf_def names_ok_def paths_ok_def strs_ok_def offsets_ok_def by (simp add: nth)
  then show ?thesis using i by (simp add: pt')
qed

subsection \<open>Whatever is done to a payload type\<close>

datatype pt_op = AddField payload_field | DropField string | ReplaceField nat payload_field

fun pt_do :: "pt_op \<Rightarrow> payload_type \<Rightarrow> payload_type res" where
  "pt_do (AddField f) pt = (case pt_Add pt f of (pt', Inr _) \<Rightarrow> Inr pt' | (pt', Inl e) \<Rightarrow> Inl e)"
| "pt_do (DropField name) pt = pt_Drop pt name"
| "pt_do (ReplaceField i f) pt = pt_Replace pt i f"

fun pt_run :: "pt_op list \<Rightarrow> payload_type \<Rightarrow> payload_type res" where
  "pt_run [] pt = Inr pt"
| "pt_run (p # ops) pt = bind_res (pt_do p pt) (pt_run ops)"

fun op_sized :: "pt_op \<Rightarrow> bool" where
  "op_sized (AddField f) \<longleftrightarrow> sized f"
| "op_sized _ \<longleftrightarrow> True"

lemma pt_do_wf: "pt_wf k pt \<Longrightarrow> op_sized p \<Longrightarrow> pt_do p pt = Inr pt' \<Longrightarrow> pt_wf k pt'"
proof (cases p)
  case (AddField f)
  assume a: "pt_wf k pt" "op_sized p" "pt_do p pt = Inr pt'"
  obtain q r where q: "pt_Add pt f = (q, r)" by (cases "pt_Add pt f")
  then show ?thesis using a AddField pt_Add_cases [OF a(1) q] by (auto split: sum.splits)
next
  case (DropField name)
  assume a: "pt_wf k pt" "op_sized p" "pt_do p pt = Inr pt'"
  then show ?thesis using DropField pt_Drop_cases [OF a(1), of name] by (auto split: option.splits)
qed (simp add: pt_Replace_wf)

lemma pt_Drop_total: "pt_wf k pt \<Longrightarrow> \<exists>pt'. pt_Drop pt s = Inr pt'"
  using pt_Drop_cases [of k pt s] by (cases "pt_fieldsByName pt (name_key s)") auto

lemma pt_run_wf: "pt_wf k pt \<Longrightarrow> list_all op_sized ops \<Longrightarrow> pt_run ops pt = Inr pt' \<Longrightarrow> pt_wf k pt'"
proof (induction ops arbitrary: pt)
  case (Cons p ops)
  obtain q where q: "pt_do p pt = Inr q" "pt_run ops q = Inr pt'" using Cons.prems(3) by (auto simp: res_simps)
  show ?case by (rule Cons.IH [OF pt_do_wf [OF Cons.prems(1) _ q(1)] _ q(2)]) (use Cons.prems(2) in auto)
qed simp

lemma FieldByName_Inr: "pt_FieldByName pt s = Inr i \<longleftrightarrow> pt_fieldsByName pt (name_key s) = Some i"
  by (simp add: pt_FieldByName_def split: option.splits)

lemma FieldByJsonPath_int: "pt_FieldByJsonPath pt jp = int i \<longleftrightarrow> pt_fieldsByJsonPath pt jp = Some i"
  by (simp add: pt_FieldByJsonPath_def split: option.splits)

lemma name_key_eq: "name_key s = name_key t \<longleftrightarrow> iequals s t"
  by (auto simp: name_key_def iequals_def list_all2_conv_all_nth list_eq_iff_nth_eq)

text \<open>
  C13. Whatever adding, dropping and replacing of fields succeeds, the indexes of a payload type agree
  with its fields: a name, in any case, finds exactly the field of that name, a non-empty JSON path
  exactly the field that has it, the string fields are listed in order, and every field begins where the
  one before it ends. Dropping never fails, and a field can be added exactly when its name is new and
  none of its paths is taken or nested in a path of another field.
\<close>

theorem payload_type_consistent:
  assumes "pt_run ops (mk_PayloadTypeImpl name init) = Inr pt" "list_all op_sized ops" "list_all sized init"
  shows "(\<forall>s i. pt_FieldByName pt s = Inr i \<longleftrightarrow>
        length init \<le> i \<and> i < pt_NumFields pt \<and> iequals s (pf_name (pt_fields pt ! i))) \<and>
    (\<forall>jp i. pt_FieldByJsonPath pt jp = int i \<longleftrightarrow>
        length init \<le> i \<and> i < pt_NumFields pt \<and> jp \<noteq> [] \<and> jp \<in> set (pf_jsonPaths (pt_fields pt ! i))) \<and>
    pt_strFields pt = filter (\<lambda>i. pf_type (pt_fields pt ! i) = KVT_String) [length init..<pt_NumFields pt] \<and>
    (\<forall>i. length init \<le> i \<and> 0 < i \<and> i < pt_NumFields pt \<longrightarrow>
        Sizeof (pt_fields pt ! (i - 1)) = Inr (pf_offset (pt_fields pt ! i) - pf_offset (pt_fields pt ! (i - 1)))) \<and>
    (\<forall>s. \<exists>pt'. pt_Drop pt s = Inr pt') \<and>
    (\<forall>f pt' r. pt_Add pt f = (pt', r) \<longrightarrow>
        (r = Inr () \<longleftrightarrow> \<not> pt_Contains pt (pf_name f) \<and> list_all (path_free pt) (pf_jsonPaths f)))"
proof -
  let ?k = "length init"
  have wf: "pt_wf ?k pt" by (rule pt_run_wf [OF pt_wf_mk assms(2,1)]) (rule assms(3))
  then have w: "list_all sized (pt_fields pt)" "names_ok ?k (pt_fields pt) (pt_fieldsByName pt)"
    "paths_ok ?k (pt_fields pt) (pt_fieldsByJsonPath pt)" "strs_ok ?k (pt_fields pt) (pt_strFields pt)" "offsets_ok ?k (pt_fields pt)"
    by (simp_all add: pt_wf_def)
  show ?thesis
  proof (intro conjI)
    show "\<forall>s i. pt_FieldByName pt s = Inr i \<longleftrightarrow> ?k \<le> i \<and> i < pt_NumFields pt \<and> iequals s (pf_name (pt_fields pt ! i))"
      using w(2) by (simp add: names_ok_def FieldByName_Inr pt_NumFields_def name_key_eq [symmetric])
    show "\<forall>jp i. pt_FieldByJsonPath pt jp = int i \<longleftrightarrow>
        ?k \<le> i \<and> i < pt_NumFields pt \<and> jp \<noteq> [] \<and> jp \<in> set (pf_jsonPaths (pt_fields pt ! i))"
      using w(3) by (simp add: paths_ok_def FieldByJsonPath_int pt_NumFields_def)
    show "pt_strFields pt = filter (\<lambda>i. pf_type (pt_fields pt ! i) = KVT_String) [?k..<pt_NumFields pt]"
      using w(4) by (simp add: strs_ok_def pt_NumFields_def)
    show "\<forall>i. ?k \<le> i \<and> 0 < i \<and> i < pt_NumFields pt \<longrightarrow>
        Sizeof (pt_fields pt ! (i - 1)) = Inr (pf_offset (pt_fields pt ! i) - pf_offset (pt_fields pt ! (i - 1)))"
      using w(1,5) by (auto simp: offsets_ok_def pt_NumFields_def list_all_length Sizeof_sized)
    show "\<forall>s. \<exists>pt'. pt_Drop pt s = Inr pt'"
      using pt_Drop_total [OF wf] by blast
    show "\<forall>f pt' r. pt_Add pt f = (pt', r) \<longrightarrow>
        (r = Inr () \<longleftrightarrow> \<not> pt_Contains pt (pf_name f) \<and> list_all (path_free pt) (pf_jsonPaths f))"
      using pt_Add_cases [OF wf] by blast
  qed
qed


definition example_field :: "key_value_type \<Rightarrow> string \<Rightarrow> string list \<Rightarrow> payload_field" where
  "example_field t n js = \<lparr>pf_type = t, pf_name = n, pf_jsonPaths = js, pf_offset = 0, pf_arrayDims = 0, pf_isArray = False,
     pf_upsertEmbedder = None\<rparr>"

definition example_ops :: "pt_op list" where
  "example_ops = [AddField (example_field KVT_Int ''A'' [''i'']), AddField (example_field KVT_String ''b'' [''j'']), DropField ''a'']"

lemma to_lower_letters: "to_lower CHR ''A'' = CHR ''a''" "to_lower CHR ''B'' = CHR ''b''" "to_lower CHR ''a'' = CHR ''a''"
  "to_lower CHR ''b'' = CHR ''b''" "to_lower CHR ''c'' = CHR ''c''"
  by code_simp+

lemmas pt_eval = pt_Add_def pt_Drop_def pt_checkNewNameBeforeAdd_def pt_TotalSize_def mk_PayloadTypeImpl_def Sizeof_def
  ElemSizeof_def pt_checkNewJsonPathBeforeAdd_def str_find_def path_overwrites_def name_key_def to_lower_letters Let_def
  example_field_def pt_FieldByName_def pt_FieldByJsonPath_def pt_Field_def pt_NumFields_def

lemma example_run: "(case pt_run example_ops (mk_PayloadTypeImpl ''n'' [example_field KVT_String ''t'' []]) of
    Inl _ \<Rightarrow> False
  | Inr pt \<Rightarrow> map pf_offset (pt_fields pt) = [0, 8] \<and> pt_FieldByName pt ''B'' = Inr 1)"
  by (simp add: example_ops_def pt_eval)

theorem payload_type_consistent_witness:
  "\<exists>pt. pt_run example_ops (mk_PayloadTypeImpl ''n'' [example_field KVT_String ''t'' []]) = Inr pt \<and>
     pt_FieldByName pt ''B'' = Inr 1 \<and> (\<exists>pt'. pt_Drop pt ''b'' = Inr pt')"
proof -
  obtain pt where pt: "pt_run example_ops (mk_PayloadTypeImpl ''n'' [example_field KVT_String ''t'' []]) = Inr pt"
    "pt_FieldByName pt ''B'' = Inr 1"
    using example_run
    by (cases "pt_run example_ops (mk_PayloadTypeImpl ''n'' [example_field KVT_String ''t'' []])") simp_all
  have "list_all op_sized example_ops" "list_all sized [example_field KVT_String ''t'' []]"
    by (simp_all add: example_ops_def example_field_def sized_def)
  note c = payload_type_consistent [OF pt(1) this]
  have "\<exists>pt'. pt_Drop pt ''b'' = Inr pt'" by (rule c [THEN conjunct2, THEN conjunct2, THEN conjunct2, THEN conjunct2, THEN conjunct1, rule_format])
  with pt have "pt_run example_ops (mk_PayloadTypeImpl ''n'' [example_field KVT_String ''t'' []]) = Inr pt \<and>
     pt_FieldByName pt ''B'' = Inr 1 \<and> (\<exists>pt'. pt_Drop pt ''b'' = Inr pt')" by (intro conjI)
  then show ?thesis by (rule exI)
qed

text \<open>
  Adding is not undone when it fails: the paths entered before the failing one stay, and the field added
  next is found by them.
\<close>

lemma failed_add_stays:
  "(let pt = mk_PayloadTypeImpl ''ns'' [];
        pt = fst (pt_Add pt (example_field KVT_Int ''a'' [''x'']));
        (pt, r) = pt_Add pt (example_field KVT_Int ''b'' [''y'', ''x'']);
        (pt, r') = pt_Add pt (example_field KVT_Int ''c'' [''z''])
    in r = Inl (Err ErrLogic) \<and> r' = Inr () \<and> pt_FieldByJsonPath pt ''y'' = 1 \<and> pf_jsonPaths (pt_fields pt ! 1) = [''z''])"
  by (simp add: pt_eval)

subsection \<open>What is written is read back\<close>

lemma bind_assoc: "bind_res (bind_res m f) g = bind_res m (\<lambda>x. bind_res (f x) g)"
  by (cases m) simp_all

lemma dim_codec: "wire_codec (\<lambda>w d. if t = KVT_FloatVector then PutVarUint32 w (ucast (d :: u16)) else Inr w)
    (\<lambda>s. if t = KVT_FloatVector
         then bind_res (GetVarUInt s) (\<lambda>(v, s). bind_res (FloatVectorDimension_of64 v) (\<lambda>d. Inr (d, s))) else Inr (0, s))
    (\<lambda>d. if t = KVT_FloatVector then uint32_pack (ucast d) else []) (\<lambda>d. t = KVT_FloatVector \<or> d = 0)"
proof unfold_locales
  fix d :: u16 and pre rest :: bytes
  assume a: "t = KVT_FloatVector \<or> d = 0"
    "fits (length pre) (length (if t = KVT_FloatVector then uint32_pack (ucast d) else []) + length rest)"
  have c: "(ucast (ucast d :: u32) :: u64) = ucast d" by (rule bit_word_eqI) (auto simp: bit_simps dest: bit_imp_le_length)
  have l: "\<not> (ucast d :: u64) > 65535"
    using unsigned_less [of d, where ?'a = nat] by (simp add: word_less_nat_alt unsigned_ucast_eq take_bit_nat_eq_self)
  have "(ucast (ucast d :: u64) :: u16) = d" by (rule bit_word_eqI) (simp add: bit_simps)
  then have "FloatVectorDimension_of64 (ucast d) = Inr d" using l by (simp add: FloatVectorDimension_of64_def)
  then show "(if t = KVT_FloatVector
      then bind_res (GetVarUInt (ser_at pre ((if t = KVT_FloatVector then uint32_pack (ucast d) else []) @ rest)))
        (\<lambda>(v, s). bind_res (FloatVectorDimension_of64 v) (\<lambda>d. Inr (d, s)))
      else Inr (0, ser_at pre ((if t = KVT_FloatVector then uint32_pack (ucast d) else []) @ rest))) =
      Inr (d, ser_at (pre @ (if t = KVT_FloatVector then uint32_pack (ucast d) else [])) rest)"
    using a GetVarUInt_pack32 [of pre "ucast d" rest] by (cases "t = KVT_FloatVector") (simp_all add: c)
qed (auto intro: appends_refl put_varint_appends split: if_splits)

lemma flag_codec: "wire_codec (\<lambda>w b. PutVarUint32 w (if b then 1 else 0))
    (\<lambda>s. bind_res (GetVarUInt s) (\<lambda>(v, s). Inr (v \<noteq> 0, s))) (\<lambda>b. uint32_pack (if b then 1 else 0)) (\<lambda>_. True)"
proof unfold_locales
  fix b and pre rest :: bytes
  assume "fits (length pre) (length (uint32_pack (if b then 1 else 0)) + length rest)"
  then show "bind_res (GetVarUInt (ser_at pre (uint32_pack (if b then 1 else 0) @ rest))) (\<lambda>(v, s). Inr (v \<noteq> 0, s)) =
      Inr (b, ser_at (pre @ uint32_pack (if b then 1 else 0)) rest)"
    using GetVarUInt_pack32 [of pre "if b then 1 else 0" rest] by (cases b) simp_all
qed (auto intro: put_varint_appends)

text \<open>A field on the wire, as the nested tuple of its parts.\<close>

type_synonym field_parts = "key_value_type \<times> u16 \<times> string \<times> u64 \<times> u64 \<times> bool \<times> string list"

definition field_parts :: "payload_field \<Rightarrow> field_parts" where
  "field_parts f = (pf_type f, pf_arrayDims f, pf_name f, pf_offset f,
     (case ElemSizeof f of Inl _ \<Rightarrow> 0 | Inr sz \<Rightarrow> sz), pf_isArray f, pf_jsonPaths f)"

lemmas parts_codec =
  then_codec [OF kvt_codec.wire_codec_axioms then_codec [OF dim_codec then_codec [OF string_codec.wire_codec_axioms
    then_codec [OF varuint_codec.wire_codec_axioms then_codec [OF varuint_codec.wire_codec_axioms
      then_codec [OF flag_codec counted_codec [OF string_codec.wire_codec_axioms]]]]]]]

lemmas field_parts_codec = parts_codec [where t = "\<lambda>t. t"]

text \<open>What of a field is on the wire: not the embedder, and the dimension of a float vector only.\<close>

definition on_wire :: "payload_field \<Rightarrow> payload_field" where
  "on_wire f = f\<lparr>pf_upsertEmbedder := None,
     pf_arrayDims := (if pf_type f = KVT_FloatVector then pf_arrayDims f else 0)\<rparr>"

definition field_ok :: "payload_field \<Rightarrow> bool" where
  "field_ok f \<longleftrightarrow> on_wire f = f \<and> (pf_type f = KVT_FloatVector \<longrightarrow> pf_arrayDims f \<noteq> 0) \<and>
     length (pf_name f) < 2 ^ 32 \<and> length (pf_jsonPaths f) < 2 ^ 64 \<and> list_all (\<lambda>s. length s < 2 ^ 32) (pf_jsonPaths f)"

definition enc_field :: "payload_field \<Rightarrow> bytes" where
  "enc_field f = enc_kvt (pf_type f) @ (if pf_type f = KVT_FloatVector then uint32_pack (ucast (pf_arrayDims f)) else []) @
     enc_vstring (string_bytes (pf_name f)) @ uint64_pack (pf_offset f) @
     uint64_pack (case ElemSizeof f of Inl _ \<Rightarrow> 0 | Inr sz \<Rightarrow> sz) @ uint32_pack (if pf_isArray f then 1 else 0) @
     uint64_pack (word_of_nat (length (pf_jsonPaths f))) @ concat (map (\<lambda>s. enc_vstring (string_bytes s)) (pf_jsonPaths f))"

lemma field_ok_parts: "field_ok f \<Longrightarrow> (pf_type f = KVT_FloatVector \<or> pf_arrayDims f = 0) \<and>
    length (pf_name f) < 2 ^ 32 \<and> length (pf_jsonPaths f) < 2 ^ 64 \<and> list_all (\<lambda>s. length s < 2 ^ 32) (pf_jsonPaths f)"
  by (cases f) (auto simp: field_ok_def on_wire_def split: if_splits)

lemma mk_field_parts:
  "field_ok f \<Longrightarrow> bind_res (mk_PayloadFieldType (pf_type f) (pf_name f) (pf_jsonPaths f) (pf_isArray f) (pf_arrayDims f))
     (\<lambda>ft. Inr (ft\<lparr>pf_offset := pf_offset f\<rparr>, s)) = Inr (f, s)"
  by (cases f) (auto simp: mk_PayloadFieldType_def field_ok_def on_wire_def)

interpretation field_codec: wire_codec put_field get_field enc_field field_ok
proof unfold_locales
  fix w f w'
  assume w: "wr_wf w" and ok: "field_ok f" and l: "wr_len w + length (enc_field f) + 10 \<le> 2 ^ 60" and p: "put_field w f = Inr w'"
  obtain sz where sz: "ElemSizeof f = Inr sz" using p by (auto simp: put_field_def res_simps)
  from wire_codec.put_appends [OF field_parts_codec w, where a = "field_parts f" and w' = w', unfolded field_parts_def fst_conv snd_conv] show "appends w (enc_field f) w'"
    using field_ok_parts [OF ok] l p by (simp add: write_pair_def enc_field_def put_field_def sz)
next
  fix f and pre rest :: bytes
  assume ok: "field_ok f" and l: "fits (length pre) (length (enc_field f) + length rest)"
  note g = wire_codec.get_enc [OF field_parts_codec, where a = "field_parts f" and pre = pre and rest = rest,
    unfolded field_parts_def fst_conv snd_conv]
  have ok': "True \<and> (pf_type f = KVT_FloatVector \<or> pf_arrayDims f = 0) \<and> length (pf_name f) < 2 ^ 32 \<and> True \<and> True \<and> True \<and>
      length (pf_jsonPaths f) < 2 ^ 64 \<and> list_all (\<lambda>s. length s < 2 ^ 32) (pf_jsonPaths f)"
    using field_ok_parts [OF ok] by simp
  have get: "get_field s = bind_res (read_pair GetKeyValueType (\<lambda>t. read_pair
         (\<lambda>s. if t = KVT_FloatVector
              then bind_res (GetVarUInt s) (\<lambda>(v, s). bind_res (FloatVectorDimension_of64 v) (\<lambda>d. Inr (d, s))) else Inr (0, s))
         (\<lambda>_. read_pair get_string (\<lambda>_. read_pair GetVarUInt (\<lambda>_. read_pair GetVarUInt (\<lambda>_. read_pair
           (\<lambda>s. bind_res (GetVarUInt s) (\<lambda>(v, s). Inr (v \<noteq> 0, s)))
           (\<lambda>_ s. bind_res (GetVarUInt s) (\<lambda>(n, s). get_list get_string (unat n) s))))))) s)
      (\<lambda>((t, dim, name, off, sz, arr, paths), s).
         bind_res (mk_PayloadFieldType t name paths arr dim) (\<lambda>ft. Inr (ft\<lparr>pf_offset := off\<rparr>, s)))" for s
    by (simp only: get_field_def read_pair_def bind_assoc bind_res_simps case_prod_unfold fst_conv snd_conv if_distrib [of "\<lambda>m. bind_res m _"])
  show "get_field (ser_at pre (enc_field f @ rest)) = Inr (f, ser_at (pre @ enc_field f) rest)"
    unfolding get enc_field_def g [OF ok' l [unfolded enc_field_def]] by (simp add: mk_field_parts [OF ok])
qed

lemma put_field_on_wire: "put_field w (on_wire f) = put_field w f"
  by (simp add: put_field_def on_wire_def ElemSizeof_def)

lemma put_list_on_wire: "put_list put_field w (map on_wire fs) = put_list put_field w fs"
proof (induction fs arbitrary: w)
  case (Cons f fs)
  then show ?case by (cases "put_field w f") (simp_all add: put_field_on_wire)
qed simp

lemma on_wire_idem [simp]: "on_wire (on_wire f) = on_wire f"
  by (simp add: on_wire_def)

lemma pt_read_fields_list:
  "pt_read_fields n pt s = (case get_list get_field n s of
     Inr (fs, s') \<Rightarrow> (fold (\<lambda>f pt. pt_enter pt f) fs pt, Inr s')
   | Inl e \<Rightarrow> (fst (pt_read_fields n pt s), Inl e))"
proof (induction n arbitrary: pt s)
  case (Suc n)
  show ?case
  proof (cases "get_field s")
    case (Inr fs)
    obtain ft s' where fs: "fs = (ft, s')" by (cases fs)
    show ?thesis using Suc [of "pt_enter pt ft" s'] Inr fs by (auto split: sum.splits prod.splits)
  qed simp
qed simp

text \<open>Entering the fields one by one gives indexes that agree with them, if no name and no path is there twice.\<close>

definition apart :: "payload_field list \<Rightarrow> bool" where
  "apart fs \<longleftrightarrow> (\<forall>i < length fs. \<forall>j < i. name_key (pf_name (fs ! i)) \<noteq> name_key (pf_name (fs ! j)) \<and>
     set (pf_jsonPaths (fs ! i)) \<inter> set (pf_jsonPaths (fs ! j)) = {}) \<and> (\<forall>f \<in> set fs. [] \<notin> set (pf_jsonPaths f))"

lemma apart_append: "apart (fs @ [f]) \<Longrightarrow> apart fs \<and> [] \<notin> set (pf_jsonPaths f) \<and>
    (\<forall>g \<in> set fs. name_key (pf_name f) \<noteq> name_key (pf_name g) \<and> set (pf_jsonPaths f) \<inter> set (pf_jsonPaths g) = {})"
  unfolding apart_def by (auto simp: nth_append all_set_conv_all_nth less_Suc_eq)

lemma emplace_paths:
  "(\<forall>jp \<in> set jps. m jp = None \<or> m jp = Some n) \<Longrightarrow>
   fold (\<lambda>jp m. map_emplace m jp n) jps m = (\<lambda>jp. if jp \<in> set jps then Some n else m jp)"
proof (induction jps arbitrary: m)
  case (Cons jp jps)
  have "fold (\<lambda>jp m. map_emplace m jp n) jps (map_emplace m jp n) = (\<lambda>x. if x \<in> set jps then Some n else map_emplace m jp n x)"
    by (rule Cons.IH) (use Cons.prems in \<open>auto simp: map_emplace_def\<close>)
  then show ?case using Cons.prems by (auto simp: map_emplace_def fun_eq_iff)
qed simp

definition pt_entered :: "payload_field list \<Rightarrow> payload_type \<Rightarrow> payload_type" where
  "pt_entered fs pt = fold (\<lambda>f pt. pt_enter pt f) fs
     (pt\<lparr>pt_fields := [], pt_fieldsByName := Map.empty, pt_fieldsByJsonPath := Map.empty, pt_strFields := []\<rparr>)"

lemma pt_entered_append: "pt_entered (fs @ [f]) pt = pt_enter (pt_entered fs pt) f"
  by (simp add: pt_entered_def)

lemma pt_entered_fields: "pt_fields (pt_entered fs pt) = fs \<and> pt_name (pt_entered fs pt) = pt_name pt"
proof (induction fs rule: rev_induct)
  case (snoc f fs)
  then show ?case by (simp add: pt_entered_append pt_enter_def Let_def)
qed (simp add: pt_entered_def)

lemma pt_entered_ok:
  "apart fs \<Longrightarrow> names_ok 0 fs (pt_fieldsByName (pt_entered fs pt)) \<and>
     paths_ok 0 fs (pt_fieldsByJsonPath (pt_entered fs pt)) \<and> strs_ok 0 fs (pt_strFields (pt_entered fs pt))"
proof (induction fs rule: rev_induct)
  case Nil
  then show ?case by (simp add: pt_entered_def names_ok_def paths_ok_def strs_ok_def)
next
  case (snoc f fs)
  let ?p = "pt_entered fs pt"
  note a = apart_append [OF snoc.prems]
  have IH: "names_ok 0 fs (pt_fieldsByName ?p)" "paths_ok 0 fs (pt_fieldsByJsonPath ?p)" "strs_ok 0 fs (pt_strFields ?p)"
    using snoc.IH a by auto
  have name: "pt_fieldsByName ?p (name_key (pf_name f)) = None"
    using IH(1) a by (cases "pt_fieldsByName ?p (name_key (pf_name f))") (auto simp: names_ok_def)
  have paths: "pt_fieldsByJsonPath ?p jp = None" if "jp \<in> set (pf_jsonPaths f)" for jp
  proof (cases "pt_fieldsByJsonPath ?p jp")
    case (Some l)
    then have "l < length fs" "jp \<in> set (pf_jsonPaths (fs ! l))" using IH(2) by (simp_all add: paths_ok_def)
    then show ?thesis using a that nth_mem [of l fs] by blast
  qed
  have len: "length (pt_fields ?p) = length fs" by (simp add: pt_entered_fields)
  have "pt_fieldsByName (pt_entered (fs @ [f]) pt) = (pt_fieldsByName ?p)(name_key (pf_name f) \<mapsto> length fs)"
    by (simp add: pt_entered_append pt_enter_def Let_def map_emplace_def name len)
  moreover have "pt_fieldsByJsonPath (pt_entered (fs @ [f]) pt) =
      (\<lambda>jp. if jp \<noteq> [] \<and> jp \<in> set (pf_jsonPaths f) then Some (length fs) else pt_fieldsByJsonPath ?p jp)"
  proof -
    have "fold (\<lambda>jp m. map_emplace m jp (length fs)) (pf_jsonPaths f) (pt_fieldsByJsonPath ?p) =
        (\<lambda>jp. if jp \<in> set (pf_jsonPaths f) then Some (length fs) else pt_fieldsByJsonPath ?p jp)"
      by (rule emplace_paths) (simp add: paths)
    moreover have "(\<lambda>jp. if jp \<in> set (pf_jsonPaths f) then Some (length fs) else pt_fieldsByJsonPath ?p jp) =
        (\<lambda>jp. if jp \<noteq> [] \<and> jp \<in> set (pf_jsonPaths f) then Some (length fs) else pt_fieldsByJsonPath ?p jp)"
      using a by (intro ext) metis
    ultimately show ?thesis by (simp only: pt_entered_append pt_enter_def Let_def len) simp
  qed
  moreover have "pt_strFields (pt_entered (fs @ [f]) pt) = (if pf_type f = KVT_String then pt_strFields ?p @ [length fs] else pt_strFields ?p)"
    by (simp add: pt_entered_append pt_enter_def Let_def len)
  ultimately show ?case
    using names_ok_append [OF IH(1) _ name] paths_ok_append [OF IH(2) _ paths] strs_ok_append [OF IH(3)]
    by (simp only: le0)
qed

lemma option_ext: "(\<And>i. a = Some i \<longleftrightarrow> b = Some i) \<Longrightarrow> a = b"
  by (cases a; cases b) (metis option.distinct(1))+

lemma names_ok_unique: "names_ok k fs m \<Longrightarrow> names_ok k fs m' \<Longrightarrow> m = m'"
  unfolding names_ok_def by (intro ext option_ext) presburger

lemma paths_ok_unique: "paths_ok k fs m \<Longrightarrow> paths_ok k fs m' \<Longrightarrow> m = m'"
  unfolding paths_ok_def by (intro ext option_ext) presburger

lemma names_okD: "names_ok k fs m \<Longrightarrow> k \<le> i \<Longrightarrow> i < length fs \<Longrightarrow> m (name_key (pf_name (fs ! i))) = Some i"
  unfolding names_ok_def by blast

lemma paths_okD: "paths_ok k fs m \<Longrightarrow> k \<le> i \<Longrightarrow> i < length fs \<Longrightarrow> jp \<noteq> [] \<Longrightarrow> jp \<in> set (pf_jsonPaths (fs ! i)) \<Longrightarrow> m jp = Some i"
  unfolding paths_ok_def by blast

lemma wf_apart:
  assumes wf: "pt_wf 0 pt" and ne: "\<forall>f \<in> set (pt_fields pt). [] \<notin> set (pf_jsonPaths f)"
  shows "apart (pt_fields pt)"
proof -
  let ?fs = "pt_fields pt"
  have ok: "names_ok 0 ?fs (pt_fieldsByName pt)" "paths_ok 0 ?fs (pt_fieldsByJsonPath pt)"
    using wf by (simp_all add: pt_wf_def)
  have "name_key (pf_name (?fs ! i)) \<noteq> name_key (pf_name (?fs ! j)) \<and> set (pf_jsonPaths (?fs ! i)) \<inter> set (pf_jsonPaths (?fs ! j)) = {}"
    if "i < length ?fs" "j < i" for i j
  proof
    have j: "j < length ?fs" using that by simp
    show "name_key (pf_name (?fs ! i)) \<noteq> name_key (pf_name (?fs ! j))"
      using names_okD [OF ok(1) le0 that(1)] names_okD [OF ok(1) le0 j] that(2) by auto
    have "jp \<notin> set (pf_jsonPaths (?fs ! j))" if jp: "jp \<in> set (pf_jsonPaths (?fs ! i))" for jp
    proof
      assume jp': "jp \<in> set (pf_jsonPaths (?fs ! j))"
      have "jp \<noteq> []" using ne jp nth_mem [OF \<open>i < length ?fs\<close>] by blast
      from paths_okD [OF ok(2) le0 \<open>i < length ?fs\<close> this jp] paths_okD [OF ok(2) le0 j this jp']
      show False using \<open>j < i\<close> by simp
    qed
    then show "set (pf_jsonPaths (?fs ! i)) \<inter> set (pf_jsonPaths (?fs ! j)) = {}" by blast
  qed
  then show ?thesis unfolding apart_def using ne by blast
qed

definition enc_pt :: "u64 \<Rightarrow> payload_field list \<Rightarrow> bytes" where
  "enc_pt hdr fs = uint64_pack hdr @ uint32_pack (word_of_nat (length fs)) @ concat (map enc_field fs)"

lemma pt_serialize_appends:
  assumes w: "wr_wf w" and ok: "list_all field_ok (map on_wire (pt_fields pt))"
    and l: "wr_len w + length (enc_pt hdr (map on_wire (pt_fields pt))) + 20 \<le> 2 ^ 60" and s: "pt_serialize hdr w pt = Inr w'"
  shows "appends w (enc_pt hdr (map on_wire (pt_fields pt))) w'"
proof -
  let ?fs = "map on_wire (pt_fields pt)"
  obtain w1 w2 where w1: "PutVarUint64 w hdr = Inr w1" and w2: "PutVarUint32 w1 (word_of_nat (length ?fs)) = Inr w2"
    and w3: "put_list put_field w2 ?fs = Inr w'"
    using s by (auto simp: pt_serialize_def pt_NumFields_def res_simps put_list_on_wire)
  have 1: "appends w (uint64_pack hdr) w1" by (rule put_varint_appends(1) [OF w _ w1]) (use l in simp)
  have 2: "appends w1 (uint32_pack (word_of_nat (length ?fs))) w2"
    by (rule put_varint_appends(3) [OF appends_wf [OF 1] _ w2]) (use l appends_len [OF w 1] in \<open>simp add: enc_pt_def\<close>)
  have 3: "appends w2 (concat (map enc_field ?fs)) w'"
    by (rule field_codec.put_list_appends [OF appends_wf [OF 2] ok _ w3])
      (use l appends_len [OF w 1] appends_len [OF appends_wf [OF 1] 2] in \<open>simp add: enc_pt_def\<close>)
  show ?thesis unfolding enc_pt_def by (rule appends_trans [OF 1 appends_trans [OF 2 3]])
qed

lemma pt_deserialize_enc:
  assumes ok: "list_all field_ok fs" and n: "length fs < 2 ^ 31" and l: "fits (length pre) (length (enc_pt hdr fs) + length rest)"
  shows "pt_deserialize pt0 (ser_at pre (enc_pt hdr fs @ rest)) = (pt_entered fs pt0, Inr (ser_at (pre @ enc_pt hdr fs) rest))"
proof -
  have l': "fits (length pre) (length (uint64_pack hdr) + length (uint32_pack (word_of_nat (length fs)) @ concat (map enc_field fs) @ rest))"
    "fits (length (pre @ uint64_pack hdr)) (length (uint32_pack (word_of_nat (length fs))) + length (concat (map enc_field fs) @ rest))"
    "fits (length (pre @ uint64_pack hdr @ uint32_pack (word_of_nat (length fs)))) (length (concat (map enc_field fs)) + length rest)"
    using l by (simp_all add: enc_pt_def)
  have u: "unat (ucast (word_of_nat (length fs) :: u32) :: u64) = length fs"
    using n by (simp add: unsigned_ucast_eq take_bit_nat_eq_self unat_of_nat)
  note g = field_codec.get_list_enc [OF ok l'(3)]
  show ?thesis
    using GetVarUInt_pack [OF l'(1)] GetVarUInt_pack32 [OF l'(2)] g
    by (simp add: pt_deserialize_def enc_pt_def u pt_read_fields_list pt_entered_def)
qed

text \<open>
  C37. A payload type that is written is read back, whatever follows in the buffer, as long as the reader has
  fewer than \<open>2 ^ 32\<close> bytes before it: the same fields in the same order with their types, names, paths and
  offsets, and, if every field is found by its name, the same indexes.
  Embedders are not sent, and the dimension only of float vectors.
\<close>

theorem payload_type_roundtrip:
  assumes w: "wr_wf w" and ok: "list_all field_ok (map on_wire (pt_fields pt))" and n: "pt_NumFields pt < 2 ^ 31"
    and l: "wr_len w + length (enc_pt hdr (map on_wire (pt_fields pt))) + 20 \<le> 2 ^ 60"
      "length (enc_pt hdr (map on_wire (pt_fields pt))) + length rest < 2 ^ 32"
    and s: "pt_serialize hdr w pt = Inr w'"
    and d: "pt_deserialize pt0 (ser_at (wr_Slice w) (drop (wr_len w) (wr_Slice w') @ rest)) = (pt', r)"
  shows "r = Inr (ser_at (wr_Slice w') rest) \<and> pt_fields pt' = map on_wire (pt_fields pt) \<and> pt_name pt' = pt_name pt0 \<and>
    (pt_wf 0 pt \<and> (\<forall>f \<in> set (pt_fields pt). [] \<notin> set (pf_jsonPaths f)) \<longrightarrow>
       pt_fieldsByName pt' = pt_fieldsByName pt \<and> pt_fieldsByJsonPath pt' = pt_fieldsByJsonPath pt \<and>
       pt_strFields pt' = pt_strFields pt)"
proof -
  let ?fs = "map on_wire (pt_fields pt)"
  have a: "wr_Slice w' = wr_Slice w @ enc_pt hdr ?fs"
    using pt_serialize_appends [OF w ok l(1) s] by (simp add: appends_def)
  have len: "length (wr_Slice w) = wr_len w" by (rule wr_Slice_length [OF w])
  have "pt_deserialize pt0 (ser_at (wr_Slice w) (enc_pt hdr ?fs @ rest)) = (pt_entered ?fs pt0, Inr (ser_at (wr_Slice w @ enc_pt hdr ?fs) rest))"
    by (rule pt_deserialize_enc [OF ok]) (use n l len in \<open>simp_all add: pt_NumFields_def\<close>)
  then have r: "pt' = pt_entered ?fs pt0" "r = Inr (ser_at (wr_Slice w') rest)"
    using d by (simp_all add: a len [symmetric])
  have str: "filter (\<lambda>i. pf_type (?fs ! i) = KVT_String) [0..<length ?fs] =
      filter (\<lambda>i. pf_type (pt_fields pt ! i) = KVT_String) [0..<length (pt_fields pt)]"
    by (simp only: length_map) (rule filter_cong, simp_all add: on_wire_def)
  have same: "names_ok 0 ?fs m = names_ok 0 (pt_fields pt) m" "paths_ok 0 ?fs m = paths_ok 0 (pt_fields pt) m"
    "strs_ok 0 ?fs is = strs_ok 0 (pt_fields pt) is" for m "is"
    unfolding names_ok_def paths_ok_def strs_ok_def str by (simp_all add: on_wire_def cong: conj_cong)
  have "pt_fieldsByName pt' = pt_fieldsByName pt \<and> pt_fieldsByJsonPath pt' = pt_fieldsByJsonPath pt \<and> pt_strFields pt' = pt_strFields pt"
    if wf: "pt_wf 0 pt" "\<forall>f \<in> set (pt_fields pt). [] \<notin> set (pf_jsonPaths f)"
  proof -
    have "apart ?fs" using wf_apart [OF wf] by (simp add: apart_def on_wire_def)
    note e = pt_entered_ok [OF this, of pt0, unfolded same]
    show ?thesis unfolding r(1)
      using e wf(1) names_ok_unique [of 0 "pt_fields pt"] paths_ok_unique [of 0 "pt_fields pt"]
      by (auto simp: pt_wf_def strs_ok_def)
  qed
  then show ?thesis using r pt_entered_fields [of ?fs pt0] by blast
qed

theorem payload_type_roundtrip_witness:
  "\<exists>w' pt'. pt_serialize 8 (mk_WrSerializer (replicate 256 0) (mk_GrowthPolicy 0)) (mk_PayloadTypeImpl ''n'' [example_field KVT_Int ''a'' [''j'']]) = Inr w' \<and>
     pt_deserialize (mk_PayloadTypeImpl ''m'' []) (ser_at [] (drop 0 (wr_Slice w') @ [])) = (pt', Inr (ser_at (wr_Slice w') [])) \<and>
     pt_fields pt' = [example_field KVT_Int ''a'' [''j'']] \<and> pt_name pt' = ''m''"
proof -
  let ?w = "mk_WrSerializer (replicate 256 0) (mk_GrowthPolicy 0)"
  let ?f = "example_field KVT_Int ''a'' [''j'']"
  let ?pt = "mk_PayloadTypeImpl ''n'' [?f]"
  have w: "wr_wf ?w" by (simp add: mk_WrSerializer_def wr_wf_def)
  have f: "on_wire ?f = ?f" "field_ok ?f" by (simp_all add: on_wire_def field_ok_def example_field_def)
  have one: "\<not> (128 :: u32) \<le> 1" "\<not> (128 :: u64) \<le> 1" by (simp_all add: word_le_nat_alt)
  have pt: "pt_fields ?pt = [?f]" by (simp add: mk_PayloadTypeImpl_def)
  have "length (enc_pt 8 [?f]) = 11"
    by (simp add: enc_pt_def enc_field_def example_field_def enc_kvt_def enc_vstring_def ElemSizeof_def uint32_pack_def
        uint64_pack_def Let_def one)
  then have l: "wr_len ?w + length (enc_pt 8 (map on_wire (pt_fields ?pt))) + 20 \<le> 2 ^ 60"
      "length (enc_pt 8 (map on_wire (pt_fields ?pt))) + length ([] :: bytes) < 2 ^ 32"
    by (simp_all add: mk_WrSerializer_def pt f(1))
  obtain w' where p: "pt_serialize 8 ?w ?pt = Inr w'"
    by (simp add: pt_serialize_def mk_PayloadTypeImpl_def pt_NumFields_def put_field_def put_string_def PutVString_def PutKeyValueType_def
        PutVarUint32_def PutVarUint64_def grow_append_def grow_def wr_append_def wr_copy_def mk_WrSerializer_def string_pack_enc
        enc_vstring_def uint32_pack_def uint64_pack_def Let_def example_field_def ElemSizeof_def one)
  obtain pt' r where d: "pt_deserialize (mk_PayloadTypeImpl ''m'' []) (ser_at (wr_Slice ?w) (drop (wr_len ?w) (wr_Slice w') @ [])) = (pt', r)"
    by (cases "pt_deserialize (mk_PayloadTypeImpl ''m'' []) (ser_at (wr_Slice ?w) (drop (wr_len ?w) (wr_Slice w') @ []))")
  have z: "wr_Slice ?w = []" "wr_len ?w = 0" by (simp_all add: mk_WrSerializer_def wr_Slice_def)
  have ok: "list_all field_ok (map on_wire (pt_fields ?pt))" "pt_NumFields ?pt < 2 ^ 31" using f by (simp_all add: pt pt_NumFields_def)
  have "r = Inr (ser_at (wr_Slice w') []) \<and> pt_fields pt' = [?f] \<and> pt_name pt' = ''m''"
    using payload_type_roundtrip [OF w ok l p d] by (simp add: pt f(1)) (simp add: mk_PayloadTypeImpl_def)
  with p d show ?thesis unfolding z by blast
qed

end
