(* ===== verification/TagsMatcher.thy ===== *)
theory TagsMatcher
  imports TagPaths PayloadType
begin

section \<open>The tags matcher\<close>

text \<open>
  \<open>core/cjson/tagsmatcherimpl.h\<close> and \<open>.cc\<close>, \<open>core/cjson/tagsmatcher.h\<close>, \<open>core/cjson/sparse_index_data.h\<close> and \<open>.cc\<close>: the
  names that occur in the documents of a namespace, numbered in the order of their first use, and the
  cache from paths of tags to the fields of the payload type and to sparse indexes.

  The hash map from names to tags is the list of its entries in the order of insertion; where the code
  iterates over it, the order of iteration is an argument. \<open>version_\<close> is an \<open>int32_t\<close> whose overflow is
  undefined. An operation may change the object and then throw, so it takes the object and gives it back
  together with the outcome. Beside the object stands the flag \<open>wasUpdated\<close>, which the handle \<open>TagsMatcher\<close>
  keeps and passes down by reference. The handle copies the object before a write if it is shared; what a
  copy of the cache shares with its original is in \<open>TagPaths\<close>, here each handle has a value of its own.
\<close>

subsection \<open>Sparse indexes\<close>

record sparse_index_data =
  sp_name :: string
  sp_dataType :: key_value_type
  sp_indexType :: nat
  sp_isArray :: bool
  sp_paths :: "u16 list list"

definition kIndexRTree :: nat where "kIndexRTree = 19"

definition sp_ArrayDim :: "sparse_index_data \<Rightarrow> nat" where
  "sp_ArrayDim sp = (if sp_indexType sp = kIndexRTree then 2 else 0)"

text \<open>What the code asks of an index: a field is a path (\<open>SetByJsonPath\<close>) or the number of a payload field.\<close>

record index_view =
  ix_Name :: string
  ix_Type :: nat
  ix_KeyType :: key_value_type
  ix_IsArray :: bool
  ix_Fields :: "u16 list option list"

fun paths_of_fields :: "u16 list option list \<Rightarrow> u16 list list res" where
  "paths_of_fields [] = Inr []"
| "paths_of_fields (None # fs) = Inl Abort"
| "paths_of_fields (Some p # fs) = bind_res (paths_of_fields fs) (\<lambda>ps. Inr (p # ps))"

definition mk_SparseIndexData :: "index_view \<Rightarrow> sparse_index_data res" where
  "mk_SparseIndexData idx =
     (if ix_Fields idx = [] then Inl Abort
      else bind_res (paths_of_fields (ix_Fields idx)) (\<lambda>ps.
           Inr \<lparr>sp_name = ix_Name idx, sp_dataType = ix_KeyType idx, sp_indexType = ix_Type idx,
                sp_isArray = ix_IsArray idx, sp_paths = ps\<rparr>))"

subsection \<open>The state, and operations that may fail half way\<close>

record tags_matcher =
  names2tags :: "(string \<times> u16) list"
  tags2names :: "string list"
  tm_payloadType :: "payload_type option"
  tm_version :: int
  tm_stateToken :: int
  tm_pathCache :: tags_path_cache
  tm_sparseIndexes :: "sparse_index_data list"

type_synonym 'a tm_op = "tags_matcher \<times> bool \<Rightarrow> (tags_matcher \<times> bool) \<times> 'a res"

definition tm_return :: "'a \<Rightarrow> 'a tm_op" where
  "tm_return x s = (s, Inr x)"

definition tm_lift :: "'a res \<Rightarrow> 'a tm_op" where
  "tm_lift r s = (s, r)"

definition tm_bind :: "'a tm_op \<Rightarrow> ('a \<Rightarrow> 'b tm_op) \<Rightarrow> 'b tm_op" where
  "tm_bind m f s = (case m s of (s, Inl e) \<Rightarrow> (s, Inl e) | (s, Inr x) \<Rightarrow> f x s)"

definition tm_get :: "tags_matcher tm_op" where
  "tm_get s = (s, Inr (fst s))"

definition tm_modify :: "(tags_matcher \<Rightarrow> tags_matcher) \<Rightarrow> unit tm_op" where
  "tm_modify f s = ((f (fst s), snd s), Inr ())"

text \<open>\<open>wasUpdated |= b\<close>; running a part with a flag of its own, which it returns.\<close>

definition tm_mark :: "bool \<Rightarrow> unit tm_op" where
  "tm_mark b s = ((fst s, snd s \<or> b), Inr ())"

definition tm_local :: "'a tm_op \<Rightarrow> bool tm_op" where
  "tm_local m s = (case m (fst s, False) of
      ((t, u), Inl e) \<Rightarrow> ((t, snd s), Inl e)
    | ((t, u), Inr _) \<Rightarrow> ((t, snd s), Inr u))"

fun tm_each :: "('a \<Rightarrow> unit tm_op) \<Rightarrow> 'a list \<Rightarrow> unit tm_op" where
  "tm_each f [] = tm_return ()"
| "tm_each f (x # xs) = tm_bind (f x) (\<lambda>_. tm_each f xs)"

fun tm_map :: "('a \<Rightarrow> 'b tm_op) \<Rightarrow> 'a list \<Rightarrow> 'b list tm_op" where
  "tm_map f [] = tm_return []"
| "tm_map f (x # xs) = tm_bind (f x) (\<lambda>y. tm_bind (tm_map f xs) (\<lambda>ys. tm_return (y # ys)))"

definition tm_bump :: "unit tm_op" where
  "tm_bump s = (if tm_version (fst s) = 2 ^ 31 - 1 then (s, Inl UB)
     else (((fst s)\<lparr>tm_version := tm_version (fst s) + 1\<rparr>, snd s), Inr ()))"

definition tm_unbump :: "unit tm_op" where
  "tm_unbump s = (if tm_version (fst s) = - (2 ^ 31) then (s, Inl UB)
     else (((fst s)\<lparr>tm_version := tm_version (fst s) - 1\<rparr>, snd s), Inr ()))"

subsection \<open>Names and tags\<close>

definition mk_TagsMatcherImpl_default :: "int \<Rightarrow> tags_matcher" where
  "mk_TagsMatcherImpl_default token =
     \<lparr>names2tags = [], tags2names = [], tm_payloadType = None, tm_version = 0, tm_stateToken = token,
      tm_pathCache = TPC [], tm_sparseIndexes = []\<rparr>"

definition tm_Size :: "tags_matcher \<Rightarrow> nat" where
  "tm_Size t = length (tags2names t)"

definition name2tag :: "tags_matcher \<Rightarrow> string \<Rightarrow> u16" where
  "name2tag t name = (case map_of (names2tags t) name of None \<Rightarrow> 0 | Some tag \<Rightarrow> tag)"

definition validateTagSize :: "nat \<Rightarrow> unit res" where
  "validateTagSize sz = guard_res (int sz \<le> ctag_kNameMax) (Err ErrParams)"

text \<open>The tag of the next name.\<close>

definition next_tag :: "tags_matcher \<Rightarrow> u16 res" where
  "next_tag t = TagName_of_uint (word_of_nat (length (tags2names t) + 1))"

definition tm_append :: "string \<Rightarrow> u16 \<Rightarrow> tags_matcher \<Rightarrow> tags_matcher" where
  "tm_append name tag t = t\<lparr>names2tags := names2tags t @ [(name, tag)], tags2names := tags2names t @ [name]\<rparr>"

definition name2tag_add :: "string \<Rightarrow> bool \<Rightarrow> u16 tm_op" where
  "name2tag_add n canAdd =
     tm_bind tm_get (\<lambda>t. let tag = name2tag t n in
     if \<not> TagName_IsEmpty tag \<or> \<not> canAdd then tm_return tag
     else tm_bind (tm_lift (validateTagSize (length (tags2names t) + 1))) (\<lambda>_.
          tm_bind (tm_lift (next_tag t)) (\<lambda>new.
          case map_of (names2tags t) n of
            Some old \<Rightarrow> tm_return old
          | None \<Rightarrow> tm_bind (tm_modify (tm_append n new)) (\<lambda>_.
                    tm_bind tm_bump (\<lambda>_. tm_bind (tm_mark True) (\<lambda>_. tm_return new))))))"

definition tag2name :: "tags_matcher \<Rightarrow> u16 \<Rightarrow> string res" where
  "tag2name t tag =
     (if TagName_IsEmpty tag then Inr ''''
      else if unat tag > length (tags2names t) then Inl (Err ErrTagsMissmatch)
      else Inr (tags2names t ! (unat tag - 1)))"

definition tag2name_packed :: "tags_matcher \<Rightarrow> u32 \<Rightarrow> string res" where
  "tag2name_packed t tag = bind_res (TagName_of_uint (ucast (tag AND ctag_kNameMask))) (tag2name t)"

text \<open>The loop appends to the result, behind a dot unless the result is empty.\<close>

fun path2name_loop :: "tags_matcher \<Rightarrow> string \<Rightarrow> u16 list \<Rightarrow> string res" where
  "path2name_loop t acc [] = Inr acc"
| "path2name_loop t acc (tag # tp) =
     bind_res (tag2name t tag) (\<lambda>n. path2name_loop t ((if acc \<noteq> [] then acc @ ''.'' else acc) @ n) tp)"

definition Path2Name :: "tags_matcher \<Rightarrow> u16 list \<Rightarrow> string res" where
  "Path2Name t tp = path2name_loop t '''' tp"

definition tm_Contains :: "tags_matcher \<Rightarrow> tags_matcher \<Rightarrow> bool" where
  "tm_Contains t tm \<longleftrightarrow> length (tags2names tm) \<le> length (tags2names t) \<and>
     take (length (tags2names tm)) (tags2names t) = tags2names tm"

definition tm_IsSubsetOf :: "tags_matcher \<Rightarrow> tags_matcher \<Rightarrow> bool" where
  "tm_IsSubsetOf t tm = tm_Contains tm t"

definition tm_Clear :: "unit tm_op" where
  "tm_Clear = tm_bind (tm_modify (\<lambda>t. t\<lparr>names2tags := [], tags2names := [], tm_pathCache := tpc_Clear (tm_pathCache t)\<rparr>))
     (\<lambda>_. tm_bump)"

subsection \<open>Paths of documents\<close>

definition str_find_from :: "char \<Rightarrow> string \<Rightarrow> nat \<Rightarrow> nat option" where
  "str_find_from c s pos = map_option (\<lambda>k. pos + k) (str_find c (drop pos s))"

text \<open>
  The fields that the loop over a JSON path visits, in order: what stands between two dots, unless it is
  empty. The positions do not depend on what the body of the loop does.
\<close>

lemma str_find_le: "str_find c s = Some k \<Longrightarrow> k < length s"
  by (simp add: str_find_def Let_def split: if_splits)

function json_path_fields :: "string \<Rightarrow> nat \<Rightarrow> nat \<Rightarrow> string list" where
  "json_path_fields jsonPath nextPos lastPos =
     (if nextPos = length jsonPath then []
      else let nextPos = (case str_find_from CHR ''.'' jsonPath lastPos of None \<Rightarrow> length jsonPath | Some p \<Rightarrow> p)
           in (if nextPos \<noteq> lastPos then [take (nextPos - lastPos) (drop lastPos jsonPath)] else []) @
              json_path_fields jsonPath nextPos (nextPos + 1))"
  by pat_completeness auto

termination
  by (relation "measure (\<lambda>(s, nextPos, lastPos). if nextPos = length s then 0 else Suc (length s - lastPos))")
    (auto simp: str_find_from_def dest: str_find_le split: option.splits)

declare json_path_fields.simps [simp del]

fun path2tag_loop :: "bool \<Rightarrow> u16 list \<Rightarrow> string list \<Rightarrow> u16 list tm_op" where
  "path2tag_loop canAdd fieldTags [] = tm_return fieldTags"
| "path2tag_loop canAdd fieldTags (field # rest) =
     tm_bind (name2tag_add field canAdd) (\<lambda>fieldTag.
     if TagName_IsEmpty fieldTag then tm_return [] else path2tag_loop canAdd (fieldTags @ [fieldTag]) rest)"

definition path2tag_add :: "string \<Rightarrow> bool \<Rightarrow> u16 list tm_op" where
  "path2tag_add jsonPath canAdd = path2tag_loop canAdd [] (json_path_fields jsonPath 0 0)"

definition path2tag :: "tags_matcher \<Rightarrow> string \<Rightarrow> u16 list res" where
  "path2tag t jsonPath = snd (path2tag_add jsonPath False (t, False))"

text \<open>The indexes behind a name; \<open>try_stoi\<close>, a vendored parser, is an argument.\<close>

definition bracket_node :: "(string \<Rightarrow> int option) \<Rightarrow> string \<Rightarrow> indexed_path_node res" where
  "bracket_node try_stoi content =
     (if content = '''' then Inl (Err ErrParams)
      else if content = ''*'' then Inr (NodeIndex TagIndex_all_v)
      else case try_stoi content of
             None \<Rightarrow> Inl (Err ErrParams)
           | Some index \<Rightarrow>
               if index < 0 then Inl (Err ErrLogic)
               else bind_res (TagIndex_of_int index) (\<lambda>i. Inr (NodeIndex i)))"

lemma str_find_next:
  assumes "str_find c s = Some p" "str_find_from d s p = Some q" "c \<noteq> d"
  shows "p < q \<and> q < length s"
proof -
  have p: "p < length s" "s ! p = c"
    using assms(1) nth_length_takeWhile [of "\<lambda>x. x \<noteq> c" s] by (auto simp: str_find_def Let_def split: if_splits)
  obtain k where k: "str_find d (drop p s) = Some k" "q = p + k" using assms(2) by (auto simp: str_find_from_def)
  have "drop p s = c # drop (Suc p) s" using p Cons_nth_drop_Suc by fastforce
  then have "k \<noteq> 0" using k(1) assms(3) by (auto simp: str_find_def Let_def split: if_splits)
  then show ?thesis using str_find_le [OF k(1)] k(2) p(1) by simp
qed

function index_loop :: "(string \<Rightarrow> int option) \<Rightarrow> string \<Rightarrow> indexed_path_node list res" where
  "index_loop try_stoi indexedField =
     (case str_find CHR ''['' indexedField of
        None \<Rightarrow> Inr []
      | Some openBracketPos \<Rightarrow>
          (case str_find_from CHR '']'' indexedField openBracketPos of
             None \<Rightarrow> Inl (Err ErrParams)
           | Some closeBracketPos \<Rightarrow>
               bind_res (bracket_node try_stoi
                   (take (closeBracketPos - openBracketPos - 1) (drop (openBracketPos + 1) indexedField))) (\<lambda>node.
               bind_res (index_loop try_stoi (drop closeBracketPos indexedField)) (\<lambda>nodes. Inr (node # nodes)))))"
  by pat_completeness auto

termination
  by (relation "measure (\<lambda>(_, s). length s)") (auto dest: str_find_next)

declare index_loop.simps [simp del]

fun path2indexedtag_loop ::
  "(string \<Rightarrow> int option) \<Rightarrow> bool \<Rightarrow> indexed_path_node list \<Rightarrow> string list \<Rightarrow> indexed_path_node list tm_op" where
  "path2indexedtag_loop try_stoi canAdd fieldTags [] = tm_return fieldTags"
| "path2indexedtag_loop try_stoi canAdd fieldTags (indexedField # rest) =
     (let fieldName = (case str_find CHR ''['' indexedField of None \<Rightarrow> indexedField | Some p \<Rightarrow> take p indexedField)
      in tm_bind (name2tag_add fieldName canAdd) (\<lambda>tagName.
         if TagName_IsEmpty tagName then tm_return []
         else tm_bind (tm_lift (index_loop try_stoi indexedField)) (\<lambda>nodes.
              path2indexedtag_loop try_stoi canAdd (fieldTags @ NodeName tagName # nodes) rest)))"

definition path2indexedtag_add :: "(string \<Rightarrow> int option) \<Rightarrow> string \<Rightarrow> bool \<Rightarrow> indexed_path_node list tm_op" where
  "path2indexedtag_add try_stoi jsonPath canAdd =
     path2indexedtag_loop try_stoi canAdd [] (json_path_fields jsonPath 0 0)"

definition path2indexedtag :: "(string \<Rightarrow> int option) \<Rightarrow> tags_matcher \<Rightarrow> string \<Rightarrow> indexed_path_node list res" where
  "path2indexedtag try_stoi t jsonPath = snd (path2indexedtag_add try_stoi jsonPath False (t, False))"

subsection \<open>Fields of paths, and building the cache\<close>

definition tags2field :: "tags_matcher \<Rightarrow> u16 list \<Rightarrow> field_properties res" where
  "tags2field t path = (if path = [] then Inr kNotIndexed else tpc_Lookup path (tm_pathCache t))"

definition tags2field_indexed :: "tags_matcher \<Rightarrow> indexed_path_node list \<Rightarrow> field_properties res" where
  "tags2field_indexed t path =
     (let path = take (trailing_start path (length path)) path
      in if path = [] then Inr kNotIndexed else tpc_Lookup_indexed path (tm_pathCache t))"

definition cache_Set :: "u16 list \<Rightarrow> field_properties \<Rightarrow> unit tm_op" where
  "cache_Set path f =
     tm_bind tm_get (\<lambda>t. tm_bind (tm_lift (tpc_Set path f (tm_pathCache t))) (\<lambda>c. tm_modify (\<lambda>t. t\<lparr>tm_pathCache := c\<rparr>)))"

definition field_props :: "nat \<Rightarrow> payload_field \<Rightarrow> field_properties" where
  "field_props i field = mk_FieldProperties (int i) (unat (pf_arrayDims field)) (pf_isArray field) (pf_type field) False"

definition sparse_props :: "nat \<Rightarrow> sparse_index_data \<Rightarrow> field_properties" where
  "sparse_props i sparse = mk_FieldProperties (int i) (sp_ArrayDim sparse) (sp_isArray sparse) (sp_dataType sparse) True"

definition cache_json_path :: "field_properties \<Rightarrow> string \<Rightarrow> unit tm_op" where
  "cache_json_path f jsonPath =
     (if jsonPath = [] then tm_return ()
      else tm_bind (tm_map (\<lambda>name. name2tag_add name True) (split_str jsonPath ''.'' True)) (\<lambda>pathIdx. cache_Set pathIdx f))"

definition cache_sparse_path :: "field_properties \<Rightarrow> u16 list \<Rightarrow> unit tm_op" where
  "cache_sparse_path f path = (if path = [] then tm_return () else cache_Set path f)"

text \<open>Field 0 holds the tuple. A null payload type must not be asked for its fields.\<close>

definition BuildTagsCache :: "unit tm_op" where
  "BuildTagsCache =
     tm_bind (tm_modify (\<lambda>t. t\<lparr>tm_pathCache := tpc_Clear (tm_pathCache t)\<rparr>)) (\<lambda>_.
     tm_bind tm_get (\<lambda>t.
     if tm_payloadType t = None \<and> tm_sparseIndexes t = [] then tm_return ()
     else tm_bind (case tm_payloadType t of
              None \<Rightarrow> tm_lift (Inl UB)
            | Some pt \<Rightarrow> tm_each (\<lambda>i. tm_bind (tm_lift (pt_Field pt i)) (\<lambda>field.
                tm_each (cache_json_path (field_props i field)) (pf_jsonPaths field))) [1..<pt_NumFields pt]) (\<lambda>_.
          tm_each (\<lambda>i. let sparse = tm_sparseIndexes t ! i
             in tm_each (cache_sparse_path (sparse_props i sparse)) (sp_paths sparse)) [0..<length (tm_sparseIndexes t)])))"

datatype need_change_tm_version = NeedIncrement | NeedDecrement | NeedNo

text \<open>Whether a field has the type it had.\<close>

definition same_field :: "payload_type \<Rightarrow> payload_type \<Rightarrow> nat \<Rightarrow> bool res" where
  "same_field new old field =
     bind_res (pt_Field new field) (\<lambda>lf. bind_res (pt_Field old field) (\<lambda>rf.
     Inr (pf_type lf = pf_type rf \<and> pf_isArray lf = pf_isArray rf \<and> pf_jsonPaths lf = pf_jsonPaths rf)))"

fun fields_changed :: "payload_type \<Rightarrow> payload_type \<Rightarrow> nat list \<Rightarrow> bool res" where
  "fields_changed new old [] = Inr False"
| "fields_changed new old (i # rest) =
     bind_res (same_field new old i) (\<lambda>same. if same then fields_changed new old rest else Inr True)"

definition type_changed :: "payload_type option \<Rightarrow> payload_type option \<Rightarrow> bool \<Rightarrow> bool res" where
  "type_changed new old newType =
     (case (new, old) of
        (None, None) \<Rightarrow> Inl UB
      | (Some new, Some old) \<Rightarrow>
          if newType \<or> pt_NumFields new \<noteq> pt_NumFields old then Inr True
          else fields_changed new old [1..<pt_NumFields new]
      | _ \<Rightarrow> Inr True)"

definition updatePayloadType :: "payload_type option \<Rightarrow> bool \<Rightarrow> need_change_tm_version \<Rightarrow> unit tm_op" where
  "updatePayloadType payloadType sparseWasUpdated changeVersion =
     tm_bind tm_get (\<lambda>t. let old = tm_payloadType t in
     tm_bind (tm_modify (\<lambda>t. t\<lparr>tm_payloadType := payloadType\<rparr>)) (\<lambda>_.
     tm_bind (tm_local BuildTagsCache) (\<lambda>newType.
     tm_bind (tm_lift (type_changed payloadType old newType)) (\<lambda>newType.
     tm_bind (tm_mark (newType \<or> sparseWasUpdated)) (\<lambda>_.
     case changeVersion of NeedIncrement \<Rightarrow> tm_bump | NeedDecrement \<Rightarrow> tm_unbump | NeedNo \<Rightarrow> tm_return ())))))"

definition UpdatePayloadType_data ::
  "payload_type option \<Rightarrow> sparse_index_data list \<Rightarrow> need_change_tm_version \<Rightarrow> unit tm_op" where
  "UpdatePayloadType_data payloadType sparseIndexes changeVersion =
     tm_bind tm_get (\<lambda>t.
     if payloadType = None \<and> tm_payloadType t = None \<and> sparseIndexes = [] \<and> tm_sparseIndexes t = [] then tm_return ()
     else let newSparse = (sparseIndexes \<noteq> tm_sparseIndexes t)
          in tm_bind (if newSparse then tm_modify (\<lambda>t. t\<lparr>tm_sparseIndexes := sparseIndexes\<rparr>) else tm_return ()) (\<lambda>_.
             updatePayloadType payloadType newSparse changeVersion))"

subsection \<open>Sparse indexes that come and go\<close>

definition addSparseIndex :: "index_view \<Rightarrow> unit tm_op" where
  "addSparseIndex idx =
     tm_bind (tm_lift (mk_SparseIndexData idx)) (\<lambda>sp. tm_modify (\<lambda>t. t\<lparr>tm_sparseIndexes := tm_sparseIndexes t @ [sp]\<rparr>))"

text \<open>The comparison of the paths stops at the first that differs and aborts at a field that is no path.\<close>

fun paths_differ :: "u16 list list \<Rightarrow> u16 list option list \<Rightarrow> bool res" where
  "paths_differ (p # ps) (Some q # qs) = (if p \<noteq> q then Inr True else paths_differ ps qs)"
| "paths_differ (p # ps) (None # qs) = Inl Abort"
| "paths_differ _ _ = Inr False"

definition sparse_differs :: "sparse_index_data \<Rightarrow> index_view \<Rightarrow> bool res" where
  "sparse_differs lhs rhs =
     (if sp_dataType lhs \<noteq> ix_KeyType rhs \<or> sp_indexType lhs \<noteq> ix_Type rhs \<or> sp_isArray lhs \<noteq> ix_IsArray rhs \<or>
         sp_name lhs \<noteq> ix_Name rhs \<or> length (sp_paths lhs) \<noteq> length (ix_Fields rhs) then Inr True
      else paths_differ (sp_paths lhs) (ix_Fields rhs))"

fun any_sparse_differs :: "sparse_index_data list \<Rightarrow> index_view list \<Rightarrow> bool res" where
  "any_sparse_differs (l # ls) (r # rs) = bind_res (sparse_differs l r) (\<lambda>d. if d then Inr True else any_sparse_differs ls rs)"
| "any_sparse_differs _ _ = Inr False"

definition UpdatePayloadType :: "payload_type option \<Rightarrow> index_view list \<Rightarrow> need_change_tm_version \<Rightarrow> unit tm_op" where
  "UpdatePayloadType payloadType sparseIndexes changeVersion =
     tm_bind tm_get (\<lambda>t.
     if payloadType = None \<and> tm_payloadType t = None \<and> sparseIndexes = [] \<and> tm_sparseIndexes t = [] then tm_return ()
     else tm_bind (tm_lift (if length (tm_sparseIndexes t) \<noteq> length sparseIndexes then Inr True
                            else any_sparse_differs (tm_sparseIndexes t) sparseIndexes)) (\<lambda>newSparse.
          tm_bind (if newSparse
                   then tm_bind (tm_modify (\<lambda>t. t\<lparr>tm_sparseIndexes := []\<rparr>)) (\<lambda>_. tm_each addSparseIndex sparseIndexes)
                   else tm_return ()) (\<lambda>_.
          updatePayloadType payloadType newSparse changeVersion)))"

definition mk_TagsMatcherImpl :: "payload_type option \<Rightarrow> index_view list \<Rightarrow> int \<Rightarrow> tags_matcher res" where
  "mk_TagsMatcherImpl payloadType sparse token =
     (case UpdatePayloadType payloadType sparse NeedNo (mk_TagsMatcherImpl_default token, False) of
        (s, Inl e) \<Rightarrow> Inl e | (s, Inr _) \<Rightarrow> Inr (fst s))"

text \<open>
  Unlike \<open>BuildTagsCache\<close>, an empty path is not skipped here, and the cache is not built anew: \<open>Set\<close> writes into the
  levels it has, which a copy of the matcher shares. The state is one matcher's; what its copies see of the call
  is the pointer model's matter (\<open>TagPaths.ptr_copy_shares\<close>).
\<close>

definition AddSparseIndex :: "index_view \<Rightarrow> unit tm_op" where
  "AddSparseIndex idx =
     tm_bind (addSparseIndex idx) (\<lambda>_. tm_bind tm_get (\<lambda>t.
     let i = length (tm_sparseIndexes t) - 1; sparse = last (tm_sparseIndexes t)
     in tm_each (\<lambda>path. cache_Set path (sparse_props i sparse)) (sp_paths sparse)))"

fun drop_named :: "string \<Rightarrow> sparse_index_data list \<Rightarrow> sparse_index_data list option" where
  "drop_named name [] = None"
| "drop_named name (sp # sps) = (if sp_name sp = name then Some sps else map_option (\<lambda>r. sp # r) (drop_named name sps))"

definition DropSparseIndex :: "string \<Rightarrow> unit tm_op" where
  "DropSparseIndex name =
     tm_bind tm_get (\<lambda>t. case drop_named name (tm_sparseIndexes t) of
       None \<Rightarrow> tm_return ()
     | Some sps \<Rightarrow> tm_bind (tm_modify (\<lambda>t. t\<lparr>tm_sparseIndexes := sps\<rparr>)) (\<lambda>_.
                  tm_bind (tm_local BuildTagsCache) (\<lambda>_. tm_return ())))"

definition tm_SparseIndex :: "tags_matcher \<Rightarrow> nat \<Rightarrow> sparse_index_data res" where
  "tm_SparseIndex t n =
     bind_res (guard_res (n < length (tm_sparseIndexes t)) (Err ErrAssert)) (\<lambda>_. Inr (tm_sparseIndexes t ! n))"

definition tm_SparseName :: "tags_matcher \<Rightarrow> nat \<Rightarrow> string res" where
  "tm_SparseName t n =
     bind_res (guard_res (n < length (tm_sparseIndexes t)) (Err ErrAssert)) (\<lambda>_. Inr (sp_name (tm_sparseIndexes t ! n)))"

subsection \<open>The wire format\<close>

definition tm_Serialize :: "wr_serializer \<Rightarrow> tags_matcher \<Rightarrow> wr_serializer res" where
  "tm_Serialize w t =
     bind_res (PutVarUint64 w (word_of_nat (length (tags2names t)))) (\<lambda>w. put_list put_string w (tags2names t))"

text \<open>The names are first made empty; each is entered in the map, where an entry of that name stays.\<close>

definition read_name :: "nat \<Rightarrow> string \<Rightarrow> u16 \<Rightarrow> tags_matcher \<Rightarrow> tags_matcher" where
  "read_name i name tag t = t\<lparr>
     names2tags := (if map_of (names2tags t) name = None then names2tags t @ [(name, tag)] else names2tags t),
     tags2names := (tags2names t)[i := name]\<rparr>"

fun tm_read_names :: "nat \<Rightarrow> nat \<Rightarrow> serializer \<Rightarrow> serializer tm_op" where
  "tm_read_names 0 i s = tm_return s"
| "tm_read_names (Suc n) i s =
     tm_bind (tm_lift (get_string s)) (\<lambda>(name, s).
     tm_bind (tm_lift (TagName_of_uint (word_of_nat (i + 1)))) (\<lambda>tag.
     tm_bind (tm_modify (read_name i name tag)) (\<lambda>_. tm_read_names n (i + 1) s)))"

definition tm_Deserialize :: "serializer \<Rightarrow> serializer tm_op" where
  "tm_Deserialize s =
     tm_bind tm_Clear (\<lambda>_. tm_bind (tm_lift (GetVarUInt s)) (\<lambda>(cnt, s).
     tm_bind (tm_lift (validateTagSize (unat cnt))) (\<lambda>_.
     tm_bind (tm_modify (\<lambda>t. t\<lparr>tags2names := replicate (unat cnt) ''''\<rparr>)) (\<lambda>_. tm_read_names (unat cnt) 0 s))))"

definition tm_Deserialize_token :: "serializer \<Rightarrow> int \<Rightarrow> int \<Rightarrow> serializer tm_op" where
  "tm_Deserialize_token s version stateToken =
     tm_bind (tm_Deserialize s) (\<lambda>s.
     tm_bind (tm_modify (\<lambda>t. t\<lparr>tm_version := version, tm_stateToken := stateToken\<rparr>)) (\<lambda>_. tm_return s))"

subsection \<open>Putting matchers together\<close>

text \<open>\<open>keys\<close> are the names of the other matcher in the order in which its hash map is iterated.\<close>

definition tm_emplace_name :: "string \<Rightarrow> bool tm_op" where
  "tm_emplace_name n =
     tm_bind tm_get (\<lambda>t. tm_bind (tm_lift (next_tag t)) (\<lambda>tag.
     if map_of (names2tags t) n = None then tm_bind (tm_modify (tm_append n tag)) (\<lambda>_. tm_return True)
     else tm_return False))"

fun AddNamesFrom :: "string list \<Rightarrow> bool tm_op" where
  "AddNamesFrom [] = tm_return False"
| "AddNamesFrom (n # keys) =
     tm_bind (tm_emplace_name n) (\<lambda>new. tm_bind (if new then tm_bump else tm_return ()) (\<lambda>_.
     tm_bind (AddNamesFrom keys) (\<lambda>modified. tm_return (new \<or> modified))))"

fun tm_merge_names :: "tags_matcher \<Rightarrow> nat list \<Rightarrow> bool tm_op" where
  "tm_merge_names tm [] = tm_return True"
| "tm_merge_names tm (i # rest) =
     (if \<not> i < length (tags2names tm) then tm_lift (Inl UB)
      else let n = tags2names tm ! i
           in tm_bind (tm_modify (\<lambda>t. t\<lparr>tags2names := (tags2names t)[i := n]\<rparr>)) (\<lambda>_.
              tm_bind (tm_lift (TagName_of_uint (word_of_nat (i + 1)))) (\<lambda>tag.
              tm_bind tm_get (\<lambda>t.
              if map_of (names2tags t) n \<noteq> None then tm_return False
              else tm_bind (tm_modify (\<lambda>t. t\<lparr>names2tags := names2tags t @ [(n, tag)]\<rparr>)) (\<lambda>_.
                   tm_merge_names tm rest)))))"

definition tm_Merge :: "tags_matcher \<Rightarrow> bool tm_op" where
  "tm_Merge tm =
     tm_bind tm_get (\<lambda>t.
     if tm_Contains tm t then
       let oldSz = tm_Size t; newSz = length (names2tags tm)
       in tm_bind (tm_modify (\<lambda>t. t\<lparr>tags2names := resize newSz '''' (tags2names t)\<rparr>)) (\<lambda>_.
          tm_bind (tm_merge_names tm [oldSz..<newSz]) (\<lambda>ok.
          if \<not> ok then tm_return False
          else tm_bind (if oldSz \<noteq> newSz
                        then tm_bind (tm_mark True) (\<lambda>_.
                             if tm_version t \<ge> tm_version tm then tm_bump
                             else tm_modify (\<lambda>t. t\<lparr>tm_version := tm_version tm\<rparr>))
                        else tm_return ()) (\<lambda>_. tm_return True)))
     else tm_return (tm_Contains t tm))"

text \<open>
  A state token no matcher of the list has, from the tokens that the random generator yields (\<open>None\<close> when
  they run out before a new one has come).
\<close>

fun fresh_token :: "int list \<Rightarrow> int list \<Rightarrow> int option" where
  "fresh_token taken [] = None"
| "fresh_token taken (d # draws) = (if d \<in> set taken then fresh_token taken draws else Some d)"

fun merge_lists :: "tags_matcher \<Rightarrow> string list \<Rightarrow> tags_matcher res" where
  "merge_lists t [] = Inr t"
| "merge_lists t (n # ns) =
     bind_res (next_tag t) (\<lambda>tag. merge_lists (if map_of (names2tags t) n = None then tm_append n tag t else t) ns)"

definition createMergedTagsMatcher :: "int list \<Rightarrow> tags_matcher option list \<Rightarrow> tags_matcher option res" where
  "createMergedTagsMatcher draws tmList =
     (let tms = map the (filter (\<lambda>tm. tm \<noteq> None) tmList)
      in case fresh_token (map tm_stateToken tms) draws of
           None \<Rightarrow> Inr None
         | Some token \<Rightarrow> bind_res (merge_lists (mk_TagsMatcherImpl_default token) (concat (map tags2names tms))) (\<lambda>t. Inr (Some t)))"

subsection \<open>The handle\<close>

text \<open>
  The handle \<open>TagsMatcher\<close> is the object and its flag. Without the right to add it only reads; with it, it
  asks the object first and copies it only when something has to be added.
\<close>

definition TM_name2tag :: "string option \<Rightarrow> bool \<Rightarrow> u16 tm_op" where
  "TM_name2tag name canAdd =
     (case name of
        None \<Rightarrow> tm_return 0
      | Some n \<Rightarrow> tm_bind tm_get (\<lambda>t. let res = name2tag t n
          in if TagName_IsEmpty res then name2tag_add n canAdd else tm_return res))"

definition TM_path2tag :: "string \<Rightarrow> bool \<Rightarrow> u16 list tm_op" where
  "TM_path2tag jsonPath canAdd =
     (if jsonPath = [] then tm_return []
      else tm_bind tm_get (\<lambda>t. tm_bind (tm_lift (path2tag t jsonPath)) (\<lambda>res.
           if res = [] \<and> canAdd then path2tag_add jsonPath canAdd else tm_return res)))"

definition TM_path2indexedtag :: "(string \<Rightarrow> int option) \<Rightarrow> string \<Rightarrow> bool \<Rightarrow> indexed_path_node list tm_op" where
  "TM_path2indexedtag try_stoi jsonPath canAdd =
     (if jsonPath = [] then tm_return []
      else tm_bind tm_get (\<lambda>t. tm_bind (tm_lift (path2indexedtag try_stoi t jsonPath)) (\<lambda>res.
           if res = [] \<and> canAdd then path2indexedtag_add try_stoi jsonPath canAdd else tm_return res)))"

definition TM_path2indexedtag_const :: "(string \<Rightarrow> int option) \<Rightarrow> string \<Rightarrow> indexed_path_node list tm_op" where
  "TM_path2indexedtag_const try_stoi jsonPath s =
     (s, bind_res (path2indexedtag try_stoi (fst s) jsonPath) (\<lambda>tagsPath. if snd s then Inl Abort else Inr tagsPath))"

definition TM_deserialize :: "serializer \<Rightarrow> serializer tm_op" where
  "TM_deserialize ser = tm_bind (tm_Deserialize ser) (\<lambda>ser. tm_bind BuildTagsCache (\<lambda>_. tm_return ser))"

definition TM_deserialize_token :: "serializer \<Rightarrow> int \<Rightarrow> int \<Rightarrow> serializer tm_op" where
  "TM_deserialize_token ser version stateToken =
     tm_bind (tm_Deserialize_token ser version stateToken) (\<lambda>ser. tm_bind BuildTagsCache (\<lambda>_. tm_return ser))"

definition TM_clearUpdated :: "unit tm_op" where
  "TM_clearUpdated s = ((fst s, False), Inr ())"

definition TM_setUpdated :: "unit tm_op" where
  "TM_setUpdated s = ((fst s, True), Inr ())"

text \<open>These two work on a copy, which replaces the object only when they succeed.\<close>

definition TM_try_merge :: "tags_matcher \<Rightarrow> bool tm_op" where
  "TM_try_merge tm s =
     (if tm_Contains (fst s) tm then (s, Inr True)
      else case tm_Merge tm (fst s, False) of
             (tmp, Inl e) \<Rightarrow> (s, Inl e)
           | (tmp, Inr ok) \<Rightarrow> if \<not> ok then (s, Inr False) else ((fst tmp, snd s \<or> snd tmp), Inr True))"

definition TM_add_names_from :: "string list \<Rightarrow> unit tm_op" where
  "TM_add_names_from keys s =
     (case AddNamesFrom keys (fst s, snd s) of
        (tmp, Inl e) \<Rightarrow> (s, Inl e)
      | (tmp, Inr modified) \<Rightarrow> (if modified then (fst tmp, True) else s, Inr ()))"

subsection \<open>Names and tags belong together\<close>

text \<open>The tags of a list of names, and a matcher whose two members hold the same names.\<close>

definition tag_list :: "string list \<Rightarrow> (string \<times> u16) list" where
  "tag_list ns = zip ns (map (\<lambda>i. word_of_nat (i + 1)) [0..<length ns])"

definition tm_wf :: "tags_matcher \<Rightarrow> bool" where
  "tm_wf t \<longleftrightarrow> names2tags t = tag_list (tags2names t) \<and> distinct (tags2names t) \<and> length (tags2names t) \<le> 65535"

lemma tag_list_append: "tag_list (ns @ [n]) = tag_list ns @ [(n, word_of_nat (length ns + 1))]"
  by (simp add: tag_list_def)

lemma tag_list_length [simp]: "length (tag_list ns) = length ns"
  by (simp add: tag_list_def)

lemma tag_list_keys [simp]: "map fst (tag_list ns) = ns"
  by (simp add: tag_list_def)

lemma tag_list_nth: "i < length ns \<Longrightarrow> tag_list ns ! i = (ns ! i, word_of_nat (i + 1))"
  by (simp add: tag_list_def)

lemma map_of_tag_list: "distinct ns \<Longrightarrow> map_of (tag_list ns) n = Some k \<longleftrightarrow> (\<exists>i < length ns. ns ! i = n \<and> k = word_of_nat (i + 1))"
  by (subst map_of_eq_Some_iff) (auto simp: in_set_conv_nth tag_list_nth)

lemma map_of_tag_list_None: "map_of (tag_list ns) n = None \<longleftrightarrow> n \<notin> set ns"
  by (simp add: map_of_eq_None_iff flip: set_map)

lemma unat_tag: "i < 65535 \<Longrightarrow> unat (word_of_nat (i + 1) :: u16) = i + 1"
  by (simp only: unat_of_nat take_bit_nat_eq_self) (simp add: take_bit_nat_eq_self)

lemma tag_nonzero: "i < 65535 \<Longrightarrow> (word_of_nat (i + 1) :: u16) \<noteq> 0"
  using unat_tag [of i] by (metis Suc_eq_plus1 nat.distinct(1) unat_0)

lemma next_tag_simps:
  "length (tags2names t) < 65535 \<Longrightarrow> next_tag t = Inr (word_of_nat (length (tags2names t) + 1))"
  "length (tags2names t) = 65535 \<Longrightarrow> next_tag t = Inl (Err ErrLogic)"
proof -
  assume a: "length (tags2names t) < 65535"
  have "unat (word_of_nat (length (tags2names t) + 1) :: u64) = length (tags2names t) + 1"
    using a by (simp only: unat_of_nat take_bit_nat_eq_self) (simp add: take_bit_nat_eq_self)
  then show "next_tag t = Inr (word_of_nat (length (tags2names t) + 1))"
    using a by (simp add: next_tag_def TagName_of_uint_def word_less_nat_alt unsigned_of_nat del: of_nat_Suc of_nat_add)
qed (simp add: next_tag_def TagName_of_uint_def)

lemma name2tag_wf:
  assumes "tm_wf t"
  shows "map_of (names2tags t) n = None \<longleftrightarrow> n \<notin> set (tags2names t)"
    and "map_of (names2tags t) n = Some k \<longleftrightarrow> (\<exists>i < length (tags2names t). tags2names t ! i = n \<and> k = word_of_nat (i + 1))"
  using assms by (simp_all only: tm_wf_def map_of_tag_list map_of_tag_list_None)

lemma map_of_nonzero:
  assumes "tm_wf t" "map_of (names2tags t) n = Some k"
  shows "k \<noteq> 0"
proof -
  obtain i where "i < length (tags2names t)" "k = word_of_nat (i + 1)" using assms name2tag_wf(2) by blast
  then show ?thesis using tag_nonzero [of i] assms(1) by (simp only: tm_wf_def) linarith
qed

lemma name2tag_Some: "tm_wf t \<Longrightarrow> k \<noteq> 0 \<Longrightarrow> name2tag t n = k \<longleftrightarrow> map_of (names2tags t) n = Some k"
  by (cases "map_of (names2tags t) n") (simp_all add: name2tag_def)

lemma name2tag_zero: "tm_wf t \<Longrightarrow> name2tag t n = 0 \<longleftrightarrow> n \<notin> set (tags2names t)"
  using map_of_nonzero [of t n] name2tag_wf(1) [of t n]
  by (cases "map_of (names2tags t) n") (auto simp only: name2tag_def option.case)

lemma name2tag_known:
  assumes "tm_wf t" "k \<noteq> 0"
  shows "name2tag t n = k \<longleftrightarrow> unat k \<le> length (tags2names t) \<and> tags2names t ! (unat k - 1) = n"
proof -
  have l: "length (tags2names t) \<le> 65535" using assms(1) by (simp add: tm_wf_def)
  have k: "0 < unat k" "k = word_of_nat (unat k - 1 + 1)" using assms(2) by (simp_all add: unat_gt_0)
  have "name2tag t n = k \<longleftrightarrow> (\<exists>i < length (tags2names t). tags2names t ! i = n \<and> k = word_of_nat (i + 1))"
    unfolding name2tag_Some [OF assms] by (rule name2tag_wf(2) [OF assms(1)])
  also have "\<dots> \<longleftrightarrow> (\<exists>i < length (tags2names t). tags2names t ! i = n \<and> i = unat k - 1)"
    using k l unat_tag by (metis Suc_eq_plus1 diff_Suc_1 le_trans less_le_trans)
  also have "\<dots> \<longleftrightarrow> unat k \<le> length (tags2names t) \<and> tags2names t ! (unat k - 1) = n"
    using k(1) by auto
  finally show ?thesis .
qed

lemma tm_wf_append:
  assumes "tm_wf t" "n \<notin> set (tags2names t)" "next_tag t = Inr k"
  shows "tm_wf (tm_append n k t)"
proof -
  have "length (tags2names t) < 65535"
    using assms next_tag_simps(2) [of t] by (cases "length (tags2names t) = 65535") (auto simp: tm_wf_def)
  then show ?thesis using assms next_tag_simps(1) [of t] by (auto simp: tm_wf_def tm_append_def tag_list_append)
qed

lemma tm_wf_same: "names2tags t' = names2tags t \<Longrightarrow> tags2names t' = tags2names t \<Longrightarrow> tm_wf t' = tm_wf t"
  by (simp add: tm_wf_def)

subsection \<open>What every operation keeps\<close>

text \<open>
  A reflexive and transitive relation between the matcher before and after carries over from the basic
  operations to all that are put together from them, whether they end or throw.
\<close>

definition keeps :: "(tags_matcher \<Rightarrow> tags_matcher \<Rightarrow> bool) \<Rightarrow> 'a tm_op \<Rightarrow> bool" where
  "keeps R m \<longleftrightarrow> (\<forall>s. R (fst s) (fst (fst (m s))))"

lemma keepsD: "keeps R m \<Longrightarrow> m s = (s', r) \<Longrightarrow> R (fst s) (fst s')"
  unfolding keeps_def by (metis fst_conv)

definition keeps_at :: "(tags_matcher \<Rightarrow> tags_matcher \<Rightarrow> bool) \<Rightarrow> tags_matcher \<Rightarrow> 'a tm_op \<Rightarrow> bool" where
  "keeps_at R t m \<longleftrightarrow> (\<forall>u. R t (fst (fst (m (t, u)))))"

lemma keeps_iff: "keeps R m \<longleftrightarrow> (\<forall>t. keeps_at R t m)"
  by (auto simp: keeps_def keeps_at_def)

locale kept_relation =
  fixes R :: "tags_matcher \<Rightarrow> tags_matcher \<Rightarrow> bool"
  assumes refl: "R t t" and trans: "R t t' \<Longrightarrow> R t' t'' \<Longrightarrow> R t t''"
begin

lemma keeps_basic: "keeps R (tm_return x)" "keeps R (tm_lift r)" "keeps R tm_get" "keeps R (tm_mark b)"
  by (simp_all add: keeps_def tm_return_def tm_lift_def tm_get_def tm_mark_def refl)

lemma keeps_modify: "(\<And>t. R t (f t)) \<Longrightarrow> keeps R (tm_modify f)"
  by (simp add: keeps_def tm_modify_def)

lemma keeps_at_bind:
  assumes m: "keeps_at R t m" and f: "\<And>x. keeps R (f x)"
  shows "keeps_at R t (tm_bind m f)"
  unfolding keeps_at_def
proof
  fix u
  obtain s1 r where s1: "m (t, u) = (s1, r)" by (cases "m (t, u)")
  have 1: "R t (fst s1)" using m s1 by (metis keeps_at_def fst_conv)
  have "R (fst s1) (fst (fst (f x s1)))" for x using f [of x] unfolding keeps_def by blast
  then show "R t (fst (fst (tm_bind m f (t, u))))" using 1 s1 trans by (cases r) (auto simp: tm_bind_def)
qed

lemma keeps_bind: "keeps R m \<Longrightarrow> (\<And>x. keeps R (f x)) \<Longrightarrow> keeps R (tm_bind m f)"
  by (simp add: keeps_iff keeps_at_bind)

lemma keeps_each: "(\<And>x. x \<in> set xs \<Longrightarrow> keeps R (f x)) \<Longrightarrow> keeps R (tm_each f xs)"
  by (induction xs) (simp_all add: keeps_basic keeps_bind)

lemma keeps_map: "(\<And>x. keeps R (f x)) \<Longrightarrow> keeps R (tm_map f xs)"
  by (induction xs) (simp_all add: keeps_basic keeps_bind)

lemma keeps_local:
  assumes "keeps R m"
  shows "keeps R (tm_local m)"
  unfolding keeps_def
proof
  fix s :: "tags_matcher \<times> bool"
  obtain s1 r where s1: "m (fst s, False) = (s1, r)" by (cases "m (fst s, False)")
  then have "R (fst s) (fst s1)" using keepsD [OF assms s1] by simp
  then show "R (fst s) (fst (fst (tm_local m s)))" using s1 by (cases s1; cases r) (simp_all add: tm_local_def)
qed

text \<open>The same at one matcher, for what depends on the matcher that was read.\<close>

lemma keeps_get_bind: "(\<And>t. keeps_at R t (f t)) \<Longrightarrow> keeps R (tm_bind tm_get f)"
  by (simp add: keeps_def keeps_at_def tm_bind_def tm_get_def)

lemma keeps_at_keeps: "keeps R m \<Longrightarrow> keeps_at R t m"
  by (simp add: keeps_def keeps_at_def)

lemma keeps_at_lift: "(\<And>x. r = Inr x \<Longrightarrow> keeps_at R t (f x)) \<Longrightarrow> keeps_at R t (tm_bind (tm_lift r) f)"
  by (cases r) (simp_all add: keeps_at_def tm_bind_def tm_lift_def refl)

lemma keeps_at_modify: "R t (f t) \<Longrightarrow> keeps_at R t (tm_modify f)"
  by (simp add: keeps_at_def tm_modify_def)

lemmas keeps_rules = keeps_basic keeps_bind keeps_each keeps_map keeps_local

end

text \<open>The names that are there keep their places, and with them their tags.\<close>

definition tm_ext :: "tags_matcher \<Rightarrow> tags_matcher \<Rightarrow> bool" where
  "tm_ext t t' \<longleftrightarrow> (tm_wf t \<longrightarrow> tm_wf t' \<and> (\<exists>new. tags2names t' = tags2names t @ new))"

lemma tm_ext_refl: "tm_ext t t"
  by (simp add: tm_ext_def)

lemma tm_ext_trans: "tm_ext t t' \<Longrightarrow> tm_ext t' t'' \<Longrightarrow> tm_ext t t''"
  by (auto simp: tm_ext_def)

interpretation ext: kept_relation tm_ext
  by unfold_locales (rule tm_ext_refl, rule tm_ext_trans)

lemma tm_ext_same: "names2tags t' = names2tags t \<Longrightarrow> tags2names t' = tags2names t \<Longrightarrow> tm_ext t t'"
  unfolding tm_ext_def using tm_wf_same [of t' t] by simp

lemma tm_bump_ext [intro]: "keeps tm_ext tm_bump" "keeps tm_ext tm_unbump"
  by (auto simp: keeps_def tm_bump_def tm_unbump_def intro: tm_ext_same)

lemma tm_append_ext: "map_of (names2tags t) n = None \<Longrightarrow> next_tag t = Inr k \<Longrightarrow> tm_ext t (tm_append n k t)"
  unfolding tm_ext_def
proof (intro impI conjI)
  assume "map_of (names2tags t) n = None" "next_tag t = Inr k" "tm_wf t"
  then show "tm_wf (tm_append n k t)" using tm_wf_append [of t n k] name2tag_wf(1) [of t n] by blast
qed (simp add: tm_append_def)

lemma name2tag_add_ext [intro]: "keeps tm_ext (name2tag_add n canAdd)"
  unfolding name2tag_add_def Let_def
proof (intro ext.keeps_get_bind)
  fix t
  let ?m = "if \<not> TagName_IsEmpty (name2tag t n) \<or> \<not> canAdd then tm_return (name2tag t n)
     else tm_bind (tm_lift (validateTagSize (length (tags2names t) + 1))) (\<lambda>_. tm_bind (tm_lift (next_tag t)) (\<lambda>new.
          case map_of (names2tags t) n of Some old \<Rightarrow> tm_return old
          | None \<Rightarrow> tm_bind (tm_modify (tm_append n new)) (\<lambda>_. tm_bind tm_bump (\<lambda>_. tm_bind (tm_mark True) (\<lambda>_. tm_return new)))))"
  show "keeps_at tm_ext t ?m"
    by (cases "map_of (names2tags t) n")
      (auto intro!: ext.keeps_at_lift ext.keeps_at_bind ext.keeps_at_modify tm_append_ext ext.keeps_rules tm_bump_ext
        intro: ext.keeps_at_keeps)
qed

lemma modify_ext: "(\<And>t. names2tags (f t) = names2tags t \<and> tags2names (f t) = tags2names t) \<Longrightarrow> keeps tm_ext (tm_modify f)"
  by (rule ext.keeps_modify) (simp add: tm_ext_same)

lemma path2tag_loop_ext: "keeps tm_ext (path2tag_loop canAdd acc fs)"
  by (induction fs arbitrary: acc) (auto intro!: ext.keeps_rules name2tag_add_ext)

lemma path2tag_add_ext: "keeps tm_ext (path2tag_add s canAdd)"
  by (simp add: path2tag_add_def path2tag_loop_ext)

lemma path2indexedtag_loop_ext: "keeps tm_ext (path2indexedtag_loop stoi canAdd acc fs)"
  by (induction fs arbitrary: acc) (auto simp: Let_def intro!: ext.keeps_rules name2tag_add_ext split: option.split)

lemma path2indexedtag_add_ext: "keeps tm_ext (path2indexedtag_add stoi s canAdd)"
  by (simp add: path2indexedtag_add_def path2indexedtag_loop_ext)

lemma cache_Set_ext: "keeps tm_ext (cache_Set path f)"
  unfolding cache_Set_def by (intro ext.keeps_rules modify_ext) simp

lemma cache_paths_ext: "keeps tm_ext (cache_json_path f jp)" "keeps tm_ext (cache_sparse_path f path)"
  by (auto simp: cache_json_path_def cache_sparse_path_def intro!: ext.keeps_rules name2tag_add_ext cache_Set_ext)

lemma BuildTagsCache_ext: "keeps tm_ext BuildTagsCache"
  by (auto simp: BuildTagsCache_def Let_def intro!: ext.keeps_rules modify_ext cache_paths_ext split: option.split)

lemma updatePayloadType_ext: "keeps tm_ext (updatePayloadType pt b v)"
  by (auto simp: updatePayloadType_def Let_def intro!: ext.keeps_rules modify_ext BuildTagsCache_ext tm_bump_ext split: need_change_tm_version.split)

lemma addSparseIndex_ext: "keeps tm_ext (addSparseIndex ix)"
  by (auto simp: addSparseIndex_def intro!: ext.keeps_rules modify_ext)

lemma UpdatePayloadType_ext: "keeps tm_ext (UpdatePayloadType_data pt sps v)" "keeps tm_ext (UpdatePayloadType pt ixs v)"
  by (auto simp: UpdatePayloadType_data_def UpdatePayloadType_def Let_def
      intro!: ext.keeps_rules modify_ext updatePayloadType_ext addSparseIndex_ext)

lemma SparseIndex_ext: "keeps tm_ext (AddSparseIndex ix)" "keeps tm_ext (DropSparseIndex n)"
  by (auto simp: AddSparseIndex_def DropSparseIndex_def Let_def
      intro!: ext.keeps_rules modify_ext cache_Set_ext BuildTagsCache_ext addSparseIndex_ext split: option.split)

lemma tm_emplace_name_ext: "keeps tm_ext (tm_emplace_name n)"
  unfolding tm_emplace_name_def
  by (rule ext.keeps_get_bind, rule ext.keeps_at_lift)
    (auto intro!: ext.keeps_at_bind ext.keeps_at_modify tm_append_ext ext.keeps_basic intro: ext.keeps_at_keeps)

lemma AddNamesFrom_ext: "keeps tm_ext (AddNamesFrom keys)"
  by (induction keys) (auto intro!: ext.keeps_rules tm_emplace_name_ext tm_bump_ext)

text \<open>The handle.\<close>

lemma TM_name2tag_ext: "keeps tm_ext (TM_name2tag n canAdd)"
  by (auto simp: TM_name2tag_def Let_def intro!: ext.keeps_rules name2tag_add_ext split: option.split)

lemma TM_path_ext: "keeps tm_ext (TM_path2tag s canAdd)" "keeps tm_ext (TM_path2indexedtag stoi s canAdd)"
  by (auto simp: TM_path2tag_def TM_path2indexedtag_def intro!: ext.keeps_rules path2tag_add_ext path2indexedtag_add_ext)

lemma TM_add_names_from_ext: "keeps tm_ext (TM_add_names_from keys)"
  unfolding keeps_def
proof
  fix s :: "tags_matcher \<times> bool"
  obtain tmp r where "AddNamesFrom keys (fst s, snd s) = (tmp, r)" by (cases "AddNamesFrom keys (fst s, snd s)")
  then show "tm_ext (fst s) (fst (fst (TM_add_names_from keys s)))"
    using keepsD [OF AddNamesFrom_ext, of keys s tmp r] by (cases r) (auto simp: TM_add_names_from_def tm_ext_refl)
qed

subsection \<open>Merging\<close>

text \<open>The names of another matcher in place of the own ones, which are a beginning of them.\<close>

definition with_names :: "string list \<Rightarrow> tags_matcher \<Rightarrow> tags_matcher" where
  "with_names ns t = t\<lparr>tags2names := ns, names2tags := tag_list ns\<rparr>"

lemma with_names_wf: "distinct ns \<Longrightarrow> length ns \<le> 65535 \<Longrightarrow> tm_wf (with_names ns t)"
  by (simp add: tm_wf_def with_names_def)

lemma TagName_of_index: "i < 65535 \<Longrightarrow> TagName_of_uint (word_of_nat (i + 1)) = Inr (word_of_nat (i + 1))"
  using next_tag_simps(1) [of "(undefined :: tags_matcher)\<lparr>tags2names := replicate i ''''\<rparr>"] by (simp add: next_tag_def)

lemma tm_merge_names_all:
  assumes d: "distinct (tags2names tm)" and l: "length (tags2names tm) \<le> 65535"
  shows "i \<le> length (tags2names tm) \<Longrightarrow>
   tm_merge_names tm [i..<length (tags2names tm)]
     (t\<lparr>tags2names := take i (tags2names tm) @ replicate (length (tags2names tm) - i) '''',
        names2tags := tag_list (take i (tags2names tm))\<rparr>, u) =
   ((with_names (tags2names tm) t, u), Inr True)"
proof (induction "length (tags2names tm) - i" arbitrary: i)
  case 0
  then show ?case by (simp add: with_names_def tm_return_def)
next
  case (Suc k)
  let ?ns = "tags2names tm"
  have i: "i < length ?ns" "[i..<length ?ns] = i # [Suc i..<length ?ns]" using Suc.hyps(2) by (simp_all add: upt_conv_Cons)
  have r: "length ?ns - i = Suc (length ?ns - Suc i)" using i(1) by simp
  have u: "(take i ?ns @ replicate (length ?ns - i) '''')[i := ?ns ! i] = take (Suc i) ?ns @ replicate (length ?ns - Suc i) ''''"
    using i(1) by (simp add: list_update_append r take_Suc_conv_app_nth)
  have n: "?ns ! i \<notin> set (take i ?ns)"
    using d i(1) by (metis distinct_take take_Suc_conv_app_nth distinct_append disjoint_insert(1) list.simps(15) not_distinct_conv_prefix)
  have a: "tag_list (take i ?ns) @ [(?ns ! i, word_of_nat (i + 1))] = tag_list (take (Suc i) ?ns)"
    using i(1) tag_list_append [of "take i ?ns" "?ns ! i"] by (simp add: take_Suc_conv_app_nth)
  have tag: "TagName_of_uint (word_of_nat (i + 1)) = Inr (word_of_nat (i + 1))" by (rule TagName_of_index) (use i(1) l in simp)
  have "Suc i \<le> length ?ns" "k = length ?ns - Suc i" using Suc.hyps(2) i(1) by simp_all
  note ih = Suc.hyps(1) [OF this(2,1)]
  show ?case
    using i(1) ih n a tag u map_of_tag_list_None [of "take i ?ns" "?ns ! i"]
    by (simp add: i(2) Let_def tm_bind_def tm_modify_def tm_lift_def tm_get_def)
qed


lemma with_names_own: "names2tags t = tag_list (tags2names t) \<Longrightarrow> with_names (tags2names t) t = t"
  by (simp add: with_names_def)

lemma with_names_simps [simp]: "tags2names (with_names ns t) = ns" "tm_version (with_names ns t) = tm_version t"
  by (simp_all add: with_names_def)

text \<open>What merging gives when neither matcher has a name twice.\<close>

lemma tm_Merge_wf:
  assumes w: "tm_wf t" "tm_wf tm"
  shows "tm_Merge tm (t, u) =
    (if tm_Contains tm t
     then if tm_Size t = tm_Size tm then ((t, u), Inr True)
          else if tm_version t < tm_version tm then (((with_names (tags2names tm) t)\<lparr>tm_version := tm_version tm\<rparr>, True), Inr True)
          else if tm_version t = 2 ^ 31 - 1 then ((with_names (tags2names tm) t, True), Inl UB)
          else (((with_names (tags2names tm) t)\<lparr>tm_version := tm_version t + 1\<rparr>, True), Inr True)
     else ((t, u), Inr (tm_Contains t tm)))"
proof (cases "tm_Contains tm t")
  case True
  let ?ns = "tags2names tm" and ?o = "length (tags2names t)"
  have t: "names2tags t = tag_list (tags2names t)" and d: "distinct ?ns" "length ?ns \<le> 65535"
    and l: "length (names2tags tm) = length ?ns" using w by (simp_all add: tm_wf_def)
  have c: "?o \<le> length ?ns" "take ?o ?ns = tags2names t" using True by (simp_all add: tm_Contains_def)
  have r: "resize (length ?ns) '''' (tags2names t) = take ?o ?ns @ replicate (length ?ns - ?o) ''''"
    using c by (simp add: resize_def)
  have s: "t\<lparr>tags2names := resize (length ?ns) '''' (tags2names t)\<rparr> =
      t\<lparr>tags2names := take ?o ?ns @ replicate (length ?ns - ?o) '''', names2tags := tag_list (take ?o ?ns)\<rparr>"
    unfolding r c(2) using t by simp
  note m = tm_merge_names_all [OF d c(1), of t u, folded s]
  have e: "tags2names t = ?ns" if "?o = length ?ns" using that c(2) by simp
  show ?thesis
    using True m l e with_names_own [OF t]
    by (auto simp: tm_Merge_def tm_Size_def Let_def tm_bind_def tm_get_def tm_modify_def tm_return_def tm_mark_def tm_bump_def)
qed (simp add: tm_Merge_def tm_bind_def tm_get_def tm_return_def)

end
