(* ===== verification/TagsMatcherCache.thy ===== *)
theory TagsMatcherCache
  imports TagsMatcher
begin

section \<open>The tags matcher: cache, calls and wire format\<close>

text \<open>
  What the operations of \<open>TagsMatcher\<close> do to the cache of fields, first for those that build it and then for
  any run of calls; the paths of documents and their names; the round trip of a matcher that is sent.
\<close>

subsection \<open>The cache holds the fields\<close>

text \<open>
  An entry of the cache comes from the names of a JSON path or from the tags of a sparse index. \<open>caches\<close>
  says that a part of the building enters the given entries, all of whose names are known afterwards.
\<close>

type_synonym cache_source = "(string list + u16 list) \<times> field_properties"

definition source_path :: "tags_matcher \<Rightarrow> string list + u16 list \<Rightarrow> u16 list" where
  "source_path t src = (case src of Inl ns \<Rightarrow> map (name2tag t) ns | Inr tags \<Rightarrow> tags)"

definition source_known :: "tags_matcher \<Rightarrow> cache_source \<Rightarrow> bool" where
  "source_known t e = (case fst e of Inl ns \<Rightarrow> set ns \<subseteq> set (tags2names t) | Inr tags \<Rightarrow> True)"

definition entries_of :: "tags_matcher \<Rightarrow> cache_source list \<Rightarrow> (u16 list \<times> field_properties) list" where
  "entries_of t es = map (\<lambda>(src, f). (source_path t src, f)) es"

definition caches :: "cache_source list \<Rightarrow> tags_matcher \<Rightarrow> tags_matcher \<Rightarrow> bool" where
  "caches es t t' \<longleftrightarrow> tm_wf t' \<and> (\<exists>new. tags2names t' = tags2names t @ new) \<and>
     tm_payloadType t' = tm_payloadType t \<and> tm_sparseIndexes t' = tm_sparseIndexes t \<and>
     put_all tpc_Set (entries_of t' es) (tm_pathCache t) = Inr (tm_pathCache t') \<and> list_all (source_known t') es"

lemma tags_of_known:
  assumes w: "tm_wf t" "tm_wf t'" and e: "tags2names t' = tags2names t @ new" and n: "n \<in> set (tags2names t)"
  shows "name2tag t' n = name2tag t n"
proof -
  let ?k = "name2tag t n"
  have k: "?k \<noteq> 0" using name2tag_zero [OF w(1)] n by blast
  then have u: "unat ?k \<le> length (tags2names t)" "tags2names t ! (unat ?k - 1) = n" using name2tag_known [OF w(1) k] by blast+
  have "0 < unat ?k" using k by (simp add: unat_gt_0)
  then show ?thesis using name2tag_known [OF w(2) k, of n] u e by (auto simp: nth_append)
qed

lemma entries_stay:
  assumes "tm_wf t" "tm_wf t'" "tags2names t' = tags2names t @ new" "list_all (source_known t) es"
  shows "entries_of t' es = entries_of t es \<and> list_all (source_known t') es"
proof -
  have "source_path t' (fst e) = source_path t (fst e) \<and> source_known t' e" if "e \<in> set es" for e
    using that assms(4) tags_of_known [OF assms(1-3)] assms(3)
    by (auto simp: list_all_iff source_path_def source_known_def split: sum.splits)
  then show ?thesis by (auto simp: entries_of_def list_all_iff)
qed

lemma caches_refl: "tm_wf t \<Longrightarrow> caches [] t t"
  by (simp add: caches_def entries_of_def)

lemma caches_trans:
  assumes 1: "caches es t t1" and 2: "caches es' t1 t2"
  shows "caches (es @ es') t t2"
proof -
  have w: "tm_wf t1" "tm_wf t2" using 1 2 by (simp_all add: caches_def)
  obtain new where "tags2names t2 = tags2names t1 @ new" using 2 by (auto simp: caches_def)
  note s = entries_stay [OF w this, of es]
  have a: "entries_of t2 (es @ es') = entries_of t2 es @ entries_of t2 es'" by (simp add: entries_of_def)
  show ?thesis using 1 2 s by (auto simp: caches_def a put_all_append)
qed

text \<open>Runs that end.\<close>

lemma tm_bind_Inr: "tm_bind m f s = (s', Inr y) \<longleftrightarrow> (\<exists>s1 x. m s = (s1, Inr x) \<and> f x s1 = (s', Inr y))"
  by (auto simp: tm_bind_def split: prod.splits sum.splits)

lemma tm_ops_Inr:
  "tm_return x s = (s', Inr y) \<longleftrightarrow> s' = s \<and> y = x" "tm_lift r s = (s', Inr y) \<longleftrightarrow> s' = s \<and> r = Inr y"
  "tm_get s = (s', Inr t) \<longleftrightarrow> s' = s \<and> t = fst s" "tm_modify f s = (s', Inr z) \<longleftrightarrow> s' = (f (fst s), snd s)"
  "tm_mark b s = (s', Inr z) \<longleftrightarrow> s' = (fst s, snd s \<or> b)"
  by (auto simp: tm_return_def tm_lift_def tm_get_def tm_modify_def tm_mark_def)

lemma tm_bump_Inr: "tm_bump s = (s', Inr z) \<Longrightarrow> s' = ((fst s)\<lparr>tm_version := tm_version (fst s) + 1\<rparr>, snd s)"
  by (auto simp: tm_bump_def split: if_splits)

lemma name2tag_add_done:
  assumes w: "tm_wf t" and r: "name2tag_add n True (t, u) = ((t', u'), Inr k)"
  shows "caches [] t t' \<and> k = name2tag t' n \<and> n \<in> set (tags2names t')"
proof (cases "n \<in> set (tags2names t)")
  case True
  then have "name2tag t n \<noteq> 0" using name2tag_zero [OF w] by blast
  then show ?thesis using r True w
    by (auto simp: name2tag_add_def tm_bind_Inr tm_ops_Inr Let_def TagName_IsEmpty_def caches_refl)
next
  case False
  have m: "map_of (names2tags t) n = None" using name2tag_wf(1) [OF w] False by blast
  have z: "name2tag t n = 0" using name2tag_zero [OF w] False by blast
  obtain s1 where k: "next_tag t = Inr k" "tm_bump (tm_append n k t, u) = (s1, Inr ())" "t' = fst s1"
    using r by (auto simp: name2tag_add_def tm_bind_Inr tm_ops_Inr Let_def TagName_IsEmpty_def z m)
  have t': "t' = (tm_append n k t)\<lparr>tm_version := tm_version (tm_append n k t) + 1\<rparr>" using tm_bump_Inr [OF k(2)] k(3) by simp
  have "tm_wf (tm_append n k t)" by (rule tm_wf_append [OF w False k(1)])
  then have w': "tm_wf t'" using tm_wf_same [of t' "tm_append n k t"] t' by simp
  have "name2tag t' n = k" using m by (simp add: t' name2tag_def tm_append_def map_add_def)
  then show ?thesis using w' by (simp add: caches_def t' tm_append_def entries_of_def)
qed

lemma tm_map_done:
  "tm_wf t \<Longrightarrow> tm_map (\<lambda>n. name2tag_add n True) ns (t, u) = ((t', u'), Inr ks) \<Longrightarrow>
   caches [] t t' \<and> ks = map (name2tag t') ns \<and> set ns \<subseteq> set (tags2names t')"
proof (induction ns arbitrary: t u ks)
  case Nil
  then show ?case by (simp add: tm_ops_Inr caches_refl)
next
  case (Cons n ns)
  obtain t1 u1 k ks' where 1: "name2tag_add n True (t, u) = ((t1, u1), Inr k)"
      "tm_map (\<lambda>n. name2tag_add n True) ns (t1, u1) = ((t', u'), Inr ks')" "ks = k # ks'"
    using Cons.prems(2) by (auto simp: tm_bind_Inr tm_ops_Inr)
  note a = name2tag_add_done [OF Cons.prems(1) 1(1)]
  then have w: "tm_wf t1" by (simp add: caches_def)
  note b = Cons.IH [OF w 1(2)]
  then obtain new where n: "tags2names t' = tags2names t1 @ new" and w': "tm_wf t'" by (auto simp: caches_def)
  have "name2tag t' n = name2tag t1 n" by (rule tags_of_known [OF w w' n]) (use a in blast)
  then show ?case using a b n 1(3) caches_trans [of "[]" t t1 "[]" t'] by auto
qed

text \<open>The entries that a payload type and a list of sparse indexes give.\<close>

definition json_sources :: "field_properties \<Rightarrow> string list \<Rightarrow> cache_source list" where
  "json_sources f jps = map (\<lambda>jp. (Inl (split_str jp ''.'' True), f)) (filter (\<lambda>jp. jp \<noteq> []) jps)"

definition field_sources :: "payload_type \<Rightarrow> nat list \<Rightarrow> cache_source list" where
  "field_sources pt is = concat (map (\<lambda>i. json_sources (field_props i (pt_fields pt ! i)) (pf_jsonPaths (pt_fields pt ! i))) is)"

definition path_sources :: "field_properties \<Rightarrow> u16 list list \<Rightarrow> cache_source list" where
  "path_sources f ps = map (\<lambda>p. (Inr p, f)) (filter (\<lambda>p. p \<noteq> []) ps)"

definition sparse_sources :: "sparse_index_data list \<Rightarrow> nat list \<Rightarrow> cache_source list" where
  "sparse_sources sps is = concat (map (\<lambda>i. path_sources (sparse_props i (sps ! i)) (sp_paths (sps ! i))) is)"

definition cache_sources :: "payload_type option \<Rightarrow> sparse_index_data list \<Rightarrow> cache_source list" where
  "cache_sources pl sps = (case pl of None \<Rightarrow> [] | Some pt \<Rightarrow> field_sources pt [1..<pt_NumFields pt]) @
     sparse_sources sps [0..<length sps]"

lemma caches_wf: "caches es t t' \<Longrightarrow> tm_wf t'"
  by (simp add: caches_def)

lemma cache_Set_done:
  assumes w: "tm_wf t" and r: "cache_Set (source_path t src) f (t, u) = ((t', u'), Inr z)" and k: "source_known t (src, f)"
  shows "caches [(src, f)] t t'"
proof -
  obtain c where c: "tpc_Set (source_path t src) f (tm_pathCache t) = Inr c" "t' = t\<lparr>tm_pathCache := c\<rparr>"
    using r by (auto simp: cache_Set_def tm_bind_Inr tm_ops_Inr)
  have "tm_wf t'" using w tm_wf_same [of t' t] c(2) by simp
  moreover have "source_path t' src = source_path t src" "source_known t' (src, f)"
    using k by (auto simp: source_path_def source_known_def name2tag_def c(2) split: sum.splits)
  ultimately show ?thesis using c by (simp add: caches_def entries_of_def)
qed

lemma cache_json_path_done:
  assumes w: "tm_wf t" and r: "cache_json_path f jp (t, u) = ((t', u'), Inr z)"
  shows "caches (json_sources f [jp]) t t'"
proof (cases "jp = []")
  case True
  then show ?thesis using r w by (simp add: cache_json_path_def tm_ops_Inr json_sources_def caches_refl)
next
  case False
  let ?ns = "split_str jp ''.'' True"
  obtain t1 u1 ks where 1: "tm_map (\<lambda>n. name2tag_add n True) ?ns (t, u) = ((t1, u1), Inr ks)"
      "cache_Set ks f (t1, u1) = ((t', u'), Inr z)"
    using r False by (auto simp: cache_json_path_def tm_bind_Inr)
  note m = tm_map_done [OF w 1(1)]
  have "caches [(Inl ?ns, f)] t1 t'"
    by (rule cache_Set_done [of t1]) (use m 1(2) in \<open>auto simp: caches_wf source_path_def source_known_def\<close>)
  then show ?thesis using m caches_trans [of "[]" t t1] False by (simp add: json_sources_def)
qed

lemma cache_sparse_path_done:
  assumes w: "tm_wf t" and r: "cache_sparse_path f path (t, u) = ((t', u'), Inr z)"
  shows "caches (path_sources f [path]) t t'"
proof (cases "path = []")
  case True
  then show ?thesis using r w by (simp add: cache_sparse_path_def tm_ops_Inr path_sources_def caches_refl)
next
  case False
  then show ?thesis using cache_Set_done [of t "Inr path" f u t' u' z] r w
    by (simp add: cache_sparse_path_def path_sources_def source_path_def source_known_def)
qed

text \<open>A loop whose body enters the entries of its element enters them all.\<close>

lemma tm_each_done:
  assumes "\<And>x t u t' u' z. x \<in> set xs \<Longrightarrow> tm_wf t \<Longrightarrow> f x (t, u) = ((t', u'), Inr z) \<Longrightarrow> caches (e x) t t'"
  shows "tm_wf t \<Longrightarrow> tm_each f xs (t, u) = ((t', u'), Inr z) \<Longrightarrow> caches (concat (map e xs)) t t'"
  using assms
proof (induction xs arbitrary: t u)
  case Nil
  then show ?case by (simp add: tm_ops_Inr caches_refl)
next
  case (Cons x xs)
  obtain t1 u1 z1 where 1: "f x (t, u) = ((t1, u1), Inr z1)" "tm_each f xs (t1, u1) = ((t', u'), Inr z)"
    using Cons.prems(2) by (auto simp: tm_bind_Inr)
  have a: "caches (e x) t t1" by (rule Cons.prems(3) [OF _ Cons.prems(1) 1(1)]) simp
  have "caches (concat (map e xs)) t1 t'"
    by (rule Cons.IH [OF caches_wf [OF a] 1(2)]) (use Cons.prems(3) in \<open>simp add: list.set_intros(2)\<close>)
  then show ?case using caches_trans [OF a] by simp
qed

lemma sources_concat: "concat (map (\<lambda>jp. json_sources f [jp]) jps) = json_sources f jps"
  "concat (map (\<lambda>p. path_sources f [p]) ps) = path_sources f ps"
  by (induction jps, simp_all add: json_sources_def) (induction ps, simp_all add: path_sources_def)

lemma field_loop_done:
  assumes "tm_wf t" "tm_each (\<lambda>i. tm_bind (tm_lift (pt_Field pt i)) (\<lambda>field.
      tm_each (cache_json_path (field_props i field)) (pf_jsonPaths field))) is (t, u) = ((t', u'), Inr z)"
  shows "caches (field_sources pt is) t t'"
  unfolding field_sources_def
proof (rule tm_each_done [OF _ assms])
  fix i t u t' u' z
  assume w: "tm_wf t" and r: "tm_bind (tm_lift (pt_Field pt i)) (\<lambda>field.
      tm_each (cache_json_path (field_props i field)) (pf_jsonPaths field)) (t, u) = ((t', u'), Inr z)"
  let ?f = "pt_fields pt ! i"
  have r': "tm_each (cache_json_path (field_props i ?f)) (pf_jsonPaths ?f) (t, u) = ((t', u'), Inr z)"
    using r by (auto simp: tm_bind_Inr tm_ops_Inr pt_Field_def split: if_splits)
  have "caches (concat (map (\<lambda>jp. json_sources (field_props i ?f) [jp]) (pf_jsonPaths ?f))) t t'"
    by (rule tm_each_done [OF _ w r']) (rule cache_json_path_done)
  then show "caches (json_sources (field_props i ?f) (pf_jsonPaths ?f)) t t'" by (simp only: sources_concat)
qed

lemma sparse_loop_done:
  assumes "tm_wf t" "tm_each (\<lambda>i. let sparse = sps ! i
      in tm_each (cache_sparse_path (sparse_props i sparse)) (sp_paths sparse)) is (t, u) = ((t', u'), Inr z)"
  shows "caches (sparse_sources sps is) t t'"
  unfolding sparse_sources_def
proof (rule tm_each_done [OF _ assms])
  fix i t u t' u' z
  assume w: "tm_wf t" and r: "(let sparse = sps ! i
      in tm_each (cache_sparse_path (sparse_props i sparse)) (sp_paths sparse)) (t, u) = ((t', u'), Inr z)"
  let ?s = "sps ! i"
  have r': "tm_each (cache_sparse_path (sparse_props i ?s)) (sp_paths ?s) (t, u) = ((t', u'), Inr z)" using r by (simp add: Let_def)
  have "caches (concat (map (\<lambda>p. path_sources (sparse_props i ?s) [p]) (sp_paths ?s))) t t'"
    by (rule tm_each_done [OF _ w r']) (rule cache_sparse_path_done)
  then show "caches (path_sources (sparse_props i ?s) (sp_paths ?s)) t t'" by (simp only: sources_concat)
qed

text \<open>Building starts from an empty cache, so afterwards the cache has exactly the entries.\<close>

definition tm_good :: "tags_matcher \<Rightarrow> bool" where
  "tm_good t \<longleftrightarrow> tm_wf t \<and> (let es = cache_sources (tm_payloadType t) (tm_sparseIndexes t)
     in put_all tpc_Set (entries_of t es) (TPC []) = Inr (tm_pathCache t) \<and> list_all (source_known t) es)"

lemma tm_good_caches:
  "tm_good t \<longleftrightarrow> caches (cache_sources (tm_payloadType t) (tm_sparseIndexes t)) (t\<lparr>tm_pathCache := TPC []\<rparr>) t"
  by (auto simp: tm_good_def caches_def Let_def)

lemma BuildTagsCache_done:
  assumes w: "tm_wf t" and r: "BuildTagsCache (t, u) = ((t', u'), Inr z)"
  shows "tm_good t' \<and> tm_payloadType t' = tm_payloadType t \<and> tm_sparseIndexes t' = tm_sparseIndexes t"
proof -
  let ?t = "t\<lparr>tm_pathCache := TPC []\<rparr>" and ?pl = "tm_payloadType t" and ?sp = "tm_sparseIndexes t"
  have wf: "tm_wf ?t" using w tm_wf_same [of ?t t] by simp
  have "caches (cache_sources ?pl ?sp) ?t t'"
  proof (cases "?pl = None \<and> ?sp = []")
    case True
    then show ?thesis using r wf
      by (auto simp: BuildTagsCache_def tm_bind_Inr tm_ops_Inr tpc_Clear_def cache_sources_def sparse_sources_def caches_refl)
  next
    case False
    obtain pt where pt: "?pl = Some pt" using r False
      by (cases ?pl) (auto simp: BuildTagsCache_def tm_bind_Inr tm_ops_Inr)
    obtain t1 u1 z1 where 1: "tm_each (\<lambda>i. tm_bind (tm_lift (pt_Field pt i)) (\<lambda>field.
        tm_each (cache_json_path (field_props i field)) (pf_jsonPaths field))) [1..<pt_NumFields pt] (?t, u) = ((t1, u1), Inr z1)"
      "tm_each (\<lambda>i. let sparse = ?sp ! i
        in tm_each (cache_sparse_path (sparse_props i sparse)) (sp_paths sparse)) [0..<length ?sp] (t1, u1) = ((t', u'), Inr z)"
      using r pt by (auto simp: BuildTagsCache_def tm_bind_Inr tm_ops_Inr tpc_Clear_def)
    note a = field_loop_done [OF wf 1(1)]
    show ?thesis using caches_trans [OF a sparse_loop_done [OF caches_wf [OF a] 1(2)]] by (simp add: cache_sources_def pt)
  qed
  then show ?thesis by (simp add: tm_good_def Let_def caches_def)
qed

subsection \<open>Names keep a good cache good\<close>

text \<open>Operations that only add names, and what they leave alone.\<close>

definition tm_same_fields :: "tags_matcher \<Rightarrow> tags_matcher \<Rightarrow> bool" where
  "tm_same_fields t t' \<longleftrightarrow> tm_payloadType t' = tm_payloadType t \<and> tm_sparseIndexes t' = tm_sparseIndexes t \<and>
     tm_pathCache t' = tm_pathCache t"

definition tm_names_only :: "tags_matcher \<Rightarrow> tags_matcher \<Rightarrow> bool" where
  "tm_names_only t t' \<longleftrightarrow> tm_ext t t' \<and> tm_same_fields t t'"

interpretation names_only: kept_relation tm_names_only
proof
  show "tm_names_only t t" for t by (simp add: tm_names_only_def tm_same_fields_def tm_ext_refl)
  show "tm_names_only t t' \<Longrightarrow> tm_names_only t' t'' \<Longrightarrow> tm_names_only t t''" for t t' t''
    using tm_ext_trans [of t t' t''] by (simp add: tm_names_only_def tm_same_fields_def)
qed

lemma tm_good_names:
  assumes g: "tm_good t" and n: "tm_names_only t t'"
  shows "tm_good t'"
proof -
  have w: "tm_wf t" using g by (simp add: tm_good_def)
  then obtain new where e: "tm_wf t'" "tags2names t' = tags2names t @ new" and f: "tm_same_fields t t'"
    using n by (auto simp: tm_names_only_def tm_ext_def)
  show ?thesis using g entries_stay [OF w e] e(1) f by (simp add: tm_good_def Let_def tm_same_fields_def)
qed

lemma name2tag_add_names [intro]: "keeps tm_names_only (name2tag_add n canAdd)"
proof -
  have "tm_same_fields (fst s) (fst (fst (name2tag_add n canAdd s)))" for s
    by (cases "map_of (names2tags (fst s)) n"; cases "validateTagSize (length (tags2names (fst s)) + 1)"; cases "next_tag (fst s)")
      (simp_all add: name2tag_add_def tm_same_fields_def tm_bind_def tm_get_def tm_return_def tm_lift_def tm_modify_def
        tm_mark_def tm_bump_def tm_append_def Let_def)
  moreover have "keeps tm_ext (name2tag_add n canAdd)" by (rule name2tag_add_ext)
  ultimately show ?thesis by (simp add: keeps_def tm_names_only_def)
qed

lemma path_names_only:
  "keeps tm_names_only (path2tag_add s canAdd)" "keeps tm_names_only (path2indexedtag_add stoi s canAdd)"
proof -
  have "keeps tm_names_only (path2tag_loop canAdd acc fs)" for acc fs
    by (induction fs arbitrary: acc) (auto intro!: names_only.keeps_rules name2tag_add_names)
  then show "keeps tm_names_only (path2tag_add s canAdd)" by (simp add: path2tag_add_def)
  have "keeps tm_names_only (path2indexedtag_loop stoi canAdd acc fs)" for acc fs
    by (induction fs arbitrary: acc) (auto simp: Let_def intro!: names_only.keeps_rules name2tag_add_names split: option.split)
  then show "keeps tm_names_only (path2indexedtag_add stoi s canAdd)" by (simp add: path2indexedtag_add_def)
qed

lemma TM_names_only:
  "keeps tm_names_only (TM_name2tag n canAdd)" "keeps tm_names_only (TM_path2tag s canAdd)"
  "keeps tm_names_only (TM_path2indexedtag stoi s canAdd)"
  by (auto simp: TM_name2tag_def TM_path2tag_def TM_path2indexedtag_def Let_def
      intro!: names_only.keeps_rules name2tag_add_names path_names_only split: option.split)

lemma tm_bump_names: "keeps tm_names_only tm_bump"
proof -
  have "tm_same_fields (fst s) (fst (fst (tm_bump s)))" for s by (simp add: tm_same_fields_def tm_bump_def)
  moreover have "keeps tm_ext tm_bump" by (rule tm_bump_ext)
  ultimately show ?thesis by (simp add: keeps_def tm_names_only_def)
qed

lemma AddNamesFrom_names: "keeps tm_names_only (AddNamesFrom keys)"
proof -
  have "tm_same_fields (fst s) (fst (fst (tm_emplace_name n s)))" for s n
    by (cases "next_tag (fst s)") (simp_all add: tm_emplace_name_def tm_same_fields_def tm_bind_def tm_get_def tm_return_def
        tm_lift_def tm_modify_def tm_append_def)
  moreover have "keeps tm_ext (tm_emplace_name n)" for n by (rule tm_emplace_name_ext)
  ultimately have "keeps tm_names_only (tm_emplace_name n)" for n by (simp add: keeps_def tm_names_only_def)
  then show ?thesis by (induction keys) (auto intro!: names_only.keeps_rules tm_bump_names)
qed

lemma TM_add_names_from_names: "keeps tm_names_only (TM_add_names_from keys)"
  unfolding keeps_def
proof
  fix s :: "tags_matcher \<times> bool"
  obtain tmp r where "AddNamesFrom keys (fst s, snd s) = (tmp, r)" by (cases "AddNamesFrom keys (fst s, snd s)")
  then show "tm_names_only (fst s) (fst (fst (TM_add_names_from keys s)))"
    using keepsD [OF AddNamesFrom_names, of keys s tmp r] by (cases r) (auto simp: TM_add_names_from_def names_only.refl)
qed

lemma with_names_ext: "tm_wf tm \<Longrightarrow> tm_Contains tm t \<Longrightarrow> tm_ext t (with_names (tags2names tm) t)"
  unfolding tm_ext_def
proof (intro impI conjI)
  assume c: "tm_Contains tm t" and w: "tm_wf tm"
  show "tm_wf (with_names (tags2names tm) t)" by (rule with_names_wf) (use w in \<open>simp_all add: tm_wf_def\<close>)
  show "\<exists>new. tags2names (with_names (tags2names tm) t) = tags2names t @ new"
    using c append_take_drop_id [of "length (tags2names t)" "tags2names tm"] by (auto simp: tm_Contains_def) metis
qed

text \<open>
  Merging succeeds with \<open>True\<close> exactly when one matcher is a beginning of the other, and then the longer
  list of names is taken; otherwise, and when the version overflows, nothing changes.
\<close>

lemma TM_try_merge_wf:
  assumes w: "tm_wf t" "tm_wf tm" and r: "TM_try_merge tm (t, u) = ((t', u'), r)"
  shows "tm_names_only t t' \<and> (r = Inr True \<longrightarrow> tm_Contains t' tm) \<and> (r = Inr False \<longleftrightarrow> \<not> tm_Contains t tm \<and> \<not> tm_Contains tm t) \<and>
    (r \<noteq> Inr True \<longrightarrow> t' = t \<and> u' = u)"
proof -
  let ?w = "with_names (tags2names tm) t"
  have n: "tm_names_only t (?w\<lparr>tm_version := v\<rparr>)" if c: "tm_Contains tm t" for v
  proof -
    have "tm_ext t (?w\<lparr>tm_version := v\<rparr>)"
      by (rule tm_ext_trans [OF with_names_ext [OF w(2) c]]) (rule tm_ext_same, simp_all)
    then show ?thesis by (simp add: tm_names_only_def tm_same_fields_def with_names_def)
  qed
  have c: "tm_Contains (?w\<lparr>tm_version := v\<rparr>) tm" for v by (simp add: tm_Contains_def)
  have e: "tm_Contains t tm" if "tm_Contains tm t" "tm_Size t = tm_Size tm"
    using that by (simp add: tm_Contains_def tm_Size_def)
  show ?thesis
  proof (cases "tm_Contains t tm")
    case True
    then show ?thesis using r names_only.refl by (auto simp: TM_try_merge_def)
  next
    case False
    then have r': "(case tm_Merge tm (t, False) of (tmp, Inl e) \<Rightarrow> ((t, u), Inl e)
        | (tmp, Inr ok) \<Rightarrow> if \<not> ok then ((t, u), Inr False) else ((fst tmp, snd (t, u) \<or> snd tmp), Inr True)) = ((t', u'), r)"
      using r by (simp add: TM_try_merge_def)
    show ?thesis
    proof (cases "tm_Contains tm t")
      case sub: True
      then have s: "tm_Size t \<noteq> tm_Size tm" using e False by blast
      consider "tm_version t < tm_version tm" | "\<not> tm_version t < tm_version tm" "tm_version t = 2 ^ 31 - 1"
        | "\<not> tm_version t < tm_version tm" "tm_version t \<noteq> 2 ^ 31 - 1" by blast
      then show ?thesis
        by cases (use r' n [OF sub] c sub s False names_only.refl in \<open>auto simp: tm_Merge_wf [OF w]\<close>)
    qed (use r' False names_only.refl in \<open>auto simp: tm_Merge_wf [OF w]\<close>)
  qed
qed

subsection \<open>Paths and their names\<close>

lemma str_find_None: "str_find c s = None \<longleftrightarrow> dropWhile (\<lambda>x. x \<noteq> c) s = []"
proof -
  have "length (takeWhile (\<lambda>x. x \<noteq> c) s) < length s \<longleftrightarrow> dropWhile (\<lambda>x. x \<noteq> c) s \<noteq> []"
    using length_append [of "takeWhile (\<lambda>x. x \<noteq> c) s" "dropWhile (\<lambda>x. x \<noteq> c) s"] by (auto simp: takeWhile_dropWhile_id)
  then show ?thesis by (simp add: str_find_def Let_def del: dropWhile_eq_Nil_conv)
qed

lemma str_find_Some: "str_find c s = Some k \<longleftrightarrow> k < length s \<and> k = length (takeWhile (\<lambda>x. x \<noteq> c) s)"
  by (auto simp: str_find_def Let_def)

lemma dropWhile_found: "length (takeWhile P s) < length s \<Longrightarrow>
    dropWhile P s = s ! length (takeWhile P s) # drop (Suc (length (takeWhile P s))) s"
  by (simp add: dropWhile_eq_drop Cons_nth_drop_Suc)

lemma json_path_fields_end: "json_path_fields s (length s) p = []"
  by (subst json_path_fields.simps) simp

lemma json_path_fields_step:
  assumes "n \<noteq> length s"
  shows "str_find CHR ''.'' (drop p s) = None \<Longrightarrow> json_path_fields s n p = (if length s \<noteq> p then [take (length s - p) (drop p s)] else [])"
    and "str_find CHR ''.'' (drop p s) = Some k \<Longrightarrow> json_path_fields s n p =
      (if k \<noteq> 0 then [take k (drop p s)] else []) @ json_path_fields s (p + k) (p + k + 1)"
  using assms by (subst json_path_fields.simps, simp add: str_find_from_def json_path_fields_end Let_def)+

lemma split_str_step:
  "dropWhile (\<lambda>c. c \<notin> set ds) s = [] \<Longrightarrow> split_str s ds True = (if takeWhile (\<lambda>c. c \<notin> set ds) s = [] then [] else [takeWhile (\<lambda>c. c \<notin> set ds) s])"
  "dropWhile (\<lambda>c. c \<notin> set ds) s = d # rest \<Longrightarrow> split_str s ds True =
     (if takeWhile (\<lambda>c. c \<notin> set ds) s = [] then [] else [takeWhile (\<lambda>c. c \<notin> set ds) s]) @ split_str rest ds True"
  by (subst split_str.simps, simp add: Let_def del: dropWhile_eq_Nil_conv)+

lemma json_path_fields_split:
  "p \<le> length s \<Longrightarrow> n \<noteq> length s \<Longrightarrow> json_path_fields s n p = split_str (drop p s) ''.'' True"
proof (induction "length s - p" arbitrary: n p rule: less_induct)
  case less
  let ?P = "\<lambda>c. c \<notin> set ''.''" and ?r = "drop p s"
  have P: "?P = (\<lambda>x. x \<noteq> CHR ''.'')" by auto
  show ?case
  proof (cases "str_find CHR ''.'' ?r")
    case None
    then have d: "dropWhile ?P ?r = []" by (simp only: str_find_None P)
    then have t: "takeWhile ?P ?r = ?r" by (metis append_Nil2 takeWhile_dropWhile_id)
    show ?thesis
      unfolding json_path_fields_step(1) [OF less.prems(2) None] split_str_step(1) [OF d] t using less.prems(1) by simp
  next
    case (Some k)
    have k: "k < length ?r" "k = length (takeWhile ?P ?r)" unfolding P using Some str_find_Some by blast+
    have d: "dropWhile ?P ?r = ?r ! k # drop (Suc k) ?r"
      using dropWhile_found [of ?P ?r] k by simp
    have t: "takeWhile ?P ?r = take k ?r" using k(2) by (metis takeWhile_eq_take)
    have "json_path_fields s (p + k) (p + k + 1) = split_str (drop (p + k + 1) s) ''.'' True"
      by (rule less.hyps) (use k(1) in auto)
    moreover have "drop (Suc k) ?r = drop (p + k + 1) s" by (simp add: add.commute)
    moreover have "take k ?r = [] \<longleftrightarrow> k = 0" using k(1) by auto
    ultimately show ?thesis
      unfolding json_path_fields_step(2) [OF less.prems(2) Some] split_str_step(2) [OF d] t by simp
  qed
qed

lemma path_fields: "json_path_fields s 0 0 = split_str s ''.'' True"
  using json_path_fields_split [of 0 s 0] json_path_fields_end [of s 0] split_str_step(1) [of "''.''" "[]"] by (cases "s = []") simp_all

lemma path2tag_loop_const:
  "path2tag_loop False acc fs (t, u) =
     ((t, u), Inr (if \<exists>f \<in> set fs. name2tag t f = 0 then [] else acc @ map (name2tag t) fs))"
proof (induction fs arbitrary: acc)
  case (Cons f fs)
  have "name2tag_add f False (t, u) = ((t, u), Inr (name2tag t f))"
    by (simp add: name2tag_add_def tm_bind_def tm_get_def tm_return_def Let_def)
  then show ?case using Cons by (auto simp: tm_bind_def tm_return_def TagName_IsEmpty_def)
qed (simp add: tm_return_def)

lemma path2tag_const:
  "path2tag t s = Inr (if \<exists>f \<in> set (split_str s ''.'' True). name2tag t f = 0 then []
     else map (name2tag t) (split_str s ''.'' True))"
  by (simp add: path2tag_def path2tag_add_def path_fields path2tag_loop_const)

definition join_dots :: "string list \<Rightarrow> string" where
  "join_dots ns = (case ns of [] \<Rightarrow> '''' | n # ns \<Rightarrow> n @ concat (map (\<lambda>m. CHR ''.'' # m) ns))"

lemma tag2name_name2tag: "tm_wf t \<Longrightarrow> n \<in> set (tags2names t) \<Longrightarrow> tag2name t (name2tag t n) = Inr n"
proof -
  assume a: "tm_wf t" "n \<in> set (tags2names t)"
  then have "name2tag t n \<noteq> 0" using name2tag_zero by blast
  then show "tag2name t (name2tag t n) = Inr n"
    using name2tag_known [OF a(1), of "name2tag t n" n] by (simp add: tag2name_def TagName_IsEmpty_def)
qed

lemma Path2Name_known:
  assumes w: "tm_wf t" and k: "set ns \<subseteq> set (tags2names t)" and e: "'''' \<notin> set ns"
  shows "Path2Name t (map (name2tag t) ns) = Inr (join_dots ns)"
proof -
  have "acc \<noteq> [] \<Longrightarrow> set ns \<subseteq> set (tags2names t) \<Longrightarrow>
      path2name_loop t acc (map (name2tag t) ns) = Inr (acc @ concat (map (\<lambda>m. CHR ''.'' # m) ns))" for acc ns
    by (induction ns arbitrary: acc) (simp_all add: tag2name_name2tag [OF w])
  then show ?thesis using k e by (cases ns) (auto simp: Path2Name_def join_dots_def tag2name_name2tag [OF w])
qed

lemma split_nonempty: "'''' \<notin> set (split_str s ds True)"
proof -
  have "split_str s ds True = filter (\<lambda>t. t \<noteq> []) (split_str s ds False)" using split_str_weave [of ds s] by blast
  then show ?thesis by simp
qed

subsection \<open>The calls of a matcher\<close>

text \<open>
  The calls that change a matcher, but for those that begin anew: \<open>clear\<close> and both \<open>deserialize\<close>, which replace
  its names and its cache, are not among them. A call that merges is given the other matcher, one that adds
  names the keys of the other in their order.
\<close>

datatype tm_call =
    CallName2tag "string option" bool
  | CallPath2tag string bool
  | CallPath2indexed string bool
  | CallUpdate "payload_type option" "index_view list" need_change_tm_version
  | CallUpdateData "payload_type option" "sparse_index_data list" need_change_tm_version
  | CallAddSparse index_view
  | CallDropSparse string
  | CallTryMerge tags_matcher
  | CallAddNames "string list"
  | CallSetUpdated
  | CallClearUpdated

definition tm_ignore :: "'a tm_op \<Rightarrow> unit tm_op" where
  "tm_ignore m = tm_bind m (\<lambda>_. tm_return ())"

fun tm_do :: "(string \<Rightarrow> int option) \<Rightarrow> tm_call \<Rightarrow> unit tm_op" where
  "tm_do stoi (CallName2tag n canAdd) = tm_ignore (TM_name2tag n canAdd)"
| "tm_do stoi (CallPath2tag s canAdd) = tm_ignore (TM_path2tag s canAdd)"
| "tm_do stoi (CallPath2indexed s canAdd) = tm_ignore (TM_path2indexedtag stoi s canAdd)"
| "tm_do stoi (CallUpdate pt ixs v) = UpdatePayloadType pt ixs v"
| "tm_do stoi (CallUpdateData pt sps v) = UpdatePayloadType_data pt sps v"
| "tm_do stoi (CallAddSparse ix) = AddSparseIndex ix"
| "tm_do stoi (CallDropSparse n) = DropSparseIndex n"
| "tm_do stoi (CallTryMerge tm) = tm_ignore (TM_try_merge tm)"
| "tm_do stoi (CallAddNames keys) = TM_add_names_from keys"
| "tm_do stoi CallSetUpdated = TM_setUpdated"
| "tm_do stoi CallClearUpdated = TM_clearUpdated"

fun call_ok :: "tm_call \<Rightarrow> bool" where
  "call_ok (CallTryMerge tm) = tm_wf tm"
| "call_ok _ = True"

text \<open>Whatever the calls throw, the caller may go on.\<close>

definition tm_calls :: "(string \<Rightarrow> int option) \<Rightarrow> tm_call list \<Rightarrow> tags_matcher \<times> bool \<Rightarrow> tags_matcher \<times> bool" where
  "tm_calls stoi calls s = fold (\<lambda>c s. fst (tm_do stoi c s)) calls s"

lemma keeps_ignore: "keeps tm_ext m \<Longrightarrow> keeps tm_ext (tm_ignore m)"
  unfolding tm_ignore_def by (intro ext.keeps_rules)

lemma flag_ext: "keeps tm_ext TM_setUpdated" "keeps tm_ext TM_clearUpdated"
  by (simp_all add: keeps_def TM_setUpdated_def TM_clearUpdated_def tm_ext_refl)

lemma TM_try_merge_ext: "tm_wf tm \<Longrightarrow> keeps tm_ext (TM_try_merge tm)"
  unfolding keeps_def
proof
  fix s :: "tags_matcher \<times> bool"
  assume w: "tm_wf tm"
  obtain t u t' u' r where s: "s = (t, u)" "TM_try_merge tm (t, u) = ((t', u'), r)" by (metis prod.exhaust)
  have "tm_ext t t'" if "tm_wf t" using TM_try_merge_wf [OF that w s(2)] by (simp add: tm_names_only_def)
  then have "tm_ext t t'" unfolding tm_ext_def by blast
  then show "tm_ext (fst s) (fst (fst (TM_try_merge tm s)))" using s by simp
qed

lemma tm_do_ext: "call_ok c \<Longrightarrow> keeps tm_ext (tm_do stoi c)"
  by (cases c) (auto intro: keeps_ignore TM_name2tag_ext TM_path_ext UpdatePayloadType_ext SparseIndex_ext TM_add_names_from_ext
      TM_try_merge_ext flag_ext)

lemma tm_calls_ext: "list_all call_ok calls \<Longrightarrow> tm_ext (fst s) (fst (tm_calls stoi calls s))"
proof (induction calls arbitrary: s)
  case (Cons c calls)
  have "keeps tm_ext (tm_do stoi c)" by (rule tm_do_ext) (use Cons.prems in simp)
  then have "tm_ext (fst s) (fst (fst (tm_do stoi c s)))" unfolding keeps_def by blast
  then show ?case using Cons.IH [of "fst (tm_do stoi c s)"] Cons.prems tm_ext_trans by (auto simp: tm_calls_def)
qed (simp add: tm_calls_def tm_ext_refl)

text \<open>
  C12. A tag never changes its meaning while a matcher is neither cleared nor read anew from a buffer (\<open>clear\<close> and
  \<open>deserialize\<close> replace the names): whatever other calls it serves - names and paths looked up and added, payload
  types updated, sparse indexes added and dropped, another matcher merged in or its names added, the flag set and
  cleared - and whether they end or throw, every name keeps its tag and every tag its name, and names and tags
  stay each other's inverse.
\<close>

theorem tags_stay:
  assumes wf: "tm_wf t" and ok: "list_all call_ok calls" and run: "tm_calls stoi calls (t, u) = (t', u')"
  shows "tm_wf t' \<and> tm_IsSubsetOf t t' \<and>
    (\<forall>n. name2tag t n \<noteq> 0 \<longrightarrow> name2tag t' n = name2tag t n) \<and>
    (\<forall>tag n. tag2name t tag = Inr n \<longrightarrow> tag2name t' tag = Inr n) \<and>
    (\<forall>n tag. tag \<noteq> 0 \<longrightarrow> (name2tag t' n = tag \<longleftrightarrow> tag2name t' tag = Inr n))"
proof -
  have "tm_ext t t'" using tm_calls_ext [OF ok, of "(t, u)" stoi] run by simp
  then obtain new where w: "tm_wf t'" and e: "tags2names t' = tags2names t @ new" using wf by (auto simp: tm_ext_def)
  have "name2tag t' n = name2tag t n" if "name2tag t n \<noteq> 0" for n
    by (rule tags_of_known [OF wf w e]) (use that name2tag_zero [OF wf] in blast)
  moreover have "tag2name t' tag = Inr n" if "tag2name t tag = Inr n" for tag n
  proof (cases "tag = 0")
    case False
    then have "0 < unat tag" "unat tag \<le> length (tags2names t)" "n = tags2names t ! (unat tag - 1)"
      using that by (auto simp: tag2name_def TagName_IsEmpty_def unat_gt_0 split: if_splits)
    then show ?thesis using False e by (auto simp: tag2name_def TagName_IsEmpty_def nth_append)
  qed (use that in \<open>simp add: tag2name_def TagName_IsEmpty_def\<close>)
  moreover have "name2tag t' n = tag \<longleftrightarrow> tag2name t' tag = Inr n" if "tag \<noteq> 0" for n tag
    using name2tag_known [OF w that] that by (auto simp: tag2name_def TagName_IsEmpty_def)
  ultimately show ?thesis using w e by (simp add: tm_IsSubsetOf_def tm_Contains_def)
qed

definition example_matcher :: tags_matcher where
  "example_matcher = tm_append ''a'' 1 (mk_TagsMatcherImpl_default 7)"

definition example_calls :: "tm_call list" where
  "example_calls = [CallName2tag (Some ''b'') True, CallAddNames [''c'', ''a''], CallTryMerge (mk_TagsMatcherImpl_default 8)]"

lemmas tm_eval = tm_do.simps tm_ignore_def tm_bind_def tm_return_def tm_get_def tm_lift_def tm_modify_def tm_mark_def tm_bump_def
  TM_name2tag_def TM_add_names_from_def TM_try_merge_def AddNamesFrom.simps tm_emplace_name_def name2tag_add_def name2tag_def
  validateTagSize_def ctag_kNameMax_def next_tag_def TagName_of_uint_def TagName_IsEmpty_def tm_append_def tm_Contains_def
  mk_TagsMatcherImpl_default_def Let_def

lemma example_matcher_wf: "tm_wf example_matcher"
  by (simp add: example_matcher_def tm_wf_def tag_list_def tm_append_def mk_TagsMatcherImpl_default_def)

lemma example_calls_run: "tags2names (fst (tm_calls (\<lambda>_. None) example_calls (example_matcher, False))) = [''a'', ''b'', ''c'']"
  by (simp add: tm_calls_def example_calls_def example_matcher_def tm_eval)

theorem tags_stay_witness:
  "name2tag (fst (tm_calls (\<lambda>_. None) example_calls (example_matcher, False))) ''a'' = 1"
proof -
  obtain t' u' where r: "tm_calls (\<lambda>_. None) example_calls (example_matcher, False) = (t', u')" by (metis prod.exhaust)
  have "tm_wf (mk_TagsMatcherImpl_default 8)" by (simp add: tm_wf_def tag_list_def mk_TagsMatcherImpl_default_def)
  then have ok: "list_all call_ok example_calls" by (simp add: example_calls_def)
  have "name2tag example_matcher ''a'' = 1" by (simp add: example_matcher_def tm_append_def name2tag_def mk_TagsMatcherImpl_default_def)
  then show ?thesis using tags_stay [OF example_matcher_wf ok r] by (simp add: r)
qed

subsection \<open>The cache after any run of calls\<close>

lemma keeps_Inr: "keeps R m \<Longrightarrow> m (t, u) = ((t', u'), r) \<Longrightarrow> R t t'"
  using keepsD [of R m "(t, u)" "(t', u')" r] by simp

lemma tm_local_Inr: "tm_local m (t, u) = ((t', u'), Inr b) \<Longrightarrow> \<exists>x. m (t, False) = ((t', b), Inr x)"
  by (auto simp: tm_local_def split: prod.splits sum.splits)

lemma entries_cong:
  assumes "names2tags t' = names2tags t" "tags2names t' = tags2names t"
  shows "entries_of t' = entries_of t" "source_known t' = source_known t"
proof -
  have n: "name2tag t' = name2tag t" by (rule ext) (simp add: name2tag_def assms(1))
  show "entries_of t' = entries_of t" unfolding entries_of_def source_path_def n ..
  show "source_known t' = source_known t" unfolding source_known_def assms(2) ..
qed

lemma version_good: "tm_good (t\<lparr>tm_version := v\<rparr>) = tm_good t"
  using entries_cong [of "t\<lparr>tm_version := v\<rparr>" t] by (simp add: tm_good_def Let_def tm_wf_def)

lemma sparse_sources_append: "sparse_sources (sps @ [sp]) [0..<length sps + 1] =
    sparse_sources sps [0..<length sps] @ path_sources (sparse_props (length sps) sp) (sp_paths sp)"
proof -
  have "map (\<lambda>i. path_sources (sparse_props i ((sps @ [sp]) ! i)) (sp_paths ((sps @ [sp]) ! i))) [0..<length sps] =
      map (\<lambda>i. path_sources (sparse_props i (sps ! i)) (sp_paths (sps ! i))) [0..<length sps]"
    by (rule map_cong) (simp_all add: nth_append)
  from arg_cong [OF this, of concat] show ?thesis by (simp add: sparse_sources_def del: map_eq_conv)
qed

lemma wf_fields: "tm_wf (t\<lparr>tm_payloadType := x\<rparr>) = tm_wf t" "tm_wf (t\<lparr>tm_sparseIndexes := y\<rparr>) = tm_wf t"
  by (simp_all add: tm_wf_def)

lemma version_ops_good:
  "tm_bump (t, u) = ((t', u'), Inr z) \<Longrightarrow> tm_good t \<Longrightarrow> tm_good t'"
  "tm_unbump (t, u) = ((t', u'), Inr z) \<Longrightarrow> tm_good t \<Longrightarrow> tm_good t'"
  by (auto simp: tm_bump_def tm_unbump_def version_good split: if_splits)

lemma updatePayloadType_good:
  assumes w: "tm_wf t" and r: "updatePayloadType pl b v (t, u) = ((t', u'), Inr z)"
  shows "tm_good t' \<and> tm_payloadType t' = pl \<and> tm_sparseIndexes t' = tm_sparseIndexes t"
proof -
  obtain t1 u1 c u2 where 1: "tm_local BuildTagsCache (t\<lparr>tm_payloadType := pl\<rparr>, u) = ((t1, u1), Inr c)"
    and 2: "(case v of NeedIncrement \<Rightarrow> tm_bump | NeedDecrement \<Rightarrow> tm_unbump | NeedNo \<Rightarrow> tm_return ()) (t1, u2) = ((t', u'), Inr z)"
    using r by (auto simp: updatePayloadType_def tm_bind_Inr tm_ops_Inr Let_def)
  obtain x where "BuildTagsCache (t\<lparr>tm_payloadType := pl\<rparr>, False) = ((t1, c), Inr x)" using tm_local_Inr [OF 1] by blast
  then have g: "tm_good t1 \<and> tm_payloadType t1 = pl \<and> tm_sparseIndexes t1 = tm_sparseIndexes t"
    using BuildTagsCache_done [of "t\<lparr>tm_payloadType := pl\<rparr>" False t1 c x] w by (simp add: wf_fields)
  moreover have "tm_payloadType t' = tm_payloadType t1 \<and> tm_sparseIndexes t' = tm_sparseIndexes t1"
    using 2 by (cases v) (auto simp: tm_bump_def tm_unbump_def tm_return_def split: if_splits)
  moreover have "tm_good t'" using 2 g version_ops_good by (cases v) (auto simp: tm_ops_Inr)
  ultimately show ?thesis by simp
qed

lemma UpdatePayloadType_data_good:
  assumes g: "tm_good t" and r: "UpdatePayloadType_data pl sps v (t, u) = ((t', u'), Inr z)"
  shows "tm_good t' \<and> tm_payloadType t' = pl \<and> tm_sparseIndexes t' = sps"
proof (cases "pl = None \<and> tm_payloadType t = None \<and> sps = [] \<and> tm_sparseIndexes t = []")
  case True
  then show ?thesis using g r by (auto simp: UpdatePayloadType_data_def tm_bind_Inr tm_ops_Inr)
next
  case False
  have "updatePayloadType pl (sps \<noteq> tm_sparseIndexes t) v (t\<lparr>tm_sparseIndexes := sps\<rparr>, u) = ((t', u'), Inr z)"
    using r False by (auto simp: UpdatePayloadType_data_def tm_bind_Inr tm_ops_Inr Let_def split: if_splits)
  moreover have "tm_wf (t\<lparr>tm_sparseIndexes := sps\<rparr>)" using g by (simp add: tm_good_def wf_fields)
  ultimately show ?thesis using updatePayloadType_good by fastforce
qed

lemma UpdatePayloadType_good:
  assumes g: "tm_good t" and r: "UpdatePayloadType pl ixs v (t, u) = ((t', u'), Inr z)"
  shows "tm_good t'"
proof (cases "pl = None \<and> tm_payloadType t = None \<and> ixs = [] \<and> tm_sparseIndexes t = []")
  case True
  then show ?thesis using g r by (auto simp: UpdatePayloadType_def tm_bind_Inr tm_ops_Inr)
next
  case False
  obtain new t1 u1 x where 1: "(if new then tm_bind (tm_modify (\<lambda>t. t\<lparr>tm_sparseIndexes := []\<rparr>)) (\<lambda>_. tm_each addSparseIndex ixs)
      else tm_return ()) (t, u) = ((t1, u1), Inr x)" "updatePayloadType pl new v (t1, u1) = ((t', u'), Inr z)"
    using r by (simp only: UpdatePayloadType_def tm_bind_Inr tm_ops_Inr False if_False) (auto simp: tm_bind_Inr tm_ops_Inr False)
  have "keeps tm_ext (if new then tm_bind (tm_modify (\<lambda>t. t\<lparr>tm_sparseIndexes := []\<rparr>)) (\<lambda>_. tm_each addSparseIndex ixs) else tm_return ())"
    by (auto intro!: ext.keeps_rules modify_ext addSparseIndex_ext)
  then have "tm_ext t t1" using 1(1) by (rule keeps_Inr)
  then have "tm_wf t1" using g by (simp add: tm_good_def tm_ext_def)
  then show ?thesis using updatePayloadType_good 1(2) by blast
qed

lemma DropSparseIndex_good:
  assumes g: "tm_good t" and r: "DropSparseIndex n (t, u) = ((t', u'), Inr z)"
  shows "tm_good t'"
proof (cases "drop_named n (tm_sparseIndexes t)")
  case None
  then show ?thesis using g r by (simp add: DropSparseIndex_def tm_bind_Inr tm_ops_Inr)
next
  case (Some sps)
  then obtain t1 u1 c where 1: "tm_local BuildTagsCache (t\<lparr>tm_sparseIndexes := sps\<rparr>, u) = ((t1, u1), Inr c)" "t' = t1"
    using r by (auto simp: DropSparseIndex_def tm_bind_Inr tm_ops_Inr)
  then obtain x where "BuildTagsCache (t\<lparr>tm_sparseIndexes := sps\<rparr>, False) = ((t1, c), Inr x)" using tm_local_Inr by blast
  moreover have "tm_wf (t\<lparr>tm_sparseIndexes := sps\<rparr>)" using g by (simp add: tm_good_def wf_fields)
  ultimately show ?thesis using BuildTagsCache_done 1(2) by blast
qed


lemma AddSparseIndex_good:
  assumes g: "tm_good t" and r: "AddSparseIndex ix (t, u) = ((t', u'), Inr z)"
  shows "tm_good t'"
proof -
  let ?pl = "tm_payloadType t" and ?sps = "tm_sparseIndexes t"
  obtain sp where 1: "tm_each (\<lambda>p. cache_Set p (sparse_props (length ?sps) sp)) (sp_paths sp)
      (t\<lparr>tm_sparseIndexes := ?sps @ [sp]\<rparr>, u) = ((t', u'), Inr z)"
    using r by (auto simp: AddSparseIndex_def addSparseIndex_def tm_bind_Inr tm_ops_Inr Let_def)
  let ?t = "t\<lparr>tm_sparseIndexes := ?sps @ [sp]\<rparr>" and ?f = "sparse_props (length ?sps) sp"
  have w: "tm_wf ?t" using g by (simp add: tm_good_def wf_fields)
  have "caches (concat (map (\<lambda>p. path_sources ?f [p]) (sp_paths sp))) ?t t'"
  proof (rule tm_each_done [OF _ w 1])
    fix p t u t' u' z
    assume w: "tm_wf t" and r: "cache_Set p ?f (t, u) = ((t', u'), Inr z)"
    have "p \<noteq> []" using r by (auto simp: cache_Set_def tm_bind_Inr tm_ops_Inr)
    then show "caches (path_sources ?f [p]) t t'"
      using cache_Set_done [OF w, of "Inr p" ?f u t' u' z] r by (simp add: path_sources_def source_path_def source_known_def)
  qed
  then have a: "caches (path_sources ?f (sp_paths sp)) ?t t'" by (simp only: sources_concat)
  have e: "entries_of ?t = entries_of t" "source_known ?t = source_known t" by (rule entries_cong; simp)+
  have "caches (cache_sources ?pl ?sps) (?t\<lparr>tm_pathCache := TPC []\<rparr>) ?t"
    using g w by (simp add: caches_def tm_good_def Let_def e)
  from caches_trans [OF this a] have c: "caches (cache_sources ?pl (?sps @ [sp])) (?t\<lparr>tm_pathCache := TPC []\<rparr>) t'"
    using sparse_sources_append [of ?sps sp] by (simp add: cache_sources_def)
  then show ?thesis by (simp add: tm_good_def Let_def caches_def)
qed

lemma ignore_good:
  assumes g: "tm_good t" and k: "keeps tm_names_only m" and r: "tm_ignore m (t, u) = ((t', u'), Inr z)"
  shows "tm_good t'"
proof -
  obtain x where "m (t, u) = ((t', u'), Inr x)" using r by (auto simp: tm_ignore_def tm_bind_Inr tm_ops_Inr)
  from keeps_Inr [OF k this] show ?thesis by (rule tm_good_names [OF g])
qed

lemma tm_do_good:
  assumes ok: "call_ok c" and g: "tm_good t" and r: "tm_do stoi c (t, u) = ((t', u'), Inr z)"
  shows "tm_good t'"
proof -
  have w: "tm_wf t" using g by (simp add: tm_good_def)
  show ?thesis
  proof (cases c)
    case (CallName2tag n canAdd)
    show ?thesis by (rule ignore_good [OF g TM_names_only(1)]) (use r CallName2tag in simp)
  next
    case (CallPath2tag s canAdd)
    show ?thesis by (rule ignore_good [OF g TM_names_only(2)]) (use r CallPath2tag in simp)
  next
    case (CallPath2indexed s canAdd)
    show ?thesis by (rule ignore_good [OF g TM_names_only(3)]) (use r CallPath2indexed in simp)
  next
    case (CallUpdate pl ixs v)
    show ?thesis by (rule UpdatePayloadType_good [OF g]) (use r CallUpdate in simp)
  next
    case (CallUpdateData pl sps v)
    then have "UpdatePayloadType_data pl sps v (t, u) = ((t', u'), Inr z)" using r by simp
    from UpdatePayloadType_data_good [OF g this] show ?thesis by (rule conjunct1)
  next
    case (CallAddSparse ix)
    show ?thesis by (rule AddSparseIndex_good [OF g]) (use r CallAddSparse in simp)
  next
    case (CallDropSparse n)
    show ?thesis by (rule DropSparseIndex_good [OF g]) (use r CallDropSparse in simp)
  next
    case (CallTryMerge tm)
    then obtain x where x: "TM_try_merge tm (t, u) = ((t', u'), Inr x)" using r by (auto simp: tm_ignore_def tm_bind_Inr tm_ops_Inr)
    have "tm_wf tm" using ok CallTryMerge by simp
    from TM_try_merge_wf [OF w this x] show ?thesis using tm_good_names [OF g] by blast
  next
    case (CallAddNames keys)
    then have "TM_add_names_from keys (t, u) = ((t', u'), Inr z)" using r by simp
    from keeps_Inr [OF TM_add_names_from_names this] show ?thesis by (rule tm_good_names [OF g])
  qed (use r g in \<open>simp_all add: TM_setUpdated_def TM_clearUpdated_def\<close>)
qed

lemma tm_run_good:
  "tm_good t \<Longrightarrow> list_all call_ok calls \<Longrightarrow> tm_each (tm_do stoi) calls (t, u) = ((t', u'), Inr z) \<Longrightarrow> tm_good t'"
proof (induction calls arbitrary: t u)
  case (Cons c calls)
  then obtain t1 u1 x where 1: "tm_do stoi c (t, u) = ((t1, u1), Inr x)" "tm_each (tm_do stoi) calls (t1, u1) = ((t', u'), Inr z)"
    by (auto simp: tm_bind_Inr)
  have "tm_good t1" by (rule tm_do_good [OF _ Cons.prems(1) 1(1)]) (use Cons.prems(2) in simp)
  then show ?case using Cons.IH 1(2) Cons.prems(2) by simp
qed (simp add: tm_ops_Inr)

lemma put_all_nonempty: "put_all tpc_Set kvs c = Inr c' \<Longrightarrow> (p, f) \<in> set kvs \<Longrightarrow> p \<noteq> []"
proof (induction kvs arbitrary: c)
  case (Cons kv kvs)
  then obtain c1 where "tpc_Set (fst kv) (snd kv) c = Inr c1" "put_all tpc_Set kvs c1 = Inr c'" by (auto simp: res_simps)
  then show ?case using Cons.IH Cons.prems(2) by (cases kv) auto
qed simp

lemma tm_good_default: "tm_good (mk_TagsMatcherImpl_default token)"
  by (simp add: tm_good_def tm_wf_def tag_list_def mk_TagsMatcherImpl_default_def cache_sources_def sparse_sources_def entries_of_def Let_def)

text \<open>
  C11. The cache of a matcher is exact, as long as no other handle writes into it: copies of a matcher share the
  levels below the first, so a sparse index that a copy adds is found by the other one too
  (\<open>TagPaths.ptr_copy_shares\<close>), and the theorem is about a matcher whose copies add none. After any run of these
  calls on a new matcher, all of them successful - names and paths looked up and added, payload types updated,
  sparse indexes added and dropped, another matcher merged in or its names added, the flag set and cleared, but
  neither \<open>clear\<close>, which leaves the cache empty, nor \<open>deserialize\<close> - looking up a path gives the last of the entries
  that the payload type and the sparse indexes have at that path, and no field where they have none. Each JSON
  path of a field has tags, is turned into them by \<open>path2tag\<close>, and they name it.
\<close>

theorem tags_cache_correct:
  assumes ok: "list_all call_ok calls"
    and run: "tm_each (tm_do stoi) calls (mk_TagsMatcherImpl_default token, u) = ((t, u'), Inr ())"
    and es: "es = entries_of t (cache_sources (tm_payloadType t) (tm_sparseIndexes t))"
  shows "(\<forall>path. path \<noteq> [] \<longrightarrow>
      tags2field t path = Inr (case map_of (rev es) path of None \<Rightarrow> kNotIndexed | Some f \<Rightarrow> f)) \<and>
    (\<forall>pt i jp. tm_payloadType t = Some pt \<and> 1 \<le> i \<and> i < pt_NumFields pt \<and> jp \<noteq> [] \<and>
        jp \<in> set (pf_jsonPaths (pt_fields pt ! i)) \<longrightarrow>
      (\<exists>tags. path2tag t jp = Inr tags \<and> tags \<noteq> [] \<and> (tags, field_props i (pt_fields pt ! i)) \<in> set es \<and>
         Path2Name t tags = Inr (join_dots (split_str jp ''.'' True))))"
proof (intro conjI allI impI)
  have "tm_good t" by (rule tm_run_good [OF tm_good_default ok run])
  then have w: "tm_wf t" and p: "put_all tpc_Set es (TPC []) = Inr (tm_pathCache t)"
    and k: "list_all (source_known t) (cache_sources (tm_payloadType t) (tm_sparseIndexes t))"
    by (simp_all add: tm_good_def Let_def es)
  fix path :: "u16 list" assume "path \<noteq> []"
  then show "tags2field t path = Inr (case map_of (rev es) path of None \<Rightarrow> kNotIndexed | Some f \<Rightarrow> f)"
    using tpc.at_built [OF p, of path] by (simp add: tags2field_def tpc_Lookup_field)
next
  have "tm_good t" by (rule tm_run_good [OF tm_good_default ok run])
  then have w: "tm_wf t" and p: "put_all tpc_Set es (TPC []) = Inr (tm_pathCache t)"
    and k: "list_all (source_known t) (cache_sources (tm_payloadType t) (tm_sparseIndexes t))"
    by (simp_all add: tm_good_def Let_def es)
  fix pt i jp
  assume a: "tm_payloadType t = Some pt \<and> 1 \<le> i \<and> i < pt_NumFields pt \<and> jp \<noteq> [] \<and> jp \<in> set (pf_jsonPaths (pt_fields pt ! i))"
  let ?ns = "split_str jp ''.'' True" and ?f = "field_props i (pt_fields pt ! i)"
  have "(Inl ?ns, ?f) \<in> set (json_sources ?f (pf_jsonPaths (pt_fields pt ! i)))" using a by (auto simp: json_sources_def)
  then have "(Inl ?ns, ?f) \<in> set (field_sources pt [1..<pt_NumFields pt])" using a by (auto simp: field_sources_def)
  then have s: "(Inl ?ns, ?f) \<in> set (cache_sources (tm_payloadType t) (tm_sparseIndexes t))" using a by (simp add: cache_sources_def)
  let ?tags = "map (name2tag t) ?ns"
  have e: "(?tags, ?f) \<in> set es" using s by (force simp: es entries_of_def source_path_def)
  have "source_known t (Inl ?ns, ?f)" using s k by (simp only: list_all_iff)
  then have kn: "set ?ns \<subseteq> set (tags2names t)" by (simp add: source_known_def)
  then have "\<not> (\<exists>n \<in> set ?ns. name2tag t n = 0)" using name2tag_zero [OF w] by blast
  then have "path2tag t jp = Inr ?tags" by (simp add: path2tag_const)
  moreover have "Path2Name t ?tags = Inr (join_dots ?ns)" by (rule Path2Name_known [OF w kn split_nonempty])
  ultimately show "\<exists>tags. path2tag t jp = Inr tags \<and> tags \<noteq> [] \<and> (tags, ?f) \<in> set es \<and> Path2Name t tags = Inr (join_dots ?ns)"
    using e put_all_nonempty [OF p e] by blast
qed

definition example_type :: payload_type where
  "example_type = mk_PayloadTypeImpl ''n'' [example_field KVT_String ''-tuple'' [], example_field KVT_Int ''f'' [''a.b'']]"

definition example_view :: index_view where
  "example_view = \<lparr>ix_Name = ''s'', ix_Type = 0, ix_KeyType = KVT_String, ix_IsArray = False, ix_Fields = [Some [1]]\<rparr>"

definition example_build :: "tm_call list" where
  "example_build = [CallUpdate (Some example_type) [] NeedIncrement, CallAddSparse example_view, CallName2tag (Some ''c'') True]"

lemma example_split: "split_str ''a.b'' ''.'' True = [''a'', ''b'']"
  by (simp add: split_str_step(2) [of "''.''" "''a.b''" "CHR ''.''" "''b''"] split_str_step(1) [of "''.''" "''b''"])

lemmas build_eval = tm_eval UpdatePayloadType_def updatePayloadType_def tm_local_def BuildTagsCache_def cache_json_path_def
  cache_sparse_path_def cache_Set_def pt_Field_def pt_NumFields_def type_changed_def addSparseIndex_def AddSparseIndex_def
  mk_SparseIndexData_def tpc_Clear_def example_type_def mk_PayloadTypeImpl_def example_field_def example_split example_view_def
  tpc_grown_def resize_def

lemma example_build_run:
  "\<exists>t u'. tm_each (tm_do (\<lambda>_. None)) example_build (mk_TagsMatcherImpl_default 7, False) = ((t, u'), Inr ()) \<and>
     tags2names t = [''a'', ''b'', ''c''] \<and> tm_payloadType t = Some example_type \<and> length (tm_sparseIndexes t) = 1"
  by (simp add: example_build_def build_eval) blast

theorem tags_cache_correct_witness:
  "\<exists>t u' tags. tm_each (tm_do (\<lambda>_. None)) example_build (mk_TagsMatcherImpl_default 7, False) = ((t, u'), Inr ()) \<and>
     path2tag t ''a.b'' = Inr tags \<and> tags \<noteq> [] \<and> Path2Name t tags = Inr ''a.b''"
proof -
  obtain t u' where r: "tm_each (tm_do (\<lambda>_. None)) example_build (mk_TagsMatcherImpl_default 7, False) = ((t, u'), Inr ())"
      "tm_payloadType t = Some example_type" using example_build_run by blast
  have "list_all call_ok example_build" by (simp add: example_build_def)
  from tags_cache_correct [OF this r(1) refl] have "\<exists>tags. path2tag t ''a.b'' = Inr tags \<and> tags \<noteq> [] \<and>
      Path2Name t tags = Inr (join_dots (split_str ''a.b'' ''.'' True))"
    using r(2) by (fastforce simp: example_type_def mk_PayloadTypeImpl_def example_field_def pt_NumFields_def)
  then show ?thesis using r(1) by (auto simp: example_split join_dots_def)
qed

subsection \<open>Sending a matcher\<close>

definition enc_names :: "string list \<Rightarrow> bytes" where
  "enc_names ns = uint64_pack (word_of_nat (length ns)) @ concat (map (\<lambda>s. enc_vstring (string_bytes s)) ns)"

lemma tm_read_names_list:
  assumes "distinct (pre @ xs)" "length (pre @ xs) \<le> 65535" "get_list get_string (length xs) s = Inr (xs, s')"
  shows "tm_read_names (length xs) (length pre) s
      (t\<lparr>tags2names := pre @ replicate (length xs) '''', names2tags := tag_list pre\<rparr>, u) = ((with_names (pre @ xs) t, u), Inr s')"
  using assms
proof (induction xs arbitrary: pre s)
  case Nil
  then show ?case by (simp add: tm_return_def with_names_def)
next
  case (Cons x xs)
  obtain s1 where 1: "get_string s = Inr (x, s1)" "get_list get_string (length xs) s1 = Inr (xs, s')"
    using Cons.prems(3) by (auto simp: res_simps)
  have tag: "TagName_of_uint (word_of_nat (length pre + 1)) = Inr (word_of_nat (length pre + 1))"
    by (rule TagName_of_index) (use Cons.prems(2) in simp)
  have n: "map_of (tag_list pre) x = None" using Cons.prems(1) by (simp add: map_of_tag_list_None)
  have up: "(pre @ '''' # replicate (length xs) '''')[length pre := x] = (pre @ [x]) @ replicate (length xs) ''''" by simp
  have ih: "tm_read_names (length xs) (length pre + 1) s1
      (t\<lparr>tags2names := (pre @ [x]) @ replicate (length xs) '''', names2tags := tag_list (pre @ [x])\<rparr>, u) =
      ((with_names (pre @ x # xs) t, u), Inr s')"
    using Cons.IH [of "pre @ [x]" s1] Cons.prems(1,2) 1(2) by simp
  have st: "read_name (length pre) x (word_of_nat (length pre + 1))
      (t\<lparr>tags2names := pre @ replicate (Suc (length xs)) '''', names2tags := tag_list pre\<rparr>) =
      t\<lparr>tags2names := (pre @ [x]) @ replicate (length xs) '''', names2tags := tag_list (pre @ [x])\<rparr>"
    by (simp add: read_name_def n tag_list_append)
  show ?case using ih by (simp only: length_Cons tm_read_names.simps tm_bind_def tm_lift_def 1(1) tag tm_modify_def st
      prod.case sum.case fst_conv snd_conv)
qed

lemma tm_Serialize_appends:
  assumes w: "wr_wf w" and ok: "list_all (\<lambda>s. length s < 2 ^ 32) (tags2names t)" "length (tags2names t) < 2 ^ 64"
    and l: "wr_len w + length (enc_names (tags2names t)) + 10 \<le> 2 ^ 60" and s: "tm_Serialize w t = Inr w'"
  shows "appends w (enc_names (tags2names t)) w'"
  using wire_codec.put_appends [OF counted_codec [OF string_codec.wire_codec_axioms] w _ _ s [unfolded tm_Serialize_def]] ok l
  by (simp add: enc_names_def)

text \<open>
  C38. A matcher that is sent is read back, whatever follows in the buffer, as long as the reader has fewer than
  \<open>2 ^ 32\<close> bytes before it: the same names with the same tags, under the given version and token and with an
  empty cache (the handle builds it afterwards), if it has no more names than CJSON has tags for. A longer one, which merging and adding names from another matcher can give, is written
  all the same but refused by the reader, which then has no names at all.
\<close>

theorem tags_matcher_roundtrip:
  assumes w: "wr_wf w" and t: "tm_wf t" "list_all (\<lambda>s. length s < 2 ^ 32) (tags2names t)"
    and l: "wr_len w + length (enc_names (tags2names t)) + 10 \<le> 2 ^ 60" "length (enc_names (tags2names t)) + length rest < 2 ^ 32"
    and s: "tm_Serialize w t = Inr w'" and v: "tm_version t0 < 2 ^ 31 - 1"
    and d: "tm_Deserialize_token (ser_at (wr_Slice w) (drop (wr_len w) (wr_Slice w') @ rest)) version token (t0, u) = ((t', u'), r)"
  shows "if tm_Size t \<le> 4095
    then r = Inr (ser_at (wr_Slice w') rest) \<and> u' = u \<and>
      t' = t0\<lparr>tags2names := tags2names t, names2tags := names2tags t, tm_pathCache := TPC [],
              tm_version := version, tm_stateToken := token\<rparr>
    else r = Inl (Err ErrParams) \<and> tm_Size t' = 0 \<and> names2tags t' = []"
proof -
  let ?ns = "tags2names t" and ?pre = "wr_Slice w"
  let ?body = "concat (map (\<lambda>s. enc_vstring (string_bytes s)) ?ns)" and ?cnt = "uint64_pack (word_of_nat (length ?ns))"
  let ?t = "t0\<lparr>names2tags := [], tags2names := [], tm_pathCache := TPC [], tm_version := tm_version t0 + 1\<rparr>"
  have ns: "names2tags t = tag_list ?ns" "distinct ?ns" "length ?ns \<le> 65535" using t(1) by (simp_all add: tm_wf_def)
  have a: "wr_Slice w' = ?pre @ enc_names ?ns"
    using tm_Serialize_appends [OF w t(2) _ l(1) s] ns(3) by (simp add: appends_def)
  have len: "length ?pre = wr_len w" by (rule wr_Slice_length [OF w])
  have dr: "drop (wr_len w) (wr_Slice w') @ rest = ?cnt @ ?body @ rest" using a len by (simp add: enc_names_def)
  have n: "unat (word_of_nat (length ?ns) :: u64) = length ?ns" using ns(3) by (simp add: unat_of_nat take_bit_nat_eq_self)
  have l1: "fits (length ?pre) (length ?cnt + length (?body @ rest))" "fits (length (?pre @ ?cnt)) (length ?body + length rest)"
    using l len by (simp_all add: enc_names_def)
  note g1 = GetVarUInt_pack [OF l1(1)]
  have g2: "get_list get_string (length ?ns) (ser_at (?pre @ ?cnt) (?body @ rest)) = Inr (?ns, ser_at (wr_Slice w') rest)"
    using string_codec.get_list_enc [OF t(2) l1(2)] a by (simp add: enc_names_def)
  have c: "tm_Clear (t0, u) = ((?t, u), Inr ())"
    using v by (simp add: tm_Clear_def tm_bind_def tm_modify_def tm_bump_def tpc_Clear_def)
  show ?thesis
  proof (cases "tm_Size t \<le> 4095")
    case True
    then have val: "validateTagSize (length ?ns) = Inr ()" by (simp add: validateTagSize_def ctag_kNameMax_def tm_Size_def)
    have st: "?t\<lparr>tags2names := replicate (length ?ns) ''''\<rparr> = ?t\<lparr>tags2names := [] @ replicate (length ?ns) '''', names2tags := tag_list []\<rparr>"
      by (simp add: tag_list_def)
    have rd: "tm_read_names (length ?ns) 0 (ser_at (?pre @ ?cnt) (?body @ rest)) (?t\<lparr>tags2names := replicate (length ?ns) ''''\<rparr>, u) =
        ((with_names ?ns ?t, u), Inr (ser_at (wr_Slice w') rest))"
      unfolding st using tm_read_names_list [of "[]" ?ns, OF _ _ g2, of ?t u] ns(2,3) by simp
    have "((t', u'), r) = (((with_names ?ns ?t)\<lparr>tm_version := version, tm_stateToken := token\<rparr>, u), Inr (ser_at (wr_Slice w') rest))"
      unfolding d [symmetric] dr tm_Deserialize_token_def tm_Deserialize_def
      by (simp only: tm_bind_def c tm_lift_def g1 n val tm_modify_def tm_return_def rd prod.case sum.case fst_conv snd_conv)
    then show ?thesis using True by (simp add: with_names_def ns(1))
  next
    case False
    then have val: "validateTagSize (length ?ns) = Inl (Err ErrParams)" by (simp add: validateTagSize_def ctag_kNameMax_def tm_Size_def)
    have "((t', u'), r) = ((?t, u), Inl (Err ErrParams))"
      unfolding d [symmetric] dr tm_Deserialize_token_def tm_Deserialize_def
      by (simp only: tm_bind_def c tm_lift_def g1 n val prod.case sum.case fst_conv snd_conv)
    then show ?thesis using False by (simp add: tm_Size_def)
  qed
qed


theorem tags_matcher_roundtrip_witness:
  "\<exists>w' t'. tm_Serialize (mk_WrSerializer (replicate 256 0) (mk_GrowthPolicy 0)) example_matcher = Inr w' \<and>
     tm_Deserialize_token (ser_at [] (drop 0 (wr_Slice w') @ [])) 5 9 (mk_TagsMatcherImpl_default 1, False) =
       ((t', False), Inr (ser_at (wr_Slice w') [])) \<and> tags2names t' = [''a''] \<and> tm_stateToken t' = 9"
proof -
  let ?w = "mk_WrSerializer (replicate 256 0) (mk_GrowthPolicy 0)"
  have w: "wr_wf ?w" by (simp add: mk_WrSerializer_def wr_wf_def)
  have one: "\<not> (128 :: u32) \<le> 1" "\<not> (128 :: u64) \<le> 1" by (simp_all add: word_le_nat_alt)
  have ns: "tags2names example_matcher = [''a'']" "tm_Size example_matcher = 1"
    by (simp_all add: example_matcher_def tm_append_def mk_TagsMatcherImpl_default_def tm_Size_def)
  have "length (enc_names [''a'']) = 3"
    by (simp add: enc_names_def enc_vstring_def uint32_pack_def uint64_pack_def Let_def one)
  then have l: "wr_len ?w + length (enc_names (tags2names example_matcher)) + 10 \<le> 2 ^ 60"
      "length (enc_names (tags2names example_matcher)) + length ([] :: bytes) < 2 ^ 32"
    by (simp_all add: mk_WrSerializer_def ns)
  obtain w' where p: "tm_Serialize ?w example_matcher = Inr w'"
    by (simp add: tm_Serialize_def ns put_string_def PutVString_def PutVarUint64_def grow_append_def grow_def wr_append_def wr_copy_def
        mk_WrSerializer_def string_pack_enc enc_vstring_def uint32_pack_def uint64_pack_def Let_def one)
  have z: "wr_Slice ?w = []" "wr_len ?w = 0" by (simp_all add: mk_WrSerializer_def wr_Slice_def)
  obtain t' u' r where d: "tm_Deserialize_token (ser_at (wr_Slice ?w) (drop (wr_len ?w) (wr_Slice w') @ [])) 5 9
      (mk_TagsMatcherImpl_default 1, False) = ((t', u'), r)" by (metis prod.exhaust)
  have o: "list_all (\<lambda>s. length s < 2 ^ 32) (tags2names example_matcher)" "tm_version (mk_TagsMatcherImpl_default 1) < 2 ^ 31 - 1"
    by (simp_all add: ns mk_TagsMatcherImpl_default_def)
  have "r = Inr (ser_at (wr_Slice w') []) \<and> u' = False \<and> tags2names t' = [''a''] \<and> tm_stateToken t' = 9"
    using tags_matcher_roundtrip [OF w example_matcher_wf o(1) l p o(2) d] by (simp add: ns)
  with p d show ?thesis unfolding z by blast
qed

end
