(* ===== verification/CjsonTuple.thy ===== *)
theory CjsonTuple
  imports CjsonWrite TagsMatcherCache "HOL-Library.Multiset" "HOL-Library.Sublist"
begin

section \<open>The tuple of a payload\<close>

text \<open>
  \<open>buildPayloadTuple\<close> of \<open>core/cjson/cjsontools.cc\<close>: the CJSON of an item that has only the fields of the payload. The paths
  of the fields, as tags, are put together to a tree; going through the tree writes an object for each inner
  node and a reference for each leaf. Of a payload the definitions use its type and, for each field, its values.
\<close>

record payload_view =
  plv_type :: payload_type
  plv_vals :: "nat \<Rightarrow> variant list"

text \<open>\<open>GetFieldLen\<close>: the stored length of an array, one for a scalar.\<close>

definition GetFieldLen :: "payload_view \<Rightarrow> nat \<Rightarrow> nat res" where
  "GetFieldLen pl field =
     bind_res (pt_Field (plv_type pl) field) (\<lambda>ft. Inr (if pf_isArray ft then length (plv_vals pl field) else 1))"

definition plv_Get0 :: "payload_view \<Rightarrow> nat \<Rightarrow> variant res" where
  "plv_Get0 pl field = (case plv_vals pl field of [] \<Rightarrow> Inl Abort | v # _ \<Rightarrow> Inr v)"

fun vec_Dimension :: "variant \<Rightarrow> nat res" where
  "vec_Dimension (V_FloatVector v) = Inr (unat (fv_dim v))"
| "vec_Dimension _ = Inl Abort"

subsection \<open>References\<close>

fun ref_vectors :: "cjson_builder \<Rightarrow> wr_serializer \<Rightarrow> int \<Rightarrow> variant list \<Rightarrow> (cjson_builder \<times> wr_serializer) res" where
  "ref_vectors arr w field [] = Inr (arr, w)"
| "ref_vectors arr w field (v # vs) =
     bind_res (vec_Dimension v) (\<lambda>dim. bind_res (cb_ArrayRef arr w 0 field dim) (\<lambda>(arr, w). ref_vectors arr w field vs))"

definition CJsonBuilderRef :: "cjson_builder \<Rightarrow> wr_serializer \<Rightarrow> payload_view \<Rightarrow> u16 \<Rightarrow> int \<Rightarrow> (cjson_builder \<times> wr_serializer) res" where
  "CJsonBuilderRef builder w pl tagName field =
     (if field < 0 then Inl UB
      else bind_res (pt_Field (plv_type pl) (nat field)) (\<lambda>fieldType.
      if pf_IsFloatVector fieldType
      then if pf_isArray fieldType
           then bind_res (cb_Array builder w tagName TypeObjectArray) (\<lambda>((builder, arr), w).
                bind_res (ref_vectors arr w field (plv_vals pl (nat field))) (\<lambda>(arr, w).
                bind_res (cb_End arr w) (\<lambda>(_, w). Inr (builder, w))))
           else bind_res (plv_Get0 pl (nat field)) (\<lambda>value. bind_res (vec_Dimension value) (\<lambda>dim.
                cb_ArrayRef builder w tagName field dim))
      else if pf_isArray fieldType
           then bind_res (GetFieldLen pl (nat field)) (\<lambda>len. cb_ArrayRef builder w tagName field len)
           else bind_res (plv_Get0 pl (nat field)) (\<lambda>value. cb_Ref builder w tagName (variant_Type value) field)))"

subsection \<open>The tree of paths\<close>

text \<open>\<open>std::map\<close> keeps the children in the order of their tags.\<close>

datatype path_node = PathNode (pn_indexNo: int) (pn_children: "(u16 \<times> path_node) list")

definition kEmptyNode :: path_node where
  "kEmptyNode = PathNode (- 1) []"

fun child_update :: "u16 \<Rightarrow> (path_node \<Rightarrow> path_node) \<Rightarrow> (u16 \<times> path_node) list \<Rightarrow> (u16 \<times> path_node) list" where
  "child_update t f [] = [(t, f kEmptyNode)]"
| "child_update t f ((k, n) # cs) =
     (if t < k then (t, f kEmptyNode) # (k, n) # cs else if t = k then (k, f n) # cs else (k, n) # child_update t f cs)"

primrec pn_Add :: "u16 list \<Rightarrow> int \<Rightarrow> path_node \<Rightarrow> path_node" where
  "pn_Add [] indexNo n = PathNode indexNo (pn_children n)"
| "pn_Add (t # tags) indexNo n = PathNode indexNo (child_update t (pn_Add tags indexNo) (pn_children n))"

text \<open>\<open>Travers\<close> may not throw: an error ends the program. At the root, whose tag is empty, the builder itself is moved.\<close>

definition no_throw :: "'a res \<Rightarrow> 'a res" where
  "no_throw m = (case m of Inl (Err _) \<Rightarrow> Inl Abort | r \<Rightarrow> r)"

fun pn_Travers :: "payload_view \<Rightarrow> path_node \<Rightarrow> u16 \<Rightarrow> cjson_builder \<Rightarrow> wr_serializer \<Rightarrow> (cjson_builder \<times> wr_serializer) res"
  and pn_Travers_all :: "payload_view \<Rightarrow> (u16 \<times> path_node) list \<Rightarrow> cjson_builder \<Rightarrow> wr_serializer \<Rightarrow> (cjson_builder \<times> wr_serializer) res"
where
  "pn_Travers pl (PathNode indexNo children) tagName builder w =
     no_throw (if children = [] then CJsonBuilderRef builder w pl tagName indexNo
       else bind_res (if TagName_IsEmpty tagName then Inr ((builder\<lparr>cb_type := TypePlain\<rparr>, builder), w) else cb_Object builder w tagName)
              (\<lambda>((builder, child), w). bind_res (pn_Travers_all pl children child w) (\<lambda>(child, w).
               bind_res (cb_End child w) (\<lambda>(_, w). Inr (builder, w)))))"
| "pn_Travers_all pl [] child w = Inr (child, w)"
| "pn_Travers_all pl ((tag, node) # cs) child w =
     bind_res (pn_Travers pl node tag child w) (\<lambda>(child, w). pn_Travers_all pl cs child w)"

text \<open>The loop over the fields; a number that the bit set has no place for throws \<open>std::out_of_range\<close>.\<close>

definition first_path :: "payload_field \<Rightarrow> string res" where
  "first_path f = (case pf_jsonPaths f of [] \<Rightarrow> Inl UB | j # _ \<Rightarrow> Inr j)"

fun add_fields :: "payload_type \<Rightarrow> tags_matcher \<Rightarrow> nat list \<Rightarrow> path_node \<Rightarrow> nat set \<Rightarrow> (path_node \<times> nat set) res" where
  "add_fields pt tm [] root scalars = Inr (root, scalars)"
| "add_fields pt tm (field # fs) root scalars =
     bind_res (pt_Field pt field) (\<lambda>fieldType. bind_res (first_path fieldType) (\<lambda>path.
     bind_res (path2tag tm path) (\<lambda>tagsPath.
     if field \<ge> kMaxIndexes then Inl Abort
     else add_fields pt tm fs (pn_Add tagsPath (int field) root) (insert field scalars))))"

definition buildPayloadTuple :: "payload_view \<Rightarrow> tags_matcher \<Rightarrow> wr_serializer \<Rightarrow> nat set \<Rightarrow> (nat set \<times> wr_serializer) res" where
  "buildPayloadTuple pl tm w scalars =
     bind_res (add_fields (plv_type pl) tm [1 ..< pt_NumFields (plv_type pl)] kEmptyNode scalars) (\<lambda>(root, scalars).
     bind_res (mk_CJsonBuilder w TypeObject 0) (\<lambda>(builder, w).
     bind_res (pn_Travers pl root 0 builder w) (\<lambda>(builder, w).
     bind_res (cb_End builder w) (\<lambda>(_, w). Inr (scalars, w)))))"

text \<open>
  A payload type that has nothing but the tuple has no field to refer to, and the tree is a single leaf: the
  number -1 of its node is used as the number of a field.
\<close>

lemma tuple_of_no_fields:
  assumes "pt_NumFields (plv_type pl) = 1" "wr_wf w" "wr_len w + 40 \<le> 2 ^ 31" "2 ^ 31 \<le> wr_maxCap w"
  shows "buildPayloadTuple pl tm w scalars = Inl UB"
proof -
  have "roomy w 0" using assms by (simp add: roomy_def)
  then obtain w1 where "putTag w 0 TAG_OBJECT (- 1) = Inr w1" using putTag_roomy [of 0 "- 1" w TAG_OBJECT] by auto
  then show ?thesis
    by (simp add: buildPayloadTuple_def assms(1) kEmptyNode_def mk_CJsonBuilder_def CJsonBuilderRef_def no_throw_def)
qed

subsection \<open>The paths in a tree\<close>

text \<open>The path and the number of each leaf.\<close>

fun tree_paths :: "path_node \<Rightarrow> (u16 list \<times> int) list"
  and child_paths :: "(u16 \<times> path_node) list \<Rightarrow> (u16 list \<times> int) list"
where
  "tree_paths (PathNode i cs) = (if cs = [] then [([], i)] else child_paths cs)"
| "child_paths [] = []"
| "child_paths ((t, n) # cs) = map (\<lambda>(p, i). (t # p, i)) (tree_paths n) @ child_paths cs"

definition apart_from :: "u16 list \<Rightarrow> (u16 list \<times> int) list \<Rightarrow> bool" where
  "apart_from p ps \<longleftrightarrow> (\<forall>q \<in> fst ` set ps. \<not> prefix q p \<and> \<not> prefix p q)"

lemma apart_from_append: "apart_from p (xs @ ys) \<longleftrightarrow> apart_from p xs \<and> apart_from p ys"
  by (auto simp: apart_from_def)

lemma apart_from_Cons: "apart_from (t # ts) (map (\<lambda>(p, i). (t # p, i)) ps) \<longleftrightarrow> apart_from ts ps"
  by (force simp: apart_from_def)

lemma child_update_nonempty [simp]: "child_update t f cs \<noteq> []"
  by (induction t f cs rule: child_update.induct) simp_all

lemma add_to_empty: "tree_paths (pn_Add p i kEmptyNode) = [(p, i)]"
  by (induction p) (simp_all add: kEmptyNode_def)

lemma tree_paths_nonempty: "tree_paths n \<noteq> []" "cs \<noteq> [] \<Longrightarrow> child_paths cs \<noteq> []"
  by (induction n and cs rule: tree_paths_child_paths.induct) simp_all

text \<open>A path that is apart from the paths of a tree is added to them, and they stay.\<close>

lemma tree_paths_Add:
  "apart_from p (tree_paths n) \<Longrightarrow> mset (tree_paths (pn_Add p i n)) = mset (tree_paths n) + {#(p, i)#}"
proof (induction p arbitrary: n)
  case Nil
  obtain x where "x \<in> set (tree_paths n)" using tree_paths_nonempty(1) [of n] by (cases "tree_paths n") auto
  then show ?case using Nil by (auto simp: apart_from_def)
next
  case (Cons t ts)
  note IH = Cons.IH
  obtain j cs where n: "n = PathNode j cs" by (cases n)
  have cs: "cs \<noteq> []" using Cons.prems by (auto simp: n apart_from_def)
  have "apart_from (t # ts) (child_paths cs)" using Cons.prems cs by (simp add: n)
  then have "mset (child_paths (child_update t (pn_Add ts i) cs)) = mset (child_paths cs) + {#(t # ts, i)#}"
  proof (induction cs)
    case Nil
    then show ?case by (simp add: add_to_empty)
  next
    case (Cons c cs)
    obtain k m where c: "c = (k, m)" by (cases c)
    have a: "apart_from (t # ts) (map (\<lambda>(p, i). (k # p, i)) (tree_paths m))" "apart_from (t # ts) (child_paths cs)"
      using Cons.prems by (simp_all add: c apart_from_append)
    show ?case
    proof (cases "t = k")
      case True
      then have "apart_from ts (tree_paths m)" using a(1) by (simp add: apart_from_Cons)
      from IH [OF this] True show ?thesis by (simp add: c)
    qed (use Cons.IH [OF a(2)] in \<open>simp add: c add_to_empty\<close>)
  qed
  then show ?case using cs by (simp add: n)
qed

text \<open>Adding paths one after the other.\<close>

definition paths_apart :: "u16 list list \<Rightarrow> bool" where
  "paths_apart ps \<longleftrightarrow> (\<forall>i < length ps. \<forall>j < length ps. i \<noteq> j \<longrightarrow> \<not> prefix (ps ! i) (ps ! j))"

definition field_tags :: "payload_type \<Rightarrow> tags_matcher \<Rightarrow> nat \<Rightarrow> u16 list res" where
  "field_tags pt tm field = bind_res (pt_Field pt field) (\<lambda>ft. bind_res (first_path ft) (path2tag tm))"

text \<open>Adding fields one after the other, whose paths are apart from each other and from those in the tree.\<close>

lemma add_fields_paths:
  "\<forall>f \<in> set fs. f < kMaxIndexes \<and> field_tags pt tm f = Inr (tags f) \<Longrightarrow> distinct fs \<Longrightarrow>
   \<forall>f \<in> set fs. \<forall>g \<in> set fs. f \<noteq> g \<longrightarrow> \<not> prefix (tags f) (tags g) \<Longrightarrow> \<forall>f \<in> set fs. apart_from (tags f) (tree_paths root) \<Longrightarrow>
   \<exists>root'. add_fields pt tm fs root sc = Inr (root', sc \<union> set fs) \<and>
     mset (tree_paths root') = mset (tree_paths root) + mset (map (\<lambda>f. (tags f, int f)) fs)"
proof (induction fs arbitrary: root sc)
  case (Cons f fs)
  let ?r = "pn_Add (tags f) (int f) root"
  have m: "mset (tree_paths ?r) = mset (tree_paths root) + {#(tags f, int f)#}"
    using Cons.prems(4) by (intro tree_paths_Add) simp
  then have "set (tree_paths ?r) = insert (tags f, int f) (set (tree_paths root))"
    by (metis add_mset_add_single set_mset_add_mset_insert set_mset_mset)
  then have "apart_from (tags g) (tree_paths ?r)" if "g \<in> set fs" for g
    using that Cons.prems(2-4) by (auto simp: apart_from_def)
  then obtain root' where "add_fields pt tm fs ?r (insert f sc) = Inr (root', insert f sc \<union> set fs)"
    "mset (tree_paths root') = mset (tree_paths ?r) + mset (map (\<lambda>f. (tags f, int f)) fs)"
    using Cons.IH [of ?r "insert f sc"] Cons.prems(1-3) by auto
  moreover have "add_fields pt tm (f # fs) root sc = add_fields pt tm fs ?r (insert f sc)"
    using Cons.prems(1) by (auto simp: field_tags_def res_simps)
  ultimately show ?case using m by auto
qed simp

lemma add_fields_tree:
  assumes "\<forall>f \<in> set fs. f < kMaxIndexes \<and> field_tags pt tm f = Inr (tags f)" "distinct fs"
    "\<forall>f \<in> set fs. \<forall>g \<in> set fs. f \<noteq> g \<longrightarrow> \<not> prefix (tags f) (tags g)" "fs \<noteq> []"
  obtains root where "add_fields pt tm fs kEmptyNode sc = Inr (root, sc \<union> set fs)"
    "mset (tree_paths root) = mset (map (\<lambda>f. (tags f, int f)) fs)"
proof -
  obtain f fs' where fs: "fs = f # fs'" using assms(4) by (cases fs) auto
  let ?r = "pn_Add (tags f) (int f) kEmptyNode"
  have p: "tree_paths ?r = [(tags f, int f)]" by (rule add_to_empty)
  have "\<forall>g \<in> set fs'. apart_from (tags g) (tree_paths ?r)" using assms(2,3) by (auto simp: p fs apart_from_def)
  then obtain root where r: "add_fields pt tm fs' ?r (insert f sc) = Inr (root, insert f sc \<union> set fs')"
    "mset (tree_paths root) = mset (tree_paths ?r) + mset (map (\<lambda>f. (tags f, int f)) fs')"
    using add_fields_paths [of fs' pt tm tags ?r "insert f sc"] assms(1-3) fs by auto
  have "add_fields pt tm fs kEmptyNode sc = add_fields pt tm fs' ?r (insert f sc)"
    using assms(1) by (auto simp: fs field_tags_def res_simps)
  with r show thesis by (intro that [of root]) (simp_all add: fs p)
qed

subsection \<open>The document of a payload\<close>

definition vec_dim :: "variant \<Rightarrow> nat" where
  "vec_dim v = the_res 0 (vec_Dimension v)"

definition field_doc :: "payload_view \<Rightarrow> nat \<Rightarrow> doc" where
  "field_doc pl f =
     (let ft = pt_fields (plv_type pl) ! f; vs = plv_vals pl f in
      if pf_IsFloatVector ft
      then if pf_isArray ft then DMix (map (\<lambda>v. DRefs f (word_of_nat (vec_dim v))) vs) else DRefs f (word_of_nat (vec_dim (hd vs)))
      else if pf_isArray ft then DRefs f (word_of_nat (length vs)) else DRef (val_tag (hd vs)) f)"

fun node_doc :: "payload_view \<Rightarrow> path_node \<Rightarrow> doc"
  and child_docs :: "payload_view \<Rightarrow> (u16 \<times> path_node) list \<Rightarrow> (u16 \<times> doc) list"
where
  "node_doc pl (PathNode i cs) = (if cs = [] then field_doc pl (nat i) else DObj (child_docs pl cs))"
| "child_docs pl [] = []"
| "child_docs pl ((t, n) # cs) = (t, node_doc pl n) # child_docs pl cs"

text \<open>A payload that fits its type: vectors in the fields of vectors, one value in a scalar field.\<close>

definition plv_ok :: "payload_view \<Rightarrow> nat \<Rightarrow> bool" where
  "plv_ok pl f \<longleftrightarrow> f < pt_NumFields (plv_type pl) \<and> f < kMaxIndexes \<and>
     (let ft = pt_fields (plv_type pl) ! f; vs = plv_vals pl f in
      if pf_IsFloatVector ft then (\<forall>v \<in> set vs. variant_Type v = KVT_FloatVector) \<and> (if pf_isArray ft then length vs < 2 ^ 24 else length vs = 1)
      else if pf_isArray ft then length vs < 2 ^ 32
      else length vs = 1 \<and> val_ok (hd vs) \<and> hd vs \<noteq> V_Null)"

lemma vec_dim_ok:
  assumes "variant_Type v = KVT_FloatVector"
  shows "vec_Dimension v = Inr (vec_dim v)" "unat (word_of_nat (vec_dim v) :: u32) = vec_dim v"
proof -
  from assms obtain fv where v: "v = V_FloatVector fv" by (cases v) auto
  then show "vec_Dimension v = Inr (vec_dim v)" by (simp add: vec_dim_def the_res_def)
  have "unat (fv_dim fv) < 2 ^ 16" using unsigned_less [of "fv_dim fv", where ?'a = nat] by simp
  then show "unat (word_of_nat (vec_dim v) :: u32) = vec_dim v" by (simp add: v vec_dim_def the_res_def unsigned_ucast_eq take_bit_nat_eq_self)
qed

lemma ref_vectors_doc:
  "\<forall>v \<in> set vs. variant_Type v = KVT_FloatVector \<Longrightarrow>
   write_items (map (\<lambda>v. DRefs f (word_of_nat (vec_dim v))) vs) b w = ref_vectors b w (int f) vs"
proof (induction vs arbitrary: b w)
  case (Cons v vs)
  have IH: "(\<lambda>(b, w). write_items (map (\<lambda>v. DRefs f (word_of_nat (vec_dim v))) vs) b w) = (\<lambda>(b, w). ref_vectors b w (int f) vs)"
    using Cons.IH Cons.prems by auto
  show ?case using Cons.prems vec_dim_ok [of v] by (simp add: IH)
qed simp

lemma CJsonBuilderRef_doc:
  assumes "plv_ok pl f"
  shows "CJsonBuilderRef b w pl nm (int f) = write_doc (field_doc pl f) nm b w"
proof -
  let ?ft = "pt_fields (plv_type pl) ! f" and ?vs = "plv_vals pl f"
  have f: "pt_Field (plv_type pl) f = Inr ?ft" using assms by (simp add: plv_ok_def pt_Field_def)
  consider (vecs) "pf_IsFloatVector ?ft" "pf_isArray ?ft" "\<forall>v \<in> set ?vs. variant_Type v = KVT_FloatVector"
    | (vec) v where "pf_IsFloatVector ?ft" "\<not> pf_isArray ?ft" "?vs = [v]" "variant_Type v = KVT_FloatVector"
    | (array) "\<not> pf_IsFloatVector ?ft" "pf_isArray ?ft" "length ?vs < 2 ^ 32"
    | (scalar) v where "\<not> pf_IsFloatVector ?ft" "\<not> pf_isArray ?ft" "?vs = [v]" "val_ok v" "v \<noteq> V_Null"
    using assms by (auto simp: plv_ok_def Let_def length_Suc_conv split: if_splits)
  then show ?thesis
  proof cases
    case vecs
    then show ?thesis using f by (simp add: CJsonBuilderRef_def field_doc_def Let_def ref_vectors_doc)
  next
    case vec
    then show ?thesis using f vec_dim_ok [of v] by (simp add: CJsonBuilderRef_def field_doc_def Let_def plv_Get0_def)
  next
    case array
    then show ?thesis using f by (simp add: CJsonBuilderRef_def field_doc_def Let_def GetFieldLen_def unat_of_nat)
  next
    case scalar
    have "cb_Ref b w nm (variant_Type v) (int f) = bind_res (KVT_of_TagType (val_tag v)) (\<lambda>k. cb_Ref b w nm k (int f))"
      using scalar(4,5) by (cases v) (simp_all add: cb_Ref_def)
    then show ?thesis using f scalar by (simp add: CJsonBuilderRef_def field_doc_def Let_def plv_Get0_def)
  qed
qed

lemma field_doc_ok:
  assumes "plv_ok pl f"
  shows "doc_ok (field_doc pl f)" "buildable (field_doc pl f)"
proof -
  have i: "items_ok (map (\<lambda>v. DRefs f (c v)) vs)" "items_buildable (map (\<lambda>v. DRefs f (c v)) vs)" if "f < kMaxIndexes" for vs :: "variant list" and c
    using that by (induction vs) (simp_all add: counted_def)
  have s: "val_tag v \<noteq> TAG_NULL" if "val_ok v" "v \<noteq> V_Null" for v using that by (cases v) simp_all
  show "doc_ok (field_doc pl f)" "buildable (field_doc pl f)"
    using assms i s val_tag_scalar [of "hd (plv_vals pl f)"]
    by (auto simp: plv_ok_def field_doc_def Let_def split: if_splits)
qed

definition leaf_ok :: "payload_view \<Rightarrow> u16 list \<times> int \<Rightarrow> bool" where
  "leaf_ok pl x \<longleftrightarrow> (\<forall>t \<in> set (fst x). t \<noteq> 0 \<and> name_ok t) \<and> 0 \<le> snd x \<and> plv_ok pl (nat (snd x))"

lemma leaf_ok_Cons: "(\<forall>x \<in> set ps. leaf_ok pl (case x of (p, i) \<Rightarrow> (t # p, i))) \<longleftrightarrow> (ps \<noteq> [] \<longrightarrow> t \<noteq> 0 \<and> name_ok t) \<and> (\<forall>x \<in> set ps. leaf_ok pl x)"
  by (cases ps) (force simp: leaf_ok_def)+

lemma node_doc_ok:
  "\<forall>x \<in> set (tree_paths n). leaf_ok pl x \<Longrightarrow> doc_ok (node_doc pl n) \<and> buildable (node_doc pl n)"
  "\<forall>x \<in> set (child_paths cs). leaf_ok pl x \<Longrightarrow> fields_ok (child_docs pl cs) \<and> fields_buildable (child_docs pl cs)"
proof (induction n and cs rule: tree_paths_child_paths.induct)
  case (1 i cs)
  then show ?case by (cases "cs = []") (auto simp: leaf_ok_def field_doc_ok)
next
  case (3 t n cs)
  then show ?case using tree_paths_nonempty(1) [of n] by (simp add: ball_Un leaf_ok_Cons)
qed simp

text \<open>Going through the tree makes the calls that write the document.\<close>

lemma no_throw_Inr [simp]: "no_throw (Inr x) = Inr x"
  by (simp add: no_throw_def)

lemma Travers_doc:
  "\<forall>x \<in> set (tree_paths n). leaf_ok pl x \<Longrightarrow> t \<noteq> 0 \<Longrightarrow> write_doc (node_doc pl n) t b w = Inr r \<Longrightarrow> pn_Travers pl n t b w = Inr r"
  "\<forall>x \<in> set (child_paths cs). leaf_ok pl x \<Longrightarrow> write_fields (child_docs pl cs) b w = Inr r \<Longrightarrow> pn_Travers_all pl cs b w = Inr r"
proof (induction n and cs arbitrary: t b w r and b w r rule: tree_paths_child_paths.induct)
  case (1 i cs)
  show ?case
  proof (cases "cs = []")
    case True
    then have "0 \<le> i" "plv_ok pl (nat i)" using 1(2) by (simp_all add: leaf_ok_def)
    then show ?thesis using 1(4) True CJsonBuilderRef_doc [of pl "nat i" b w t] by simp
  next
    case False
    obtain b1 c w1 c1 w2 c2 w3 where st: "cb_Object b w t = Inr ((b1, c), w1)" "write_fields (child_docs pl cs) c w1 = Inr (c1, w2)"
      "cb_End c1 w2 = Inr (c2, w3)" "r = (b1, w3)"
      using 1(4) False by (auto simp: res_simps)
    have "pn_Travers_all pl cs c w1 = Inr (c1, w2)" using 1(1) [OF False _ st(2)] 1(2) False by simp
    then show ?thesis using st False 1(3) by (simp add: TagName_IsEmpty_def)
  qed
next
  case (3 t' n cs)
  obtain b1 w1 where st: "write_doc (node_doc pl n) t' b w = Inr (b1, w1)" "write_fields (child_docs pl cs) b1 w1 = Inr r"
    using 3(4) by (auto simp: res_simps)
  have ok: "\<forall>x \<in> set (tree_paths n). leaf_ok pl x" "t' \<noteq> 0" "\<forall>x \<in> set (child_paths cs). leaf_ok pl x"
    using 3(3) tree_paths_nonempty(1) [of n] by (simp_all add: ball_Un leaf_ok_Cons)
  show ?case using 3(1) [OF ok(1,2) st(1)] 3(2) [OF ok(3) st(2)] by simp
qed simp

subsection \<open>The elements it refers to\<close>

definition field_elems :: "payload_view \<Rightarrow> nat \<Rightarrow> u32" where
  "field_elems pl f =
     (let ft = pt_fields (plv_type pl) ! f; vs = plv_vals pl f in
      if pf_IsFloatVector ft then word_of_nat (sum_list (map vec_dim vs))
      else if pf_isArray ft then word_of_nat (length vs) else 1)"

definition add_elems :: "payload_view \<Rightarrow> int \<Rightarrow> u32 list \<Rightarrow> u32 list" where
  "add_elems pl i os = os[nat i := os ! nat i + field_elems pl (nat i)]"

lemma refs_of_vectors:
  "f < length os \<Longrightarrow> items_refs (map (\<lambda>v. DRefs f (word_of_nat (d v))) vs) (Some os) = Some (os[f := os ! f + word_of_nat (sum_list (map d vs))])"
  by (induction vs arbitrary: os) (simp_all add: algebra_simps)

lemma field_refs:
  assumes "plv_ok pl f" "length os = kMaxIndexes"
  shows "doc_refs (field_doc pl f) (Some os) = Some (add_elems pl (int f) os)"
proof -
  let ?ft = "pt_fields (plv_type pl) ! f" and ?vs = "plv_vals pl f"
  have f: "f < length os" using assms by (simp add: plv_ok_def)
  consider (vecs) "pf_IsFloatVector ?ft" "pf_isArray ?ft" | (vec) v where "pf_IsFloatVector ?ft" "\<not> pf_isArray ?ft" "?vs = [v]"
    | (array) "\<not> pf_IsFloatVector ?ft" "pf_isArray ?ft" | (scalar) "\<not> pf_IsFloatVector ?ft" "\<not> pf_isArray ?ft"
    using assms by (auto simp: plv_ok_def Let_def length_Suc_conv split: if_splits)
  then show ?thesis
    by cases (simp_all add: field_doc_def Let_def add_elems_def field_elems_def refs_of_vectors f)
qed

lemma add_elems_length [simp]: "length (add_elems pl i os) = length os"
  by (simp add: add_elems_def)

lemma fold_elems_length [simp]: "length (fold (add_elems pl) is os) = length os"
  by (induction "is" arbitrary: os) simp_all

lemma node_refs:
  "\<forall>x \<in> set (tree_paths n). leaf_ok pl x \<Longrightarrow> length os = kMaxIndexes \<Longrightarrow>
   doc_refs (node_doc pl n) (Some os) = Some (fold (add_elems pl) (map snd (tree_paths n)) os)"
  "\<forall>x \<in> set (child_paths cs). leaf_ok pl x \<Longrightarrow> length os = kMaxIndexes \<Longrightarrow>
   fields_refs (child_docs pl cs) (Some os) = Some (fold (add_elems pl) (map snd (child_paths cs)) os)"
proof (induction n and cs arbitrary: os and os rule: tree_paths_child_paths.induct)
  case (1 i cs)
  show ?case
  proof (cases "cs = []")
    case True
    then have "0 \<le> i" "plv_ok pl (nat i)" using 1(2) by (simp_all add: leaf_ok_def)
    then show ?thesis using field_refs [of pl "nat i" os] 1(3) True by simp
  qed (use 1 in simp)
next
  case (3 t n cs)
  have ok: "\<forall>x \<in> set (tree_paths n). leaf_ok pl x" "\<forall>x \<in> set (child_paths cs). leaf_ok pl x"
    using 3(3) tree_paths_nonempty(1) [of n] by (simp_all add: ball_Un leaf_ok_Cons)
  have "map (snd \<circ> (\<lambda>(p, i). (t # p, i))) ps = map snd ps" for ps :: "(u16 list \<times> int) list" by (induction ps) auto
  note m = this [of "tree_paths n"]
  show ?case unfolding child_paths.simps child_docs.simps fields_refs.simps map_append map_map m fold_append o_apply using 3(1) [OF ok(1) 3(4)] 3(2) [OF ok(2)] 3(4) by simp
qed simp

lemma fold_elems_nth:
  "distinct is \<Longrightarrow> \<forall>i \<in> set is. 0 \<le> i \<Longrightarrow> f < length os \<Longrightarrow>
   fold (add_elems pl) is os ! f = os ! f + (if int f \<in> set is then field_elems pl f else 0)"
proof (induction "is" arbitrary: os)
  case (Cons i "is")
  then show ?case by (cases "nat i = f") (auto simp: add_elems_def)
qed simp

subsection \<open>Its size\<close>

definition leaf_size :: "payload_view \<Rightarrow> u16 list \<times> int \<Rightarrow> nat" where
  "leaf_size pl x = 10 * length (fst x) + 10 * length (plv_vals pl (nat (snd x))) + 15"

lemma field_doc_size: "length (doc_body (field_doc pl f)) \<le> 10 * length (plv_vals pl f) + 15"
proof -
  have "length (items_body (map (\<lambda>v. DRefs f (c v)) vs)) \<le> 10 * length vs" for vs :: "variant list" and c
  proof (induction vs)
    case (Cons v vs)
    then show ?case using tag_bytes_len(2) [of TAG_ARRAY 0 "int f"] uint32_pack_length(2) [of "c v"] by simp
  qed simp
  from this [of "\<lambda>v. word_of_nat (vec_dim v)" "plv_vals pl f"]
  show ?thesis
    using uint32_pack_length(2) [of "word_of_nat (vec_dim (hd (plv_vals pl f)))"] uint32_pack_length(2) [of "word_of_nat (length (plv_vals pl f))"]
    by (auto simp: field_doc_def Let_def)
qed

lemma leaf_size_deeper:
  "ps \<noteq> [] \<Longrightarrow> sum_list (map (leaf_size pl) ps) + 10 \<le> sum_list (map (leaf_size pl) (map (\<lambda>(p, i). (t # p, i)) ps))"
proof (induction ps)
  case (Cons x ps)
  then show ?case by (cases ps; cases x) (auto simp: leaf_size_def)
qed simp

lemma node_doc_size:
  "length (doc_body (node_doc pl n)) \<le> sum_list (map (leaf_size pl) (tree_paths n))"
  "length (fields_body (child_docs pl cs)) \<le> sum_list (map (leaf_size pl) (child_paths cs)) + (if cs = [] then 5 else 0)"
proof (induction n and cs rule: tree_paths_child_paths.induct)
  case (1 i cs)
  then show ?case using field_doc_size [of pl "nat i"] by (simp add: leaf_size_def)
next
  case 2
  then show ?case using tag_bytes_len(2) [of TAG_END 0 "- 1"] by simp
next
  case (3 t n cs)
  let ?d = "node_doc pl n"
  have l: "length (fields_body (child_docs pl ((t, n) # cs))) \<le> 5 + length (doc_body ?d) + length (fields_body (child_docs pl cs))"
    using tag_bytes_len(2) [of "doc_tag ?d" t "doc_field ?d"] by simp
  have "sum_list (map (leaf_size pl) (child_paths ((t, n) # cs))) =
      sum_list (map (leaf_size pl) (map (\<lambda>(p, i). (t # p, i)) (tree_paths n))) + sum_list (map (leaf_size pl) (child_paths cs))"
    by (simp only: child_paths.simps map_append sum_list_append)
  with l 3 leaf_size_deeper [OF tree_paths_nonempty(1) [of n], of pl t] show ?case by (simp split: if_splits)
qed

lemma sum_list_mset: "mset xs = mset ys \<Longrightarrow> sum_list xs = sum_list (ys :: nat list)"
  using sum_mset_sum_list [of xs] sum_mset_sum_list [of ys] by simp

text \<open>
  C8. The tuple of a payload: for a payload type with fields whose JSON paths have tags, none a prefix of another,
  and a payload that fits it, \<open>buildPayloadTuple\<close> succeeds, appends one document and marks exactly the fields
  of the type; skipping the document ends at its end and finds, for every field of the type, as many elements as the
  payload holds in it, whatever objects the paths share, and none for any other number.
\<close>

theorem payload_tuple_complete:
  fixes tags :: "nat \<Rightarrow> u16 list"
  assumes n: "1 < pt_NumFields (plv_type pl)"
    and fields: "\<forall>f \<in> {1 ..< pt_NumFields (plv_type pl)}. plv_ok pl f \<and> field_tags (plv_type pl) tm f = Inr (tags f) \<and>
      tags f \<noteq> [] \<and> (\<forall>t \<in> set (tags f). t \<noteq> 0 \<and> name_ok t)"
    and apart: "\<forall>f \<in> {1 ..< pt_NumFields (plv_type pl)}. \<forall>g \<in> {1 ..< pt_NumFields (plv_type pl)}. f \<noteq> g \<longrightarrow> \<not> prefix (tags f) (tags g)"
    and w: "wr_wf w" "2 ^ 31 \<le> wr_maxCap w"
      "wr_len w + (\<Sum>f \<leftarrow> [1 ..< pt_NumFields (plv_type pl)]. 10 * length (tags f) + 10 * length (plv_vals pl f) + 15) + 30 \<le> 2 ^ 31"
  shows "\<exists>w' tuple os s. buildPayloadTuple pl tm w sc = Inr (sc \<union> {1 ..< pt_NumFields (plv_type pl)}, w') \<and> wr_Slice w' = wr_Slice w @ tuple \<and>
    bind_res (GetCTag (mk_Serializer tuple)) (\<lambda>(c, s). skipCjsonTag c (Some (replicate kMaxIndexes 0)) s) = Inr (Some os, s) \<and> Eof s \<and>
    (\<forall>f < kMaxIndexes. os ! f = (if f \<in> {1 ..< pt_NumFields (plv_type pl)} then field_elems pl f else 0))"
proof -
  define n where "n = pt_NumFields (plv_type pl)"
  have fs: "\<forall>f \<in> set [1 ..< n]. f < kMaxIndexes \<and> field_tags (plv_type pl) tm f = Inr (tags f)"
    "\<forall>f \<in> set [1 ..< n]. \<forall>g \<in> set [1 ..< n]. f \<noteq> g \<longrightarrow> \<not> prefix (tags f) (tags g)" "[1 ..< n] \<noteq> []"
    using n fields apart by (auto simp: n_def plv_ok_def)
  obtain root where root: "add_fields (plv_type pl) tm [1 ..< n] kEmptyNode sc = Inr (root, sc \<union> set [1 ..< n])"
    "mset (tree_paths root) = mset (map (\<lambda>f. (tags f, int f)) [1 ..< n])"
    by (rule add_fields_tree [OF fs(1) distinct_upt fs(2,3)])
  have set: "set (tree_paths root) = (\<lambda>f. (tags f, int f)) ` {1 ..< n}"
    using arg_cong [OF root(2), of set_mset] by simp
  have leaves: "\<forall>x \<in> set (tree_paths root). leaf_ok pl x" using fields by (auto simp: set leaf_ok_def n_def)
  obtain i cs where r: "root = PathNode i cs" by (cases root)
  have "([], i) \<notin> set (tree_paths root)" unfolding set using fields by (auto simp: n_def)
  then have cs: "cs \<noteq> []" by (auto simp: r)
  let ?d = "node_doc pl root" and ?c = "\<lparr>cb_type = TypeObject, cb_savePos = 0, cb_count = 0, cb_itemType = TAG_OBJECT\<rparr>"
  have d: "?d = DObj (child_docs pl cs)" using cs by (simp add: r)
  let ?t = "tag_bytes TAG_OBJECT 0 (- 1)" and ?tuple = "tag_bytes TAG_OBJECT 0 (- 1) @ doc_body (node_doc pl root)"
  have ok: "doc_ok ?d" "buildable ?d" using node_doc_ok(1) [OF leaves] by simp_all
  have "sum_list (map (leaf_size pl) (tree_paths root)) = (\<Sum>f \<leftarrow> [1 ..< n]. 10 * length (tags f) + 10 * length (plv_vals pl f) + 15)"
  proof -
    have "mset (map (leaf_size pl) (tree_paths root)) = mset (map (leaf_size pl) (map (\<lambda>f. (tags f, int f)) [1 ..< n]))"
      using root(2) by (simp only: mset_map)
    from sum_list_mset [OF this] show ?thesis by (simp add: leaf_size_def comp_def)
  qed
  then have size: "length (doc_body ?d) + wr_len w + 30 \<le> 2 ^ 31"
    using node_doc_size(1) [of pl root] w(3) by (simp add: n_def)
  then have size': "length ?tuple + wr_len w + 20 \<le> 2 ^ 31" using tag_bytes_len(2) [of TAG_OBJECT 0 "- 1"] by simp
  then have room: "roomy w (length (tag_bytes (doc_tag ?d) 0 (doc_field ?d) @ doc_body ?d))"
    using w by (simp add: roomy_def d)
  obtain b' w' where wd: "write_doc ?d 0 ?c w = Inr (b', w')"
    using write_doc_roomy(1) [OF ok name_0 _ room, of ?c] by auto
  have "appends w (tag_bytes (doc_tag ?d) 0 (doc_field ?d) @ doc_body ?d) w' \<and> b' = (if counted ?d then cb_counted ?c else ?c)"
    by (rule write_doc_appends(1) [OF ok name_0 _ w(1) _ wd]) (use size' in \<open>simp_all add: d\<close>)
  then have s: "wr_Slice w' = wr_Slice w @ ?tuple" by (simp add: appends_def d)
  obtain w1 c1 w2 c2 where st: "putTag w 0 TAG_OBJECT (- 1) = Inr w1" "write_fields (child_docs pl cs) ?c w1 = Inr (c1, w2)"
    "cb_End c1 w2 = Inr (c2, w')"
    using wd by (auto simp: d cb_Object_def mk_CJsonBuilder_def res_simps)
  have "pn_Travers_all pl cs ?c w1 = Inr (c1, w2)"
    by (rule Travers_doc(2) [OF _ st(2)]) (use leaves cs r in simp)
  then have built: "buildPayloadTuple pl tm w sc = Inr (sc \<union> {1 ..< n}, w')"
    using root(1) st cs by (simp add: buildPayloadTuple_def n_def [symmetric] mk_CJsonBuilder_def r TagName_IsEmpty_def cb_End_def)
  let ?z = "replicate kMaxIndexes (0 :: u32)" and ?os = "fold (add_elems pl) (map snd (tree_paths root)) (replicate kMaxIndexes 0)"
  have refs: "doc_refs ?d (Some ?z) = Some ?os" using node_refs(1) [OF leaves] by simp
  have at: "mk_Serializer ?tuple = ser_at [] (?t @ doc_body ?d)" by (simp add: mk_Serializer_def ser_at_def)
  have g: "GetCTag (ser_at [] (?t @ doc_body ?d)) = Inr (tag_word TAG_OBJECT 0 (- 1), ser_at ?t (doc_body ?d))"
    using GetCTag_tag [of 0 "- 1" "[]" TAG_OBJECT "doc_body ?d"] size' by simp
  have rem: "ser_remaining (ser_at ?t (doc_body ?d)) = length (doc_body ?d)"
    by (rule remaining_at) (use size' in simp)
  have "skip_tag (2 * length (doc_body ?d) + 2) (tag_word TAG_OBJECT 0 (- 1)) (Some ?z) (ser_at ?t (doc_body ?d @ [])) =
      Inr (doc_refs ?d (Some ?z), ser_at (?t @ doc_body ?d) [])"
    by (rule skip_doc(1) [OF ok(1)])
      (use tag_word_parts [of 0 "- 1" TAG_OBJECT] size' in \<open>simp_all add: offs_ok_def d del: tag_number.simps\<close>)
  then have skip: "bind_res (GetCTag (mk_Serializer ?tuple)) (\<lambda>(c, s). skipCjsonTag c (Some ?z) s) = Inr (Some ?os, ser_at ?tuple [])"
    by (simp add: at g skipCjsonTag_def rem refs)
  have ix: "mset (map snd (tree_paths root)) = mset (map int [1 ..< n])"
  proof -
    have "mset (map snd (tree_paths root)) = mset (map snd (map (\<lambda>f. (tags f, int f)) [1 ..< n]))" using root(2) by (simp only: mset_map)
    then show ?thesis by (simp add: comp_def)
  qed
  have "distinct (map snd (tree_paths root))"
    using mset_eq_imp_distinct_iff [OF ix] by (simp add: distinct_map)
  moreover have "set (map snd (tree_paths root)) = int ` {1 ..< n}" using mset_eq_setD [OF ix] by simp
  ultimately have "\<forall>f < kMaxIndexes. ?os ! f = (if f \<in> {1 ..< n} then field_elems pl f else 0)"
    by (auto simp: fold_elems_nth image_iff)
  moreover have "Eof (ser_at ?tuple [])" by (simp add: Eof_def)
  ultimately show ?thesis using built s skip unfolding n_def by blast
qed

definition example_payload :: payload_view where
  "example_payload = \<lparr>plv_type = mk_PayloadTypeImpl ''n'' [example_field KVT_String ''-tuple'' [], example_field KVT_Int ''f'' [''a.b''],
       (example_field KVT_Int64 ''g'' [''a.c''])\<lparr>pf_isArray := True\<rparr>],
     plv_vals = (\<lambda>f. if f = 2 then [V_Int64 4, V_Int64 5, V_Int64 6] else [V_Int 1])\<rparr>"

definition example_tags :: tags_matcher where
  "example_tags = tm_append ''c'' 3 (tm_append ''b'' 2 (tm_append ''a'' 1 (mk_TagsMatcherImpl_default 7)))"

lemma example_paths: "path2tag example_tags ''a.b'' = Inr [1, 2]" "path2tag example_tags ''a.c'' = Inr [1, 3]"
proof -
  have "json_path_fields ''a.b'' 0 0 = [''a'', ''b'']" "json_path_fields ''a.c'' 0 0 = [''a'', ''c'']"
    by (simp_all add: json_path_fields.simps str_find_from_def str_find_def)
  then show "path2tag example_tags ''a.b'' = Inr [1, 2]" "path2tag example_tags ''a.c'' = Inr [1, 3]"
    by (simp_all add: path2tag_def path2tag_add_def example_tags_def tm_append_def mk_TagsMatcherImpl_default_def tm_eval
        name2tag_add_def name2tag_def TagName_IsEmpty_def Let_def)
qed

theorem payload_tuple_complete_witness:
  "\<exists>w' tuple os s. buildPayloadTuple example_payload example_tags (mk_WrSerializer (replicate 256 0) (mk_GrowthPolicy 0)) {} = Inr ({1, 2}, w') \<and>
     wr_Slice w' = tuple \<and>
     bind_res (GetCTag (mk_Serializer tuple)) (\<lambda>(c, s). skipCjsonTag c (Some (replicate kMaxIndexes 0)) s) = Inr (Some os, s) \<and> Eof s \<and>
     os ! 0 = 0 \<and> os ! 1 = 1 \<and> os ! 2 = 3"
proof -
  let ?w = "mk_WrSerializer (replicate 256 0) (mk_GrowthPolicy 0)"
  let ?tags = "\<lambda>f. if f = 1 then [1, 2] else [1, 3 :: u16]"
  have n: "pt_NumFields (plv_type example_payload) = 3" by (simp add: example_payload_def mk_PayloadTypeImpl_def pt_NumFields_def)
  have r: "{1 ..< 3} = {1, 2 :: nat}" "[1 ..< 3] = [1, 2 :: nat]" by (auto simp: upt_rec)
  have f: "plv_ok example_payload f \<and> field_tags (plv_type example_payload) example_tags f = Inr (?tags f) \<and>
      ?tags f \<noteq> [] \<and> (\<forall>t \<in> set (?tags f). t \<noteq> 0 \<and> name_ok t)" if "f \<in> {1, 2}" for f
    using that n
    by (auto simp: plv_ok_def example_payload_def mk_PayloadTypeImpl_def pt_NumFields_def pt_Field_def kMaxIndexes_def field_tags_def
        example_field_def first_path_def example_paths name_ok_def pf_IsFloatVector_def Let_def)
  have wf: "wr_wf ?w" "2 ^ 31 \<le> wr_maxCap ?w"
    by (simp_all add: mk_WrSerializer_def wr_wf_def mk_GrowthPolicy_def wr_kMaxCapacity_def)
  have size: "wr_len ?w + (\<Sum>f \<leftarrow> [1 ..< 3]. 10 * length (?tags f) + 10 * length (plv_vals example_payload f) + 15) + 30 \<le> 2 ^ 31"
    unfolding r by (simp add: mk_WrSerializer_def example_payload_def)
  from payload_tuple_complete [of example_payload example_tags ?tags ?w "{}", unfolded n r(1)] f wf size
  obtain w' tuple os s where w': "buildPayloadTuple example_payload example_tags ?w {} = Inr ({} \<union> {1, 2}, w')" "wr_Slice w' = wr_Slice ?w @ tuple"
    "bind_res (GetCTag (mk_Serializer tuple)) (\<lambda>(c, s). skipCjsonTag c (Some (replicate kMaxIndexes 0)) s) = Inr (Some os, s)" "Eof s"
    "\<forall>f < kMaxIndexes. os ! f = (if f \<in> {1, 2} then field_elems example_payload f else 0)"
    by (auto simp: prefix_def)
  have e: "field_elems example_payload 1 = 1" "field_elems example_payload 2 = 3"
    by (simp_all add: field_elems_def example_payload_def mk_PayloadTypeImpl_def example_field_def pf_IsFloatVector_def)
  have "os ! 0 = 0" "os ! 1 = 1" "os ! 2 = 3" using w'(5) e by (simp_all add: kMaxIndexes_def)
  then show ?thesis using w'(1-4) by (auto simp: mk_WrSerializer_def wr_Slice_def)
qed

end
