(* ===== verification/QueryTerms.thy ===== *)
theory QueryTerms
  imports Strings
begin

section \<open>The words of queries\<close>

text \<open>
  The names that conditions, operations and the parts of a query have in SQL, in the JSON query language (DSL) and in
  messages: \<open>core/type_consts_helpers.cc\<close>, the tables of \<open>core/query/dsl/dslparser.cc\<close> and \<open>dslencoder.cc\<close>,
  \<open>SQLParser::getCondType\<close>, and the log levels and strict modes of \<open>tools/stringstools.cc\<close>. The tables of the parser are
  searched without regard to case. A condition outside the enumeration is \<open>CondOther\<close>.
\<close>

subsection \<open>Conditions\<close>

datatype CondType =
    CondAny | CondEq | CondLt | CondLe | CondGt | CondGe | CondRange | CondSet | CondAllSet | CondEmpty
  | CondLike | CondDWithin | CondKnn | CondOther int

fun InvertNotCondition :: "CondType \<Rightarrow> CondType res" where
  "InvertNotCondition CondGt = Inr CondLe"
| "InvertNotCondition CondLt = Inr CondGe"
| "InvertNotCondition CondGe = Inr CondLt"
| "InvertNotCondition CondLe = Inr CondGt"
| "InvertNotCondition _ = Inl (Err ErrForbidden)"

fun CondTypeToStr :: "CondType \<Rightarrow> string res" where
  "CondTypeToStr CondAny = Inr ''CondAny''"
| "CondTypeToStr CondEq = Inr ''CondEq''"
| "CondTypeToStr CondLt = Inr ''CondLt''"
| "CondTypeToStr CondLe = Inr ''CondLe''"
| "CondTypeToStr CondGt = Inr ''CondGt''"
| "CondTypeToStr CondGe = Inr ''CondGe''"
| "CondTypeToStr CondRange = Inr ''CondRange''"
| "CondTypeToStr CondSet = Inr ''CondSet''"
| "CondTypeToStr CondAllSet = Inr ''CondAllSet''"
| "CondTypeToStr CondEmpty = Inr ''CondEmpty''"
| "CondTypeToStr CondLike = Inr ''CondLike''"
| "CondTypeToStr CondDWithin = Inr ''CondDWithin''"
| "CondTypeToStr CondKnn = Inr ''CondKnn''"
| "CondTypeToStr (CondOther _) = Inl (Err ErrNotValid)"

fun CondTypeToStrShort :: "CondType \<Rightarrow> string res" where
  "CondTypeToStrShort CondAny = Inr ''IS NOT NULL''"
| "CondTypeToStrShort CondEq = Inr ''=''"
| "CondTypeToStrShort CondLt = Inr ''<''"
| "CondTypeToStrShort CondLe = Inr ''<=''"
| "CondTypeToStrShort CondGt = Inr ''>''"
| "CondTypeToStrShort CondGe = Inr ''>=''"
| "CondTypeToStrShort CondRange = Inr ''RANGE''"
| "CondTypeToStrShort CondSet = Inr ''IN''"
| "CondTypeToStrShort CondAllSet = Inr ''ALLSET''"
| "CondTypeToStrShort CondEmpty = Inr ''IS NULL''"
| "CondTypeToStrShort CondLike = Inr ''LIKE''"
| "CondTypeToStrShort CondDWithin = Inr ''DWITHIN''"
| "CondTypeToStrShort CondKnn = Inr ''KNN''"
| "CondTypeToStrShort (CondOther _) = Inl (Err ErrNotValid)"

text \<open>\<open>SQLParser::getCondType\<close>: the text of a token.\<close>

definition getCondType :: "string \<Rightarrow> CondType res" where
  "getCondType cond =
     (if cond = ''='' \<or> cond = ''=='' \<or> iequals cond ''is'' then Inr CondEq
      else if cond = ''>'' then Inr CondGt
      else if cond = ''>='' then Inr CondGe
      else if cond = ''<'' then Inr CondLt
      else if cond = ''<='' then Inr CondLe
      else if iequals cond ''in'' then Inr CondSet
      else if iequals cond ''range'' then Inr CondRange
      else if iequals cond ''like'' then Inr CondLike
      else if iequals cond ''allset'' then Inr CondAllSet
      else Inl (Err ErrParseSQL))"

subsection \<open>Other enumerations\<close>

fun TagTypeToStr :: "TagType \<Rightarrow> string" where
  "TagTypeToStr TAG_VARINT = ''<varint>''"
| "TagTypeToStr TAG_OBJECT = ''<object>''"
| "TagTypeToStr TAG_END = ''<end>''"
| "TagTypeToStr TAG_ARRAY = ''<array>''"
| "TagTypeToStr TAG_BOOL = ''<bool>''"
| "TagTypeToStr TAG_STRING = ''<string>''"
| "TagTypeToStr TAG_DOUBLE = ''<double>''"
| "TagTypeToStr TAG_NULL = ''<null>''"
| "TagTypeToStr TAG_UUID = ''<uuid>''"
| "TagTypeToStr TAG_FLOAT = ''<float>''"

datatype AggType = AggSum | AggAvg | AggFacet | AggMin | AggMax | AggDistinct | AggCount | AggCountCached | AggUnknown

fun AggTypeToStr :: "AggType \<Rightarrow> string" where
  "AggTypeToStr AggMin = ''min''"
| "AggTypeToStr AggMax = ''max''"
| "AggTypeToStr AggSum = ''sum''"
| "AggTypeToStr AggAvg = ''avg''"
| "AggTypeToStr AggDistinct = ''distinct''"
| "AggTypeToStr AggFacet = ''facet''"
| "AggTypeToStr AggCount = ''count''"
| "AggTypeToStr AggCountCached = ''count_cached''"
| "AggTypeToStr AggUnknown = ''unknown''"

datatype VectorMetric = Metric_L2 | Metric_InnerProduct | Metric_Cosine
datatype QueryRankType = RankNotSet | RankNo | RankFullText | RankKnnL2 | RankKnnIP | RankKnnCos | RankHybrid

fun ToQueryRankType :: "VectorMetric \<Rightarrow> QueryRankType" where
  "ToQueryRankType Metric_L2 = RankKnnL2"
| "ToQueryRankType Metric_Cosine = RankKnnCos"
| "ToQueryRankType Metric_InnerProduct = RankKnnIP"

fun VectorMetricToStr :: "VectorMetric \<Rightarrow> string" where
  "VectorMetricToStr Metric_L2 = ''l2''"
| "VectorMetricToStr Metric_Cosine = ''cosine''"
| "VectorMetricToStr Metric_InnerProduct = ''inner_product''"

datatype OpType = OpOr | OpAnd | OpNot
datatype JoinType = LeftJoin | InnerJoin | OrInnerJoin | Merge
datatype CalcTotalMode = ModeNoTotal | ModeCachedTotal | ModeAccurateTotal
datatype QueryType = QuerySelect | QueryDelete | QueryUpdate | QueryTruncate
datatype ExpressionType = ExpressionTypeField | ExpressionTypeValues | ExpressionTypeExpression | ExpressionTypeSubQuery
datatype LogLevel = LogNone | LogError | LogWarning | LogInfo | LogTrace
datatype StrictMode = StrictModeNotSet | StrictModeNone | StrictModeNames | StrictModeIndexes

subsection \<open>Tables of the JSON query language\<close>

type_synonym 'a str_map = "(string \<times> 'a) list"

text \<open>A map of the parser, without regard to case, and its \<open>get\<close>.\<close>

definition nocase_find :: "'a str_map \<Rightarrow> string \<Rightarrow> 'a option" where
  "nocase_find m name = map_option snd (find (\<lambda>(k, _). iequals k name) m)"

definition dsl_get :: "'a str_map \<Rightarrow> string \<Rightarrow> 'a res" where
  "dsl_get m name = (case nocase_find m name of None \<Rightarrow> Inl (Err ErrParseDSL) | Some v \<Rightarrow> Inr v)"

text \<open>A map of the encoder and its \<open>get\<close>, which asserts that the key is there.\<close>

definition enc_get :: "('a \<times> string) list \<Rightarrow> 'a \<Rightarrow> string res" where
  "enc_get m key = (case map_of m key of None \<Rightarrow> Inl Abort | Some s \<Rightarrow> Inr s)"

datatype DslRoot =
    Root_Namespace | Root_Limit | Root_Offset | Root_Filters | Root_Sort | Root_Merged | Root_SelectFilter
  | Root_SelectFunctions | Root_ReqTotal | Root_Aggregations | Root_Explain | Root_EqualPositions | Root_WithRank
  | Root_StrictMode | Root_QueryType | Root_DropFields | Root_UpdateFields | Root_Local

datatype DslSort = Sort_Desc | Sort_Field | Sort_Values
datatype DslJoinRoot =
  Join_Type | Join_On | Join_Namespace | Join_Filters | Join_Sort | Join_Limit | Join_Offset | Join_SelectFilter
datatype DslJoinEntry = JoinEntry_LeftField | JoinEntry_RightField | JoinEntry_Cond | JoinEntry_Op
datatype DslAggregation = Aggregation_Fields | Aggregation_Type | Aggregation_Sort | Aggregation_Limit | Aggregation_Offset
datatype DslEqualPosition = EqualPosition_Positions
datatype DslUpdateField = UpdateField_Name | UpdateField_Type | UpdateField_Values | UpdateField_IsArray
datatype DslUpdateFieldType = UpdateFieldType_Object | UpdateFieldType_Expression | UpdateFieldType_Value

definition kRootMap :: "DslRoot str_map" where
  "kRootMap = [(''namespace'', Root_Namespace), (''limit'', Root_Limit), (''offset'', Root_Offset),
     (''filters'', Root_Filters), (''sort'', Root_Sort), (''merge_queries'', Root_Merged),
     (''select_filter'', Root_SelectFilter), (''select_functions'', Root_SelectFunctions), (''req_total'', Root_ReqTotal),
     (''aggregations'', Root_Aggregations), (''explain'', Root_Explain), (''local'', Root_Local),
     (''equal_positions'', Root_EqualPositions), (''select_with_rank'', Root_WithRank), (''strict_mode'', Root_StrictMode),
     (''type'', Root_QueryType), (''drop_fields'', Root_DropFields), (''update_fields'', Root_UpdateFields)]"

definition kSortMap :: "DslSort str_map" where
  "kSortMap = [(''desc'', Sort_Desc), (''field'', Sort_Field), (''values'', Sort_Values)]"

definition joins_map :: "DslJoinRoot str_map" where
  "joins_map = [(''type'', Join_Type), (''namespace'', Join_Namespace), (''filters'', Join_Filters), (''sort'', Join_Sort),
     (''limit'', Join_Limit), (''offset'', Join_Offset), (''on'', Join_On), (''select_filter'', Join_SelectFilter)]"

definition joined_entry_map :: "DslJoinEntry str_map" where
  "joined_entry_map = [(''left_field'', JoinEntry_LeftField), (''right_field'', JoinEntry_RightField),
     (''cond'', JoinEntry_Cond), (''op'', JoinEntry_Op)]"

definition join_types :: "JoinType str_map" where
  "join_types = [(''inner'', InnerJoin), (''left'', LeftJoin), (''orinner'', OrInnerJoin)]"

definition cond_map :: "CondType str_map" where
  "cond_map = [(''any'', CondAny), (''eq'', CondEq), (''lt'', CondLt), (''le'', CondLe), (''gt'', CondGt), (''ge'', CondGe),
     (''range'', CondRange), (''set'', CondSet), (''allset'', CondAllSet), (''empty'', CondEmpty), (''match'', CondEq),
     (''like'', CondLike), (''dwithin'', CondDWithin), (''knn'', CondKnn)]"

definition kOpMap_dsl :: "OpType str_map" where
  "kOpMap_dsl = [(''or'', OpOr), (''and'', OpAnd), (''not'', OpNot)]"

definition kReqTotalValues_dsl :: "CalcTotalMode str_map" where
  "kReqTotalValues_dsl = [(''disabled'', ModeNoTotal), (''enabled'', ModeAccurateTotal), (''cached'', ModeCachedTotal)]"

definition kAggregationMap :: "DslAggregation str_map" where
  "kAggregationMap = [(''fields'', Aggregation_Fields), (''type'', Aggregation_Type), (''sort'', Aggregation_Sort),
     (''limit'', Aggregation_Limit), (''offset'', Aggregation_Offset)]"

definition kAggregationTypes :: "AggType str_map" where
  "kAggregationTypes = [(''sum'', AggSum), (''avg'', AggAvg), (''max'', AggMax), (''min'', AggMin), (''facet'', AggFacet),
     (''distinct'', AggDistinct), (''count'', AggCount), (''count_cached'', AggCountCached)]"

definition kEquationPositionMap :: "DslEqualPosition str_map" where
  "kEquationPositionMap = [(''positions'', EqualPosition_Positions)]"

definition kQueryTypes :: "QueryType str_map" where
  "kQueryTypes = [(''select'', QuerySelect), (''update'', QueryUpdate), (''delete'', QueryDelete), (''truncate'', QueryTruncate)]"

definition kUpdateFieldMap :: "DslUpdateField str_map" where
  "kUpdateFieldMap = [(''name'', UpdateField_Name), (''type'', UpdateField_Type), (''values'', UpdateField_Values),
     (''is_array'', UpdateField_IsArray)]"

definition kUpdateFieldTypeMap :: "DslUpdateFieldType str_map" where
  "kUpdateFieldTypeMap = [(''object'', UpdateFieldType_Object), (''expression'', UpdateFieldType_Expression),
     (''value'', UpdateFieldType_Value)]"

definition kJoinTypes_enc :: "(JoinType \<times> string) list" where
  "kJoinTypes_enc = [(InnerJoin, ''inner''), (LeftJoin, ''left''), (OrInnerJoin, ''orinner'')]"

definition kCondMap_enc :: "(CondType \<times> string) list" where
  "kCondMap_enc = [(CondAny, ''any''), (CondEq, ''eq''), (CondLt, ''lt''), (CondLe, ''le''), (CondGt, ''gt''), (CondGe, ''ge''),
     (CondRange, ''range''), (CondSet, ''set''), (CondAllSet, ''allset''), (CondEmpty, ''empty''), (CondLike, ''like''),
     (CondDWithin, ''dwithin''), (CondKnn, ''knn'')]"

definition kOpMap_enc :: "(OpType \<times> string) list" where
  "kOpMap_enc = [(OpOr, ''or''), (OpAnd, ''and''), (OpNot, ''not'')]"

definition kReqTotalValues_enc :: "(CalcTotalMode \<times> string) list" where
  "kReqTotalValues_enc = [(ModeNoTotal, ''disabled''), (ModeAccurateTotal, ''enabled''), (ModeCachedTotal, ''cached'')]"

definition kExpressionTypeMap_enc :: "(ExpressionType \<times> string) list" where
  "kExpressionTypeMap_enc = [(ExpressionTypeField, ''field''), (ExpressionTypeExpression, ''expression''),
     (ExpressionTypeValues, ''values''), (ExpressionTypeSubQuery, ''subquery'')]"

subsection \<open>Log levels and strict modes\<close>

definition kLogLevels :: "LogLevel str_map" where
  "kLogLevels = [(''none'', LogNone), (''warning'', LogWarning), (''error'', LogError), (''info'', LogInfo), (''trace'', LogTrace)]"

definition kStrictModes :: "StrictMode str_map" where
  "kStrictModes = [('''', StrictModeNotSet), (''none'', StrictModeNone), (''names'', StrictModeNames), (''indexes'', StrictModeIndexes)]"

definition logLevelFromString :: "string \<Rightarrow> LogLevel" where
  "logLevelFromString s = (case nocase_find kLogLevels s of Some l \<Rightarrow> l | None \<Rightarrow> LogNone)"

definition logLevelToString :: "LogLevel \<Rightarrow> string" where
  "logLevelToString level = (case find (\<lambda>(_, l). l = level) kLogLevels of Some (k, _) \<Rightarrow> k | None \<Rightarrow> ''none'')"

definition strictModeFromString :: "string \<Rightarrow> StrictMode" where
  "strictModeFromString s = (case nocase_find kStrictModes s of Some m \<Rightarrow> m | None \<Rightarrow> StrictModeNotSet)"

definition strictModeToString :: "StrictMode \<Rightarrow> string" where
  "strictModeToString mode = (case find (\<lambda>(_, m). m = mode) kStrictModes of Some (k, _) \<Rightarrow> k | None \<Rightarrow> '''')"

subsection \<open>Inverting a condition\<close>

text \<open>What the comparisons mean for two values of an ordered type.\<close>

fun cond_holds :: "CondType \<Rightarrow> 'a :: linorder \<Rightarrow> 'a \<Rightarrow> bool option" where
  "cond_holds CondEq x y = Some (x = y)"
| "cond_holds CondLt x y = Some (x < y)"
| "cond_holds CondLe x y = Some (x \<le> y)"
| "cond_holds CondGt x y = Some (x > y)"
| "cond_holds CondGe x y = Some (x \<ge> y)"
| "cond_holds _ x y = None"

text \<open>
  Taking a negation into a condition: \<open>InvertNotCondition\<close> gives the comparison that holds exactly when the given
  one does not, is its own inverse, and is forbidden for every condition but the four strict and non-strict
  comparisons.
\<close>

theorem invert_not_condition:
  "case InvertNotCondition c of
     Inr d \<Rightarrow> InvertNotCondition d = Inr c \<and> cond_holds c x y \<noteq> None \<and> cond_holds d x y = map_option Not (cond_holds c x y)
   | Inl e \<Rightarrow> e = Err ErrForbidden \<and> c \<notin> {CondLt, CondLe, CondGt, CondGe}"
  by (cases c) auto

subsection \<open>Reading names back\<close>

lemma iequals_trans: "iequals s t \<Longrightarrow> iequals k s = iequals k t"
  unfolding iequals_def list_all2_conv_all_nth by auto

lemma dsl_get_nocase: "iequals s t \<Longrightarrow> dsl_get m t = dsl_get m s"
  unfolding dsl_get_def nocase_find_def using iequals_trans [of s t] by simp

lemma nocase_find_nocase: "iequals s t \<Longrightarrow> nocase_find m t = nocase_find m s"
  unfolding nocase_find_def using iequals_trans [of s t] by simp

lemma names_read:
  "list_all (\<lambda>(c, s). dsl_get cond_map s = Inr c) kCondMap_enc"
  "list_all (\<lambda>(x, s). dsl_get kOpMap_dsl s = Inr x) kOpMap_enc"
  "list_all (\<lambda>(j, s). dsl_get join_types s = Inr j) kJoinTypes_enc"
  "list_all (\<lambda>(m, s). dsl_get kReqTotalValues_dsl s = Inr m) kReqTotalValues_enc"
  "list_all (\<lambda>a. dsl_get kAggregationTypes (AggTypeToStr a) = Inr a)
     [AggSum, AggAvg, AggFacet, AggMin, AggMax, AggDistinct, AggCount, AggCountCached]"
  by code_simp+

lemma enc_read:
  assumes "list_all (\<lambda>(x, s). dsl_get m s = Inr x) e" "enc_get e x = Inr s"
  shows "dsl_get m s = Inr x"
  using assms map_of_SomeD [of e x s] by (auto simp: enc_get_def list_all_iff split: option.splits)

lemmas dsl_names = names_read(1-4) [THEN enc_read]

lemma levels_read:
  "list_all (\<lambda>l. logLevelFromString (logLevelToString l) = l) [LogNone, LogError, LogWarning, LogInfo, LogTrace]"
  "list_all (\<lambda>m. strictModeFromString (strictModeToString m) = m) [StrictModeNotSet, StrictModeNone, StrictModeNames, StrictModeIndexes]"
  by code_simp+

lemma level_names: "logLevelFromString (logLevelToString l) = l" "strictModeFromString (strictModeToString m) = m"
proof -
  show "logLevelFromString (logLevelToString l) = l" using levels_read(1) by (cases l) simp_all
  show "strictModeFromString (strictModeToString m) = m" using levels_read(2) by (cases m) simp_all
qed

lemma levels_nocase:
  "iequals s t \<Longrightarrow> logLevelFromString t = logLevelFromString s" "iequals s t \<Longrightarrow> strictModeFromString t = strictModeFromString s"
  by (simp_all add: logLevelFromString_def strictModeFromString_def nocase_find_nocase [of s t])

lemma agg_names: "a \<noteq> AggUnknown \<Longrightarrow> dsl_get kAggregationTypes (AggTypeToStr a) = Inr a"
  using names_read(5) by (cases a) simp_all

lemma sql_read:
  "list_all (\<lambda>c. case CondTypeToStrShort c of Inl _ \<Rightarrow> False
     | Inr s \<Rightarrow> getCondType s = (if c \<in> {CondAny, CondEmpty, CondDWithin, CondKnn} then Inl (Err ErrParseSQL) else Inr c))
     [CondAny, CondEq, CondLt, CondLe, CondGt, CondGe, CondRange, CondSet, CondAllSet, CondEmpty, CondLike, CondDWithin, CondKnn]"
  by code_simp

lemma sql_names:
  "CondTypeToStrShort c = Inr s \<Longrightarrow>
    getCondType s = (if c \<in> {CondAny, CondEmpty, CondDWithin, CondKnn} then Inl (Err ErrParseSQL) else Inr c)"
  using sql_read by (cases c) auto

text \<open>
  The names of queries are read back: whatever the encoder of the JSON query language writes for a condition, an
  operation, a kind of join or of total, in capital or small letters, the parser reads as the same value, and so it is with
  aggregations, log levels and strict modes; SQL reads back the signs of all conditions but the four it
  has no operator for.
\<close>

theorem names_roundtrip:
  "(enc_get kCondMap_enc c = Inr s \<and> iequals s t \<longrightarrow> dsl_get cond_map t = Inr c) \<and>
   (enc_get kOpMap_enc x = Inr s \<and> iequals s t \<longrightarrow> dsl_get kOpMap_dsl t = Inr x) \<and>
   (enc_get kJoinTypes_enc j = Inr s \<and> iequals s t \<longrightarrow> dsl_get join_types t = Inr j) \<and>
   (enc_get kReqTotalValues_enc m = Inr s \<and> iequals s t \<longrightarrow> dsl_get kReqTotalValues_dsl t = Inr m) \<and>
   (a \<noteq> AggUnknown \<and> iequals (AggTypeToStr a) t \<longrightarrow> dsl_get kAggregationTypes t = Inr a) \<and>
   (iequals (logLevelToString l) t \<longrightarrow> logLevelFromString t = l) \<and>
   (iequals (strictModeToString sm) t \<longrightarrow> strictModeFromString t = sm) \<and>
   (CondTypeToStrShort c = Inr s \<longrightarrow>
      getCondType s = (if c \<in> {CondAny, CondEmpty, CondDWithin, CondKnn} then Inl (Err ErrParseSQL) else Inr c))"
proof (intro conjI impI; (elim conjE)?)
  show "enc_get kCondMap_enc c = Inr s \<Longrightarrow> iequals s t \<Longrightarrow> dsl_get cond_map t = Inr c"
    using dsl_names(1) dsl_get_nocase by metis
  show "enc_get kOpMap_enc x = Inr s \<Longrightarrow> iequals s t \<Longrightarrow> dsl_get kOpMap_dsl t = Inr x"
    using dsl_names(2) dsl_get_nocase by metis
  show "enc_get kJoinTypes_enc j = Inr s \<Longrightarrow> iequals s t \<Longrightarrow> dsl_get join_types t = Inr j"
    using dsl_names(3) dsl_get_nocase by metis
  show "enc_get kReqTotalValues_enc m = Inr s \<Longrightarrow> iequals s t \<Longrightarrow> dsl_get kReqTotalValues_dsl t = Inr m"
    using dsl_names(4) dsl_get_nocase by metis
  show "a \<noteq> AggUnknown \<Longrightarrow> iequals (AggTypeToStr a) t \<Longrightarrow> dsl_get kAggregationTypes t = Inr a"
    using agg_names dsl_get_nocase by metis
  show "iequals (logLevelToString l) t \<Longrightarrow> logLevelFromString t = l" using levels_nocase(1) level_names(1) by metis
  show "iequals (strictModeToString sm) t \<Longrightarrow> strictModeFromString t = sm" using levels_nocase(2) level_names(2) by metis
  show "CondTypeToStrShort c = Inr s \<Longrightarrow>
    getCondType s = (if c \<in> {CondAny, CondEmpty, CondDWithin, CondKnn} then Inl (Err ErrParseSQL) else Inr c)" by (rule sql_names)
qed

theorem names_roundtrip_witness:
  "dsl_get cond_map ''AllSet'' = Inr CondAllSet \<and> getCondType ''ALLSET'' = Inr CondAllSet \<and>
   dsl_get kAggregationTypes ''Count_Cached'' = Inr AggCountCached"
proof -
  have "iequals ''allset'' ''AllSet''" "iequals (AggTypeToStr AggCountCached) ''Count_Cached''" by code_simp+
  then show ?thesis
    using names_roundtrip [of CondAllSet "''allset''" "''AllSet''"] names_roundtrip [of CondAllSet "''ALLSET''"]
      names_roundtrip [of _ _ "''Count_Cached''" _ _ _ AggCountCached]
    by (simp add: enc_get_def kCondMap_enc_def)
qed

end
