(* ===== verification/Voting.thy ===== *)
theory Voting
  imports Prelude
begin

section \<open>Voting for a cluster leader\<close>

text \<open>
  \<open>cluster/raftmanager.h\<close> and \<open>.cc\<close>, class \<open>VotingManager\<close>: what one server of a cluster knows of the current
  leader and how it answers the suggestions and pings of the others. Every operation holds the mutex, so
  the operations of a server form a sequence. Times are nanoseconds of the steady clock; an operation that
  reads the clock several times takes one argument per reading. Logging is left out.
\<close>

subsection \<open>State\<close>

text \<open>\<open>cluster/consts.h\<close>\<close>

definition kLeaderPingInterval :: int where "kLeaderPingInterval = 200 * 10 ^ 6"
definition kMinLeaderAwaitInterval :: int where "kMinLeaderAwaitInterval = kLeaderPingInterval * 5"
definition kMaxLeaderAwaitDiff :: int where "kMaxLeaderAwaitDiff = 600 * 10 ^ 6"
definition kDesiredLeaderTimeout :: int where "kDesiredLeaderTimeout = 10 * 10 ^ 9"

datatype raft_role = RoleNone | RoleLeader | RoleFollower | RoleCandidate

record NodeData =
  nd_serverId :: int
  nd_electionsTerm :: int

record NextLeaderId =
  nl_id :: int
  nl_startPoint :: int

record VoteData =
  vd_leaderId :: int
  vd_role :: raft_role
  vd_term :: int
  vd_lastLeaderPingTs :: int

record voting =
  vm_next :: NextLeaderId
  vm_data :: VoteData

definition mk_VotingManager :: voting where
  "mk_VotingManager = \<lparr>vm_next = \<lparr>nl_id = -1, nl_startPoint = 0\<rparr>,
     vm_data = \<lparr>vd_leaderId = -1, vd_role = RoleNone, vd_term = 0, vd_lastLeaderPingTs = 0\<rparr>\<rparr>"

subsection \<open>Operations\<close>

definition SetNextLeaderId :: "int \<Rightarrow> int \<Rightarrow> NextLeaderId" where
  "SetNextLeaderId now i = \<lparr>nl_id = i, nl_startPoint = now\<rparr>"

definition GetNextLeaderId :: "int \<Rightarrow> NextLeaderId \<Rightarrow> int \<times> NextLeaderId" where
  "GetNextLeaderId now n =
     (let n = if nl_id n \<noteq> -1 \<and> now - nl_startPoint n > kDesiredLeaderTimeout then n\<lparr>nl_id := -1\<rparr> else n in (nl_id n, n))"

definition leaderIsAvailable :: "int \<Rightarrow> VoteData \<Rightarrow> bool" where
  "leaderIsAvailable now d \<longleftrightarrow> now - vd_lastLeaderPingTs d < kMinLeaderAwaitInterval \<or> vd_role d = RoleLeader"

definition vm_LeaderIsAvailable :: "int \<Rightarrow> voting \<Rightarrow> bool" where
  "vm_LeaderIsAvailable now v = leaderIsAvailable now (vm_data v)"

definition vm_LeadersPing :: "int \<Rightarrow> int \<Rightarrow> int \<Rightarrow> NodeData \<Rightarrow> voting \<Rightarrow> unit res \<times> voting" where
  "vm_LeadersPing now1 now2 now3 leader v =
     (let (nextLeaderId, n) = GetNextLeaderId now1 (vm_next v); v = v\<lparr>vm_next := n\<rparr>; d = vm_data v in
      if nextLeaderId \<ge> 0 \<and> nextLeaderId \<noteq> nd_serverId leader then (Inl (Err ErrLogic), v)
      else if vd_role d = RoleLeader then (Inl (Err ErrLogic), v)
      else if vd_leaderId d \<noteq> nd_serverId leader \<and> leaderIsAvailable now2 d then (Inl (Err ErrLogic), v)
      else (Inr (), v\<lparr>vm_data := d\<lparr>vd_leaderId := to_int16 (nd_serverId leader), vd_term := nd_electionsTerm leader,
        vd_lastLeaderPingTs := now3\<rparr>\<rparr>))"

definition vm_SuggestLeader :: "int \<Rightarrow> int \<Rightarrow> NodeData \<Rightarrow> NodeData \<Rightarrow> voting \<Rightarrow> NodeData \<times> voting" where
  "vm_SuggestLeader now1 now2 suggestion response v =
     (let (nextLeaderId, n) = GetNextLeaderId now1 (vm_next v); v = v\<lparr>vm_next := n\<rparr>; d = vm_data v;
        (d, response) =
          (if nd_electionsTerm suggestion > vd_term d then
             if \<not> leaderIsAvailable now2 d then
               let sId = (if nextLeaderId \<noteq> -1 then nextLeaderId else nd_serverId suggestion) in
               (d\<lparr>vd_term := nd_electionsTerm suggestion, vd_leaderId := to_int16 sId\<rparr>,
                response\<lparr>nd_serverId := sId, nd_electionsTerm := nd_electionsTerm suggestion\<rparr>)
             else if nextLeaderId \<noteq> -1 then
               (d\<lparr>vd_term := nd_electionsTerm suggestion, vd_leaderId := to_int16 nextLeaderId\<rparr>, response)
             else (d, response)
           else (d, response))
      in (response\<lparr>nd_serverId := (if nextLeaderId \<noteq> -1 then nextLeaderId else vd_leaderId d),
            nd_electionsTerm := vd_term d\<rparr>, v\<lparr>vm_data := d\<rparr>))"

definition vm_SetDesiredLeaderId :: "int \<Rightarrow> int \<Rightarrow> voting \<Rightarrow> voting" where
  "vm_SetDesiredLeaderId now desiredLeaderId v =
     v\<lparr>vm_next := SetNextLeaderId now desiredLeaderId, vm_data := vm_data v\<lparr>vd_lastLeaderPingTs := 0\<rparr>\<rparr>"

definition vm_GetDesiredLeaderId :: "int \<Rightarrow> voting \<Rightarrow> int \<times> voting" where
  "vm_GetDesiredLeaderId now v = (let (i, n) = GetNextLeaderId now (vm_next v) in (i, v\<lparr>vm_next := n\<rparr>))"

definition vm_TryToSetLeaderRoleInTerm :: "int \<Rightarrow> voting \<Rightarrow> bool \<times> voting" where
  "vm_TryToSetLeaderRoleInTerm term v =
     (if vd_term (vm_data v) \<noteq> term then (False, v)
      else (True, v\<lparr>vm_data := vm_data v\<lparr>vd_role := RoleLeader\<rparr>\<rparr>))"

definition vm_SetFollowerRole :: "voting \<Rightarrow> voting" where
  "vm_SetFollowerRole v = v\<lparr>vm_data := vm_data v\<lparr>vd_role := RoleFollower\<rparr>\<rparr>"

text \<open>The increment of the largest term overflows, which C++ leaves undefined.\<close>

definition vm_StartNewTerm :: "int \<Rightarrow> voting \<Rightarrow> ((int \<times> raft_role) \<times> voting) res" where
  "vm_StartNewTerm presetLeaderId v =
     (let d = vm_data v in
      if vd_term d = 2 ^ 31 - 1 then Inl UB
      else Inr ((vd_term d + 1, vd_role d), v\<lparr>vm_data :=
        d\<lparr>vd_term := vd_term d + 1, vd_role := RoleCandidate, vd_leaderId := to_int16 presetLeaderId\<rparr>\<rparr>))"

definition vm_GetLeaderId :: "voting \<Rightarrow> int" where
  "vm_GetLeaderId v = vd_leaderId (vm_data v)"

subsection \<open>Runs of one server\<close>

text \<open>
  The operations a server performs, with what they answer. Its own candidate rounds start terms with its own
  number (\<open>RunElectionsRound\<close> presets another number only when it does not start a term).
\<close>

datatype vm_event =
    Ping int NodeData bool
  | Suggest int NodeData NodeData
  | SetDesired int int
  | GetDesired int int
  | NewTerm int
  | TryLeader int bool
  | Follow

inductive vm_step :: "int \<Rightarrow> int \<times> voting \<Rightarrow> vm_event \<Rightarrow> int \<times> voting \<Rightarrow> bool" for self where
  ping: "\<lbrakk>now \<le> t1; t1 \<le> t2; t2 \<le> t3; vm_LeadersPing t1 t2 t3 leader v = (r, v')\<rbrakk> \<Longrightarrow>
    vm_step self (now, v) (Ping t3 leader (r = Inr ())) (t3, v')"
| suggest: "\<lbrakk>now \<le> t1; t1 \<le> t2; vm_SuggestLeader t1 t2 suggestion response v = (answer, v')\<rbrakk> \<Longrightarrow>
    vm_step self (now, v) (Suggest t2 suggestion answer) (t2, v')"
| set_desired: "now \<le> t \<Longrightarrow> vm_step self (now, v) (SetDesired t i) (t, vm_SetDesiredLeaderId t i v)"
| get_desired: "\<lbrakk>now \<le> t; vm_GetDesiredLeaderId t v = (i, v')\<rbrakk> \<Longrightarrow> vm_step self (now, v) (GetDesired t i) (t, v')"
| new_term: "vm_StartNewTerm self v = Inr ((term, old), v') \<Longrightarrow> vm_step self (now, v) (NewTerm term) (now, v')"
| try_leader: "vm_TryToSetLeaderRoleInTerm term v = (ok, v') \<Longrightarrow> vm_step self (now, v) (TryLeader term ok) (now, v')"
| follow: "vm_step self (now, v) Follow (now, vm_SetFollowerRole v)"

inductive vm_run :: "int \<Rightarrow> int \<times> voting \<Rightarrow> vm_event list \<Rightarrow> int \<times> voting \<Rightarrow> bool" for self where
  none: "vm_run self s [] s"
| more: "vm_step self s e s' \<Longrightarrow> vm_run self s' es s'' \<Longrightarrow> vm_run self s (e # es) s''"

inductive_cases vm_pingE: "vm_step self s (Ping T l ok) s'"
inductive_cases vm_suggestE: "vm_step self s (Suggest T l a) s'"
inductive_simps vm_run_simps [simp]: "vm_run self s [] s'" "vm_run self s (e # es) s'"

lemma vm_run_append: "vm_run self s (es @ es') s'' \<longleftrightarrow> (\<exists>s'. vm_run self s es s' \<and> vm_run self s' es' s'')"
  by (induction es arbitrary: s) auto

lemma vm_run_time: "vm_step self s e s' \<Longrightarrow> fst s \<le> fst s'"
  by (induction rule: vm_step.induct) auto

subsection \<open>The lease of a leader\<close>

definition is_SetDesired :: "vm_event \<Rightarrow> bool" where
  "is_SetDesired e = (case e of SetDesired _ _ \<Rightarrow> True | _ \<Rightarrow> False)"

definition accepted_ping :: "vm_event \<Rightarrow> bool" where
  "accepted_ping e = (case e of Ping _ _ ok \<Rightarrow> ok | _ \<Rightarrow> False)"

text \<open>
  While \<open>leased s T\<close> holds and less than the await interval has passed since \<open>T\<close>, only the server \<open>s\<close> and the
  server itself can be the leader known.
\<close>

definition leased :: "int \<Rightarrow> int \<Rightarrow> int \<Rightarrow> int \<times> voting \<Rightarrow> bool" where
  "leased self s T st \<longleftrightarrow> T \<le> fst st \<and>
     (fst st < T + kMinLeaderAwaitInterval \<longrightarrow>
       T \<le> vd_lastLeaderPingTs (vm_data (snd st)) \<and> vd_leaderId (vm_data (snd st)) \<in> {s, self} \<and>
       nl_id (vm_next (snd st)) \<in> {-1, s})"

text \<open>The desired leader after a look at the clock.\<close>

definition expire :: "int \<Rightarrow> NextLeaderId \<Rightarrow> NextLeaderId" where
  "expire now n = snd (GetNextLeaderId now n)"

lemma GetNextLeaderId_expire: "GetNextLeaderId now n = (nl_id (expire now n), expire now n)"
  by (simp add: expire_def GetNextLeaderId_def Let_def)

lemma nl_id_expire: "nl_id (expire now n) = nl_id n \<or> nl_id (expire now n) = -1"
  by (simp add: expire_def GetNextLeaderId_def Let_def)

lemma nl_id_expire_none [simp]: "nl_id n = -1 \<Longrightarrow> expire now n = n"
  by (simp add: expire_def GetNextLeaderId_def Let_def)

lemma vm_LeadersPing_accepted:
  assumes "vm_LeadersPing t1 t2 t3 leader v = (Inr (), v')"
  shows "nl_id (expire t1 (vm_next v)) < 0 \<or> nl_id (expire t1 (vm_next v)) = nd_serverId leader"
    "vd_role (vm_data v) \<noteq> RoleLeader"
    "vd_leaderId (vm_data v) = nd_serverId leader \<or>
       t2 - vd_lastLeaderPingTs (vm_data v) \<ge> kMinLeaderAwaitInterval"
    "v' = \<lparr>vm_next = expire t1 (vm_next v), vm_data = \<lparr>vd_leaderId = to_int16 (nd_serverId leader),
       vd_role = vd_role (vm_data v), vd_term = nd_electionsTerm leader, vd_lastLeaderPingTs = t3\<rparr>\<rparr>"
  using assms
  by (auto simp: vm_LeadersPing_def GetNextLeaderId_expire Let_def leaderIsAvailable_def split: if_splits)

lemma vm_LeadersPing_refused:
  assumes "vm_LeadersPing t1 t2 t3 leader v = (Inl e, v')"
  shows "e = Err ErrLogic" "v' = v\<lparr>vm_next := expire t1 (vm_next v)\<rparr>"
  using assms by (auto simp: vm_LeadersPing_def GetNextLeaderId_expire Let_def split: if_splits)

lemma vm_SuggestLeader_available:
  assumes "vm_SuggestLeader t1 t2 suggestion response v = (answer, v')" "leaderIsAvailable t2 (vm_data v)"
  shows "vm_next v' = expire t1 (vm_next v)"
    "vd_lastLeaderPingTs (vm_data v') = vd_lastLeaderPingTs (vm_data v)"
    "vd_leaderId (vm_data v') = vd_leaderId (vm_data v) \<or>
      (nl_id (vm_next v') \<noteq> -1 \<and> vd_leaderId (vm_data v') = to_int16 (nl_id (vm_next v')))"
  using assms by (auto simp: vm_SuggestLeader_def GetNextLeaderId_expire Let_def split: if_splits)

lemma leased_step:
  assumes "vm_step self st e st'" "leased self s T st" "\<not> is_SetDesired e" "to_int16 self = self" "to_int16 s = s"
    "0 \<le> s"
  shows "leased self s T st'"
  using assms(1)
proof cases
  case (ping now t1 t2 t3 leader v r v')
  note l = assms(2) [unfolded ping(1) leased_def fst_conv snd_conv]
  show ?thesis
  proof (cases r)
    case (Inl e)
    then have "v' = v\<lparr>vm_next := expire t1 (vm_next v)\<rparr>" using vm_LeadersPing_refused ping(7) by simp
    then show ?thesis using l ping(3-6) nl_id_expire [of t1 "vm_next v"] by (auto simp: leased_def)
  next
    case (Inr u)
    then have a: "vm_LeadersPing t1 t2 t3 leader v = (Inr (), v')" using ping(7) by simp
    note p = vm_LeadersPing_accepted [OF a]
    show ?thesis
    proof (cases "t3 < T + kMinLeaderAwaitInterval")
      case True
      then have "vd_leaderId (vm_data v) = nd_serverId leader" using p(3) l ping(4-6) by auto
      moreover from this have "to_int16 (nd_serverId leader) = nd_serverId leader"
        using l True ping(4-6) assms(4,5) by auto
      ultimately show ?thesis using l True ping(3-6) p(4) nl_id_expire [of t1 "vm_next v"]
        by (auto simp: leased_def)
    qed (use l ping(3-6) in \<open>auto simp: leased_def\<close>)
  qed
next
  case (suggest now t1 t2 suggestion response v answer v')
  note l = assms(2) [unfolded suggest(1) leased_def fst_conv snd_conv]
  show ?thesis
  proof (cases "t2 < T + kMinLeaderAwaitInterval")
    case True
    then have k: "leaderIsAvailable t2 (vm_data v)" using l suggest(4-5) by (auto simp: leaderIsAvailable_def)
    show ?thesis
      using l True suggest(3-5) vm_SuggestLeader_available [OF suggest(6) k] nl_id_expire [of t1 "vm_next v"] assms(5)
      by (auto simp: leased_def)
  qed (use l suggest(3-5) in \<open>auto simp: leased_def\<close>)
next
  case (set_desired now t v i)
  then show ?thesis using assms(3) by (simp add: is_SetDesired_def)
next
  case (get_desired now t v i v')
  then show ?thesis using assms(2) nl_id_expire [of t "vm_next v"]
    by (auto simp: leased_def vm_GetDesiredLeaderId_def GetNextLeaderId_expire)
next
  case (new_term v trm old v' now)
  then show ?thesis using assms(2,4) by (auto simp: leased_def vm_StartNewTerm_def Let_def split: if_splits)
next
  case (try_leader trm v ok v' now)
  then show ?thesis using assms(2) by (auto simp: leased_def vm_TryToSetLeaderRoleInTerm_def split: if_splits)
next
  case (follow now v)
  then show ?thesis using assms(2) by (auto simp: leased_def vm_SetFollowerRole_def)
qed

lemma leased_run:
  "vm_run self st es st' \<Longrightarrow> leased self s T st \<Longrightarrow> \<forall>e \<in> set es. \<not> is_SetDesired e \<Longrightarrow>
    to_int16 self = self \<Longrightarrow> to_int16 s = s \<Longrightarrow> 0 \<le> s \<Longrightarrow> leased self s T st'"
  by (induction rule: vm_run.induct) (auto intro: leased_step)

lemma vm_ping_acceptedE:
  assumes "vm_step self st (Ping T l True) st'"
  obtains t1 t2 where "fst st \<le> t1" "t1 \<le> t2" "t2 \<le> T" "fst st' = T"
    "vm_LeadersPing t1 t2 T l (snd st) = (Inr (), snd st')"
  using assms by (auto elim!: vm_pingE)

lemma leased_after_ping:
  assumes "vm_step self st (Ping T l True) st'" "- 1 \<le> nl_id (vm_next (snd st))"
    "to_int16 (nd_serverId l) = nd_serverId l"
  shows "leased self (nd_serverId l) T st'"
  using assms(1)
proof (rule vm_ping_acceptedE)
  fix t1 t2 assume t: "fst st' = T" and "vm_LeadersPing t1 t2 T l (snd st) = (Inr (), snd st')"
  from vm_LeadersPing_accepted [OF this(2)] t assms(2,3) nl_id_expire [of t1 "vm_next (snd st)"] show ?thesis
    by (auto simp: leased_def)
qed

lemma leased_ping:
  assumes "vm_step self st (Ping T' l True) st'" "leased self s T st" "nd_serverId l \<notin> {s, self}"
  shows "T + kMinLeaderAwaitInterval \<le> T'"
  using assms(1)
proof (rule vm_ping_acceptedE)
  fix t1 t2 assume t: "fst st \<le> t1" "t1 \<le> t2" "t2 \<le> T'"
    and "vm_LeadersPing t1 t2 T' l (snd st) = (Inr (), snd st')"
  from vm_LeadersPing_accepted(3) [OF this(4)] t assms(2,3) show ?thesis
    by (auto simp: leased_def)
qed

lemma accepted_pings_in_order:
  assumes "vm_run self st (Ping T a True # es @ [Ping T' b True]) st'"
    "\<forall>e \<in> set es. \<not> is_SetDesired e" "- 1 \<le> nl_id (vm_next (snd st))"
    "{self, nd_serverId a, nd_serverId b} \<subseteq> {0..<2 ^ 15}" "nd_serverId b \<noteq> nd_serverId a" "nd_serverId b \<noteq> self"
  shows "T + kMinLeaderAwaitInterval \<le> T'"
proof -
  have i: "to_int16 self = self" "to_int16 (nd_serverId a) = nd_serverId a" "0 \<le> nd_serverId a"
    using assms(4) by (simp_all add: to_int16_id)
  from assms(1) obtain s1 s2 where s: "vm_step self st (Ping T a True) s1" "vm_run self s1 es s2"
    "vm_step self s2 (Ping T' b True) st'" by (auto simp: vm_run_append)
  from leased_run [OF s(2) leased_after_ping [OF s(1) assms(3) i(2)] assms(2) i]
  show ?thesis using leased_ping [OF s(3)] assms(5,6) by simp
qed

lemma nl_valid_step:
  assumes "vm_step self st e st'" "- 1 \<le> nl_id (vm_next (snd st))" "\<not> is_SetDesired e"
  shows "- 1 \<le> nl_id (vm_next (snd st'))"
  using assms(1)
proof cases
  case (ping now t1 t2 t3 leader v r v')
  then have "vm_next v' = expire t1 (vm_next v)"
    using vm_LeadersPing_accepted(4) [of t1 t2 t3 leader v v'] vm_LeadersPing_refused(2) [of t1 t2 t3 leader v _ v']
    by (cases r) auto
  then show ?thesis using ping assms(2) nl_id_expire [of t1 "vm_next v"] by auto
next
  case (suggest now t1 t2 suggestion response v answer v')
  then have "vm_next v' = expire t1 (vm_next v)"
    by (auto simp: vm_SuggestLeader_def GetNextLeaderId_expire Let_def split: if_splits)
  then show ?thesis using suggest assms(2) nl_id_expire [of t1 "vm_next v"] by auto
next
  case (get_desired now t v i v')
  then show ?thesis using assms(2) nl_id_expire [of t "vm_next v"]
    by (auto simp: vm_GetDesiredLeaderId_def GetNextLeaderId_expire)
qed (use assms(2,3) in \<open>auto simp: is_SetDesired_def vm_StartNewTerm_def vm_TryToSetLeaderRoleInTerm_def
    vm_SetFollowerRole_def Let_def split: if_splits\<close>)

lemma nl_valid_run:
  "vm_run self st es st' \<Longrightarrow> - 1 \<le> nl_id (vm_next (snd st)) \<Longrightarrow> \<forall>e \<in> set es. \<not> is_SetDesired e \<Longrightarrow>
    - 1 \<le> nl_id (vm_next (snd st'))"
  by (induction rule: vm_run.induct) (auto intro: nl_valid_step)

text \<open>The same for any two accepted pings of a run.\<close>

lemma accepted_pings_after:
  assumes "vm_run self st (es @ Ping T a True # es' @ Ping T' b True # es'') st'"
    "\<forall>e \<in> set (es @ es'). \<not> is_SetDesired e" "- 1 \<le> nl_id (vm_next (snd st))"
    "{self, nd_serverId a, nd_serverId b} \<subseteq> {0..<2 ^ 15}" "nd_serverId b \<noteq> nd_serverId a" "nd_serverId b \<noteq> self"
  shows "T + kMinLeaderAwaitInterval \<le> T'"
proof -
  from assms(1) have "vm_run self st (es @ (Ping T a True # es' @ [Ping T' b True]) @ es'') st'" by simp
  then obtain s1 s2 where s: "vm_run self st es s1" "vm_run self s1 (Ping T a True # es' @ [Ping T' b True]) s2"
    unfolding vm_run_append by blast
  have "- 1 \<le> nl_id (vm_next (snd s1))" using nl_valid_run [OF s(1) assms(3)] assms(2) by simp
  then show ?thesis using accepted_pings_in_order [OF s(2) _ _ assms(4-6)] assms(2) by simp
qed

lemma accepted_pings_apart:
  assumes "vm_run self st es st'" "\<forall>e \<in> set es. \<not> is_SetDesired e" "- 1 \<le> nl_id (vm_next (snd st))"
    "{self, nd_serverId a, nd_serverId b} \<subseteq> {0..<2 ^ 15}" "nd_serverId b \<noteq> nd_serverId a" "self \<notin> {nd_serverId a, nd_serverId b}"
    "Ping T a True \<in> set es" "Ping T' b True \<in> set es"
  shows "kMinLeaderAwaitInterval \<le> \<bar>T - T'\<bar>"
proof -
  from assms(7) obtain e1 e2 where e: "es = e1 @ Ping T a True # e2" by (auto dest: split_list)
  have "Ping T' b True \<in> set e1 \<or> Ping T' b True \<in> set e2" using assms(5,8) e by auto
  then show ?thesis
  proof
    assume "Ping T' b True \<in> set e2"
    then obtain e3 e4 where e2: "e2 = e3 @ Ping T' b True # e4" by (auto dest: split_list)
    have "T + kMinLeaderAwaitInterval \<le> T'"
      by (rule accepted_pings_after [of self st e1 T a e3 T' b e4 st']) (use assms e e2 in auto)
    then show ?thesis by simp
  next
    assume "Ping T' b True \<in> set e1"
    then obtain e3 e4 where e1: "e1 = e3 @ Ping T' b True # e4" by (auto dest: split_list)
    have "T' + kMinLeaderAwaitInterval \<le> T"
      by (rule accepted_pings_after [of self st e3 T' b e4 T a e2 st']) (use assms e e1 in auto)
    then show ?thesis by simp
  qed
qed

text \<open>
  C16. The lease of a leader: once a server has accepted the ping of a leader, it accepts the ping of another
  server only when \<open>kMinLeaderAwaitInterval\<close> has passed, whatever suggestions, pings and rounds of its own come
  between, unless a new leader is appointed with \<open>SetDesiredLeaderId\<close>.
\<close>

theorem leader_lease:
  assumes "vm_run self st (Ping T a True # es @ [Ping T' b True]) st'"
    "\<forall>e \<in> set es. \<not> is_SetDesired e" "- 1 \<le> nl_id (vm_next (snd st))"
    "{self, nd_serverId a, nd_serverId b} \<subseteq> {0..<2 ^ 15}" "nd_serverId b \<noteq> nd_serverId a" "nd_serverId b \<noteq> self"
  shows "T + kMinLeaderAwaitInterval \<le> T'"
  by (rule accepted_pings_in_order [OF assms])

definition cand :: "int \<Rightarrow> int \<Rightarrow> NodeData" where
  "cand i t = \<lparr>nd_serverId = i, nd_electionsTerm = t\<rparr>"

theorem leader_lease_witness:
  "\<exists>st'. vm_run 7 (5 * 10 ^ 9, mk_VotingManager)
      [Ping (5 * 10 ^ 9) (cand 1 1) True, NewTerm 2, Ping (6 * 10 ^ 9) (cand 2 3) True] st' \<and>
    5 * 10 ^ 9 + kMinLeaderAwaitInterval \<le> (6 * 10 ^ 9 :: int)"
proof -
  let ?n = "vm_next mk_VotingManager"
  let ?v = "\<lambda>l r t p. \<lparr>vm_next = ?n, vm_data = \<lparr>vd_leaderId = l, vd_role = r, vd_term = t, vd_lastLeaderPingTs = p\<rparr>\<rparr>"
  note d = kMinLeaderAwaitInterval_def kLeaderPingInterval_def
  have "vm_LeadersPing (5 * 10 ^ 9) (5 * 10 ^ 9) (5 * 10 ^ 9) (cand 1 1) mk_VotingManager =
      (Inr (), ?v 1 RoleNone 1 (5 * 10 ^ 9))"
    by (simp add: vm_LeadersPing_def GetNextLeaderId_expire Let_def mk_VotingManager_def cand_def
        leaderIsAvailable_def d to_int16_id)
  from vm_step.ping [OF _ _ _ this, of "5 * 10 ^ 9" 7]
  have 1: "vm_step 7 (5 * 10 ^ 9, mk_VotingManager) (Ping (5 * 10 ^ 9) (cand 1 1) True)
      (5 * 10 ^ 9, ?v 1 RoleNone 1 (5 * 10 ^ 9))" by simp
  have 2: "vm_step 7 (5 * 10 ^ 9, ?v 1 RoleNone 1 (5 * 10 ^ 9)) (NewTerm 2) (5 * 10 ^ 9, ?v 7 RoleCandidate 2 (5 * 10 ^ 9))"
    by (rule vm_step.new_term) (simp add: vm_StartNewTerm_def Let_def to_int16_id)
  have "vm_LeadersPing (6 * 10 ^ 9) (6 * 10 ^ 9) (6 * 10 ^ 9) (cand 2 3) (?v 7 RoleCandidate 2 (5 * 10 ^ 9)) =
      (Inr (), ?v 2 RoleCandidate 3 (6 * 10 ^ 9))"
    by (simp add: vm_LeadersPing_def GetNextLeaderId_expire Let_def mk_VotingManager_def cand_def
        leaderIsAvailable_def d to_int16_id)
  from vm_step.ping [OF _ _ _ this, of "5 * 10 ^ 9" 7]
  have 3: "vm_step 7 (5 * 10 ^ 9, ?v 7 RoleCandidate 2 (5 * 10 ^ 9)) (Ping (6 * 10 ^ 9) (cand 2 3) True)
      (6 * 10 ^ 9, ?v 2 RoleCandidate 3 (6 * 10 ^ 9))" by simp
  have r: "vm_run 7 (5 * 10 ^ 9, mk_VotingManager)
      (Ping (5 * 10 ^ 9) (cand 1 1) True # [NewTerm 2] @ [Ping (6 * 10 ^ 9) (cand 2 3) True])
      (6 * 10 ^ 9, ?v 2 RoleCandidate 3 (6 * 10 ^ 9))"
    using 1 2 3 by (simp only: append.simps vm_run_simps) blast
  have "(5 * 10 ^ 9 :: int) + kMinLeaderAwaitInterval \<le> 6 * 10 ^ 9"
    by (rule leader_lease [OF r]) (simp_all add: is_SetDesired_def mk_VotingManager_def cand_def)
  then show ?thesis using r unfolding append.simps by (intro exI conjI) assumption+
qed

subsection \<open>One vote per term\<close>

definition later :: "NodeData \<Rightarrow> NodeData \<Rightarrow> bool" where
  "later x y \<longleftrightarrow> nd_electionsTerm x < nd_electionsTerm y \<or> x = y"

lemma later_trans: "later x y \<Longrightarrow> later y z \<Longrightarrow> later x z"
  by (auto simp: later_def)

lemma later_refl [simp]: "later x x"
  by (simp add: later_def)

text \<open>What the server knows: its leader and term.\<close>

definition known :: "int \<times> voting \<Rightarrow> NodeData" where
  "known st = \<lparr>nd_serverId = vd_leaderId (vm_data (snd st)), nd_electionsTerm = vd_term (vm_data (snd st))\<rparr>"

fun answers :: "vm_event list \<Rightarrow> NodeData list" where
  "answers [] = []"
| "answers (Suggest _ _ a # es) = a # answers es"
| "answers (_ # es) = answers es"

definition undesired :: "int \<times> voting \<Rightarrow> bool" where
  "undesired st \<longleftrightarrow> nl_id (vm_next (snd st)) = -1"

lemma vm_SuggestLeader_undesired:
  assumes "nl_id (vm_next v) = -1" "vm_SuggestLeader t1 t2 suggestion response v = (answer, v')"
  shows "answer = known (t, v')" "nl_id (vm_next v') = -1" "later (known (t', v)) (known (t, v'))"
  using assms
  by (auto simp: vm_SuggestLeader_def GetNextLeaderId_expire Let_def known_def later_def split: if_splits)

lemma known_step:
  assumes "vm_step self st e st'" "undesired st" "\<not> is_SetDesired e" "\<not> accepted_ping e"
  shows "undesired st'" "later (known st) (known st')"
  using assms
proof (induction rule: vm_step.induct)
  case (ping now t1 t2 t3 leader v r v')
  {
    case 1
    with ping show ?case
      by (cases r) (auto simp: accepted_ping_def undesired_def dest: vm_LeadersPing_refused)
  next
    case 2
    with ping show ?case
      by (cases r) (auto simp: accepted_ping_def known_def dest: vm_LeadersPing_refused)
  }
next
  case (suggest now t1 t2 suggestion response v answer v')
  {
    case 1
    with suggest show ?case using vm_SuggestLeader_undesired(2) by (simp add: undesired_def)
  next
    case 2
    with suggest show ?case using vm_SuggestLeader_undesired(3) by (simp add: undesired_def)
  }
qed (auto simp: is_SetDesired_def undesired_def known_def later_def vm_GetDesiredLeaderId_def GetNextLeaderId_expire
    vm_StartNewTerm_def vm_TryToSetLeaderRoleInTerm_def vm_SetFollowerRole_def Let_def split: if_splits)

text \<open>
  C19. One vote per term, for a server without an appointed leader: from a state that has no desired leader, and as
  long as \<open>SetDesiredLeaderId\<close> is not called and no ping is accepted, a server answers the suggestions of any
  number of candidates with terms that never decrease, and two answers for the same term name the same
  candidate; its own candidate rounds count as votes for itself. With an appointed leader, or when the time of
  the appointment ends, a server may name another candidate for the same term.
\<close>

theorem one_vote_per_term:
  assumes "vm_run self st es st'" "undesired st" "\<forall>e \<in> set es. \<not> is_SetDesired e \<and> \<not> accepted_ping e"
  shows "sorted_wrt later (known st # answers es @ [known st'])"
  using assms
proof (induction rule: vm_run.induct)
  case (more s e s' es s'')
  have k: "undesired s'" "later (known s) (known s')" using known_step [OF more.hyps(1)] more.prems by auto
  then have ih: "sorted_wrt later (known s' # answers es @ [known s''])" using more by simp
  have s: "sorted_wrt later (known s # answers es @ [known s''])"
    using ih k(2) by (auto intro: later_trans)
  show ?case
  proof (cases "\<exists>t sug a. e = Suggest t sug a")
    case True
    then obtain t sug a where e: "e = Suggest t sug a" by blast
    have "a = known s'"
      using more.hyps(1) [unfolded e] more.prems(1)
      by (cases rule: vm_suggestE) (auto simp: undesired_def dest: vm_SuggestLeader_undesired(1))
    then show ?thesis using e ih s k(2) by simp
  next
    case False
    then show ?thesis using s by (cases e) auto
  qed
qed simp

theorem one_vote_per_term_witness:
  "\<exists>st'. vm_run 7 (5 * 10 ^ 9, mk_VotingManager)
      [Suggest (5 * 10 ^ 9) (cand 1 1) (cand 1 1), Suggest (5 * 10 ^ 9) (cand 2 1) (cand 1 1)] st' \<and>
    sorted_wrt later [cand (-1) 0, cand 1 1, cand 1 1, known st']"
proof -
  let ?v = "mk_VotingManager\<lparr>vm_data := vm_data mk_VotingManager\<lparr>vd_leaderId := 1, vd_term := 1\<rparr>\<rparr>"
  note d = vm_SuggestLeader_def GetNextLeaderId_expire Let_def mk_VotingManager_def cand_def
    leaderIsAvailable_def kMinLeaderAwaitInterval_def kLeaderPingInterval_def to_int16_id
  have 1: "vm_SuggestLeader (5 * 10 ^ 9) (5 * 10 ^ 9) (cand 1 1) (cand 0 0) mk_VotingManager = (cand 1 1, ?v)"
    by (simp add: d)
  have 2: "vm_SuggestLeader (5 * 10 ^ 9) (5 * 10 ^ 9) (cand 2 1) (cand 0 0) ?v = (cand 1 1, ?v)"
    by (simp add: d)
  have r: "vm_run 7 (5 * 10 ^ 9, mk_VotingManager)
      [Suggest (5 * 10 ^ 9) (cand 1 1) (cand 1 1), Suggest (5 * 10 ^ 9) (cand 2 1) (cand 1 1)] (5 * 10 ^ 9, ?v)"
    using vm_step.suggest [OF _ _ 1, of "5 * 10 ^ 9" 7] vm_step.suggest [OF _ _ 2, of "5 * 10 ^ 9" 7]
    by (simp only: vm_run_simps) blast
  have "sorted_wrt later (known (5 * 10 ^ 9, mk_VotingManager) # [cand 1 1, cand 1 1] @ [known (5 * 10 ^ 9, ?v)])"
    using one_vote_per_term [OF r] by (simp add: undesired_def mk_VotingManager_def is_SetDesired_def accepted_ping_def)
  then show ?thesis using r by (intro exI [of _ "(5 * 10 ^ 9, ?v)"]) (simp add: known_def mk_VotingManager_def cand_def)
qed

end
