(* ===== verification/Elections.thy ===== *)
theory Elections
  imports Voting
begin

section \<open>Elections\<close>

text \<open>
  \<open>cluster/raftmanager.cc\<close>, class \<open>RaftManager\<close>: the rounds in which a server tries to become the leader of its
  cluster, the pings of a leader and the command that hands leadership over. A round runs one coroutine per
  other server, all on one thread; a coroutine gives way while a call to its server is under way and, once
  its server has voted for the candidate, until the votes are sufficient. The calls of other servers arrive on
  other threads and reach the \<open>VotingManager\<close> at any time. What the other servers answer is the input of the model.
\<close>

subsection \<open>The other servers\<close>

record RaftNode =
  rn_serverId :: int
  rn_uid :: nat
  rn_isOk :: bool
  rn_hasNetworkError :: bool

record RaftManager =
  rm_serverId :: int
  rm_clusterID :: int
  rm_nodes :: "RaftNode list"
  rm_voting :: voting
  rm_terminate :: bool

definition mk_RaftManager :: RaftManager where
  "mk_RaftManager = \<lparr>rm_serverId = -1, rm_clusterID = 1, rm_nodes = [], rm_voting = mk_VotingManager, rm_terminate = False\<rparr>"

definition SetTerminateFlag :: "bool \<Rightarrow> RaftManager \<Rightarrow> RaftManager" where
  "SetTerminateFlag val r = r\<lparr>rm_terminate := val\<rparr>"

text \<open>\<open>Configure\<close>, given the server numbers of the cluster's configuration: every server but this one.\<close>

definition rm_Configure :: "int \<Rightarrow> int \<Rightarrow> int list \<Rightarrow> RaftManager \<Rightarrow> RaftManager" where
  "rm_Configure serverID clusterID servers r =
     r\<lparr>rm_serverId := serverID, rm_clusterID := clusterID,
       rm_nodes := map (\<lambda>(uid, i). \<lparr>rn_serverId = i, rn_uid = uid, rn_isOk = False, rn_hasNetworkError = False\<rparr>)
         (enumerate 0 (filter (\<lambda>i. i \<noteq> serverID) servers))\<rparr>"

definition GetConsensusForN :: "nat \<Rightarrow> nat" where
  "GetConsensusForN n = n div 2 + 1"

definition isConsensus :: "nat \<Rightarrow> nat \<Rightarrow> bool" where
  "isConsensus nodes num \<longleftrightarrow> num \<ge> GetConsensusForN (nodes + 1)"

definition FollowersAreAvailable :: "RaftManager \<Rightarrow> bool" where
  "FollowersAreAvailable r = isConsensus (length (rm_nodes r)) (length (filter rn_isOk (rm_nodes r)) + 1)"

definition rm_AwaitTermination :: "RaftManager \<Rightarrow> RaftManager res" where
  "rm_AwaitTermination r = (if rm_terminate r then Inr (SetTerminateFlag False r) else Inl Abort)"

definition beginElectionsTerm :: "int \<Rightarrow> RaftManager \<Rightarrow> (int \<times> RaftManager) res" where
  "beginElectionsTerm presetLeader r =
     bind_res (vm_StartNewTerm (if presetLeader \<ge> 0 then presetLeader else rm_serverId r) (rm_voting r))
       (\<lambda>((term, _), v). Inr (term, r\<lparr>rm_voting := v\<rparr>))"

subsection \<open>Pings of a leader\<close>

definition startPingRoutines :: "RaftManager \<Rightarrow> RaftManager" where
  "startPingRoutines r = r\<lparr>rm_nodes := map (\<lambda>n. n\<lparr>rn_isOk := True, rn_hasNetworkError := False\<rparr>) (rm_nodes r)\<rparr>"

datatype node_status = Online | Offline | RaftError

record ping_routine =
  pr_node :: RaftNode
  pr_isFirstPing :: bool
  pr_status :: "node_status list"
  pr_network :: "(nat \<times> bool) list"

text \<open>
  One turn of the loop, given the code of the error the ping ended with: the new state of the server, what the
  statistics were told and what the callback was called with. \<open>None\<close> is the end of the loop.
\<close>

definition ping_turn :: "bool \<Rightarrow> voting \<Rightarrow> error_code \<Rightarrow> ping_routine \<Rightarrow> ping_routine option" where
  "ping_turn terminated v code p =
     (if terminated \<or> vd_role (vm_data v) \<noteq> RoleLeader then None
      else
        let n = pr_node p; ok = (code = ErrOK); isNetworkError = (code = ErrTimeout \<or> code = ErrNetwork) in
        if rn_isOk n \<noteq> ok \<or> isNetworkError \<noteq> rn_hasNetworkError n \<or> pr_isFirstPing p then
          Some \<lparr>pr_node = n\<lparr>rn_isOk := ok, rn_hasNetworkError := isNetworkError\<rparr>, pr_isFirstPing = False,
            pr_status = pr_status p @ [if ok then Online else if isNetworkError then Offline else RaftError],
            pr_network = pr_network p @ (if isNetworkError \<noteq> rn_hasNetworkError n then [(rn_uid n, \<not> isNetworkError)] else [])\<rparr>
        else Some p)"

subsection \<open>A round\<close>

text \<open>The state of a coroutine: waiting for the vote, parked, waiting for the ping's answer, ended.\<close>

datatype routine = Asking | Suspended | Pinging | Finished

record round =
  rd_routines :: "routine list"
  rd_phase1 :: nat
  rd_phase2 :: nat
  rd_failed :: nat
  rd_waiting :: "nat list"

definition start_round :: "nat \<Rightarrow> round" where
  "start_round n = \<lparr>rd_routines = replicate n Asking, rd_phase1 = 1, rd_phase2 = 1, rd_failed = 0, rd_waiting = []\<rparr>"

definition set_routine :: "nat \<Rightarrow> routine \<Rightarrow> round \<Rightarrow> round" where
  "set_routine i s rd = rd\<lparr>rd_routines := (rd_routines rd)[i := s]\<rparr>"

text \<open>
  The rest of a coroutine whose server has voted for the candidate: \<open>available i\<close> is what it finds when it
  asks whether a leader is available.
\<close>

definition rd_continue :: "bool \<Rightarrow> (nat \<Rightarrow> bool) \<Rightarrow> nat \<Rightarrow> round \<Rightarrow> round" where
  "rd_continue isDesiredLeader available i rd =
     (if (\<not> isDesiredLeader \<and> available i) \<or> \<not> isConsensus (length (rd_routines rd)) (rd_phase1 rd)
      then set_routine i Finished rd else set_routine i Pinging rd)"

definition rd_resume :: "bool \<Rightarrow> (nat \<Rightarrow> bool) \<Rightarrow> round \<Rightarrow> round" where
  "rd_resume isDesiredLeader available rd =
     fold (rd_continue isDesiredLeader available) (rd_waiting rd) (rd\<lparr>rd_waiting := []\<rparr>)"

text \<open>The server \<open>i\<close> has answered the suggestion.\<close>

definition rd_suggested :: "bool \<Rightarrow> (nat \<Rightarrow> bool) \<Rightarrow> nat \<Rightarrow> bool \<Rightarrow> round \<Rightarrow> round" where
  "rd_suggested isDesiredLeader available i succeed rd =
     (let n = length (rd_routines rd);
        rd = (if succeed then rd\<lparr>rd_phase1 := rd_phase1 rd + 1\<rparr> else rd\<lparr>rd_failed := rd_failed rd + 1\<rparr>) in
      if rd_failed rd + rd_phase1 rd = n + 1 \<or> rd_phase1 rd > (n + 1) div 2 then
        let rd = rd_resume isDesiredLeader available rd in
        if \<not> succeed then set_routine i Finished rd else rd_continue isDesiredLeader available i rd
      else if succeed then set_routine i Suspended (rd\<lparr>rd_waiting := rd_waiting rd @ [i]\<rparr>)
      else set_routine i Finished rd)"

text \<open>The server \<open>i\<close> has answered the ping.\<close>

definition rd_pinged :: "nat \<Rightarrow> bool \<Rightarrow> round \<Rightarrow> round" where
  "rd_pinged i ok rd = set_routine i Finished (if ok then rd\<lparr>rd_phase2 := rd_phase2 rd + 1\<rparr> else rd)"

text \<open>Becoming leader at the end of a round: not when it took too long or the term has changed.\<close>

definition end_as_leader :: "int \<Rightarrow> int \<Rightarrow> int \<Rightarrow> voting \<Rightarrow> bool \<times> voting" where
  "end_as_leader term roundBeg now v =
     (if 10 * (now - roundBeg) > 8 * kMinLeaderAwaitInterval then (False, v) else vm_TryToSetLeaderRoleInTerm term v)"

text \<open>
  The start of a round: with another desired leader there is none and the server follows, otherwise it starts
  a term.
\<close>

datatype round_start = Skipped RaftManager | Started bool int RaftManager

definition begin_round :: "int \<Rightarrow> RaftManager \<Rightarrow> round_start res" where
  "begin_round t r =
     (let (nextLeaderId, v) = vm_GetDesiredLeaderId t (rm_voting r); r = r\<lparr>rm_voting := v\<rparr>;
        isDesiredLeader = (nextLeaderId = rm_serverId r) in
      if \<not> isDesiredLeader \<and> nextLeaderId \<noteq> -1 then Inr (Skipped (r\<lparr>rm_voting := vm_SetFollowerRole v\<rparr>))
      else bind_res (beginElectionsTerm nextLeaderId r) (\<lambda>(trm, r). Inr (Started isDesiredLeader trm r)))"

subsection \<open>A round among the other calls\<close>

text \<open>
  \<open>el_main\<close> is where the coroutine of \<open>RunElectionsRound\<close> itself is: waiting for the others, in the pause of a
  follower, or at its end.
\<close>

datatype main_state = Waiting | Pausing | Ended

record electing =
  el_now :: int
  el_voting :: voting
  el_round :: round
  el_main :: main_state
  el_roundResult :: "raft_role option"

datatype el_event =
    Suggested int nat bool int
  | Pinged int nat bool
  | Decided int bool
  | Other vm_event

text \<open>The operations that other servers and clients invoke; the rest belongs to the round.\<close>

fun is_call :: "vm_event \<Rightarrow> bool" where
  "is_call (Ping _ _ _) = True"
| "is_call (Suggest _ _ _) = True"
| "is_call (SetDesired _ _) = True"
| "is_call (GetDesired _ _) = True"
| "is_call _ = False"

inductive el_step :: "int \<Rightarrow> bool \<Rightarrow> int \<Rightarrow> int \<Rightarrow> electing \<Rightarrow> el_event \<Rightarrow> electing \<Rightarrow> bool"
  for self isDesiredLeader trm roundBeg where
  suggested: "\<lbrakk>el_now s \<le> t; i < length (rd_routines (el_round s)); rd_routines (el_round s) ! i = Asking\<rbrakk> \<Longrightarrow>
    el_step self isDesiredLeader trm roundBeg s (Suggested t i ok srv)
      (s\<lparr>el_now := t, el_round := rd_suggested isDesiredLeader available i (ok \<and> srv = self) (el_round s)\<rparr>)"
| pinged: "\<lbrakk>el_now s \<le> t; i < length (rd_routines (el_round s)); rd_routines (el_round s) ! i = Pinging\<rbrakk> \<Longrightarrow>
    el_step self isDesiredLeader trm roundBeg s (Pinged t i ok)
      (s\<lparr>el_now := t, el_round := rd_pinged i ok (el_round s)\<rparr>)"
| decided: "\<lbrakk>el_now s \<le> t; el_main s = Waiting; isConsensus (length (rd_routines (el_round s))) (rd_phase2 (el_round s));
    end_as_leader trm roundBeg t (el_voting s) = (ok, v')\<rbrakk> \<Longrightarrow>
    el_step self isDesiredLeader trm roundBeg s (Decided t ok)
      (s\<lparr>el_now := t, el_voting := v', el_main := (if ok then Ended else Waiting),
        el_roundResult := (if ok then Some RoleLeader else None)\<rparr>)"
| given_up: "\<lbrakk>el_now s \<le> t; el_main s = Waiting; set (rd_routines (el_round s)) \<subseteq> {Finished};
    isConsensus (length (rd_routines (el_round s))) (rd_phase2 (el_round s));
    end_as_leader trm roundBeg t (el_voting s) = (False, v')\<rbrakk> \<Longrightarrow>
    el_step self isDesiredLeader trm roundBeg s (Decided t False) (s\<lparr>el_now := t, el_voting := v', el_main := Ended\<rparr>)"
| follow: "\<lbrakk>el_main s = Waiting; set (rd_routines (el_round s)) \<subseteq> {Finished};
    \<not> isConsensus (length (rd_routines (el_round s))) (rd_phase2 (el_round s))\<rbrakk> \<Longrightarrow>
    el_step self isDesiredLeader trm roundBeg s (Other Follow)
      (s\<lparr>el_voting := vm_SetFollowerRole (el_voting s), el_main := Pausing\<rparr>)"
| followed: "\<lbrakk>el_now s + kMinLeaderAwaitInterval \<le> t; el_main s = Pausing\<rbrakk> \<Longrightarrow>
    el_step self isDesiredLeader trm roundBeg s (Decided t False)
      (s\<lparr>el_now := t, el_main := Ended,
        el_roundResult := (if vm_LeaderIsAvailable t (el_voting s) then Some RoleFollower else None)\<rparr>)"
| other: "\<lbrakk>vm_step self (el_now s, el_voting s) e (now', v'); is_call e\<rbrakk> \<Longrightarrow>
    el_step self isDesiredLeader trm roundBeg s (Other e) (s\<lparr>el_now := now', el_voting := v'\<rparr>)"

inductive el_run :: "int \<Rightarrow> bool \<Rightarrow> int \<Rightarrow> int \<Rightarrow> electing \<Rightarrow> el_event list \<Rightarrow> electing \<Rightarrow> bool"
  for self isDesiredLeader trm roundBeg where
  none: "el_run self isDesiredLeader trm roundBeg s [] s"
| more: "\<lbrakk>el_run self isDesiredLeader trm roundBeg s es s'; el_step self isDesiredLeader trm roundBeg s' e s''\<rbrakk> \<Longrightarrow>
    el_run self isDesiredLeader trm roundBeg s (es @ [e]) s''"

definition start_electing :: "int \<Rightarrow> voting \<Rightarrow> nat \<Rightarrow> electing" where
  "start_electing now v n = \<lparr>el_now = now, el_voting = v, el_round = start_round n, el_main = Waiting, el_roundResult = None\<rparr>"

subsection \<open>The coroutines of a round\<close>

text \<open>
  The state of a round in terms of what happened in it: \<open>R\<close> are the servers that have answered the suggestion,
  \<open>V\<close> those that voted for the candidate, \<open>Q\<close> those that have answered the ping and \<open>P\<close> those that accepted it.
\<close>

definition rd_core :: "nat \<Rightarrow> nat set \<Rightarrow> nat set \<Rightarrow> nat set \<Rightarrow> nat set \<Rightarrow> nat set \<Rightarrow> round \<Rightarrow> bool" where
  "rd_core n E R V Q P rd \<longleftrightarrow> length (rd_routines rd) = n \<and> R \<subseteq> {..<n} \<and> V \<subseteq> R \<and> Q \<subseteq> V \<and> P \<subseteq> Q \<and>
     rd_phase1 rd = 1 + card V \<and> rd_failed rd = card (R - V) \<and> rd_phase2 rd = 1 + card P \<and> set (rd_waiting rd) \<subseteq> V \<and>
     (\<forall>i \<in> {..<n} - E. (rd_routines rd ! i = Asking \<longleftrightarrow> i \<notin> R) \<and>
       (rd_routines rd ! i = Suspended \<longleftrightarrow> i \<in> set (rd_waiting rd)) \<and>
       (rd_routines rd ! i = Pinging \<longrightarrow> i \<in> V) \<and> (i \<in> Q \<longrightarrow> rd_routines rd ! i = Finished))"

definition rd_inv :: "nat \<Rightarrow> nat set \<Rightarrow> nat set \<Rightarrow> nat set \<Rightarrow> nat set \<Rightarrow> round \<Rightarrow> bool" where
  "rd_inv n R V Q P rd \<longleftrightarrow> rd_core n {} R V Q P rd \<and> (rd_waiting rd \<noteq> [] \<longrightarrow> R \<noteq> {..<n})"

lemma rd_inv_start: "rd_inv n {} {} {} {} (start_round n)"
  by (simp add: rd_inv_def rd_core_def start_round_def)

lemma rd_coreD:
  assumes "rd_core n E R V Q P rd" "i < n" "i \<notin> E"
  shows "rd_routines rd ! i = Asking \<longleftrightarrow> i \<notin> R" "rd_routines rd ! i = Suspended \<longleftrightarrow> i \<in> set (rd_waiting rd)"
    "rd_routines rd ! i = Pinging \<Longrightarrow> i \<in> V" "i \<in> Q \<Longrightarrow> rd_routines rd ! i = Finished"
  using assms by (simp_all add: rd_core_def)

lemma rd_core_sets:
  assumes "rd_core n E R V Q P rd"
  shows "length (rd_routines rd) = n" "R \<subseteq> {..<n}" "V \<subseteq> R" "Q \<subseteq> V" "P \<subseteq> Q" "set (rd_waiting rd) \<subseteq> V"
    "finite R" "finite V" "finite P"
    "rd_phase1 rd = 1 + card V" "rd_failed rd = card (R - V)" "rd_phase2 rd = 1 + card P"
proof -
  show s: "length (rd_routines rd) = n" "R \<subseteq> {..<n}" "V \<subseteq> R" "Q \<subseteq> V" "P \<subseteq> Q" "set (rd_waiting rd) \<subseteq> V"
    "rd_phase1 rd = 1 + card V" "rd_failed rd = card (R - V)" "rd_phase2 rd = 1 + card P"
    using assms by (simp_all only: rd_core_def)
  from s(2) show R: "finite R" by (rule finite_subset) simp
  from s(3) R show V: "finite V" by (rule finite_subset)
  from s(4) V have "finite Q" by (rule finite_subset)
  with s(5) show "finite P" by (rule finite_subset)
qed

lemma rd_coreI:
  assumes "length (rd_routines rd) = n" "R \<subseteq> {..<n}" "V \<subseteq> R" "Q \<subseteq> V" "P \<subseteq> Q"
    "rd_phase1 rd = 1 + card V" "rd_failed rd = card (R - V)" "rd_phase2 rd = 1 + card P" "set (rd_waiting rd) \<subseteq> V"
    "\<And>i. i < n \<Longrightarrow> i \<notin> E \<Longrightarrow> (rd_routines rd ! i = Asking \<longleftrightarrow> i \<notin> R) \<and>
       (rd_routines rd ! i = Suspended \<longleftrightarrow> i \<in> set (rd_waiting rd)) \<and>
       (rd_routines rd ! i = Pinging \<longrightarrow> i \<in> V) \<and> (i \<in> Q \<longrightarrow> rd_routines rd ! i = Finished)"
  shows "rd_core n E R V Q P rd"
  unfolding rd_core_def using assms by blast

lemma set_routine_simps [simp]:
  "rd_routines (set_routine i s rd) = (rd_routines rd)[i := s]" "rd_phase1 (set_routine i s rd) = rd_phase1 rd"
  "rd_phase2 (set_routine i s rd) = rd_phase2 rd" "rd_failed (set_routine i s rd) = rd_failed rd"
  "rd_waiting (set_routine i s rd) = rd_waiting rd"
  by (simp_all add: set_routine_def)

lemma rd_continue_cases:
  obtains s where "rd_continue d a i rd = set_routine i s rd" "s \<in> {Finished, Pinging}"
  by (cases "(\<not> d \<and> a i) \<or> \<not> isConsensus (length (rd_routines rd)) (rd_phase1 rd)")
    (auto simp: rd_continue_def)

lemma fold_rd_continue:
  "\<exists>rs. fold (rd_continue d a) ws rd = rd\<lparr>rd_routines := rs\<rparr> \<and> length rs = length (rd_routines rd) \<and>
    (\<forall>j < length rs. rs ! j = rd_routines rd ! j \<and> j \<notin> set ws \<or> rs ! j \<in> {Finished, Pinging} \<and> j \<in> set ws)"
proof (induction ws arbitrary: rd)
  case Nil
  show ?case by (rule exI [of _ "rd_routines rd"]) simp
next
  case (Cons w ws)
  obtain s where s: "rd_continue d a w rd = set_routine w s rd" "s \<in> {Finished, Pinging}"
    by (rule rd_continue_cases)
  from Cons.IH [of "set_routine w s rd"] obtain rs where
    r: "fold (rd_continue d a) ws (set_routine w s rd) = (set_routine w s rd)\<lparr>rd_routines := rs\<rparr>"
      "length rs = length (rd_routines rd)"
      "\<forall>j < length rs. rs ! j = (rd_routines rd)[w := s] ! j \<and> j \<notin> set ws \<or> rs ! j \<in> {Finished, Pinging} \<and> j \<in> set ws"
    by auto
  show ?case
  proof (intro exI [of _ rs] conjI allI impI)
    show "fold (rd_continue d a) (w # ws) rd = rd\<lparr>rd_routines := rs\<rparr>"
      using r(1) s(1) by (simp add: set_routine_def)
    fix j assume "j < length rs"
    with r(2,3) s(2) show "rs ! j = rd_routines rd ! j \<and> j \<notin> set (w # ws) \<or> rs ! j \<in> {Finished, Pinging} \<and> j \<in> set (w # ws)"
      by (cases "j = w") auto
  qed (use r(2) in simp)
qed

lemma rd_core_resume:
  assumes "rd_core n E R V Q P rd"
  shows "rd_core n E R V Q P (rd_resume d a rd)" "rd_waiting (rd_resume d a rd) = []"
proof -
  from fold_rd_continue [of d a "rd_waiting rd" "rd\<lparr>rd_waiting := []\<rparr>"] obtain rs where
    r: "rd_resume d a rd = rd\<lparr>rd_waiting := [], rd_routines := rs\<rparr>" "length rs = length (rd_routines rd)"
      "\<forall>j < length rs. rs ! j = rd_routines rd ! j \<and> j \<notin> set (rd_waiting rd) \<or>
         rs ! j \<in> {Finished, Pinging} \<and> j \<in> set (rd_waiting rd)"
    by (auto simp: rd_resume_def)
  then show "rd_waiting (rd_resume d a rd) = []" by simp
  note i = rd_core_sets [OF assms]
  have "(rs ! j = Asking \<longleftrightarrow> j \<notin> R) \<and> rs ! j \<noteq> Suspended \<and> (rs ! j = Pinging \<longrightarrow> j \<in> V) \<and> (j \<in> Q \<longrightarrow> rs ! j = Finished)"
    if j: "j < n" "j \<notin> E" for j
  proof -
    note k = rd_coreD [OF assms j]
    from r(3) j i(1) r(2) have "rs ! j = rd_routines rd ! j \<and> j \<notin> set (rd_waiting rd) \<or>
         rs ! j \<in> {Finished, Pinging} \<and> j \<in> set (rd_waiting rd)" by simp
    then show ?thesis
    proof
      assume "rs ! j = rd_routines rd ! j \<and> j \<notin> set (rd_waiting rd)"
      with k show ?thesis by simp
    next
      assume m: "rs ! j \<in> {Finished, Pinging} \<and> j \<in> set (rd_waiting rd)"
      then have "j \<in> V" "j \<in> R" "j \<notin> Q" using i(3,6) k by auto
      with m show ?thesis by auto
    qed
  qed
  then show "rd_core n E R V Q P (rd_resume d a rd)"
    using i r(1,2) by (simp add: rd_core_def)
qed

text \<open>The coroutine that runs gets its new state.\<close>

lemma rd_core_set:
  assumes "rd_core n {i} R V Q P rd" "i < n" "i \<in> R" "i \<notin> Q \<or> s = Finished" "i \<notin> set (rd_waiting rd)"
    "s = Finished \<or> s = Pinging \<and> i \<in> V"
  shows "rd_core n {} R V Q P (set_routine i s rd)"
proof -
  note t = rd_core_sets [OF assms(1)]
  show ?thesis
  proof (rule rd_coreI)
    fix j assume j: "j < n"
    let ?rd = "set_routine i s rd"
    show "(rd_routines ?rd ! j = Asking \<longleftrightarrow> j \<notin> R) \<and> (rd_routines ?rd ! j = Suspended \<longleftrightarrow> j \<in> set (rd_waiting ?rd)) \<and>
      (rd_routines ?rd ! j = Pinging \<longrightarrow> j \<in> V) \<and> (j \<in> Q \<longrightarrow> rd_routines ?rd ! j = Finished)"
    proof (cases "j = i")
      case True
      then show ?thesis using assms(2-6) t(1) by auto
    next
      case False
      then show ?thesis using rd_coreD [OF assms(1) j] by simp
    qed
  qed (use t in simp_all)
qed

definition rd_count :: "bool \<Rightarrow> round \<Rightarrow> round" where
  "rd_count succeed rd =
     (if succeed then rd\<lparr>rd_phase1 := rd_phase1 rd + 1\<rparr> else rd\<lparr>rd_failed := rd_failed rd + 1\<rparr>)"

lemma rd_count_simps [simp]:
  "rd_routines (rd_count b rd) = rd_routines rd" "rd_waiting (rd_count b rd) = rd_waiting rd"
  "rd_phase2 (rd_count b rd) = rd_phase2 rd"
  "rd_phase1 (rd_count b rd) = (if b then rd_phase1 rd + 1 else rd_phase1 rd)"
  "rd_failed (rd_count b rd) = (if b then rd_failed rd else rd_failed rd + 1)"
  by (simp_all add: rd_count_def)

lemma rd_core_count:
  assumes "rd_core n {} R V Q P rd" "i < n" "i \<notin> R"
  shows "rd_core n {i} (insert i R) (if succeed then insert i V else V) Q P (rd_count succeed rd)"
proof -
  note s = rd_core_sets [OF assms(1)]
  have i: "i \<notin> V" "i \<notin> Q" using s(3,4) assms(3) by blast+
  have d: "insert i R - (if succeed then insert i V else V) = (if succeed then R - V else insert i (R - V))"
    using i assms(3) by auto
  show ?thesis
  proof (rule rd_coreI)
    show "rd_failed (rd_count succeed rd) = card (insert i R - (if succeed then insert i V else V))"
      unfolding d using s(7,11) assms(3) by simp
    show "rd_phase1 (rd_count succeed rd) = 1 + card (if succeed then insert i V else V)"
      using s(8,10) i by simp
    show "set (rd_waiting (rd_count succeed rd)) \<subseteq> (if succeed then insert i V else V)" using s(6) by auto
    show "Q \<subseteq> (if succeed then insert i V else V)" using s(4) by auto
    show "(if succeed then insert i V else V) \<subseteq> insert i R" using s(3) by auto
    fix j assume "j < n" "j \<notin> {i}"
    then show "(rd_routines (rd_count succeed rd) ! j = Asking) = (j \<notin> insert i R) \<and>
         (rd_routines (rd_count succeed rd) ! j = Suspended) = (j \<in> set (rd_waiting (rd_count succeed rd))) \<and>
         (rd_routines (rd_count succeed rd) ! j = Pinging \<longrightarrow> j \<in> (if succeed then insert i V else V)) \<and>
         (j \<in> Q \<longrightarrow> rd_routines (rd_count succeed rd) ! j = Finished)"
      using rd_coreD [OF assms(1), of j] by simp
  qed (use s assms(2) in simp_all)
qed

lemma rd_suggested_count:
  "rd_suggested d a i succeed rd =
     (let n = length (rd_routines rd); rd1 = rd_count succeed rd in
      if rd_failed rd1 + rd_phase1 rd1 = n + 1 \<or> rd_phase1 rd1 > (n + 1) div 2 then
        if \<not> succeed then set_routine i Finished (rd_resume d a rd1) else rd_continue d a i (rd_resume d a rd1)
      else if succeed then set_routine i Suspended (rd1\<lparr>rd_waiting := rd_waiting rd1 @ [i]\<rparr>)
      else set_routine i Finished rd1)"
  by (simp only: rd_suggested_def rd_count_def Let_def)

lemma rd_core_park:
  assumes "rd_core n {i} R V Q P rd" "i < n" "i \<in> V" "i \<notin> Q"
  shows "rd_core n {} R V Q P (set_routine i Suspended (rd\<lparr>rd_waiting := rd_waiting rd @ [i]\<rparr>))"
proof -
  note s = rd_core_sets [OF assms(1)]
  let ?rd = "set_routine i Suspended (rd\<lparr>rd_waiting := rd_waiting rd @ [i]\<rparr>)"
  show ?thesis
  proof (rule rd_coreI)
    fix j assume j: "j < n"
    show "(rd_routines ?rd ! j = Asking) = (j \<notin> R) \<and> (rd_routines ?rd ! j = Suspended) = (j \<in> set (rd_waiting ?rd)) \<and>
      (rd_routines ?rd ! j = Pinging \<longrightarrow> j \<in> V) \<and> (j \<in> Q \<longrightarrow> rd_routines ?rd ! j = Finished)"
    proof (cases "j = i")
      case True
      then show ?thesis using assms(2-4) s(1,3) by auto
    next
      case False
      then show ?thesis using rd_coreD [OF assms(1) j] by simp
    qed
  qed (use s assms(3) in simp_all)
qed

lemma rd_inv_suggested:
  assumes "rd_inv n R V Q P rd" "i < n" "rd_routines rd ! i = Asking"
  shows "i \<notin> R" "rd_inv n (insert i R) (if succeed then insert i V else V) Q P (rd_suggested d a i succeed rd)"
proof -
  have c: "rd_core n {} R V Q P rd" using assms(1) by (simp add: rd_inv_def)
  note s = rd_core_sets [OF c]
  show i: "i \<notin> R" using rd_coreD(1) [OF c assms(2)] assms(3) by simp
  then have j: "i \<notin> Q" "i \<notin> set (rd_waiting rd)" using s(3,4,6) by blast+
  define V' where "V' = (if succeed then insert i V else V)"
  define rd1 where "rd1 = rd_count succeed rd"
  have c1: "rd_core n {i} (insert i R) V' Q P rd1"
    unfolding V'_def rd1_def by (rule rd_core_count [OF c assms(2) i])
  note s1 = rd_core_sets [OF c1]
  have w: "i \<notin> set (rd_waiting rd1)" using j(2) by (simp add: rd1_def)
  have "card (insert i R - V') = card (insert i R) - card V'" using s1(3,8) by (rule card_Diff_subset [rotated])
  moreover have "card V' \<le> card (insert i R)" using s1(3,7) card_mono by blast
  ultimately have n: "insert i R = {..<n} \<Longrightarrow> rd_failed rd1 + rd_phase1 rd1 = n + 1"
    using s1(10,11) by simp
  note r = rd_suggested_count [of d a i succeed rd, folded rd1_def, unfolded s(1) Let_def]
  note c2 = rd_core_resume [OF c1, of d a]
  have "rd_inv n (insert i R) V' Q P (rd_suggested d a i succeed rd)"
  proof (cases "rd_failed rd1 + rd_phase1 rd1 = n + 1 \<or> rd_phase1 rd1 > (n + 1) div 2")
    case True
    obtain x where x: "rd_suggested d a i succeed rd = set_routine i x (rd_resume d a rd1)"
        "x = Finished \<or> x = Pinging \<and> i \<in> V'"
    proof (cases succeed)
      case t: True
      obtain y where "rd_continue d a i (rd_resume d a rd1) = set_routine i y (rd_resume d a rd1)"
          "y \<in> {Finished, Pinging}" by (rule rd_continue_cases)
      then show ?thesis using r True t by (intro that [of y]) (auto simp: V'_def)
    next
      case False
      then show ?thesis using r True by (intro that [of Finished]) simp_all
    qed
    have "rd_core n {} (insert i R) V' Q P (set_routine i x (rd_resume d a rd1))"
      using j(1) c2(2) x(2) by (intro rd_core_set [OF c2(1) assms(2)]) simp_all
    then show ?thesis using x(1) c2(2) by (simp add: rd_inv_def)
  next
    case f: False
    then have n: "insert i R \<noteq> {..<n}" using n by blast
    show ?thesis
    proof (cases succeed)
      case True
      have "rd_core n {} (insert i R) V' Q P (set_routine i Suspended (rd1\<lparr>rd_waiting := rd_waiting rd1 @ [i]\<rparr>))"
        by (rule rd_core_park [OF c1 assms(2) _ j(1)]) (simp add: V'_def True)
      then show ?thesis using r f True n by (simp add: rd_inv_def)
    next
      case False
      have "rd_core n {} (insert i R) V' Q P (set_routine i Finished rd1)"
        using w by (intro rd_core_set [OF c1 assms(2)]) simp_all
      then show ?thesis using r f False n by (simp add: rd_inv_def)
    qed
  qed
  then show "rd_inv n (insert i R) (if succeed then insert i V else V) Q P (rd_suggested d a i succeed rd)"
    by (simp add: V'_def)
qed

lemma rd_inv_pinged:
  assumes "rd_inv n R V Q P rd" "i < n" "rd_routines rd ! i = Pinging"
  shows "i \<notin> Q" "rd_inv n R V (insert i Q) (if ok then insert i P else P) (rd_pinged i ok rd)"
proof -
  have c: "rd_core n {} R V Q P rd" using assms(1) by (simp add: rd_inv_def)
  note s = rd_core_sets [OF c] and k = rd_coreD [OF c assms(2)]
  show q: "i \<notin> Q" using k(4) assms(3) by auto
  have i: "i \<in> V" "i \<in> R" "i \<notin> set (rd_waiting rd)" "i \<notin> P" using k assms(3) s(5) q by auto
  let ?rd = "if ok then rd\<lparr>rd_phase2 := rd_phase2 rd + 1\<rparr> else rd"
  have f: "rd_routines ?rd = rd_routines rd" "rd_waiting ?rd = rd_waiting rd" "rd_phase1 ?rd = rd_phase1 rd"
    "rd_failed ?rd = rd_failed rd" by simp_all
  have "rd_core n {i} R V (insert i Q) (if ok then insert i P else P) ?rd"
  proof (rule rd_coreI)
    show "rd_phase2 ?rd = 1 + card (if ok then insert i P else P)" using s(9,12) i(4) by simp
    show "(if ok then insert i P else P) \<subseteq> insert i Q" using s(5) by auto
    fix j assume "j < n" "j \<notin> {i}"
    then show "(rd_routines ?rd ! j = Asking) = (j \<notin> R) \<and> (rd_routines ?rd ! j = Suspended) = (j \<in> set (rd_waiting ?rd)) \<and>
      (rd_routines ?rd ! j = Pinging \<longrightarrow> j \<in> V) \<and> (j \<in> insert i Q \<longrightarrow> rd_routines ?rd ! j = Finished)"
      unfolding f using rd_coreD [OF c, of j] by simp
  qed (use s i in simp_all)
  from rd_core_set [OF this assms(2) i(2), of Finished] i(3) assms(1)
  show "rd_inv n R V (insert i Q) (if ok then insert i P else P) (rd_pinged i ok rd)"
    unfolding rd_inv_def rd_pinged_def by simp
qed

subsection \<open>What happened in a round\<close>

definition answered :: "el_event list \<Rightarrow> nat set" where
  "answered tr = {i. \<exists>t ok srv. Suggested t i ok srv \<in> set tr}"

definition voted :: "int \<Rightarrow> el_event list \<Rightarrow> nat set" where
  "voted self tr = {i. \<exists>t. Suggested t i True self \<in> set tr}"

definition pinged :: "el_event list \<Rightarrow> nat set" where
  "pinged tr = {i. \<exists>t ok. Pinged t i ok \<in> set tr}"

definition accepted :: "el_event list \<Rightarrow> nat set" where
  "accepted tr = {i. \<exists>t. Pinged t i True \<in> set tr}"

fun is_answer :: "el_event \<Rightarrow> bool" where
  "is_answer (Suggested _ _ _ _) = True"
| "is_answer (Pinged _ _ _) = True"
| "is_answer _ = False"

lemmas trace_sets = answered_def voted_def pinged_def accepted_def

lemma trace_sets_Nil [simp]:
  "answered [] = {}" "voted self [] = {}" "pinged [] = {}" "accepted [] = {}"
  by (simp_all add: trace_sets)

lemma trace_sets_Suggested [simp]:
  "answered (tr @ [Suggested t i ok srv]) = insert i (answered tr)"
  "voted self (tr @ [Suggested t i ok srv]) = (if ok \<and> srv = self then insert i (voted self tr) else voted self tr)"
  "pinged (tr @ [Suggested t i ok srv]) = pinged tr"
  "accepted (tr @ [Suggested t i ok srv]) = accepted tr"
  by (auto simp: trace_sets)

lemma trace_sets_Pinged [simp]:
  "answered (tr @ [Pinged t i ok]) = answered tr"
  "voted self (tr @ [Pinged t i ok]) = voted self tr"
  "pinged (tr @ [Pinged t i ok]) = insert i (pinged tr)"
  "accepted (tr @ [Pinged t i ok]) = (if ok then insert i (accepted tr) else accepted tr)"
  by (auto simp: trace_sets)

lemma trace_sets_other:
  assumes "\<not> is_answer e"
  shows "answered (tr @ [e]) = answered tr" "voted self (tr @ [e]) = voted self tr"
    "pinged (tr @ [e]) = pinged tr" "accepted (tr @ [e]) = accepted tr"
  using assms by (cases e; auto simp: trace_sets)+

definition el_inv :: "int \<Rightarrow> nat \<Rightarrow> el_event list \<Rightarrow> round \<Rightarrow> bool" where
  "el_inv self n tr rd \<longleftrightarrow> rd_inv n (answered tr) (voted self tr) (pinged tr) (accepted tr) rd \<and>
     length (filter is_answer tr) = card (answered tr) + card (pinged tr)"

lemma el_inv_sets:
  assumes "el_inv self n tr rd"
  shows "length (rd_routines rd) = n" "answered tr \<subseteq> {..<n}" "voted self tr \<subseteq> answered tr"
    "pinged tr \<subseteq> voted self tr" "accepted tr \<subseteq> pinged tr" "finite (answered tr)" "finite (pinged tr)"
    "rd_phase2 rd = 1 + card (accepted tr)"
proof -
  have c: "rd_core n {} (answered tr) (voted self tr) (pinged tr) (accepted tr) rd"
    using assms by (simp add: el_inv_def rd_inv_def)
  note s = rd_core_sets [OF c]
  show "length (rd_routines rd) = n" "answered tr \<subseteq> {..<n}" "voted self tr \<subseteq> answered tr"
    "pinged tr \<subseteq> voted self tr" "accepted tr \<subseteq> pinged tr" "finite (answered tr)"
    "rd_phase2 rd = 1 + card (accepted tr)" by (fact s)+
  show "finite (pinged tr)" using s(4,8) by (rule finite_subset)
qed

lemma el_inv_step:
  assumes "el_step self d trm b s e s'" "el_inv self n tr (el_round s)"
  shows "el_inv self n (tr @ [e]) (el_round s')"
proof -
  note i = el_inv_sets [OF assms(2)]
  have r: "rd_inv n (answered tr) (voted self tr) (pinged tr) (accepted tr) (el_round s)"
    "length (filter is_answer tr) = card (answered tr) + card (pinged tr)"
    using assms(2) by (simp_all add: el_inv_def)
  show ?thesis
    using assms(1)
  proof cases
    case (suggested t j ok srv a)
    have j: "j < n" using suggested(4) i(1) by simp
    note k = rd_inv_suggested [OF r(1) j suggested(5)]
    show ?thesis using k(1) k(2) [of "ok \<and> srv = self" d a] r(2) i(6) suggested(1,2)
      by (simp add: el_inv_def)
  next
    case (pinged t j ok)
    have j: "j < n" using pinged(4) i(1) by simp
    note k = rd_inv_pinged [OF r(1) j pinged(5)]
    show ?thesis using k(1) k(2) [of ok] r(2) i(7) pinged(1,2) by (simp add: el_inv_def)
  qed (use r trace_sets_other in \<open>simp_all add: el_inv_def\<close>)
qed

lemma el_run_inv:
  "el_run self d trm b s0 tr s \<Longrightarrow> s0 = start_electing t v n \<Longrightarrow> el_inv self n tr (el_round s)"
proof (induction rule: el_run.induct)
  case (none s)
  then show ?case by (simp add: el_inv_def start_electing_def rd_inv_start)
next
  case (more s es s' e s'')
  then show ?case using el_inv_step by blast
qed

lemma main_step:
  assumes "set (rd_routines (el_round s)) \<subseteq> {Finished}" "el_main s \<noteq> Ended"
  shows "\<exists>e s'. el_step self d trm b s e s' \<and> (\<forall>c. e = Other c \<longrightarrow> \<not> is_call c) \<and> \<not> is_answer e"
proof (cases "el_main s")
  case Waiting
  show ?thesis
  proof (cases "isConsensus (length (rd_routines (el_round s))) (rd_phase2 (el_round s))")
    case True
    obtain ok v' where "end_as_leader trm b (el_now s) (el_voting s) = (ok, v')" by (cases "end_as_leader trm b (el_now s) (el_voting s)")
    from el_step.decided [OF _ Waiting True this] show ?thesis by fastforce
  next
    case False
    from el_step.follow [OF Waiting assms(1) False] show ?thesis by fastforce
  qed
next
  case Pausing
  from el_step.followed [OF order_refl this] show ?thesis by fastforce
qed (use assms(2) in simp)

text \<open>
  C18. A round of elections never gets stuck and ends: however the answers of the other servers arrive and
  whatever calls come between, it processes at most two answers per server; when none is under way, no coroutine
  is left parked, and unless the round has ended its main coroutine has a step of its own to take.
\<close>

theorem round_completes:
  assumes "el_run self d trm b (start_electing t v n) tr s"
  shows "length (filter is_answer tr) \<le> 2 * n \<and>
    ({Asking, Pinging} \<inter> set (rd_routines (el_round s)) = {} \<longrightarrow>
       set (rd_routines (el_round s)) \<subseteq> {Finished} \<and>
       (el_main s \<noteq> Ended \<longrightarrow>
         (\<exists>e s'. el_step self d trm b s e s' \<and> (\<forall>c. e = Other c \<longrightarrow> \<not> is_call c) \<and> \<not> is_answer e)))"
proof -
  have i: "el_inv self n tr (el_round s)" by (rule el_run_inv [OF assms refl])
  note f = el_inv_sets [OF i]
  have r: "rd_core n {} (answered tr) (voted self tr) (pinged tr) (accepted tr) (el_round s)"
    "rd_waiting (el_round s) \<noteq> [] \<longrightarrow> answered tr \<noteq> {..<n}"
    "length (filter is_answer tr) = card (answered tr) + card (pinged tr)"
    using i by (simp_all add: el_inv_def rd_inv_def)
  have "card (answered tr) \<le> n" "card (pinged tr) \<le> n"
    using f(2-4) card_mono [of "{..<n}" "answered tr"] card_mono [of "{..<n}" "pinged tr"] by auto
  moreover have "set (rd_routines (el_round s)) \<subseteq> {Finished}"
    if q: "{Asking, Pinging} \<inter> set (rd_routines (el_round s)) = {}"
  proof
    fix x assume "x \<in> set (rd_routines (el_round s))"
    then obtain j where j: "j < n" "rd_routines (el_round s) ! j = x" using f(1) by (auto simp: in_set_conv_nth)
    have "\<And>k. k < n \<Longrightarrow> k \<in> answered tr"
      using rd_coreD(1) [OF r(1)] q f(1) nth_mem [of _ "rd_routines (el_round s)"] by fastforce
    then have "answered tr = {..<n}" using f(2) by auto
    then have "x \<noteq> Suspended" using r(2) rd_coreD(2) [OF r(1) j(1)] j(2) by auto
    moreover have "x \<noteq> Asking" "x \<noteq> Pinging" using q \<open>x \<in> _\<close> by auto
    ultimately show "x \<in> {Finished}" by (cases x) simp_all
  qed
  ultimately show ?thesis using r(3) main_step [of s self d trm b] by auto
qed

lemma el_step_leader:
  assumes "el_step self d trm b s e s'" "el_roundResult s' = Some RoleLeader" "el_roundResult s \<noteq> Some RoleLeader"
  shows "\<exists>T. e = Decided T True \<and> el_main s' = Ended \<and>
      isConsensus (length (rd_routines (el_round s))) (rd_phase2 (el_round s)) \<and>
      10 * (T - b) \<le> 8 * kMinLeaderAwaitInterval \<and> vd_term (vm_data (el_voting s)) = trm"
  using assms(1)
proof cases
  case (decided t ok v')
  then have "ok" using assms(2) by (simp split: if_splits)
  then show ?thesis using decided by (simp add: end_as_leader_def vm_TryToSetLeaderRoleInTerm_def split: if_splits)
qed (use assms(2,3) in \<open>simp_all split: if_splits\<close>)

lemma decided_state:
  "el_run self d trm b s0 tr s \<Longrightarrow> s0 = start_electing t v n \<Longrightarrow> el_roundResult s = Some RoleLeader \<Longrightarrow>
    el_main s = Ended \<and> (\<exists>tr1 s1 T tr2. tr = tr1 @ Decided T True # tr2 \<and> el_run self d trm b s0 tr1 s1 \<and>
      isConsensus n (rd_phase2 (el_round s1)) \<and> 10 * (T - b) \<le> 8 * kMinLeaderAwaitInterval \<and>
      vd_term (vm_data (el_voting s1)) = trm)"
proof (induction rule: el_run.induct)
  case (none s)
  then show ?case by (simp add: start_electing_def)
next
  case (more s es s' e s'')
  show ?case
  proof (cases "el_roundResult s' = Some RoleLeader")
    case True
    then have ih: "el_main s' = Ended" "\<exists>tr1 s1 T tr2. es = tr1 @ Decided T True # tr2 \<and> el_run self d trm b s tr1 s1 \<and>
      isConsensus n (rd_phase2 (el_round s1)) \<and> 10 * (T - b) \<le> 8 * kMinLeaderAwaitInterval \<and>
      vd_term (vm_data (el_voting s1)) = trm"
      using more.IH more.prems by auto
    have "el_main s'' = Ended" using more.hyps(2) ih(1) by cases auto
    then show ?thesis using ih(2) by (metis append_Cons append_assoc)
  next
    case False
    have "length (rd_routines (el_round s')) = n"
      using el_inv_sets(1) [OF el_run_inv [OF more.hyps(1) more.prems(1)]] .
    then show ?thesis using el_step_leader [OF more.hyps(2) more.prems(2) False] more.hyps(1) by fastforce
  qed
qed

text \<open>
  C17. A leader has a quorum: a round makes its server the leader only after more than half of the cluster,
  the candidate itself included, have voted for it and then accepted its ping in this round, within four fifths
  of the await interval since the round began and while its term is still the one the round started.
\<close>

theorem leader_has_quorum:
  assumes "el_run self d trm b (start_electing t v n) tr s" "el_roundResult s = Some RoleLeader"
  shows "\<exists>tr1 T tr2. tr = tr1 @ Decided T True # tr2 \<and> 10 * (T - b) \<le> 8 * kMinLeaderAwaitInterval \<and>
    accepted tr1 \<subseteq> voted self tr1 \<and> voted self tr1 \<subseteq> {..<n} \<and> n + 1 < 2 * (card (accepted tr1) + 1) \<and>
    (\<exists>s1. el_run self d trm b (start_electing t v n) tr1 s1 \<and> vd_term (vm_data (el_voting s1)) = trm)"
proof -
  from decided_state [OF assms(1) refl assms(2)] obtain tr1 s1 T tr2 where
    c: "tr = tr1 @ Decided T True # tr2" "el_run self d trm b (start_electing t v n) tr1 s1"
      "isConsensus n (rd_phase2 (el_round s1))" "10 * (T - b) \<le> 8 * kMinLeaderAwaitInterval"
      "vd_term (vm_data (el_voting s1)) = trm" by blast
  note f = el_inv_sets [OF el_run_inv [OF c(2) refl]]
  have "accepted tr1 \<subseteq> voted self tr1" "voted self tr1 \<subseteq> {..<n}" using f(2-5) by auto
  moreover have "n + 1 < 2 * (card (accepted tr1) + 1)"
    using c(3) f(8) by (simp add: isConsensus_def GetConsensusForN_def)
  ultimately show ?thesis using c by blast
qed

subsection \<open>Two leaders\<close>

lemma el_run_now:
  "el_run self d trm b s0 tr s \<Longrightarrow> el_now s0 \<le> el_now s \<and> (\<forall>t i ok. Pinged t i ok \<in> set tr \<longrightarrow> t \<le> el_now s)"
proof (induction rule: el_run.induct)
  case (more s es s' e s'')
  have "el_now s' \<le> el_now s'' \<and> (\<forall>t i ok. e = Pinged t i ok \<longrightarrow> t = el_now s'')"
    using more.hyps(2) by cases (auto dest: vm_run_time simp: kMinLeaderAwaitInterval_def kLeaderPingInterval_def)
  then show ?case using more.IH by fastforce
qed simp

inductive_cases el_decidedE: "el_step self d trm b s (Decided T True) s'"

lemma decided_run:
  "el_run self d trm b s0 tr s \<Longrightarrow> s0 = start_electing t v n \<Longrightarrow> Decided T True \<in> set tr \<Longrightarrow>
    \<exists>tr1 tr2 s1. tr = tr1 @ Decided T True # tr2 \<and> el_run self d trm b s0 tr1 s1 \<and> el_now s1 \<le> T \<and>
      isConsensus n (rd_phase2 (el_round s1)) \<and> 10 * (T - b) \<le> 8 * kMinLeaderAwaitInterval"
proof (induction rule: el_run.induct)
  case (more s es s' e s'')
  show ?case
  proof (cases "Decided T True \<in> set es")
    case True
    with more.IH more.prems(1) show ?thesis by (metis append_Cons append_assoc)
  next
    case False
    then have e: "e = Decided T True" using more.prems(2) by auto
    have "length (rd_routines (el_round s')) = n"
      using el_inv_sets(1) [OF el_run_inv [OF more.hyps(1) more.prems(1)]] .
    then have "el_now s' \<le> T \<and> isConsensus n (rd_phase2 (el_round s')) \<and> 10 * (T - b) \<le> 8 * kMinLeaderAwaitInterval"
      using more.hyps(2) unfolding e by (auto elim!: el_decidedE simp: end_as_leader_def split: if_splits)
    then show ?thesis using more.hyps(1) e by blast
  qed
qed simp

text \<open>
  \<open>elected S hist a b T\<close>: in the cluster of the servers \<open>S\<close>, where server \<open>v\<close> has performed the operations
  \<open>hist v\<close>, a round of server \<open>a\<close> that began at \<open>b\<close> makes it the leader at \<open>T\<close>. The coroutine \<open>i\<close> of the round
  talks to the server \<open>srv i\<close>, and an accepted ping was accepted there between the beginning of the round and
  the arrival of the answer.
\<close>

definition elected :: "int set \<Rightarrow> (int \<Rightarrow> vm_event list) \<Rightarrow> int \<Rightarrow> int \<Rightarrow> int \<Rightarrow> bool" where
  "elected S hist a b T \<longleftrightarrow> (\<exists>d trm v n tr s srv.
     el_run a d trm b (start_electing b v n) tr s \<and> Decided T True \<in> set tr \<and> bij_betw srv {..<n} (S - {a}) \<and>
     (\<forall>t i. Pinged t i True \<in> set tr \<longrightarrow>
       (\<exists>t' \<in> {b..t}. \<exists>l. Ping t' l True \<in> set (hist (srv i)) \<and> nd_serverId l = a)))"

definition accepts :: "(int \<Rightarrow> vm_event list) \<Rightarrow> int \<Rightarrow> int \<Rightarrow> int \<Rightarrow> int \<Rightarrow> bool" where
  "accepts hist v a b T \<longleftrightarrow> (\<exists>t \<in> {b..T}. \<exists>l. Ping t l True \<in> set (hist v) \<and> nd_serverId l = a)"

lemma elected_quorum:
  assumes "elected S hist a b T" "a \<in> S" "finite S"
  shows "10 * (T - b) \<le> 8 * kMinLeaderAwaitInterval"
    "\<exists>A \<subseteq> S. a \<in> A \<and> card S < 2 * card A \<and> (\<forall>v \<in> A - {a}. accepts hist v a b T)"
proof -
  from assms(1) obtain d trm v n tr s srv where
    e: "el_run a d trm b (start_electing b v n) tr s" "Decided T True \<in> set tr" "bij_betw srv {..<n} (S - {a})"
      "\<And>t i. Pinged t i True \<in> set tr \<Longrightarrow>
        \<exists>t' \<in> {b..t}. \<exists>l. Ping t' l True \<in> set (hist (srv i)) \<and> nd_serverId l = a"
    unfolding elected_def by blast
  from decided_run [OF e(1) refl e(2)] obtain tr1 tr2 s1 where
    c: "tr = tr1 @ Decided T True # tr2" "el_run a d trm b (start_electing b v n) tr1 s1" "el_now s1 \<le> T"
      "isConsensus n (rd_phase2 (el_round s1))" "10 * (T - b) \<le> 8 * kMinLeaderAwaitInterval" by blast
  show "10 * (T - b) \<le> 8 * kMinLeaderAwaitInterval" by (fact c(5))
  note f = el_inv_sets [OF el_run_inv [OF c(2) refl]]
  let ?P = "accepted tr1"
  have P: "?P \<subseteq> {..<n}" using f(2-5) by blast
  have inj: "inj_on srv ?P" using e(3) P by (auto simp: bij_betw_def intro: inj_on_subset)
  have sub: "srv ` ?P \<subseteq> S - {a}" using e(3) P by (auto simp: bij_betw_def)
  have "card S = n + 1" using bij_betw_same_card [OF e(3)] card_Suc_Diff1 [OF assms(3,2)] by simp
  moreover have "n + 1 < 2 * (card ?P + 1)" using c(4) f(8) by (simp add: isConsensus_def GetConsensusForN_def)
  moreover have "card (insert a (srv ` ?P)) = card ?P + 1"
    using sub inj P finite_subset [OF P] by (subst card_insert_disjoint) (auto simp: card_image)
  moreover have "accepts hist v a b T" if "v \<in> srv ` ?P" for v
  proof -
    from that obtain i t where i: "v = srv i" "Pinged t i True \<in> set tr1" by (auto simp: accepted_def)
    then have "t \<le> T" using el_run_now [OF c(2)] c(3) by fastforce
    moreover have "\<exists>t' \<in> {b..t}. \<exists>l. Ping t' l True \<in> set (hist v) \<and> nd_serverId l = a"
      using e(4) [of t i] i c(1) by simp
    ultimately show ?thesis unfolding accepts_def by (meson atLeastAtMost_iff order_trans)
  qed
  ultimately show "\<exists>A \<subseteq> S. a \<in> A \<and> card S < 2 * card A \<and> (\<forall>v \<in> A - {a}. accepts hist v a b T)"
    using sub assms(2) by (intro exI [of _ "insert a (srv ` ?P)"]) auto
qed

text \<open>
  C15. Two servers of a cluster do not become leaders at the same time, as long as \<open>SetDesiredLeaderId\<close> is called on
  none of them (an appointment forgets the last ping, and then two rounds can both succeed) and their clocks
  agree: the moments in which their rounds make them leaders are at least a fifth of the await interval
  (\<open>kLeaderPingInterval\<close>) apart, unless one of the two has itself accepted the ping of the other during the other's
  round. The calls may be delayed, lost and interleaved in any way.
\<close>

theorem leaders_apart:
  assumes "finite S" "S \<subseteq> {0..<2 ^ 15}" "a \<in> S" "c \<in> S" "a \<noteq> c"
    "elected S hist a b T" "elected S hist c b' T'"
    "\<forall>v \<in> S. \<exists>st st'. vm_run v st (hist v) st' \<and> - 1 \<le> nl_id (vm_next (snd st))"
    "\<forall>v \<in> S. \<forall>e \<in> set (hist v). \<not> is_SetDesired e"
  shows "kLeaderPingInterval \<le> \<bar>T - T'\<bar> \<or> accepts hist a c b' T' \<or> accepts hist c a b T"
proof -
  note q = elected_quorum [OF assms(6,3,1)] and q' = elected_quorum [OF assms(7,4,1)]
  from q(2) obtain A where A: "A \<subseteq> S" "card S < 2 * card A" "\<forall>v \<in> A - {a}. accepts hist v a b T" by blast
  from q'(2) obtain C where C: "C \<subseteq> S" "card S < 2 * card C" "\<forall>v \<in> C - {c}. accepts hist v c b' T'" by blast
  have "card (A \<union> C) \<le> card S" using A(1) C(1) assms(1) by (simp add: card_mono)
  moreover have "card A + card C = card (A \<union> C) + card (A \<inter> C)"
    using finite_subset [OF A(1) assms(1)] finite_subset [OF C(1) assms(1)] by (rule card_Un_Int)
  ultimately have "A \<inter> C \<noteq> {}" using A(2) C(2) by auto
  then obtain v where v: "v \<in> A" "v \<in> C" by blast
  show ?thesis
  proof (cases "v \<in> {a, c}")
    case True
    then show ?thesis using v A(3) C(3) assms(5) by auto
  next
    case False
    then have "accepts hist v a b T" "accepts hist v c b' T'" using v A(3) C(3) by auto
    then obtain t l t' l' where p: "Ping t l True \<in> set (hist v)" "nd_serverId l = a" "b \<le> t" "t \<le> T"
      "Ping t' l' True \<in> set (hist v)" "nd_serverId l' = c" "b' \<le> t'" "t' \<le> T'" by (auto simp: accepts_def)
    obtain st st' where s: "vm_run v st (hist v) st'" "- 1 \<le> nl_id (vm_next (snd st))"
      using assms(8) v(1) A(1) by blast
    have "kMinLeaderAwaitInterval \<le> \<bar>t - t'\<bar>"
    proof (rule accepted_pings_apart [OF s(1) _ s(2) _ _ _ p(1,5)])
      show "\<forall>e \<in> set (hist v). \<not> is_SetDesired e" using assms(9) v(1) A(1) by blast
      show "{v, nd_serverId l, nd_serverId l'} \<subseteq> {0..<2 ^ 15}" using assms(2-4) v(1) A(1) p(2,6) by auto
    qed (use False p(2,6) assms(5) in auto)
    then have "5 * kLeaderPingInterval \<le> t - t' \<or> 5 * kLeaderPingInterval \<le> t' - t"
      by (auto simp: kMinLeaderAwaitInterval_def)
    moreover have "T \<le> b + 4 * kLeaderPingInterval" "T' \<le> b' + 4 * kLeaderPingInterval"
      using q(1) q'(1) by (simp_all add: kMinLeaderAwaitInterval_def)
    ultimately have "kLeaderPingInterval \<le> T - T' \<or> kLeaderPingInterval \<le> T' - T" using p(3,4,7,8) by linarith
    then have "kLeaderPingInterval \<le> \<bar>T - T'\<bar>" by linarith
    then show ?thesis ..
  qed
qed

subsection \<open>Small rounds\<close>

text \<open>A round of a cluster of three in which the first other server votes and accepts the ping at once.\<close>

lemma quick_round:
  assumes "vd_term (vm_data v) = trm"
  shows "\<exists>s. el_run self False trm b (start_electing b v 2) [Suggested b 0 True self, Pinged b 0 True, Decided b True] s \<and>
    el_roundResult s = Some RoleLeader \<and> rd_routines (el_round s) = [Finished, Asking]"
proof -
  let ?R = "\<lambda>rs p1 p2. \<lparr>rd_routines = rs, rd_phase1 = p1, rd_phase2 = p2, rd_failed = 0, rd_waiting = []\<rparr>"
  let ?S = "\<lambda>rd. \<lparr>el_now = b, el_voting = v, el_round = rd, el_main = Waiting, el_roundResult = None\<rparr>"
  have nsuc: "Suc (Suc 0) = 2" by simp
  have r: "replicate 2 Asking = [Asking, Asking]" by (simp add: numeral_2_eq_2)
  have 0: "start_electing b v 2 = ?S (?R [Asking, Asking] 1 1)"
    by (simp add: start_electing_def start_round_def r)
  have 1: "el_step self False trm b (?S (?R [Asking, Asking] 1 1)) (Suggested b 0 True self) (?S (?R [Pinging, Asking] 2 1))"
    using el_step.suggested [of "?S (?R [Asking, Asking] 1 1)" b 0 self False trm b True self "\<lambda>_. False"]
    by (simp add: rd_suggested_def rd_resume_def rd_continue_def isConsensus_def GetConsensusForN_def set_routine_def Let_def
        nsuc)
  have 2: "el_step self False trm b (?S (?R [Pinging, Asking] 2 1)) (Pinged b 0 True) (?S (?R [Finished, Asking] 2 2))"
    using el_step.pinged [of "?S (?R [Pinging, Asking] 2 1)" b 0 self False trm b True]
    by (simp add: rd_pinged_def set_routine_def nsuc)
  have "end_as_leader trm b b v = (True, v\<lparr>vm_data := vm_data v\<lparr>vd_role := RoleLeader\<rparr>\<rparr>)"
    using assms by (simp add: end_as_leader_def vm_TryToSetLeaderRoleInTerm_def kMinLeaderAwaitInterval_def
        kLeaderPingInterval_def)
  then obtain s where 3: "el_step self False trm b (?S (?R [Finished, Asking] 2 2)) (Decided b True) s"
    "el_roundResult s = Some RoleLeader" "rd_routines (el_round s) = [Finished, Asking]"
    using el_step.decided [of "?S (?R [Finished, Asking] 2 2)" b trm b True _ self False]
    by (simp add: isConsensus_def GetConsensusForN_def)
  have "el_run self False trm b (start_electing b v 2) ((([] @ [Suggested b 0 True self]) @ [Pinged b 0 True]) @ [Decided b True]) s"
    unfolding 0 by (rule el_run.more [OF el_run.more [OF el_run.more [OF el_run.none 1] 2] 3(1)])
  then show ?thesis using 3(2,3) by auto
qed

theorem round_completes_witness:
  "\<exists>s. el_run 1 False 0 5 (start_electing 5 mk_VotingManager 2) [Suggested 5 0 True 1, Pinged 5 0 True, Decided 5 True] s \<and>
    length (filter is_answer [Suggested 5 0 True 1, Pinged 5 0 True, Decided 5 True]) \<le> 2 * 2"
proof -
  obtain s where s: "el_run 1 False 0 5 (start_electing 5 mk_VotingManager 2)
      [Suggested 5 0 True 1, Pinged 5 0 True, Decided 5 True] s"
    using quick_round [of mk_VotingManager 0 1 5] by (auto simp: mk_VotingManager_def)
  then show ?thesis using round_completes [OF s] by blast
qed

theorem leader_has_quorum_witness:
  "\<exists>tr1 T tr2. [Suggested 5 0 True 1, Pinged 5 0 True, Decided 5 True] = tr1 @ Decided T True # tr2 \<and>
    2 + 1 < 2 * (card (accepted tr1) + 1)"
proof -
  obtain s where s: "el_run 1 False 0 5 (start_electing 5 mk_VotingManager 2)
      [Suggested 5 0 True 1, Pinged 5 0 True, Decided 5 True] s" "el_roundResult s = Some RoleLeader"
    using quick_round [of mk_VotingManager 0 1 5] by (auto simp: mk_VotingManager_def)
  from leader_has_quorum [OF s] show ?thesis by blast
qed

lemma elected_quick:
  assumes "Ping b l True \<in> set (hist v)" "nd_serverId l = a" "S = {a, v, w}" "distinct [a, v, w]"
  shows "elected S hist a b b"
proof -
  obtain s where s: "el_run a False 0 b (start_electing b mk_VotingManager 2)
      [Suggested b 0 True a, Pinged b 0 True, Decided b True] s"
    using quick_round [of mk_VotingManager 0 a b] by (auto simp: mk_VotingManager_def)
  have two: "{..<2} = {0, Suc 0}" by auto
  have "S - {a} = {v, w}" using assms(3,4) by auto
  moreover have "bij_betw (\<lambda>i. if i = 0 then v else w) {0, Suc 0} {v, w}"
    using assms(4) by (auto simp: bij_betw_def inj_on_def)
  ultimately have "bij_betw (\<lambda>i. if i = 0 then v else w) {..<2 :: nat} (S - {a})" by (simp only: two)
  moreover have "\<exists>t' \<in> {b..b}. \<exists>l. Ping t' l True \<in> set (hist v) \<and> nd_serverId l = a"
    using assms(1,2) by (intro bexI [of _ b] exI [of _ l]) simp_all
  then have "\<forall>t i. Pinged t i True \<in> set [Suggested b 0 True a, Pinged b 0 True, Decided b True] \<longrightarrow>
      (\<exists>t' \<in> {b..t}. \<exists>l. Ping t' l True \<in> set (hist (if i = 0 then v else w)) \<and> nd_serverId l = a)"
    by simp
  moreover have "Decided b True \<in> set [Suggested b 0 True a, Pinged b 0 True, Decided b True]" by simp
  ultimately show ?thesis unfolding elected_def using s by blast
qed

theorem leaders_apart_witness:
  "let hist = (\<lambda>v. if v = 3 then [Ping (5 * 10 ^ 9) (cand 1 1) True, Ping (8 * 10 ^ 9) (cand 2 3) True] else []) in
    elected {1, 2, 3} hist 1 (5 * 10 ^ 9) (5 * 10 ^ 9) \<and> elected {1, 2, 3} hist 2 (8 * 10 ^ 9) (8 * 10 ^ 9) \<and>
    kLeaderPingInterval \<le> \<bar>5 * 10 ^ 9 - 8 * 10 ^ 9\<bar>"
proof -
  define hist where
    "hist v = (if v = 3 then [Ping (5 * 10 ^ 9) (cand 1 1) True, Ping (8 * 10 ^ 9) (cand 2 3) True] else [])" for v :: int
  have p: "Ping (5 * 10 ^ 9) (cand 1 1) True \<in> set (hist 3)" "Ping (8 * 10 ^ 9) (cand 2 3) True \<in> set (hist 3)"
    by (simp_all add: hist_def)
  have e: "elected {1, 2, 3} hist 1 (5 * 10 ^ 9) (5 * 10 ^ 9)"
    by (rule elected_quick [where hist = hist and v = 3 and w = 2, OF p(1)]) (auto simp: cand_def)
  have e': "elected {1, 2, 3} hist 2 (8 * 10 ^ 9) (8 * 10 ^ 9)"
    by (rule elected_quick [where hist = hist and v = 3 and w = 1, OF p(2)]) (auto simp: cand_def)
  note d = vm_LeadersPing_def GetNextLeaderId_expire Let_def mk_VotingManager_def cand_def leaderIsAvailable_def
    kMinLeaderAwaitInterval_def kLeaderPingInterval_def to_int16_id
  obtain v1 where "vm_LeadersPing (5 * 10 ^ 9) (5 * 10 ^ 9) (5 * 10 ^ 9) (cand 1 1) mk_VotingManager = (Inr (), v1)"
    and v1: "nl_id (vm_next v1) = -1" "vd_lastLeaderPingTs (vm_data v1) = 5 * 10 ^ 9" "vd_role (vm_data v1) = RoleNone"
    by (auto simp: d)
  from vm_step.ping [OF _ _ _ this(1), of "5 * 10 ^ 9" 3]
  have 1: "vm_step 3 (5 * 10 ^ 9, mk_VotingManager) (Ping (5 * 10 ^ 9) (cand 1 1) True) (5 * 10 ^ 9, v1)" by simp
  obtain v2 where "vm_LeadersPing (8 * 10 ^ 9) (8 * 10 ^ 9) (8 * 10 ^ 9) (cand 2 3) v1 = (Inr (), v2)"
    using v1 by (auto simp: d)
  from vm_step.ping [OF _ _ _ this, of "5 * 10 ^ 9" 3]
  have 2: "vm_step 3 (5 * 10 ^ 9, v1) (Ping (8 * 10 ^ 9) (cand 2 3) True) (8 * 10 ^ 9, v2)" by simp
  have "vm_run 3 (5 * 10 ^ 9, mk_VotingManager) (hist 3) (8 * 10 ^ 9, v2)"
    unfolding hist_def using 1 2 by (simp only: if_True refl vm_run_simps) blast
  moreover have "vm_run v (0, mk_VotingManager) (hist v) (0, mk_VotingManager)" if "v \<noteq> 3" for v
    using that by (simp add: hist_def)
  moreover have n: "- 1 \<le> nl_id (vm_next (snd (t, mk_VotingManager)))" for t :: int by (simp add: mk_VotingManager_def)
  ultimately have r: "\<exists>st st'. vm_run v st (hist v) st' \<and> - 1 \<le> nl_id (vm_next (snd st))" for v
    by (cases "v = 3") blast+
  have a: "\<not> accepts hist 1 2 (8 * 10 ^ 9) (8 * 10 ^ 9)" "\<not> accepts hist 2 1 (5 * 10 ^ 9) (5 * 10 ^ 9)"
    "\<forall>v \<in> {1, 2, 3}. \<forall>e \<in> set (hist v). \<not> is_SetDesired e"
    by (simp_all add: accepts_def hist_def is_SetDesired_def)
  have "kLeaderPingInterval \<le> \<bar>5 * 10 ^ 9 - 8 * 10 ^ 9\<bar> \<or> accepts hist 1 2 (8 * 10 ^ 9) (8 * 10 ^ 9) \<or>
      accepts hist 2 1 (5 * 10 ^ 9) (5 * 10 ^ 9)"
    by (rule leaders_apart [OF _ _ _ _ _ e e' _ a(3)]) (use r in \<open>blast | simp\<close>)+
  then have "kLeaderPingInterval \<le> \<bar>5 * 10 ^ 9 - 8 * 10 ^ 9\<bar>" using a(1,2) by blast
  then show ?thesis using e e' unfolding hist_def [abs_def] Let_def by blast
qed

subsection \<open>Names of roles\<close>

text \<open>\<open>cluster/config.cc\<close>\<close>

fun RoleToStr :: "raft_role \<Rightarrow> string" where
  "RoleToStr RoleNone = ''none''"
| "RoleToStr RoleLeader = ''leader''"
| "RoleToStr RoleCandidate = ''candidate''"
| "RoleToStr RoleFollower = ''follower''"

definition RoleFromStr :: "string \<Rightarrow> raft_role" where
  "RoleFromStr s =
     (if s = ''leader'' then RoleLeader
      else if s = ''candidate'' then RoleCandidate
      else if s = ''follower'' then RoleFollower
      else RoleNone)"

lemma RoleFromStr_RoleToStr [simp]: "RoleFromStr (RoleToStr r) = r"
  by (cases r) (simp_all add: RoleFromStr_def)

subsection \<open>The pings of one server\<close>

fun ping_turns :: "voting \<Rightarrow> error_code list \<Rightarrow> ping_routine \<Rightarrow> ping_routine option" where
  "ping_turns v [] p = Some p"
| "ping_turns v (c # cs) p = (case ping_turn False v c p of None \<Rightarrow> None | Some p \<Rightarrow> ping_turns v cs p)"

definition is_network_error :: "error_code \<Rightarrow> bool" where
  "is_network_error c \<longleftrightarrow> c = ErrTimeout \<or> c = ErrNetwork"

definition status_of :: "error_code \<Rightarrow> node_status" where
  "status_of c = (if c = ErrOK then Online else if is_network_error c then Offline else RaftError)"

text \<open>
  What is known after pings with the results \<open>cs\<close>: the server's state and the last status told are those of the last
  ping, and the callback was called with alternating values, starting from a reachable network, up to the last.
\<close>

definition ping_known :: "error_code list \<Rightarrow> ping_routine \<Rightarrow> bool" where
  "ping_known cs p \<longleftrightarrow>
     (if cs = [] then pr_isFirstPing p \<and> \<not> rn_hasNetworkError (pr_node p)
      else \<not> pr_isFirstPing p \<and> rn_isOk (pr_node p) = (last cs = ErrOK) \<and>
        rn_hasNetworkError (pr_node p) = is_network_error (last cs) \<and>
        pr_status p \<noteq> [] \<and> last (pr_status p) = status_of (last cs)) \<and>
     distinct_adj (True # map snd (pr_network p)) \<and>
     last (True # map snd (pr_network p)) = (\<not> rn_hasNetworkError (pr_node p))"

lemma ping_turn_leader:
  assumes "vd_role (vm_data v) = RoleLeader" "ping_known cs p"
  shows "\<exists>p'. ping_turn False v c p = Some p' \<and> ping_known (cs @ [c]) p'"
proof -
  let ?n = "pr_node p" and ?net = "is_network_error c"
  let ?p = "\<lparr>pr_node = ?n\<lparr>rn_isOk := (c = ErrOK), rn_hasNetworkError := ?net\<rparr>, pr_isFirstPing = False,
      pr_status = pr_status p @ [status_of c],
      pr_network = pr_network p @ (if ?net \<noteq> rn_hasNetworkError ?n then [(rn_uid ?n, \<not> ?net)] else [])\<rparr>"
  have t: "ping_turn False v c p =
      Some (if rn_isOk ?n \<noteq> (c = ErrOK) \<or> ?net \<noteq> rn_hasNetworkError ?n \<or> pr_isFirstPing p then ?p else p)"
    using assms(1) by (simp add: ping_turn_def Let_def is_network_error_def status_of_def)
  note k = assms(2) [unfolded ping_known_def]
  show ?thesis
  proof (cases "rn_isOk ?n \<noteq> (c = ErrOK) \<or> ?net \<noteq> rn_hasNetworkError ?n \<or> pr_isFirstPing p")
    case True
    have "distinct_adj (True # map snd (pr_network ?p)) \<and> last (True # map snd (pr_network ?p)) = (\<not> ?net)"
    proof (cases "?net = rn_hasNetworkError ?n")
      case False
      have "distinct_adj ((True # map snd (pr_network p)) @ [\<not> ?net])"
        using k False by (subst distinct_adj_append_iff) auto
      with False show ?thesis by simp
    qed (use k in simp)
    then have "ping_known (cs @ [c]) ?p" by (simp add: ping_known_def)
    with t True show ?thesis by simp
  next
    case False
    then have "cs \<noteq> []" using k by auto
    then have "ping_known (cs @ [c]) p"
      using k False by (auto simp: ping_known_def status_of_def is_network_error_def)
    with t False show ?thesis by simp
  qed
qed

text \<open>
  C29. The pings of a leader: as long as the server leads, the routine that pings another server goes on whatever
  errors the pings end with; the state of the other server and the status last reported are those of the last ping,
  and the callback reports exactly the changes between a reachable and an unreachable network, the last one included.
\<close>

theorem pings_reported:
  assumes "vd_role (vm_data v) = RoleLeader" "cs \<noteq> []"
    "p = \<lparr>pr_node = n\<lparr>rn_isOk := True, rn_hasNetworkError := False\<rparr>, pr_isFirstPing = True, pr_status = [], pr_network = []\<rparr>"
  shows "\<exists>p'. ping_turns v cs p = Some p' \<and> rn_isOk (pr_node p') = (last cs = ErrOK) \<and>
    rn_hasNetworkError (pr_node p') = is_network_error (last cs) \<and>
    pr_status p' \<noteq> [] \<and> last (pr_status p') = status_of (last cs) \<and>
    distinct_adj (True # map snd (pr_network p')) \<and>
    last (True # map snd (pr_network p')) = (\<not> is_network_error (last cs))"
proof -
  have "\<exists>p'. ping_turns v cs p = Some p' \<and> ping_known (ds @ cs) p'" if "ping_known ds p" for ds p
    using that
  proof (induction cs arbitrary: ds p)
    case (Cons c cs)
    obtain q where "ping_turn False v c p = Some q" "ping_known (ds @ [c]) q"
      using ping_turn_leader [OF assms(1) Cons.prems] by blast
    then show ?case using Cons.IH [of "ds @ [c]" q] by simp
  qed simp
  moreover have "ping_known [] p" by (simp add: ping_known_def assms(3))
  ultimately show ?thesis using assms(2) by (fastforce simp: ping_known_def)
qed

theorem pings_reported_witness:
  "\<exists>p'. ping_turns (mk_VotingManager\<lparr>vm_data := (vm_data mk_VotingManager)\<lparr>vd_role := RoleLeader\<rparr>\<rparr>) [ErrOK, ErrTimeout]
      \<lparr>pr_node = \<lparr>rn_serverId = 2, rn_uid = 0, rn_isOk = True, rn_hasNetworkError = False\<rparr>, pr_isFirstPing = True,
       pr_status = [], pr_network = []\<rparr> = Some p' \<and>
    rn_hasNetworkError (pr_node p') \<and> last (pr_status p') = Offline"
  using pings_reported [of "mk_VotingManager\<lparr>vm_data := (vm_data mk_VotingManager)\<lparr>vd_role := RoleLeader\<rparr>\<rparr>" "[ErrOK, ErrTimeout]" _
      "\<lparr>rn_serverId = 2, rn_uid = 0, rn_isOk = True, rn_hasNetworkError = False\<rparr>"]
  by (simp add: is_network_error_def status_of_def del: ping_turns.simps) blast

subsection \<open>Handing leadership over\<close>

text \<open>
  \<open>DesiredLeaderIdSender\<close>: \<open>startClients\<close> finds the target among the other servers (the last one with its
  number); then \<open>status\<close> and \<open>sent\<close> are the codes of the status request to the target and of the requests
  \<open>sendDesiredServerIdToNode\<close> (each a status request followed by the command). The result is a code.
\<close>

definition startClients :: "int \<Rightarrow> RaftNode list \<Rightarrow> nat" where
  "startClients nextLeaderId nodes =
     fold (\<lambda>i next. if rn_serverId (nodes ! i) = nextLeaderId then i else next) [0..<length nodes] (length nodes)"

definition sendDesiredServerIdToNode :: "error_code \<Rightarrow> error_code \<Rightarrow> error_code" where
  "sendDesiredServerIdToNode status command = (if status \<noteq> ErrOK then status else command)"

definition sender_Send :: "int \<Rightarrow> RaftNode list \<Rightarrow> (nat \<Rightarrow> error_code) \<Rightarrow> (nat \<Rightarrow> error_code) \<Rightarrow> error_code" where
  "sender_Send nextLeaderId nodes status sent =
     (let next = startClients nextLeaderId nodes; thisNodeIsNext = (next = length nodes) in
      if \<not> thisNodeIsNext \<and> status next \<noteq> ErrOK then status next
      else
        let okCount = 1 + length (filter (\<lambda>i. i \<noteq> next \<and> sent i = ErrOK) [0..<length nodes]) in
        if \<not> thisNodeIsNext \<and> sent next \<noteq> ErrOK then sent next
        else
          let okCount = (if \<not> thisNodeIsNext then okCount + 1 else okCount) in
          if okCount < GetConsensusForN (length nodes + 1) then ErrNetwork else ErrOK)"

definition rm_SendDesiredLeaderId :: "int \<Rightarrow> RaftManager \<Rightarrow> (nat \<Rightarrow> error_code) \<Rightarrow> (nat \<Rightarrow> error_code) \<Rightarrow> error_code" where
  "rm_SendDesiredLeaderId nextLeaderId r status sent = sender_Send nextLeaderId (rm_nodes r) status sent"

lemma startClients_found:
  assumes "i < length nodes" "rn_serverId (nodes ! i) = nextLeaderId"
  shows "startClients nextLeaderId nodes < length nodes \<and> rn_serverId (nodes ! startClients nextLeaderId nodes) = nextLeaderId"
proof -
  have *: "(\<exists>i \<in> set is. rn_serverId (nodes ! i) = nextLeaderId) \<or> x < length nodes \<and> rn_serverId (nodes ! x) = nextLeaderId \<Longrightarrow>
      set is \<subseteq> {..<length nodes} \<Longrightarrow>
      (let y = fold (\<lambda>i next. if rn_serverId (nodes ! i) = nextLeaderId then i else next) is x in
        y < length nodes \<and> rn_serverId (nodes ! y) = nextLeaderId)" for "is" x
    by (induction "is" arbitrary: x) (auto simp: Let_def)
  have "\<exists>i \<in> set [0..<length nodes]. rn_serverId (nodes ! i) = nextLeaderId" using assms by auto
  then show ?thesis
    using * [of "[0..<length nodes]" "length nodes"] unfolding startClients_def Let_def by (simp add: atLeast0LessThan)
qed

lemma startClients_none:
  "\<forall>n \<in> set nodes. rn_serverId n \<noteq> nextLeaderId \<Longrightarrow> startClients nextLeaderId nodes = length nodes"
proof -
  assume a: "\<forall>n \<in> set nodes. rn_serverId n \<noteq> nextLeaderId"
  have "set is \<subseteq> {..<length nodes} \<Longrightarrow>
      fold (\<lambda>i next. if rn_serverId (nodes ! i) = nextLeaderId then i else next) is x = x" for "is" x
    using a by (induction "is" arbitrary: x) auto
  from this [of "[0..<length nodes]"] show ?thesis by (simp add: startClients_def atLeast0LessThan)
qed

text \<open>
  C28. Handing leadership over succeeds exactly when the new leader, unless it is this server, is up and has
  taken the command, and more than half of the cluster, this server included, has taken it.
\<close>

theorem hand_over_quorum:
  "sender_Send nextLeaderId nodes status sent = ErrOK \<longleftrightarrow>
     (\<forall>i \<in> {startClients nextLeaderId nodes} \<inter> {..<length nodes}. status i = ErrOK \<and> sent i = ErrOK) \<and>
     length nodes + 1 < 2 * (1 + card {i. i < length nodes \<and> sent i = ErrOK}) \<and>
     (if nextLeaderId \<in> rn_serverId ` set nodes
      then startClients nextLeaderId nodes < length nodes \<and>
        rn_serverId (nodes ! startClients nextLeaderId nodes) = nextLeaderId
      else startClients nextLeaderId nodes = length nodes)"
proof -
  let ?n = "startClients nextLeaderId nodes" and ?A = "{i. i < length nodes \<and> sent i = ErrOK}"
  have s: "if nextLeaderId \<in> rn_serverId ` set nodes
      then ?n < length nodes \<and> rn_serverId (nodes ! ?n) = nextLeaderId else ?n = length nodes"
  proof (cases "nextLeaderId \<in> rn_serverId ` set nodes")
    case True
    then obtain i where "i < length nodes" "rn_serverId (nodes ! i) = nextLeaderId" by (auto simp: in_set_conv_nth)
    then show ?thesis using startClients_found True by simp
  next
    case False
    then show ?thesis using startClients_none [of nodes nextLeaderId] by auto
  qed
  have f: "finite ?A" by simp
  have "length (filter (\<lambda>i. i \<noteq> ?n \<and> sent i = ErrOK) [0..<length nodes]) =
      card (set (filter (\<lambda>i. i \<noteq> ?n \<and> sent i = ErrOK) [0..<length nodes]))"
    by (rule distinct_card [symmetric]) simp
  also have "set (filter (\<lambda>i. i \<noteq> ?n \<and> sent i = ErrOK) [0..<length nodes]) = ?A - {?n}" by auto
  finally have c: "length (filter (\<lambda>i. i \<noteq> ?n \<and> sent i = ErrOK) [0..<length nodes]) = card (?A - {?n})" .
  have q: "(1 + m < GetConsensusForN (length nodes + 1)) = (\<not> length nodes + 1 < 2 * (1 + m))" for m
    by (auto simp: GetConsensusForN_def)
  show ?thesis
  proof (cases "?n = length nodes")
    case True
    have "card (?A - {?n}) = card ?A" using True by (simp add: card_Diff_singleton_if)
    moreover have "nextLeaderId \<notin> rn_serverId ` set nodes" using s True by (auto split: if_splits)
    ultimately show ?thesis using True c q [of "card ?A"] by (simp add: sender_Send_def Let_def)
  next
    case False
    then have l: "?n < length nodes" using s by (auto split: if_splits)
    show ?thesis
    proof (cases "status ?n = ErrOK \<and> sent ?n = ErrOK")
      case True
      have "Suc (card (?A - {?n})) = card ?A" using True l by (intro card_Suc_Diff1 [OF f]) simp
      then show ?thesis using True l s c q [of "card ?A"] by (simp add: sender_Send_def Let_def)
    next
      case no: False
      then show ?thesis using l by (auto simp: sender_Send_def Let_def)
    qed
  qed
qed

theorem hand_over_quorum_witness:
  "sender_Send 2 [\<lparr>rn_serverId = 2, rn_uid = 0, rn_isOk = True, rn_hasNetworkError = False\<rparr>,
      \<lparr>rn_serverId = 3, rn_uid = 1, rn_isOk = True, rn_hasNetworkError = False\<rparr>] (\<lambda>_. ErrOK)
     (\<lambda>i. if i = 0 then ErrOK else ErrTimeout) = ErrOK"
proof -
  let ?nodes = "[\<lparr>rn_serverId = 2, rn_uid = 0, rn_isOk = True, rn_hasNetworkError = False\<rparr>,
      \<lparr>rn_serverId = 3, rn_uid = 1, rn_isOk = True, rn_hasNetworkError = False\<rparr>]"
  have n: "startClients 2 ?nodes = 0" by (simp add: startClients_def)
  have "{i. i < length ?nodes \<and> (if i = 0 then ErrOK else ErrTimeout) = ErrOK} = {0}" by auto
  then show ?thesis
    using hand_over_quorum [of 2 ?nodes "\<lambda>_. ErrOK" "\<lambda>i. if i = 0 then ErrOK else ErrTimeout"] n by simp
qed

end
