(* ===== verification/LruCache.thy ===== *)
theory LruCache
  imports Prelude "HOL-Library.AList"
begin

section \<open>The LRU cache\<close>

text \<open>
  \<open>core/lrucache.h\<close> and \<open>.cc\<close>: the cache of id sets, counts and join results. The hash map is an association
  list with distinct keys; an entry's position in the recency list is found by its key, which the list
  holds. The sizes of keys and values are methods of the template arguments, so they come as a parameter,
  as do the default value and the size of an entry. Operations run one at a time: each takes the mutex.
  Byte counts are 64-bit words and wrap as in the code; a hit count at the largest \<open>int\<close> is \<open>UB\<close> to increment.
\<close>

subsection \<open>State\<close>

record ('k, 'v) lru_sizes =
  key_Size :: "'k \<Rightarrow> u64"
  val_Size :: "'v \<Rightarrow> u64"
  entry_Size :: u64

record 'v lru_entry =
  le_val :: 'v
  le_hitCount :: int

record ('k, 'v) lru =
  lru_items :: "('k \<times> 'v lru_entry) list"
  lru_list :: "'k list"
  lru_total :: u64
  lru_limit :: u64
  lru_hitCountToCache :: u32
  lru_getCount :: u64
  lru_putCount :: u64
  lru_eraseCount :: u64

definition kElemSizeOverhead :: u64 where "kElemSizeOverhead = 256"
definition kMaxHitCountToCache :: u32 where "kMaxHitCountToCache = 1024"

definition mk_LRUCacheImpl :: "u64 \<Rightarrow> u32 \<Rightarrow> ('k, 'v) lru" where
  "mk_LRUCacheImpl sizeLimit hitCount =
     \<lparr>lru_items = [], lru_list = [], lru_total = 0, lru_limit = sizeLimit, lru_hitCountToCache = hitCount,
      lru_getCount = 0, lru_putCount = 0, lru_eraseCount = 0\<rparr>"

definition clearAll :: "('k, 'v) lru \<Rightarrow> ('k, 'v) lru" where
  "clearAll c = c\<lparr>lru_total := 0, lru_items := [], lru_list := [], lru_getCount := 0, lru_putCount := 0, lru_eraseCount := 0\<rparr>"

subsection \<open>Operations\<close>

definition lru_oldSize :: "('k, 'v) lru_sizes \<Rightarrow> 'k \<Rightarrow> 'v lru_entry \<Rightarrow> u64" where
  "lru_oldSize sz k e = entry_Size sz + kElemSizeOverhead + key_Size sz k + val_Size sz (le_val e)"

function eraseLRU :: "('k, 'v) lru_sizes \<Rightarrow> ('k, 'v) lru \<Rightarrow> (bool \<times> ('k, 'v) lru) res" where
  "eraseLRU sz c =
     (if lru_total c > lru_limit c then
        (case lru_list c of
           [] \<Rightarrow> Inr (False, clearAll c)
         | k # ks \<Rightarrow>
             (case map_of (lru_items c) k of
                None \<Rightarrow> Inl (Err ErrAssert)
              | Some e \<Rightarrow>
                  if lru_oldSize sz k e > lru_total c then Inr (False, clearAll c)
                  else eraseLRU sz (c\<lparr>lru_total := lru_total c - lru_oldSize sz k e,
                         lru_items := AList.delete k (lru_items c), lru_list := ks,
                         lru_eraseCount := lru_eraseCount c + 1\<rparr>)))
      else Inr (lru_list c \<noteq> [], c))"
  by pat_completeness auto

termination by (relation "measure (\<lambda>(sz, c). length (lru_list c))") auto

declare eraseLRU.simps [simp del]

text \<open>The end of \<open>Get\<close>: counting the hit on the entry found or made.\<close>

definition lru_hit :: "'v \<Rightarrow> ('k, 'v) lru \<Rightarrow> 'k \<Rightarrow> ((bool \<times> 'v) \<times> ('k, 'v) lru) res" where
  "lru_hit vdefault c key =
     (case map_of (lru_items c) key of
        None \<Rightarrow> Inl UB
      | Some e \<Rightarrow>
          if le_hitCount e = 2 ^ 31 - 1 then Inl UB
          else
            let c' = c\<lparr>lru_items := AList.update key (e\<lparr>le_hitCount := le_hitCount e + 1\<rparr>) (lru_items c)\<rparr> in
            if le_hitCount e + 1 < sint (lru_hitCountToCache c) then Inr ((False, vdefault), c')
            else Inr ((True, le_val e), c'\<lparr>lru_getCount := lru_getCount c' + 1\<rparr>))"

definition lru_Get ::
    "('k, 'v) lru_sizes \<Rightarrow> 'v \<Rightarrow> ('k, 'v) lru \<Rightarrow> 'k \<Rightarrow> ((bool \<times> 'v) \<times> ('k, 'v) lru) res" where
  "lru_Get sz vdefault c key =
     (if lru_limit c = 0 then Inr ((False, vdefault), c)
      else
        case map_of (lru_items c) key of
          None \<Rightarrow>
            bind_res (eraseLRU sz (c\<lparr>lru_items := AList.update key \<lparr>le_val = vdefault, le_hitCount = 0\<rparr> (lru_items c),
                lru_total := lru_total c + (kElemSizeOverhead + entry_Size sz + key_Size sz key),
                lru_list := lru_list c @ [key]\<rparr>)) (\<lambda>(ok, c).
            if \<not> ok then Inr ((False, vdefault), c) else lru_hit vdefault c key)
        | Some e \<Rightarrow>
            lru_hit vdefault
              (if lru_list c \<noteq> [] \<and> last (lru_list c) = key then c
               else c\<lparr>lru_list := remove1 key (lru_list c) @ [key]\<rparr>) key)"

definition lru_Put :: "('k, 'v) lru_sizes \<Rightarrow> ('k, 'v) lru \<Rightarrow> 'k \<Rightarrow> 'v \<Rightarrow> ('k, 'v) lru res" where
  "lru_Put sz c key v =
     (if lru_limit c = 0 then Inr c
      else
        case map_of (lru_items c) key of
          None \<Rightarrow> Inr c
        | Some e \<Rightarrow>
            bind_res (eraseLRU sz (c\<lparr>lru_total := lru_total c + (val_Size sz v - val_Size sz (le_val e)),
                lru_items := AList.update key (e\<lparr>le_val := v\<rparr>) (lru_items c),
                lru_putCount := lru_putCount c + 1\<rparr>)) (\<lambda>(_, c).
            if lru_putCount c * 16 > lru_getCount c \<and> lru_eraseCount c \<noteq> 0 then
              Inr (c\<lparr>lru_eraseCount := 0,
                lru_hitCountToCache :=
                  (if lru_hitCountToCache c \<noteq> 0 then min (lru_hitCountToCache c * 2) kMaxHitCountToCache else 2),
                lru_putCount := 0, lru_getCount := 0\<rparr>)
            else Inr c))"

definition lru_Clear :: "('k, 'v) lru \<Rightarrow> ('k, 'v) lru" where
  "lru_Clear c = clearAll c"

record LRUCacheMemStat =
  totalSize :: u64
  itemsCount :: nat
  emptyCount :: nat
  hitCountLimit :: u64

definition lru_GetMemStat :: "('k, 'v) lru \<Rightarrow> LRUCacheMemStat" where
  "lru_GetMemStat c = \<lparr>totalSize = lru_total c, itemsCount = length (lru_items c), emptyCount = 0,
     hitCountLimit = ucast (lru_hitCountToCache c)\<rparr>"

subsection \<open>The cache with its statistics\<close>

text \<open>\<open>LRUCache\<close>: the cache may be absent; \<open>initialized\<close> is \<open>IsInitialized\<close> of the value type.\<close>

record ('k, 'v) lru_cache =
  lc_ptr :: "('k, 'v) lru option"
  lc_hits :: u64
  lc_misses :: u64

datatype perf_state = PS_DoesNotExist | PS_Active | PS_Inactive

definition lc_Get ::
    "('k, 'v) lru_sizes \<Rightarrow> ('v \<Rightarrow> bool) \<Rightarrow> 'v \<Rightarrow> ('k, 'v) lru_cache \<Rightarrow> 'k \<Rightarrow>
     ((bool \<times> 'v) \<times> ('k, 'v) lru_cache) res" where
  "lc_Get sz initialized vdefault c key =
     (case lc_ptr c of
        None \<Rightarrow> Inr ((False, vdefault), c)
      | Some p \<Rightarrow>
          bind_res (lru_Get sz vdefault p key) (\<lambda>((valid, val), p).
          let c = c\<lparr>lc_ptr := Some p\<rparr> in
          if valid \<and> initialized val then Inr ((valid, val), c\<lparr>lc_hits := lc_hits c + 1\<rparr>)
          else Inr ((valid, val), c\<lparr>lc_misses := lc_misses c + 1\<rparr>)))"

definition lc_Put :: "('k, 'v) lru_sizes \<Rightarrow> ('k, 'v) lru_cache \<Rightarrow> 'k \<Rightarrow> 'v \<Rightarrow> ('k, 'v) lru_cache res" where
  "lc_Put sz c key v =
     (case lc_ptr c of
        None \<Rightarrow> Inr c
      | Some p \<Rightarrow> bind_res (lru_Put sz p key v) (\<lambda>p. Inr (c\<lparr>lc_ptr := Some p\<rparr>)))"

definition lc_GetMemStat :: "('k, 'v) lru_cache \<Rightarrow> LRUCacheMemStat" where
  "lc_GetMemStat c =
     (case lc_ptr c of
        Some p \<Rightarrow> lru_GetMemStat p
      | None \<Rightarrow> \<lparr>totalSize = 0, itemsCount = 0, emptyCount = 0, hitCountLimit = 0\<rparr>)"

definition lc_GetPerfStat :: "('k, 'v) lru_cache \<Rightarrow> perf_state \<times> u64 \<times> u64" where
  "lc_GetPerfStat c = (if lc_ptr c \<noteq> None then PS_Active else PS_Inactive, lc_hits c, lc_misses c)"

definition lc_ResetPerfStat :: "('k, 'v) lru_cache \<Rightarrow> ('k, 'v) lru_cache" where
  "lc_ResetPerfStat c = c\<lparr>lc_hits := 0, lc_misses := 0\<rparr>"

definition lc_Clear :: "('k, 'v) lru_cache \<Rightarrow> ('k, 'v) lru_cache" where
  "lc_Clear c = (case lc_ptr c of None \<Rightarrow> c | Some p \<Rightarrow> c\<lparr>lc_ptr := Some (lru_Clear p)\<rparr>)"

definition lc_ResetImpl :: "('k, 'v) lru_cache \<Rightarrow> ('k, 'v) lru_cache" where
  "lc_ResetImpl c = c\<lparr>lc_ptr := None\<rparr>"

definition lc_Reinitialize :: "('k, 'v) lru_cache \<Rightarrow> u64 \<Rightarrow> u32 \<Rightarrow> ('k, 'v) lru_cache" where
  "lc_Reinitialize c sizeLimit hitCount = c\<lparr>lc_ptr := Some (mk_LRUCacheImpl sizeLimit hitCount)\<rparr>"

definition lc_IsActive :: "('k, 'v) lru_cache \<Rightarrow> bool" where
  "lc_IsActive c \<longleftrightarrow> lc_ptr c \<noteq> None"

definition lc_CopyInternalPerfStatsFrom :: "('k, 'v) lru_cache \<Rightarrow> ('k, 'v) lru_cache \<Rightarrow> ('k, 'v) lru_cache" where
  "lc_CopyInternalPerfStatsFrom c o' = c\<lparr>lc_hits := lc_hits o', lc_misses := lc_misses o'\<rparr>"

subsection \<open>Invariant\<close>

text \<open>What the keys of a list occupy, without wrapping.\<close>

definition lru_cost :: "('k, 'v) lru_sizes \<Rightarrow> ('k \<rightharpoonup> 'v lru_entry) \<Rightarrow> 'k \<Rightarrow> nat" where
  "lru_cost sz m k = 256 + unat (entry_Size sz) + unat (key_Size sz k) + unat (val_Size sz (le_val (the (m k))))"

definition lru_costs :: "('k, 'v) lru_sizes \<Rightarrow> ('k \<rightharpoonup> 'v lru_entry) \<Rightarrow> 'k list \<Rightarrow> nat" where
  "lru_costs sz m ks = sum_list (map (lru_cost sz m) ks)"

text \<open>The map and the list hold the same keys, once each, and the byte count is what they occupy.\<close>

definition lru_inv :: "('k, 'v) lru_sizes \<Rightarrow> ('k, 'v) lru \<Rightarrow> bool" where
  "lru_inv sz c \<longleftrightarrow> distinct (map fst (lru_items c)) \<and> distinct (lru_list c) \<and>
     set (lru_list c) = fst ` set (lru_items c) \<and>
     unat (lru_total c) = lru_costs sz (map_of (lru_items c)) (lru_list c)"

lemma lru_costs_simps [simp]:
  "lru_costs sz m [] = 0"
  "lru_costs sz m (k # ks) = lru_cost sz m k + lru_costs sz m ks"
  "lru_costs sz m (ks @ ks') = lru_costs sz m ks + lru_costs sz m ks'"
  by (simp_all add: lru_costs_def)

lemma lru_costs_cong:
  "(\<And>k. k \<in> set ks \<Longrightarrow> le_val (the (m k)) = le_val (the (m' k))) \<Longrightarrow>
    lru_costs sz m ks = lru_costs sz m' ks"
  unfolding lru_costs_def by (rule arg_cong [where f = sum_list], rule map_cong) (auto simp: lru_cost_def)

lemma lru_costs_remove1: "k \<in> set ks \<Longrightarrow> lru_costs sz m ks = lru_cost sz m k + lru_costs sz m (remove1 k ks)"
  by (induction ks) auto

lemma unat_plus_small:
  fixes a b :: u64
  shows "unat a + unat b < 2 ^ 64 \<Longrightarrow> unat (a + b) = unat a + unat b"
  by (simp add: unat_word_ariths)

lemma unat_minus_le:
  fixes a b :: u64
  shows "unat b \<le> unat a \<Longrightarrow> unat (a - b) = unat a - unat b"
  by (simp add: unat_sub word_le_nat_alt)

lemma unat_u64_less: "unat (a :: u64) < 2 ^ 64"
  using unsigned_less [of a, where 'a = nat] by simp

lemma lru_oldSize_cost:
  assumes "m k = Some e" "lru_cost sz m k < 2 ^ 64"
  shows "unat (lru_oldSize sz k e) = lru_cost sz m k"
proof -
  have o: "unat kElemSizeOverhead = 256" by (simp add: kElemSizeOverhead_def)
  have c: "lru_cost sz m k = unat (entry_Size sz) + 256 + unat (key_Size sz k) + unat (val_Size sz (le_val e))"
    using assms(1) by (simp add: lru_cost_def)
  have 1: "unat (entry_Size sz + kElemSizeOverhead) = unat (entry_Size sz) + 256"
    using assms(2) c o by (subst unat_plus_small) simp_all
  have 2: "unat (entry_Size sz + kElemSizeOverhead + key_Size sz k) = unat (entry_Size sz) + 256 + unat (key_Size sz k)"
    using assms(2) c 1 by (subst unat_plus_small) simp_all
  show ?thesis unfolding lru_oldSize_def using assms(2) c 2 by (subst unat_plus_small) simp_all
qed

subsection \<open>Eviction\<close>

text \<open>
  What eviction leaves: the recency list without its \<open>n\<close> oldest keys, \<open>n\<close> the smallest number that fits
  the limit, the entries of the keys that stay, and everything else but the counters.
\<close>

definition evicted :: "('k, 'v) lru_sizes \<Rightarrow> ('k, 'v) lru \<Rightarrow> nat \<Rightarrow> ('k, 'v) lru \<Rightarrow> bool" where
  "evicted sz c n c' \<longleftrightarrow> n \<le> length (lru_list c) \<and> lru_list c' = drop n (lru_list c) \<and>
     (\<forall>k. map_of (lru_items c') k = (if k \<in> set (drop n (lru_list c)) then map_of (lru_items c) k else None)) \<and>
     lru_total c' \<le> lru_limit c \<and>
     (\<forall>m < n. unat (lru_limit c) < lru_costs sz (map_of (lru_items c)) (drop m (lru_list c))) \<and>
     lru_limit c' = lru_limit c \<and> lru_hitCountToCache c' = lru_hitCountToCache c \<and>
     lru_getCount c' = lru_getCount c \<and> lru_putCount c' = lru_putCount c"

lemma eraseLRU_spec:
  "lru_inv sz c \<Longrightarrow> \<exists>n c'. eraseLRU sz c = Inr (lru_list c' \<noteq> [], c') \<and> lru_inv sz c' \<and> evicted sz c n c'"
proof (induction "lru_list c" arbitrary: c)
  case Nil
  have dom: "map_of (lru_items c) k = None" for k
    using Nil by (auto simp: lru_inv_def map_of_eq_None_iff)
  have "unat (lru_total c) = 0" using Nil by (auto simp: lru_inv_def)
  then have "\<not> lru_total c > lru_limit c" by (simp add: word_less_nat_alt)
  then have "eraseLRU sz c = Inr (False, c)" using Nil(1) by (subst eraseLRU.simps) simp
  then show ?case using Nil dom \<open>\<not> lru_total c > lru_limit c\<close>
    by (intro exI [of _ 0] exI [of _ c]) (auto simp: evicted_def)
next
  case (Cons k ks)
  let ?m = "map_of (lru_items c)"
  have l: "lru_list c = k # ks" using Cons.hyps(2) by simp
  have i: "distinct (map fst (lru_items c))" "k \<notin> set ks" "distinct ks" "insert k (set ks) = fst ` set (lru_items c)"
    "unat (lru_total c) = lru_cost sz ?m k + lru_costs sz ?m ks"
    using Cons.prems by (simp_all add: lru_inv_def l)
  have dom: "?m j = None \<longleftrightarrow> j \<notin> insert k (set ks)" for j
    using i(4) by (metis map_of_eq_None_iff)
  show ?case
  proof (cases "lru_total c > lru_limit c")
    case False
    then have "eraseLRU sz c = Inr (True, c)" using l by (subst eraseLRU.simps) simp
    moreover have "evicted sz c 0 c" using False dom by (auto simp: evicted_def l)
    ultimately show ?thesis using Cons.prems l by (intro exI [of _ 0] exI [of _ c]) simp
  next
    case True
    obtain e where e: "?m k = Some e" using dom [of k] by auto
    have "lru_cost sz ?m k < 2 ^ 64" using i(5) unat_u64_less [of "lru_total c"] by linarith
    note old = lru_oldSize_cost [OF e this]
    let ?c = "c\<lparr>lru_total := lru_total c - lru_oldSize sz k e, lru_items := AList.delete k (lru_items c),
      lru_list := ks, lru_eraseCount := lru_eraseCount c + 1\<rparr>"
    have "unat (lru_oldSize sz k e) \<le> unat (lru_total c)" using i(5) old by simp
    then have le: "\<not> lru_oldSize sz k e > lru_total c" "unat (lru_total c - lru_oldSize sz k e) = lru_costs sz ?m ks"
      using i(5) old by (simp_all add: word_less_nat_alt unat_minus_le)
    have step: "eraseLRU sz c = eraseLRU sz ?c"
      using True l e le(1) by (subst eraseLRU.simps) simp
    have m': "map_of (AList.delete k (lru_items c)) = ?m(k := None)" by (simp add: delete_conv')
    have cost': "lru_costs sz (?m(k := None)) ks' = lru_costs sz ?m ks'" if "set ks' \<subseteq> set ks" for ks'
      using that i(2) by (intro lru_costs_cong) auto
    have "fst ` set (AList.delete k (lru_items c)) = fst ` set (lru_items c) - {k}"
      using arg_cong [OF delete_keys [of k "lru_items c"], of set] by simp
    then have "lru_inv sz ?c"
      using i cost' le(2) by (auto simp: lru_inv_def m' distinct_delete)
    from Cons.hyps(1) [OF _ this] obtain n c' where IH: "eraseLRU sz ?c = Inr (lru_list c' \<noteq> [], c')" "lru_inv sz c'"
      "evicted sz ?c n c'" by auto
    have sub: "set (drop n ks) \<subseteq> set ks" for n by (rule set_drop_subset)
    have "evicted sz c (Suc n) c'"
    proof -
      have "unat (lru_limit c) < lru_costs sz ?m (drop m (k # ks))" if "m < Suc n" for m
      proof (cases m)
        case 0 then show ?thesis using True i(5) by (simp add: word_less_nat_alt)
      next
        case (Suc m')
        then show ?thesis using IH(3) that cost' [OF sub] by (auto simp: evicted_def m')
      qed
      moreover have "k \<notin> set (drop n ks)" using i(2) sub by blast
      ultimately show ?thesis using IH(3) unfolding evicted_def by (auto simp: l m')
    qed
    then show ?thesis using step IH(1,2) by auto
  qed
qed

text \<open>Touching the entry of a present key keeps the invariant, whatever its hit count becomes.\<close>

lemma map_of_update [simp]: "map_of (AList.update k v al) = (map_of al)(k \<mapsto> v)"
  by (rule update_conv')

lemma update_keys_present: "map_of al k \<noteq> None \<Longrightarrow> map fst (AList.update k v al) = map fst al"
  by (auto simp: AList.update_keys map_of_eq_None_iff)

lemma lru_inv_present:
  assumes "lru_inv sz c"
  shows "k \<in> set (lru_list c) \<longleftrightarrow> map_of (lru_items c) k \<noteq> None"
  using assms by (auto simp: lru_inv_def map_of_eq_None_iff)

lemma lru_inv_update:
  assumes "lru_inv sz c" "map_of (lru_items c) k = Some e"
    "unat tot + unat (val_Size sz (le_val e)) = unat (lru_total c) + unat (val_Size sz (le_val e'))"
  shows "lru_inv sz (c\<lparr>lru_items := AList.update k e' (lru_items c), lru_total := tot\<rparr>)"
proof -
  let ?m = "map_of (lru_items c)"
  have k: "k \<in> set (lru_list c)" using lru_inv_present [OF assms(1)] assms(2) by simp
  have i: "distinct (map fst (lru_items c))" "distinct (lru_list c)" "set (lru_list c) = fst ` set (lru_items c)"
    "unat (lru_total c) = lru_costs sz ?m (lru_list c)" using assms(1) by (simp_all add: lru_inv_def)
  have keys: "map fst (AList.update k e' (lru_items c)) = map fst (lru_items c)"
    by (rule update_keys_present) (simp add: assms(2))
  have rest: "lru_costs sz (?m(k \<mapsto> e')) (remove1 k (lru_list c)) = lru_costs sz ?m (remove1 k (lru_list c))"
    using i(2) by (intro lru_costs_cong) auto
  have "lru_cost sz (?m(k \<mapsto> e')) k + unat (val_Size sz (le_val e)) = lru_cost sz ?m k + unat (val_Size sz (le_val e'))"
    using assms(2) by (simp add: lru_cost_def)
  then have "unat tot = lru_costs sz (?m(k \<mapsto> e')) (lru_list c)"
    using assms(3) i(4) rest lru_costs_remove1 [OF k, of sz ?m] lru_costs_remove1 [OF k, of sz "?m(k \<mapsto> e')"] by simp
  moreover have "fst ` set (AList.update k e' (lru_items c)) = fst ` set (lru_items c)"
    using arg_cong [OF keys, of set] by simp
  ultimately show ?thesis using i keys by (simp add: lru_inv_def)
qed

text \<open>The two ways an operation's state differs from the one it started with.\<close>

lemma lru_hit_spec:
  assumes "lru_inv sz c" "map_of (lru_items c) k = Some e" "le_hitCount e < 2 ^ 31 - 1"
  obtains c' where
    "lru_hit vdefault c k =
       Inr (if le_hitCount e + 1 < sint (lru_hitCountToCache c) then (False, vdefault) else (True, le_val e), c')"
    "lru_inv sz c'" "lru_list c' = lru_list c" "lru_total c' = lru_total c" "lru_limit c' = lru_limit c"
    "map_of (lru_items c') = (map_of (lru_items c))(k \<mapsto> e\<lparr>le_hitCount := le_hitCount e + 1\<rparr>)"
proof -
  let ?c = "c\<lparr>lru_items := AList.update k (e\<lparr>le_hitCount := le_hitCount e + 1\<rparr>) (lru_items c)\<rparr>"
  have "lru_inv sz (c\<lparr>lru_items := AList.update k (e\<lparr>le_hitCount := le_hitCount e + 1\<rparr>) (lru_items c),
      lru_total := lru_total c\<rparr>)"
    by (rule lru_inv_update [OF assms(1,2)]) simp
  then have i: "lru_inv sz ?c" "lru_inv sz (?c\<lparr>lru_getCount := g\<rparr>)" for g by (simp_all add: lru_inv_def)
  show ?thesis
  proof (cases "le_hitCount e + 1 < sint (lru_hitCountToCache c)")
    case True
    then show ?thesis using assms i(1) by (intro that [of ?c]) (simp_all add: lru_hit_def Let_def)
  next
    case False
    then show ?thesis using assms i(2)
      by (intro that [of "?c\<lparr>lru_getCount := lru_getCount ?c + 1\<rparr>"]) (simp_all add: lru_hit_def Let_def)
  qed
qed

lemma lru_inv_insert:
  assumes "lru_inv sz c" "map_of (lru_items c) k = None" "val_Size sz (le_val e) = 0"
    "unat (lru_total c) + (256 + unat (entry_Size sz) + unat (key_Size sz k)) < 2 ^ 64"
  shows "lru_inv sz (c\<lparr>lru_items := AList.update k e (lru_items c),
      lru_total := lru_total c + (kElemSizeOverhead + entry_Size sz + key_Size sz k), lru_list := lru_list c @ [k]\<rparr>)"
    "unat (lru_total c + (kElemSizeOverhead + entry_Size sz + key_Size sz k)) =
       unat (lru_total c) + (256 + unat (entry_Size sz) + unat (key_Size sz k))"
proof -
  let ?m = "map_of (lru_items c)"
  have k: "k \<notin> set (lru_list c)" using lru_inv_present [OF assms(1)] assms(2) by simp
  have i: "distinct (map fst (lru_items c))" "distinct (lru_list c)" "set (lru_list c) = fst ` set (lru_items c)"
    "unat (lru_total c) = lru_costs sz ?m (lru_list c)" using assms(1) by (simp_all add: lru_inv_def)
  have o: "unat kElemSizeOverhead = 256" by (simp add: kElemSizeOverhead_def)
  have 1: "unat (kElemSizeOverhead + entry_Size sz) = 256 + unat (entry_Size sz)"
    using assms(4) o by (subst unat_plus_small) simp_all
  have 2: "unat (kElemSizeOverhead + entry_Size sz + key_Size sz k) = 256 + unat (entry_Size sz) + unat (key_Size sz k)"
    using assms(4) 1 by (subst unat_plus_small) simp_all
  show 3: "unat (lru_total c + (kElemSizeOverhead + entry_Size sz + key_Size sz k)) =
       unat (lru_total c) + (256 + unat (entry_Size sz) + unat (key_Size sz k))"
    using assms(4) 2 by (subst unat_plus_small) simp_all
  have "k \<notin> fst ` set (lru_items c)" using assms(2) by (simp add: map_of_eq_None_iff)
  then have keys: "map fst (AList.update k e (lru_items c)) = map fst (lru_items c) @ [k]"
    by (simp add: AList.update_keys)
  have "fst ` set (AList.update k e (lru_items c)) = insert k (fst ` set (lru_items c))"
    using arg_cong [OF keys, of set] by simp
  moreover have "lru_costs sz (?m(k \<mapsto> e)) (lru_list c) = lru_costs sz ?m (lru_list c)"
    using k by (intro lru_costs_cong) auto
  moreover have "lru_cost sz (?m(k \<mapsto> e)) k = 256 + unat (entry_Size sz) + unat (key_Size sz k)"
    using assms(3) by (simp add: lru_cost_def)
  ultimately show "lru_inv sz (c\<lparr>lru_items := AList.update k e (lru_items c),
      lru_total := lru_total c + (kElemSizeOverhead + entry_Size sz + key_Size sz k), lru_list := lru_list c @ [k]\<rparr>)"
    using i k keys 3 by (simp add: lru_inv_def)
qed

lemma lru_inv_move:
  assumes "lru_inv sz c" "k \<in> set (lru_list c)"
  shows "lru_inv sz (c\<lparr>lru_list := remove1 k (lru_list c) @ [k]\<rparr>)"
  using assms lru_costs_remove1 [OF assms(2), of sz "map_of (lru_items c)"]
  by (auto simp: lru_inv_def)

lemma remove1_last: "distinct xs \<Longrightarrow> xs \<noteq> [] \<Longrightarrow> last xs = k \<Longrightarrow> remove1 k xs @ [k] = xs"
  by (induction xs rule: rev_induct) (auto simp: remove1_append)

text \<open>Fitting the limit: \<open>ks'\<close> is \<open>ks\<close> without the fewest oldest keys that makes it fit.\<close>

definition lru_trimmed :: "('k, 'v) lru_sizes \<Rightarrow> ('k \<rightharpoonup> 'v lru_entry) \<Rightarrow> u64 \<Rightarrow> 'k list \<Rightarrow> 'k list \<Rightarrow> bool" where
  "lru_trimmed sz m limit ks ks' \<longleftrightarrow>
     (\<exists>n \<le> length ks. ks' = drop n ks \<and> lru_costs sz m ks' \<le> unat limit \<and>
        (\<forall>i < n. unat limit < lru_costs sz m (drop i ks)))"

lemma evicted_trimmed:
  assumes "evicted sz c n c'" "lru_inv sz c'"
  shows "lru_trimmed sz (map_of (lru_items c)) (lru_limit c) (lru_list c) (lru_list c')"
    "k \<in> set (lru_list c') \<Longrightarrow> map_of (lru_items c') k = map_of (lru_items c) k"
proof -
  have ks: "lru_list c' = drop n (lru_list c)" "n \<le> length (lru_list c)" using assms(1) by (simp_all add: evicted_def)
  show m: "map_of (lru_items c') k = map_of (lru_items c) k" if "k \<in> set (lru_list c')" for k
    using assms(1) that by (simp add: evicted_def)
  have "lru_costs sz (map_of (lru_items c')) (lru_list c') = lru_costs sz (map_of (lru_items c)) (lru_list c')"
    by (rule lru_costs_cong) (simp add: m)
  moreover have "unat (lru_total c') \<le> unat (lru_limit c)" using assms(1) by (simp add: evicted_def word_le_nat_alt)
  ultimately have "lru_costs sz (map_of (lru_items c)) (lru_list c') \<le> unat (lru_limit c)"
    using assms(2) by (simp add: lru_inv_def)
  then show "lru_trimmed sz (map_of (lru_items c)) (lru_limit c) (lru_list c) (lru_list c')"
    unfolding lru_trimmed_def using assms(1) ks by (auto simp: evicted_def)
qed

text \<open>
  C6. Looking a key up. On a consistent cache with a non-zero limit \<open>Get\<close> never fails and keeps it
  consistent. A key that is present becomes the most recent one and its hit is counted; its value is
  returned once the hit count reaches the threshold. An absent key gets an empty entry as the most recent
  one, and then exactly as many of the oldest entries are dropped as the limit requires, the new one last;
  the entries that stay are unchanged.
\<close>

theorem lru_get_correct:
  assumes "lru_inv sz c" "lru_limit c \<noteq> 0" "val_Size sz vdefault = 0"
    "unat (lru_total c) + (256 + unat (entry_Size sz) + unat (key_Size sz key)) < 2 ^ 64"
    "\<forall>e. map_of (lru_items c) key = Some e \<longrightarrow> le_hitCount e < 2 ^ 31 - 1"
  shows "\<exists>r c'. lru_Get sz vdefault c key = Inr (r, c') \<and> lru_inv sz c' \<and> lru_limit c' = lru_limit c \<and>
    (case map_of (lru_items c) key of
       Some e \<Rightarrow>
         r = (if le_hitCount e + 1 < sint (lru_hitCountToCache c) then (False, vdefault) else (True, le_val e)) \<and>
         lru_list c' = remove1 key (lru_list c) @ [key] \<and>
         map_of (lru_items c') = (map_of (lru_items c))(key \<mapsto> e\<lparr>le_hitCount := le_hitCount e + 1\<rparr>)
     | None \<Rightarrow>
         let m = (map_of (lru_items c))(key \<mapsto> \<lparr>le_val = vdefault, le_hitCount = 0\<rparr>) in
         snd r = vdefault \<and> lru_trimmed sz m (lru_limit c) (lru_list c @ [key]) (lru_list c') \<and>
         (\<forall>k \<in> set (lru_list c') - {key}. map_of (lru_items c') k = map_of (lru_items c) k))"
proof (cases "map_of (lru_items c) key")
  case (Some e)
  have k: "key \<in> set (lru_list c)" using lru_inv_present [OF assms(1)] Some by simp
  have d: "distinct (lru_list c)" using assms(1) by (simp add: lru_inv_def)
  let ?c = "if lru_list c \<noteq> [] \<and> last (lru_list c) = key then c else c\<lparr>lru_list := remove1 key (lru_list c) @ [key]\<rparr>"
  have c: "lru_inv sz ?c" "lru_list ?c = remove1 key (lru_list c) @ [key]" "lru_items ?c = lru_items c"
    "lru_hitCountToCache ?c = lru_hitCountToCache c" "lru_limit ?c = lru_limit c"
    using assms(1) lru_inv_move [OF assms(1) k] remove1_last [OF d, of key] by auto
  from lru_hit_spec [OF c(1), of key e vdefault] Some assms(5) c(3-5) obtain c' where
    "lru_hit vdefault ?c key =
       Inr (if le_hitCount e + 1 < sint (lru_hitCountToCache c) then (False, vdefault) else (True, le_val e), c')"
    "lru_inv sz c'" "lru_list c' = lru_list ?c" "lru_limit c' = lru_limit c"
    "map_of (lru_items c') = (map_of (lru_items c))(key \<mapsto> e\<lparr>le_hitCount := le_hitCount e + 1\<rparr>)"
    by auto
  then show ?thesis using assms(2) Some c(2) by (simp add: lru_Get_def)
next
  case None
  let ?e = "\<lparr>le_val = vdefault, le_hitCount = 0\<rparr>"
  let ?c = "c\<lparr>lru_items := AList.update key ?e (lru_items c),
    lru_total := lru_total c + (kElemSizeOverhead + entry_Size sz + key_Size sz key), lru_list := lru_list c @ [key]\<rparr>"
  have "lru_inv sz ?c" using lru_inv_insert(1) [OF assms(1) None _ assms(4), of ?e] assms(3) by simp
  from eraseLRU_spec [OF this] obtain n c2 where c2: "eraseLRU sz ?c = Inr (lru_list c2 \<noteq> [], c2)" "lru_inv sz c2"
    "evicted sz ?c n c2" by auto
  note t = evicted_trimmed [OF c2(3,2)]
  have l2: "lru_limit c2 = lru_limit c" using c2(3) by (simp add: evicted_def)
  show ?thesis
  proof (cases "lru_list c2 = []")
    case True
    then show ?thesis using assms(2) None c2(1,2) t l2
      by (intro exI [of _ "(False, vdefault)"] exI [of _ c2]) (simp add: lru_Get_def Let_def)
  next
    case False
    have "n \<le> length (lru_list c @ [key])" "lru_list c2 = drop n (lru_list c @ [key])"
      using c2(3) by (simp_all add: evicted_def)
    then have k: "key \<in> set (lru_list c2)" using False by (cases "n \<le> length (lru_list c)") auto
    then have e: "map_of (lru_items c2) key = Some ?e" using t(2) [of key] by simp
    define r where
      "r = (if le_hitCount ?e + 1 < sint (lru_hitCountToCache c2) then (False, vdefault) else (True, le_val ?e))"
    have "le_hitCount ?e < 2 ^ 31 - 1" by simp
    then obtain c' where h: "lru_hit vdefault c2 key = Inr (r, c')" "lru_inv sz c'" "lru_list c' = lru_list c2"
      "lru_limit c' = lru_limit c"
      "map_of (lru_items c') = (map_of (lru_items c2))(key \<mapsto> ?e\<lparr>le_hitCount := le_hitCount ?e + 1\<rparr>)"
      unfolding r_def l2 [symmetric] by (rule lru_hit_spec [OF c2(2) e, of vdefault])
    have g: "lru_Get sz vdefault c key = Inr (r, c')"
      using assms(2) None c2(1) False h(1) by (simp add: lru_Get_def)
    have s: "snd r = vdefault" by (simp add: r_def)
    have tr: "lru_trimmed sz ((map_of (lru_items c))(key \<mapsto> ?e)) (lru_limit c) (lru_list c @ [key]) (lru_list c')"
      using t(1) h(3) by simp
    have o: "\<forall>k \<in> set (lru_list c') - {key}. map_of (lru_items c') k = map_of (lru_items c) k"
    proof
      fix k assume "k \<in> set (lru_list c') - {key}"
      then show "map_of (lru_items c') k = map_of (lru_items c) k" using t(2) [of k] h(3,5) by simp
    qed
    show ?thesis unfolding None option.case Let_def
      by (rule exI [of _ r], rule exI [of _ c'], intro conjI) (rule g h(2,4) s tr o)+
  qed
qed

lemma mk_LRU_inv [simp]: "lru_inv sz (mk_LRUCacheImpl sizeLimit hitCount)"
  by (simp add: lru_inv_def mk_LRUCacheImpl_def)

theorem lru_get_correct_witness:
  "\<exists>r c'. lru_Get \<lparr>key_Size = \<lambda>_. 8, val_Size = \<lambda>v. word_of_nat v, entry_Size = 24\<rparr> (0::nat) (mk_LRUCacheImpl 1000 2) (5::nat)
       = Inr (r, c') \<and> r = (False, 0) \<and> lru_list c' = [5]"
proof -
  let ?sz = "\<lparr>key_Size = \<lambda>_::nat. 8, val_Size = \<lambda>v::nat. word_of_nat v, entry_Size = 24\<rparr>"
  let ?c = "mk_LRUCacheImpl 1000 2 :: (nat, nat) lru"
  have m: "map_of (lru_items ?c) = Map.empty" "lru_list ?c = []" "lru_limit ?c = 1000" "lru_total ?c = 0"
    by (simp_all add: mk_LRUCacheImpl_def)
  obtain r c' where r: "lru_Get ?sz 0 ?c 5 = Inr (r, c')" "snd r = 0"
    "lru_trimmed ?sz [5 \<mapsto> \<lparr>le_val = 0, le_hitCount = 0\<rparr>] 1000 [5] (lru_list c')"
    using lru_get_correct [of ?sz ?c 0 5] m by (auto simp: Let_def)
  have "lru_list c' = [5]"
    using r(3) by (auto simp: lru_trimmed_def lru_cost_def drop_Cons' split: if_splits)
  moreover have "lru_Get ?sz 0 ?c 5 = Inr ((False, 0), c') \<or> lru_Get ?sz 0 ?c 5 \<noteq> Inr (r, c')"
    by (auto simp: lru_Get_def mk_LRUCacheImpl_def kElemSizeOverhead_def eraseLRU.simps lru_hit_def Let_def
        word_less_nat_alt)
  ultimately show ?thesis using r(1,2) by auto
qed

text \<open>
  C7. Storing a value. \<open>Put\<close> of a present key replaces its value, without making it recent, and then drops as
  many of the oldest entries as the limit requires, the stored one included when it is among them; an absent
  key changes nothing. It never fails, the cache stays consistent, and what \<open>Get\<close> finds afterwards for a key
  that stayed is the value stored, or for the other keys what it was.
\<close>

theorem lru_put_correct:
  assumes "lru_inv sz c" "lru_limit c \<noteq> 0" "unat (lru_total c) + unat (val_Size sz v) < 2 ^ 64"
  shows "\<exists>c'. lru_Put sz c key v = Inr c' \<and> lru_inv sz c' \<and> lru_limit c' = lru_limit c \<and>
    (case map_of (lru_items c) key of
       None \<Rightarrow> c' = c
     | Some e \<Rightarrow>
         let m = (map_of (lru_items c))(key \<mapsto> e\<lparr>le_val := v\<rparr>) in
         lru_trimmed sz m (lru_limit c) (lru_list c) (lru_list c') \<and>
         (\<forall>k. map_of (lru_items c') k = (if k \<in> set (lru_list c') then m k else None)))"
proof (cases "map_of (lru_items c) key")
  case None
  then show ?thesis using assms by (simp add: lru_Put_def)
next
  case (Some e)
  let ?tot = "lru_total c + (val_Size sz v - val_Size sz (le_val e))"
  let ?c = "c\<lparr>lru_total := ?tot, lru_items := AList.update key (e\<lparr>le_val := v\<rparr>) (lru_items c),
    lru_putCount := lru_putCount c + 1\<rparr>"
  have k: "key \<in> set (lru_list c)" using lru_inv_present [OF assms(1)] Some by simp
  have "unat (val_Size sz (le_val e)) \<le> unat (lru_total c)"
    using assms(1) lru_costs_remove1 [OF k, of sz "map_of (lru_items c)"] Some by (simp add: lru_inv_def lru_cost_def)
  moreover have "?tot = (lru_total c - val_Size sz (le_val e)) + val_Size sz v" by simp
  ultimately have "unat ?tot + unat (val_Size sz (le_val e)) = unat (lru_total c) + unat (val_Size sz v)"
    using assms(3) by (simp only: unat_plus_small unat_minus_le)
  then have "lru_inv sz (c\<lparr>lru_items := AList.update key (e\<lparr>le_val := v\<rparr>) (lru_items c), lru_total := ?tot\<rparr>)"
    by (intro lru_inv_update [OF assms(1) Some]) simp
  then have "lru_inv sz ?c" by (simp add: lru_inv_def)
  from eraseLRU_spec [OF this] obtain n c2 where c2: "eraseLRU sz ?c = Inr (lru_list c2 \<noteq> [], c2)" "lru_inv sz c2"
    "evicted sz ?c n c2" by auto
  note t = evicted_trimmed [OF c2(3,2)]
  have "lru_limit c2 = lru_limit c" using c2(3) by (simp add: evicted_def)
  moreover have "map_of (lru_items c2) k =
      (if k \<in> set (lru_list c2) then ((map_of (lru_items c))(key \<mapsto> e\<lparr>le_val := v\<rparr>)) k else None)" for k
    using t(2) [of k] lru_inv_present [OF c2(2), of k] by simp
  moreover have "lru_inv sz (c2\<lparr>lru_eraseCount := a, lru_hitCountToCache := b, lru_putCount := d, lru_getCount := g\<rparr>)"
    for a b d g using c2(2) by (simp add: lru_inv_def)
  ultimately show ?thesis using assms(2) Some c2(1,2) t(1) by (simp add: lru_Put_def Let_def)
qed

theorem lru_put_correct_witness:
  "\<exists>c'. lru_Put \<lparr>key_Size = \<lambda>_. 8, val_Size = \<lambda>v. word_of_nat v, entry_Size = 24\<rparr>
       \<lparr>lru_items = [(5::nat, \<lparr>le_val = 0::nat, le_hitCount = 1\<rparr>)], lru_list = [5], lru_total = 288, lru_limit = 1000,
        lru_hitCountToCache = 2, lru_getCount = 0, lru_putCount = 0, lru_eraseCount = 0\<rparr> 5 100 = Inr c' \<and>
     lru_list c' = [5] \<and> map_of (lru_items c') 5 = Some \<lparr>le_val = 100, le_hitCount = 1\<rparr>"
proof -
  define sz :: "(nat, nat) lru_sizes" where "sz = \<lparr>key_Size = \<lambda>_. 8, val_Size = \<lambda>v. word_of_nat v, entry_Size = 24\<rparr>"
  define c :: "(nat, nat) lru" where
    "c = \<lparr>lru_items = [(5, \<lparr>le_val = 0, le_hitCount = 1\<rparr>)], lru_list = [5], lru_total = 288, lru_limit = 1000,
        lru_hitCountToCache = 2, lru_getCount = 0, lru_putCount = 0, lru_eraseCount = 0\<rparr>"
  have c: "map_of (lru_items c) = [5 \<mapsto> \<lparr>le_val = 0, le_hitCount = 1\<rparr>]" "lru_list c = [5]" "lru_limit c = 1000"
    "unat (lru_total c) = 288" by (simp_all add: c_def)
  have "lru_inv sz c" by (simp add: lru_inv_def c_def lru_cost_def sz_def)
  moreover have "unat (lru_total c) + unat (val_Size sz 100) < 2 ^ 64" by (simp add: c sz_def)
  moreover have "lru_limit c \<noteq> 0" by (simp add: c)
  ultimately obtain c' where c': "lru_Put sz c 5 100 = Inr c'"
    "lru_trimmed sz [5 \<mapsto> \<lparr>le_val = 100, le_hitCount = 1\<rparr>] 1000 [5] (lru_list c')"
    "\<forall>k. map_of (lru_items c') k = (if k \<in> set (lru_list c') then [5 \<mapsto> \<lparr>le_val = 100, le_hitCount = 1\<rparr>] k else None)"
    using lru_put_correct [of sz c 100 5] by (auto simp: c Let_def)
  have "lru_list c' = [5]"
    using c'(2) by (auto simp: lru_trimmed_def lru_cost_def sz_def drop_Cons' split: if_splits)
  then show ?thesis using c'(1,3) unfolding sz_def c_def by (intro exI [of _ c']) simp
qed

end
