(* ===== verification/ExprTree.thy ===== *)
theory ExprTree
  imports Prelude
begin

section \<open>Expression trees\<close>

text \<open>
  \<open>core/expressiontree.h\<close>: query conditions, sort expressions and selectors are trees kept in one vector.
  A subtree is a head that holds the number of places it occupies, followed by its children. The model is
  of the build that checks \<open>assertrx_dbg\<close>: a violated one is \<open>Abort\<close>, as is the wrong alternative of a node.
  The value types are those whose \<open>PostProcessor\<close> is the default one, which does nothing.
\<close>

subsection \<open>Nodes\<close>

text \<open>The head of a subtree is its size (class \<open>Bracket\<close>) with the payload of the class derived from it.\<close>

datatype ('s, 'v) storage = SubTree nat 's | Leaf 'v

record ('o, 's, 'v) node =
  nd_storage :: "('s, 'v) storage"
  nd_operation :: 'o

definition mk_node :: "'o \<Rightarrow> ('s, 'v) storage \<Rightarrow> ('o, 's, 'v) node" where
  "mk_node oper st = \<lparr>nd_storage = st, nd_operation = oper\<rparr>"

definition node_Size :: "('o, 's, 'v) node \<Rightarrow> nat" where
  "node_Size n = (case nd_storage n of SubTree s _ \<Rightarrow> s | Leaf _ \<Rightarrow> 1)"

definition IsSubTree :: "('o, 's, 'v) node \<Rightarrow> bool" where
  "IsSubTree n = (case nd_storage n of SubTree _ _ \<Rightarrow> True | Leaf _ \<Rightarrow> False)"

definition node_Append :: "('o, 's, 'v) node \<Rightarrow> ('o, 's, 'v) node res" where
  "node_Append n =
     (case nd_storage n of SubTree s p \<Rightarrow> Inr (n\<lparr>nd_storage := SubTree (s + 1) p\<rparr>) | Leaf _ \<Rightarrow> Inl Abort)"

definition node_Erase :: "('o, 's, 'v) node \<Rightarrow> nat \<Rightarrow> ('o, 's, 'v) node res" where
  "node_Erase n l =
     (case nd_storage n of
        SubTree s p \<Rightarrow> if s > l then Inr (n\<lparr>nd_storage := SubTree (s - l) p\<rparr>) else Inl Abort
      | Leaf _ \<Rightarrow> Inl Abort)"

definition node_Value :: "('o, 's, 'v) node \<Rightarrow> 'v res" where
  "node_Value n = (case nd_storage n of Leaf v \<Rightarrow> Inr v | SubTree _ _ \<Rightarrow> Inl Abort)"

definition node_SetValue :: "('o, 's, 'v) node \<Rightarrow> 'v \<Rightarrow> ('o, 's, 'v) node" where
  "node_SetValue n v = n\<lparr>nd_storage := Leaf v\<rparr>"

text \<open>Comparison: the payload of a bracket derived from \<open>Bracket\<close> takes part in its \<open>operator==\<close>.\<close>

definition node_eq :: "('o, 's, 'v) node \<Rightarrow> ('o, 's, 'v) node \<Rightarrow> bool" where
  "node_eq a b \<longleftrightarrow> nd_operation a = nd_operation b \<and>
     (case (nd_storage a, nd_storage b) of
        (SubTree s p, SubTree s' p') \<Rightarrow> s = s' \<and> p = p'
      | (Leaf v, Leaf v') \<Rightarrow> v = v'
      | _ \<Rightarrow> False)"

subsection \<open>The tree and its accessors\<close>

record ('o, 's, 'v) etree =
  container :: "('o, 's, 'v) node list"
  activeBrackets :: "nat list"

definition etree_empty :: "('o, 's, 'v) etree" where
  "etree_empty = \<lparr>container = [], activeBrackets = []\<rparr>"

definition etree_Empty :: "('o, 's, 'v) etree \<Rightarrow> bool" where
  "etree_Empty t \<longleftrightarrow> container t = []"

definition node_at :: "('o, 's, 'v) etree \<Rightarrow> nat \<Rightarrow> ('o, 's, 'v) node res" where
  "node_at t i = (if i < length (container t) then Inr (container t ! i) else Inl Abort)"

definition etree_Size :: "('o, 's, 'v) etree \<Rightarrow> nat \<Rightarrow> nat res" where
  "etree_Size t i = bind_res (node_at t i) (\<lambda>n. Inr (node_Size n))"

definition Next :: "('o, 's, 'v) etree \<Rightarrow> nat \<Rightarrow> nat res" where
  "Next t i = bind_res (etree_Size t i) (\<lambda>s. Inr (i + s))"

definition etree_IsSubTree :: "('o, 's, 'v) etree \<Rightarrow> nat \<Rightarrow> bool res" where
  "etree_IsSubTree t i = bind_res (node_at t i) (\<lambda>n. Inr (IsSubTree n))"

definition GetOperation :: "('o, 's, 'v) etree \<Rightarrow> nat \<Rightarrow> 'o res" where
  "GetOperation t i = bind_res (node_at t i) (\<lambda>n. Inr (nd_operation n))"

definition update_node :: "('o, 's, 'v) etree \<Rightarrow> nat \<Rightarrow> (('o, 's, 'v) node \<Rightarrow> ('o, 's, 'v) node res) \<Rightarrow> ('o, 's, 'v) etree res" where
  "update_node t i f =
     bind_res (node_at t i) (\<lambda>n. bind_res (f n) (\<lambda>n'. Inr (t\<lparr>container := (container t)[i := n']\<rparr>)))"

definition SetOperation :: "('o, 's, 'v) etree \<Rightarrow> 'o \<Rightarrow> nat \<Rightarrow> ('o, 's, 'v) etree res" where
  "SetOperation t oper i = update_node t i (\<lambda>n. Inr (n\<lparr>nd_operation := oper\<rparr>))"

definition etree_SetValue :: "('o, 's, 'v) etree \<Rightarrow> nat \<Rightarrow> 'v \<Rightarrow> (nat \<times> ('o, 's, 'v) etree) res" where
  "etree_SetValue t i v = bind_res (update_node t i (\<lambda>n. Inr (node_SetValue n v))) (\<lambda>t. Inr (1, t))"

definition etree_Get :: "('o, 's, 'v) etree \<Rightarrow> nat \<Rightarrow> 'v res" where
  "etree_Get t i = bind_res (node_at t i) node_Value"

definition etree_eq :: "('o, 's, 'v) etree \<Rightarrow> ('o, 's, 'v) etree \<Rightarrow> bool" where
  "etree_eq a b \<longleftrightarrow> length (container a) = length (container b) \<and>
     list_all2 node_eq (container a) (container b)"

subsection \<open>Building at the end\<close>

fun append_active :: "nat list \<Rightarrow> ('o, 's, 'v) etree \<Rightarrow> ('o, 's, 'v) etree res" where
  "append_active [] t = Inr t"
| "append_active (i # is) t = bind_res (update_node t i node_Append) (append_active is)"

definition etree_Append :: "('o, 's, 'v) etree \<Rightarrow> 'o \<Rightarrow> 'v \<Rightarrow> (nat \<times> ('o, 's, 'v) etree) res" where
  "etree_Append t oper v =
     bind_res (append_active (activeBrackets t) t) (\<lambda>t.
     Inr (1, t\<lparr>container := container t @ [mk_node oper (Leaf v)]\<rparr>))"

definition OpenBracket :: "('o, 's, 'v) etree \<Rightarrow> 'o \<Rightarrow> 's \<Rightarrow> ('o, 's, 'v) etree res" where
  "OpenBracket t oper p =
     bind_res (append_active (activeBrackets t) t) (\<lambda>t.
     Inr (t\<lparr>activeBrackets := activeBrackets t @ [length (container t)],
            container := container t @ [mk_node oper (SubTree 1 p)]\<rparr>))"

definition CloseBracket :: "('o, 's, 'v) etree \<Rightarrow> ('o, 's, 'v) etree res" where
  "CloseBracket t =
     (if activeBrackets t = [] then Inl (Err ErrLogic)
      else Inr (t\<lparr>activeBrackets := butlast (activeBrackets t)\<rparr>))"

definition LastOpenBracket :: "('o, 's, 'v) etree \<Rightarrow> 's option res" where
  "LastOpenBracket t =
     (if activeBrackets t = [] then Inr None
      else bind_res (node_at t (last (activeBrackets t))) (\<lambda>n.
        case nd_storage n of SubTree _ p \<Rightarrow> Inr (Some p) | Leaf _ \<Rightarrow> Inl Abort))"

text \<open>\<open>LastAppendedElement\<close>; its loop goes from child to child, at most once per place of the container.\<close>

fun last_child :: "nat \<Rightarrow> ('o, 's, 'v) etree \<Rightarrow> nat \<Rightarrow> nat res" where
  "last_child 0 t start = Inl UB"
| "last_child (Suc fuel) t start =
     bind_res (Next t start) (\<lambda>n.
     if n \<noteq> length (container t) then last_child fuel t n else Inr start)"

definition LastAppendedElement :: "('o, 's, 'v) etree \<Rightarrow> nat res" where
  "LastAppendedElement t =
     (if container t = [] then Inl Abort
      else
        let start = (if activeBrackets t \<noteq> [] then last (activeBrackets t) + 1 else 0) in
        if activeBrackets t \<noteq> [] \<and> start = length (container t) then Inr (start - 1)
        else last_child (length (container t)) t start)"

definition SetLastOperation :: "('o, 's, 'v) etree \<Rightarrow> 'o \<Rightarrow> ('o, 's, 'v) etree res" where
  "SetLastOperation t oper = bind_res (LastAppendedElement t) (\<lambda>i. update_node t i (\<lambda>n. Inr (n\<lparr>nd_operation := oper\<rparr>)))"

definition AppendFront :: "('o, 's, 'v) etree \<Rightarrow> 'o \<Rightarrow> 'v \<Rightarrow> nat \<times> ('o, 's, 'v) etree" where
  "AppendFront t oper v =
     (1, t\<lparr>activeBrackets := map Suc (activeBrackets t), container := mk_node oper (Leaf v) # container t\<rparr>)"

fun erase_active :: "nat list \<Rightarrow> ('o, 's, 'v) etree \<Rightarrow> ('o, 's, 'v) etree res" where
  "erase_active [] t = Inr t"
| "erase_active (i # is) t = bind_res (update_node t i (\<lambda>n. node_Erase n 1)) (erase_active is)"

definition PopBack :: "('o, 's, 'v) etree \<Rightarrow> ('o, 's, 'v) etree res" where
  "PopBack t =
     (if container t = [] then Inl Abort
      else bind_res (erase_active (activeBrackets t) t) (\<lambda>t.
        let t = (if IsSubTree (last (container t)) \<and> activeBrackets t \<noteq> [] \<and>
                    last (activeBrackets t) = length (container t) - 1
                 then t\<lparr>activeBrackets := butlast (activeBrackets t)\<rparr> else t)
        in Inr (t\<lparr>container := butlast (container t)\<rparr>)))"

text \<open>
  \<open>append(begin, end)\<close> copies the nodes between two sibling iterators to the end of the tree: the children
  of a subtree are copied between its brackets. \<open>CopyPayloadFrom\<close> makes the payload of the new bracket
  that of the old one; \<open>sz\<close> is a bound on the nodes the range holds.
\<close>

fun etree_append :: "nat \<Rightarrow> ('o, 's, 'v) etree \<Rightarrow> ('o, 's, 'v) node list \<Rightarrow> ('o, 's, 'v) etree res" where
  "etree_append 0 t ns = (if ns = [] then Inr t else Inl UB)"
| "etree_append (Suc fuel) t [] = Inr t"
| "etree_append (Suc fuel) t (n # ns) =
     (case nd_storage n of
        Leaf v \<Rightarrow> bind_res (etree_Append t (nd_operation n) v) (\<lambda>(_, t). etree_append fuel t ns)
      | SubTree s p \<Rightarrow>
          bind_res (OpenBracket t (nd_operation n) p) (\<lambda>t.
          bind_res (etree_append fuel t (take (s - 1) ns)) (\<lambda>t.
          bind_res (CloseBracket t) (\<lambda>t.
          etree_append fuel t (drop (s - 1) ns)))))"
subsection \<open>Changes in the middle\<close>

text \<open>The loops over the nodes before a position; a node is looked at and changed at its own index only.\<close>

fun append_enclosing :: "nat \<Rightarrow> nat \<Rightarrow> ('o, 's, 'v) node list \<Rightarrow> ('o, 's, 'v) node list" where
  "append_enclosing pos i [] = []"
| "append_enclosing pos i (n # ns) =
     (case nd_storage n of
        SubTree s p \<Rightarrow> if i < pos \<and> i + s > pos then n\<lparr>nd_storage := SubTree (s + 1) p\<rparr> else n
      | Leaf _ \<Rightarrow> n) # append_enclosing pos (i + 1) ns"

definition insert_at :: "nat \<Rightarrow> 'a \<Rightarrow> 'a list \<Rightarrow> 'a list" where
  "insert_at i x xs = take i xs @ x # drop i xs"

definition etree_Insert :: "('o, 's, 'v) etree \<Rightarrow> nat \<Rightarrow> 'o \<Rightarrow> 'v \<Rightarrow> (nat \<times> ('o, 's, 'v) etree) res" where
  "etree_Insert t pos oper v =
     (if pos = length (container t) then etree_Append t oper v
      else if \<not> pos < length (container t) then Inl Abort
      else if \<exists>b \<in> set (activeBrackets t). \<not> b < length (container t) then Inl Abort
      else Inr (1, t\<lparr>activeBrackets := map (\<lambda>b. if b \<ge> pos then b + 1 else b) (activeBrackets t),
                     container := insert_at pos (mk_node oper (Leaf v)) (append_enclosing pos 0 (container t))\<rparr>))"

text \<open>\<open>Emplace\<close> builds the value first and checks with \<open>assertrx_throw\<close>.\<close>

definition etree_Emplace :: "('o, 's, 'v) etree \<Rightarrow> nat \<Rightarrow> 'o \<Rightarrow> 'v \<Rightarrow> (nat \<times> ('o, 's, 'v) etree) res" where
  "etree_Emplace t pos oper v =
     (if pos = length (container t) then etree_Append t oper v
      else if \<not> pos < length (container t) then Inl (Err ErrAssert)
      else if \<exists>b \<in> set (activeBrackets t). \<not> b < length (container t) then Inl (Err ErrAssert)
      else Inr (1, t\<lparr>activeBrackets := map (\<lambda>b. if b \<ge> pos then b + 1 else b) (activeBrackets t),
                     container := insert_at pos (mk_node oper (Leaf v)) (append_enclosing pos 0 (container t))\<rparr>))"

definition InsertAfter :: "('o, 's, 'v) etree \<Rightarrow> nat \<Rightarrow> 'o \<Rightarrow> 'v \<Rightarrow> (nat \<times> ('o, 's, 'v) etree) res" where
  "InsertAfter t pos oper v =
     (if \<not> pos < length (container t) then Inl Abort
      else if \<exists>b \<in> set (activeBrackets t). \<not> b < length (container t) then Inl Abort
      else Inr (1, t\<lparr>activeBrackets := map (\<lambda>b. if b > pos then b + 1 else b) (activeBrackets t),
                     container := insert_at (pos + 1) (mk_node oper (Leaf v)) (append_enclosing pos 0 (container t))\<rparr>))"

text \<open>
  \<open>EncloseInBracket\<close>: a bracket before the range that reaches its end grows, any other has to end before the
  range; a bracket in the range has to end in it.
\<close>

fun enclose_before :: "nat \<Rightarrow> nat \<Rightarrow> nat \<Rightarrow> ('o, 's, 'v) node list \<Rightarrow> ('o, 's, 'v) node list res" where
  "enclose_before from' to' i [] = Inr []"
| "enclose_before from' to' i (n # ns) =
     (let rest = enclose_before from' to' (i + 1) ns in
      case nd_storage n of
        SubTree s p \<Rightarrow>
          if i < from' then
            if i + s \<ge> to' then bind_res rest (\<lambda>ns. Inr (n\<lparr>nd_storage := SubTree (s + 1) p\<rparr> # ns))
            else if i + s \<le> from' then bind_res rest (\<lambda>ns. Inr (n # ns)) else Inl Abort
          else if i < to' \<and> \<not> i + s \<le> to' then Inl Abort
          else bind_res rest (\<lambda>ns. Inr (n # ns))
      | Leaf _ \<Rightarrow> bind_res rest (\<lambda>ns. Inr (n # ns)))"

definition EncloseInBracket :: "('o, 's, 'v) etree \<Rightarrow> nat \<Rightarrow> nat \<Rightarrow> 'o \<Rightarrow> 's \<Rightarrow> ('o, 's, 'v) etree res" where
  "EncloseInBracket t from' to' oper p =
     (if \<not> to' > from' then Inl Abort
      else if \<not> to' \<le> length (container t) then Inl Abort
      else if \<exists>b \<in> set (activeBrackets t). \<not> b < length (container t) then Inl Abort
      else bind_res (enclose_before from' to' 0 (container t)) (\<lambda>c.
        Inr (t\<lparr>activeBrackets := map (\<lambda>b. if b \<ge> from' then b + 1 else b) (activeBrackets t),
               container := insert_at from' (mk_node oper (SubTree (to' - from' + 1) p)) c\<rparr>)))"

fun erase_before :: "nat \<Rightarrow> nat \<Rightarrow> nat \<Rightarrow> ('o, 's, 'v) node list \<Rightarrow> ('o, 's, 'v) node list res" where
  "erase_before from' to' i [] = Inr []"
| "erase_before from' to' i (n # ns) =
     (let rest = erase_before from' to' (i + 1) ns in
      case nd_storage n of
        SubTree s p \<Rightarrow>
          if i < from' then
            if i + s \<ge> to' then
              bind_res (node_Erase n (to' - from')) (\<lambda>n. bind_res rest (\<lambda>ns. Inr (n # ns)))
            else if i + s \<le> from' then bind_res rest (\<lambda>ns. Inr (n # ns)) else Inl Abort
          else bind_res rest (\<lambda>ns. Inr (n # ns))
      | Leaf _ \<Rightarrow> bind_res rest (\<lambda>ns. Inr (n # ns)))"

definition etree_Erase :: "('o, 's, 'v) etree \<Rightarrow> nat \<Rightarrow> nat \<Rightarrow> ('o, 's, 'v) etree res" where
  "etree_Erase t from' to' =
     (if \<not> to' \<ge> from' then Inl Abort
      else if \<not> to' \<le> length (container t) then Inl UB
      else bind_res (erase_before from' to' 0 (container t)) (\<lambda>c.
        Inr (t\<lparr>container := take from' c @ drop to' c,
               activeBrackets := map (\<lambda>b. if b \<ge> to' then b - (to' - from') else b)
                 (filter (\<lambda>b. \<not> (from' \<le> b \<and> b < to')) (activeBrackets t))\<rparr>)))"

text \<open>\<open>Erase\<close> of an iterator erases the one place it points to.\<close>

definition etree_Erase_it :: "('o, 's, 'v) etree \<Rightarrow> nat \<Rightarrow> ('o, 's, 'v) etree res" where
  "etree_Erase_it t it = (if it = length (container t) then Inl Abort else etree_Erase t it (it + 1))"

subsection \<open>The trees that a container holds\<close>

datatype ('o, 's, 'v) tree = TLeaf 'o 'v | TNode 'o 's "('o, 's, 'v) tree list"

fun flat :: "('o, 's, 'v) tree \<Rightarrow> ('o, 's, 'v) node list" where
  "flat (TLeaf oper v) = [mk_node oper (Leaf v)]"
| "flat (TNode oper p ts) =
     mk_node oper (SubTree (1 + length (concat (map flat ts))) p) # concat (map flat ts)"

abbreviation flats :: "('o, 's, 'v) tree list \<Rightarrow> ('o, 's, 'v) node list" where
  "flats ts \<equiv> concat (map flat ts)"

text \<open>
  A tree under construction: for every open bracket, outermost first, its finished siblings with its own
  operation and payload; then the finished children of the innermost one. \<open>flat_pre fs k\<close> is the container up
  to those children, when they take \<open>k\<close> places.
\<close>

type_synonym ('o, 's, 'v) frame = "('o, 's, 'v) tree list \<times> 'o \<times> 's"

fun flat_pre :: "('o, 's, 'v) frame list \<Rightarrow> nat \<Rightarrow> ('o, 's, 'v) node list" where
  "flat_pre [] k = []"
| "flat_pre ((bs, oper, p) # fs) k =
     flats bs @ mk_node oper (SubTree (1 + length (flat_pre fs k) + k) p) # flat_pre fs k"

fun open_at :: "nat \<Rightarrow> ('o, 's, 'v) frame list \<Rightarrow> nat list" where
  "open_at n [] = []"
| "open_at n ((bs, oper, p) # fs) = (n + length (flats bs)) # open_at (n + length (flats bs) + 1) fs"

definition conc_tree :: "('o, 's, 'v) frame list \<Rightarrow> ('o, 's, 'v) tree list \<Rightarrow> ('o, 's, 'v) etree" where
  "conc_tree fs ts =
     \<lparr>container = flat_pre fs (length (flats ts)) @ flats ts, activeBrackets = open_at 0 fs\<rparr>"

fun pre_len :: "('o, 's, 'v) frame list \<Rightarrow> nat" where
  "pre_len [] = 0"
| "pre_len ((bs, oper, p) # fs) = length (flats bs) + 1 + pre_len fs"

lemma length_flat_pre [simp]: "length (flat_pre fs k) = pre_len fs"
  by (induction fs k rule: flat_pre.induct) simp_all

lemma pre_len_snoc [simp]: "pre_len (fs @ [(ts, oper, p)]) = pre_len fs + length (flats ts) + 1"
  by (induction fs rule: pre_len.induct) simp_all

lemma flat_pre_snoc:
  "flat_pre (fs @ [(ts, oper, p)]) k =
     flat_pre fs (Suc (length (flats ts) + k)) @ flats ts @ [mk_node oper (SubTree (1 + k) p)]"
  by (induction fs k rule: flat_pre.induct) (simp_all add: add.assoc)

lemma open_at_snoc:
  "open_at n (fs @ [(ts, oper, p)]) = open_at n fs @ [n + pre_len fs + length (flats ts)]"
  by (induction n fs rule: open_at.induct) simp_all

lemma open_at_empty [simp]: "open_at n fs = [] \<longleftrightarrow> fs = []"
  by (cases fs) auto

lemma last_open_at: "fs \<noteq> [] \<Longrightarrow> last (open_at n fs) + 1 = n + pre_len fs"
  by (induction n fs rule: open_at.induct) auto

lemma update_node_mid:
  "update_node (t\<lparr>container := a @ n # b\<rparr>) (length a) f =
     bind_res (f n) (\<lambda>n'. Inr (t\<lparr>container := a @ n' # b\<rparr>))"
  by (simp add: update_node_def node_at_def)

lemma append_active_conc:
  "append_active (open_at (length pre) fs) (t\<lparr>container := pre @ flat_pre fs k @ rest\<rparr>) =
     Inr (t\<lparr>container := pre @ flat_pre fs (Suc k) @ rest\<rparr>)"
proof (induction fs k arbitrary: pre rule: flat_pre.induct)
  case (1 k)
  then show ?case by simp
next
  case (2 bs oper p fs k)
  let ?n = "\<lambda>k. mk_node oper (SubTree (1 + length (flat_pre fs k) + k) p)"
  have app: "node_Append (?n k) = Inr (?n (Suc k))" by (simp add: node_Append_def mk_node_def)
  have "update_node (t\<lparr>container := (pre @ flats bs) @ ?n k # flat_pre fs k @ rest\<rparr>) (length (pre @ flats bs)) node_Append =
      Inr (t\<lparr>container := (pre @ flats bs) @ ?n (Suc k) # flat_pre fs k @ rest\<rparr>)"
    by (simp only: update_node_mid app bind_res_simps)
  with "2.IH" [of "pre @ flats bs @ [?n (Suc k)]"] show ?case by (simp add: add.assoc)
qed

text \<open>Building: each operation of the code is the operation on the tree under construction.\<close>

lemma append_active_tree:
  "append_active (activeBrackets (conc_tree fs ts)) (conc_tree fs ts) =
     Inr ((conc_tree fs ts)\<lparr>container := flat_pre fs (Suc (length (flats ts))) @ flats ts\<rparr>)"
  using append_active_conc [where pre = "[]" and fs = fs and t = "conc_tree fs ts" and k = "length (flats ts)" and rest = "flats ts"]
  by (simp add: conc_tree_def)

lemma etree_Append_conc:
  "etree_Append (conc_tree fs ts) oper v = Inr (1, conc_tree fs (ts @ [TLeaf oper v]))"
  by (simp add: etree_Append_def append_active_tree) (simp add: conc_tree_def)

lemma OpenBracket_conc:
  "OpenBracket (conc_tree fs ts) oper p = Inr (conc_tree (fs @ [(ts, oper, p)]) [])"
  by (simp add: OpenBracket_def append_active_tree)
     (simp add: conc_tree_def flat_pre_snoc open_at_snoc)

lemma CloseBracket_conc:
  "CloseBracket (conc_tree (fs @ [(bs, oper, p)]) ts) = Inr (conc_tree fs (bs @ [TNode oper p ts]))"
  "CloseBracket (conc_tree [] ts) = Inl (Err ErrLogic)"
  by (simp_all add: CloseBracket_def) (simp_all add: conc_tree_def flat_pre_snoc open_at_snoc)

lemma etree_empty_conc: "etree_empty = conc_tree [] []"
  by (simp add: etree_empty_def conc_tree_def)

lemma etree_append_conc:
  "length (flats us) \<le> fuel \<Longrightarrow> etree_append fuel (conc_tree fs ts) (flats us) = Inr (conc_tree fs (ts @ us))"
proof (induction fuel arbitrary: fs ts us)
  case 0
  then have "us = []" by (cases us) (auto split: tree.splits elim: flat.elims)
  then show ?case by simp
next
  case (Suc fuel)
  show ?case
  proof (cases us)
    case Nil then show ?thesis by simp
  next
    case (Cons u us')
    show ?thesis
    proof (cases u)
      case (TLeaf oper v)
      have "length (flats us') \<le> fuel" using Suc.prems Cons TLeaf by simp
      from Suc.IH [OF this, of fs "ts @ [TLeaf oper v]"] show ?thesis
        by (simp add: Cons TLeaf mk_node_def etree_Append_conc)
    next
      case (TNode oper p cs)
      have len: "length (flats cs) \<le> fuel" "length (flats us') \<le> fuel" using Suc.prems Cons TNode by simp_all
      from Suc.IH [OF len(1), of "fs @ [(ts, oper, p)]" "[]"] Suc.IH [OF len(2), of fs "ts @ [TNode oper p cs]"]
      show ?thesis by (simp add: Cons TNode mk_node_def OpenBracket_conc CloseBracket_conc)
    qed
  qed
qed

fun set_oper :: "('o, 's, 'v) tree \<Rightarrow> 'o \<Rightarrow> ('o, 's, 'v) tree" where
  "set_oper (TLeaf _ v) oper = TLeaf oper v"
| "set_oper (TNode _ p ts) oper = TNode oper p ts"

lemma flat_Cons:
  obtains n rest where "flat u = n # rest" "node_Size n = length (flat u)"
    "flat (set_oper u oper) = n\<lparr>nd_operation := oper\<rparr> # rest"
  by (cases u) (auto simp: mk_node_def node_Size_def)

lemma flat_nonempty [simp]: "flat u \<noteq> []"
  by (cases u) auto

lemma length_flats_ge: "length ts \<le> length (flats ts)"
proof (induction ts)
  case (Cons t ts)
  then show ?case by (cases "flat t") auto
qed simp

lemma Next_mid:
  assumes "container t = pre @ flat u @ rest" "i = length pre"
  shows "Next t i = Inr (i + length (flat u))"
  by (rule flat_Cons [of u undefined]) (simp add: Next_def etree_Size_def node_at_def assms)

lemma last_child_children:
  assumes "container t = pre @ flats ts @ flat u" "i = length pre" "length ts < fuel"
  shows "last_child fuel t i = Inr (i + length (flats ts))"
  using assms
proof (induction ts arbitrary: pre fuel i)
  case Nil
  then obtain f where "fuel = Suc f" by (cases fuel) auto
  with Nil Next_mid [of t pre u "[]" i] show ?case by simp
next
  case (Cons c ts)
  obtain f where f: "fuel = Suc f" "length ts < f" using Cons.prems(3) by (cases fuel) auto
  have "Next t i = Inr (i + length (flat c))"
    by (rule Next_mid [of t pre c "flats ts @ flat u"]) (use Cons.prems in simp_all)
  moreover have "last_child f t (i + length (flat c)) = Inr (i + length (flat c) + length (flats ts))"
    by (rule Cons.IH [of "pre @ flat c"]) (use Cons.prems f in simp_all)
  ultimately show ?case using f Cons.prems by simp
qed

lemma LastAppendedElement_conc:
  "LastAppendedElement (conc_tree fs (ts @ [u])) = Inr (pre_len fs + length (flats ts))"
  "fs \<noteq> [] \<Longrightarrow> LastAppendedElement (conc_tree fs []) = Inr (pre_len fs - 1)"
  "LastAppendedElement (conc_tree [] []) = Inl Abort"
proof -
  let ?t = "conc_tree fs (ts @ [u])"
  have c: "container ?t = flat_pre fs (length (flats (ts @ [u]))) @ flats ts @ flat u" by (simp add: conc_tree_def)
  have "length ts < length (container ?t)" using length_flats_ge [of ts] by (simp add: c less_Suc_eq_le flip: length_0_conv) (cases "flat u"; simp)
  then have "last_child (length (container ?t)) ?t (pre_len fs) = Inr (pre_len fs + length (flats ts))"
    by (intro last_child_children [OF c]) simp_all
  moreover have "(if activeBrackets ?t \<noteq> [] then last (activeBrackets ?t) + 1 else 0) = pre_len fs"
    using last_open_at [of fs 0] by (cases "fs = []") (simp_all add: conc_tree_def)
  moreover have "container ?t \<noteq> []" "pre_len fs \<noteq> length (container ?t)" by (simp_all add: c)
  ultimately show "LastAppendedElement ?t = Inr (pre_len fs + length (flats ts))"
    by (simp add: LastAppendedElement_def Let_def)
next
  assume fs: "fs \<noteq> []"
  have a: "last (open_at 0 fs) + 1 = pre_len fs" using last_open_at [OF fs, of 0] by simp
  then have ne: "flat_pre fs 0 \<noteq> []" by (metis add_is_0 length_0_conv length_flat_pre zero_neq_one)
  show "LastAppendedElement (conc_tree fs []) = Inr (pre_len fs - 1)"
    using fs a ne by (simp add: LastAppendedElement_def conc_tree_def Let_def)
next
  show "LastAppendedElement (conc_tree [] []) = Inl Abort"
    by (simp add: LastAppendedElement_def conc_tree_def)
qed

lemma SetLastOperation_conc:
  "SetLastOperation (conc_tree fs (ts @ [u])) oper = Inr (conc_tree fs (ts @ [set_oper u oper]))"
  "SetLastOperation (conc_tree (fs @ [(bs, oper', p)]) []) oper = Inr (conc_tree (fs @ [(bs, oper, p)]) [])"
  "SetLastOperation (conc_tree [] []) oper = Inl Abort"
proof -
  obtain n rest where n: "flat u = n # rest" "flat (set_oper u oper) = n\<lparr>nd_operation := oper\<rparr> # rest"
    by (rule flat_Cons [of u oper])
  let ?t = "conc_tree fs (ts @ [u])" and ?pre = "flat_pre fs (length (flats (ts @ [u]))) @ flats ts"
  have t: "?t = ?t\<lparr>container := ?pre @ n # rest\<rparr>" "length ?pre = pre_len fs + length (flats ts)"
    by (simp_all add: conc_tree_def n)
  have "update_node ?t (pre_len fs + length (flats ts)) (\<lambda>n. Inr (n\<lparr>nd_operation := oper\<rparr>)) =
      Inr (?t\<lparr>container := ?pre @ n\<lparr>nd_operation := oper\<rparr> # rest\<rparr>)"
    by (subst t(1), subst t(2) [symmetric], subst update_node_mid) simp
  then show "SetLastOperation ?t oper = Inr (conc_tree fs (ts @ [set_oper u oper]))"
    by (simp add: SetLastOperation_def LastAppendedElement_conc) (simp add: conc_tree_def n)
next
  let ?t = "\<lambda>o'. conc_tree (fs @ [(bs, o', p)]) []" and ?pre = "flat_pre fs (Suc (length (flats bs))) @ flats bs"
  have t: "?t o' = (?t oper)\<lparr>container := ?pre @ mk_node o' (SubTree 1 p) # []\<rparr>" for o'
    by (simp add: conc_tree_def flat_pre_snoc open_at_snoc)
  have l: "length ?pre = pre_len fs + length (flats bs)" by simp
  have "update_node (?t oper') (pre_len fs + length (flats bs)) (\<lambda>n. Inr (n\<lparr>nd_operation := oper\<rparr>)) = Inr (?t oper)"
    by (subst t [of oper'], subst l [symmetric], subst update_node_mid, subst (2) t [of oper]) (simp add: mk_node_def)
  then show "SetLastOperation (?t oper') oper = Inr (?t oper)"
    by (simp add: SetLastOperation_def LastAppendedElement_conc)
next
  show "SetLastOperation (conc_tree [] []) oper = Inl Abort"
    by (simp add: SetLastOperation_def LastAppendedElement_conc)
qed

text \<open>A parser drives the tree with these calls; \<open>spec_build\<close> says what they do to the tree meant.\<close>

datatype ('o, 's, 'v) build =
  B_Append 'o 'v | B_OpenBracket 'o 's | B_CloseBracket | B_SetLastOperation 'o
| B_AppendRange "('o, 's, 'v) tree list"

fun code_build :: "('o, 's, 'v) build \<Rightarrow> ('o, 's, 'v) etree \<Rightarrow> ('o, 's, 'v) etree res" where
  "code_build (B_Append oper v) t = bind_res (etree_Append t oper v) (\<lambda>(_, t). Inr t)"
| "code_build (B_OpenBracket oper p) t = OpenBracket t oper p"
| "code_build B_CloseBracket t = CloseBracket t"
| "code_build (B_SetLastOperation oper) t = SetLastOperation t oper"
| "code_build (B_AppendRange us) t = etree_append (length (flats us)) t (flats us)"

fun spec_build ::
    "('o, 's, 'v) build \<Rightarrow> ('o, 's, 'v) frame list \<times> ('o, 's, 'v) tree list \<Rightarrow>
     (('o, 's, 'v) frame list \<times> ('o, 's, 'v) tree list) res" where
  "spec_build (B_Append oper v) (fs, ts) = Inr (fs, ts @ [TLeaf oper v])"
| "spec_build (B_OpenBracket oper p) (fs, ts) = Inr (fs @ [(ts, oper, p)], [])"
| "spec_build B_CloseBracket (fs, ts) =
     (if fs = [] then Inl (Err ErrLogic)
      else case last fs of (bs, oper, p) \<Rightarrow> Inr (butlast fs, bs @ [TNode oper p ts]))"
| "spec_build (B_SetLastOperation oper) (fs, ts) =
     (if ts \<noteq> [] then Inr (fs, butlast ts @ [set_oper (last ts) oper])
      else if fs \<noteq> [] then case last fs of (bs, _, p) \<Rightarrow> Inr (butlast fs @ [(bs, oper, p)], [])
      else Inl Abort)"
| "spec_build (B_AppendRange us) (fs, ts) = Inr (fs, ts @ us)"

fun run_res :: "('c \<Rightarrow> 's \<Rightarrow> 's res) \<Rightarrow> 'c list \<Rightarrow> 's \<Rightarrow> 's res" where
  "run_res f [] s = Inr s"
| "run_res f (c # cs) s = bind_res (f c s) (run_res f cs)"

lemma code_build_spec:
  "code_build c (conc_tree fs ts) = bind_res (spec_build c (fs, ts)) (\<lambda>(fs, ts). Inr (conc_tree fs ts))"
proof (cases c)
  case B_CloseBracket
  show ?thesis
  proof (cases fs rule: rev_cases)
    case (snoc fs' f)
    then show ?thesis using B_CloseBracket by (cases f) (simp add: CloseBracket_conc)
  qed (simp add: B_CloseBracket CloseBracket_conc)
next
  case (B_SetLastOperation oper)
  show ?thesis
  proof (cases ts rule: rev_cases)
    case (snoc ts' u)
    then show ?thesis using B_SetLastOperation by (simp add: SetLastOperation_conc)
  next
    case Nil
    show ?thesis
    proof (cases fs rule: rev_cases)
      case (snoc fs' f)
      then show ?thesis using B_SetLastOperation Nil by (cases f) (simp add: SetLastOperation_conc)
    qed (simp add: B_SetLastOperation Nil SetLastOperation_conc)
  qed
qed (simp_all add: etree_Append_conc OpenBracket_conc etree_append_conc)

lemma run_build_spec:
  "run_res code_build cs (conc_tree fs ts) =
     bind_res (run_res spec_build cs (fs, ts)) (\<lambda>(fs, ts). Inr (conc_tree fs ts))"
proof (induction cs arbitrary: fs ts)
  case (Cons c cs)
  show ?case
  proof (cases "spec_build c (fs, ts)")
    case (Inr x)
    then show ?thesis using Cons by (cases x) (simp add: code_build_spec)
  qed (simp add: code_build_spec)
qed simp

text \<open>
  C4. The vector of an expression tree refines the tree. Whatever sequence of \<open>Append\<close>, \<open>OpenBracket\<close>,
  \<open>CloseBracket\<close>, \<open>SetLastOperation\<close> and range \<open>append\<close> a parser issues from an empty tree, the container and
  the stack of active brackets are exactly the layout of the tree those calls mean: every subtree's head
  holds its current size, open brackets included. The calls fail exactly when they have no meaning: closing
  with no open bracket is the logic error, setting the operation of nothing the failed assertion.
\<close>

theorem etree_build_refines:
  "run_res code_build cs etree_empty =
     bind_res (run_res spec_build cs ([], [])) (\<lambda>(fs, ts). Inr (conc_tree fs ts))"
  using run_build_spec [of cs "[]" "[]"] by (simp add: etree_empty_conc)

subsection \<open>Balanced containers\<close>

text \<open>
  Containers of any history: every place's extent is inside the container and inside the extents around it;
  the active brackets are nested heads that reach the end, and whatever is around one is active too.
\<close>

definition place_end :: "('o, 's, 'v) node list \<Rightarrow> nat \<Rightarrow> nat" where
  "place_end c i = i + node_Size (c ! i)"

definition nested :: "('o, 's, 'v) node list \<Rightarrow> bool" where
  "nested c \<longleftrightarrow> (\<forall>i < length c. 0 < node_Size (c ! i) \<and> place_end c i \<le> length c \<and>
     (\<forall>j. i < j \<and> j < place_end c i \<longrightarrow> place_end c j \<le> place_end c i))"

definition balanced :: "('o, 's, 'v) etree \<Rightarrow> bool" where
  "balanced t \<longleftrightarrow> nested (container t) \<and> sorted_wrt (<) (activeBrackets t) \<and>
     (\<forall>b \<in> set (activeBrackets t). b < length (container t) \<and> IsSubTree (container t ! b) \<and>
        place_end (container t) b = length (container t) \<and>
        (\<forall>i < b. b < place_end (container t) i \<longrightarrow> i \<in> set (activeBrackets t)))"

lemma nestedD:
  assumes "nested c" "i < length c"
  shows "0 < node_Size (c ! i)" "i < place_end c i" "place_end c i \<le> length c"
    "i < j \<Longrightarrow> j < place_end c i \<Longrightarrow> place_end c j \<le> place_end c i"
  using assms by (auto simp: nested_def place_end_def)

text \<open>Siblings: a place that starts before another one ends ends either before it or after it.\<close>

lemma nested_cases:
  assumes "nested c" "i < length c" "i < j" "j < length c"
  shows "place_end c i \<le> j \<or> place_end c j \<le> place_end c i"
  using nestedD(4) [OF assms(1,2,3)] by linarith

definition grown :: "('o, 's, 'v) node \<Rightarrow> ('o, 's, 'v) node" where
  "grown n = (case nd_storage n of SubTree s p \<Rightarrow> n\<lparr>nd_storage := SubTree (s + 1) p\<rparr> | Leaf _ \<Rightarrow> n)"

lemma IsSubTree_grown [simp]: "IsSubTree (grown n) = IsSubTree n"
  by (simp add: grown_def IsSubTree_def split: storage.splits)

lemma node_Size_grown: "node_Size (grown n) = node_Size n + (if IsSubTree n then 1 else 0)"
  by (simp add: grown_def IsSubTree_def node_Size_def split: storage.splits)

lemma length_append_enclosing [simp]: "length (append_enclosing pos i ns) = length ns"
  by (induction pos i ns rule: append_enclosing.induct) simp_all

lemma append_enclosing_nth:
  "k < length ns \<Longrightarrow> append_enclosing pos i ns ! k =
     (if IsSubTree (ns ! k) \<and> i + k < pos \<and> i + k + node_Size (ns ! k) > pos then grown (ns ! k) else ns ! k)"
proof (induction pos i ns arbitrary: k rule: append_enclosing.induct)
  case (2 pos i n ns)
  then show ?case
    by (cases k) (auto simp: grown_def IsSubTree_def node_Size_def split: storage.splits)
qed simp

definition shift_at :: "nat \<Rightarrow> nat \<Rightarrow> nat" where
  "shift_at p k = (if k < p then k else k + 1)"

lemma insert_at_nth:
  assumes "p \<le> length c"
  shows "length (insert_at p x c) = length c + 1" "insert_at p x c ! p = x"
    "k < length c \<Longrightarrow> insert_at p x c ! shift_at p k = c ! k"
  using assms by (auto simp: insert_at_def shift_at_def nth_append min_def)

lemma shift_at_onto: "k' \<noteq> p \<Longrightarrow> \<exists>k. k' = shift_at p k"
proof (cases "k' < p")
  case True then show ?thesis by (intro exI [of _ k']) (simp add: shift_at_def)
next
  case False
  moreover assume "k' \<noteq> p"
  ultimately show ?thesis by (intro exI [of _ "k' - 1"]) (simp add: shift_at_def)
qed

text \<open>One new place \<open>p\<close> of extent \<open>s\<close>, the old places keeping their order with new ends \<open>E\<close>.\<close>

lemma nested_insert:
  assumes len: "length c' = length c + 1" "p \<le> length c"
    and new: "0 < s" "place_end c' p = p + s" "p + s \<le> length c + 1"
    and old: "\<And>k. k < length c \<Longrightarrow> place_end c' (shift_at p k) = E k \<and> shift_at p k < E k \<and> E k \<le> length c + 1"
    and oo: "\<And>i j. j < length c \<Longrightarrow> shift_at p i < shift_at p j \<Longrightarrow> shift_at p j < E i \<Longrightarrow> i < length c \<Longrightarrow> E j \<le> E i"
    and on: "\<And>i. i < p \<Longrightarrow> p < E i \<Longrightarrow> p + s \<le> E i"
    and no: "\<And>j. p \<le> j \<Longrightarrow> j < length c \<Longrightarrow> j + 1 < p + s \<Longrightarrow> E j \<le> p + s"
  shows "nested c'"
  unfolding nested_def
proof (intro allI impI conjI)
  fix i' assume i': "i' < length c'"
  have "i' < place_end c' i' \<and> place_end c' i' \<le> length c'"
  proof (cases "i' = p")
    case True then show ?thesis using new len by simp
  next
    case False
    then obtain i where i: "i' = shift_at p i" using shift_at_onto by blast
    then have "i < length c" using i' len by (auto simp: shift_at_def split: if_splits)
    then show ?thesis using old i len by simp
  qed
  then show "0 < node_Size (c' ! i')" "place_end c' i' \<le> length c'" by (auto simp: place_end_def)
next
  fix i' j' assume i': "i' < length c'" and j': "i' < j' \<and> j' < place_end c' i'"
  have bound: "k < length c" if "shift_at p k < length c'" for k
    using that len by (auto simp: shift_at_def split: if_splits)
  have j'l: "j' < length c'"
  proof (cases "i' = p")
    case True then show ?thesis using j' new len by simp
  next
    case False
    then obtain i where i: "i' = shift_at p i" using shift_at_onto by blast
    then show ?thesis using old [OF bound [of i]] i' j' len by auto
  qed
  show "place_end c' j' \<le> place_end c' i'"
  proof (cases "i' = p")
    case True
    then obtain j where j: "j' = shift_at p j" using j' shift_at_onto [of j' p] by auto
    then have jl: "j < length c" "p \<le> j" "j' = j + 1"
      using bound j'l j' True by (auto simp: shift_at_def split: if_splits)
    then show ?thesis using no [of j] old [of j] j' True new j by simp
  next
    case False
    then obtain i where i: "i' = shift_at p i" using shift_at_onto by blast
    have il: "i < length c" using bound i i' by simp
    show ?thesis
    proof (cases "j' = p")
      case True
      then have "i < p" using i j' by (auto simp: shift_at_def split: if_splits)
      then show ?thesis using on [of i] old [OF il] new j' True i by simp
    next
      case False
      then obtain j where j: "j' = shift_at p j" using shift_at_onto by blast
      then have "j < length c" using bound j'l by simp
      then show ?thesis using oo [of j i] old [of j] old [OF il] i j j' il by simp
    qed
  qed
qed

text \<open>The active brackets then only have to reach the new end and to keep their surroundings active.\<close>

lemma balancedD:
  assumes "balanced t" "b \<in> set (activeBrackets t)"
  shows "b < length (container t)" "IsSubTree (container t ! b)" "place_end (container t) b = length (container t)"
    "i < b \<Longrightarrow> b < place_end (container t) i \<Longrightarrow> i \<in> set (activeBrackets t)"
proof -
  note b = bspec [OF conjunct2 [OF conjunct2 [OF assms(1) [unfolded balanced_def]]] assms(2)]
  show "b < length (container t)" "IsSubTree (container t ! b)" "place_end (container t) b = length (container t)"
    using b by simp_all
  show "i < b \<Longrightarrow> b < place_end (container t) i \<Longrightarrow> i \<in> set (activeBrackets t)"
    using b by simp
qed

lemma balanced_parts:
  assumes "balanced t"
  shows "nested (container t)" "sorted_wrt (<) (activeBrackets t)"
  using assms unfolding balanced_def by blast+

lemma balancedI:
  assumes "nested (container t)" "sorted_wrt (<) (activeBrackets t)"
    "\<And>b. b \<in> set (activeBrackets t) \<Longrightarrow> b < length (container t)"
    "\<And>b. b \<in> set (activeBrackets t) \<Longrightarrow> IsSubTree (container t ! b)"
    "\<And>b. b \<in> set (activeBrackets t) \<Longrightarrow> place_end (container t) b = length (container t)"
    "\<And>b i. b \<in> set (activeBrackets t) \<Longrightarrow> i < b \<Longrightarrow> b < place_end (container t) i \<Longrightarrow> i \<in> set (activeBrackets t)"
  shows "balanced t"
  unfolding balanced_def by (intro conjI ballI allI impI) (rule assms; assumption)+

lemma balanced_insert:
  assumes "balanced t" "nested c'" "length c' = length (container t) + 1" "p \<le> length (container t)"
    "\<And>b. b \<in> set (activeBrackets t) \<Longrightarrow> IsSubTree (c' ! shift_at p b) \<and> place_end c' (shift_at p b) = length c'"
    "\<And>i b. b \<in> set (activeBrackets t) \<Longrightarrow> i < b \<Longrightarrow> shift_at p b < place_end c' (shift_at p i) \<Longrightarrow>
       b < place_end (container t) i"
    "\<And>b. b \<in> set (activeBrackets t) \<Longrightarrow> p \<le> b \<Longrightarrow> place_end c' p \<le> b + 1"
  shows "balanced \<lparr>container = c', activeBrackets = map (shift_at p) (activeBrackets t)\<rparr>"
proof -
  have s: "sorted_wrt (<) (map (shift_at p) (activeBrackets t))"
    unfolding sorted_wrt_map
    by (rule sorted_wrt_mono_rel [of _ "(<)"]) (simp_all add: shift_at_def balanced_parts(2) [OF assms(1)])
  have l: "shift_at p b < length c'" if "b \<in> set (activeBrackets t)" for b
    using balancedD(1) [OF assms(1) that] assms(3) by (simp add: shift_at_def)
  have "i' \<in> shift_at p ` set (activeBrackets t)"
    if b: "b \<in> set (activeBrackets t)" and i': "i' < shift_at p b" "shift_at p b < place_end c' i'" for b i'
  proof (cases "i' = p")
    case True
    then have "p \<le> b" "shift_at p b = b + 1" using i'(1) by (auto simp: shift_at_def split: if_splits)
    then show ?thesis using assms(7) [OF b] i'(2) True by simp
  next
    case False
    then obtain i where i: "i' = shift_at p i" using shift_at_onto by blast
    then have "i < b" using i'(1) by (auto simp: shift_at_def split: if_splits)
    moreover from this have "b < place_end (container t) i" using assms(6) [OF b] i'(2) i by simp
    ultimately have "i \<in> set (activeBrackets t)" by (rule balancedD(4) [OF assms(1) b])
    then show ?thesis using i by simp
  qed
  note around = this
  show ?thesis
  proof (rule balancedI)
    fix b' assume "b' \<in> set (activeBrackets \<lparr>container = c', activeBrackets = map (shift_at p) (activeBrackets t)\<rparr>)"
    then obtain b where b: "b' = shift_at p b" "b \<in> set (activeBrackets t)" by auto
    then show "b' < length (container \<lparr>container = c', activeBrackets = map (shift_at p) (activeBrackets t)\<rparr>)"
      "IsSubTree (container \<lparr>container = c', activeBrackets = map (shift_at p) (activeBrackets t)\<rparr> ! b')"
      "place_end (container \<lparr>container = c', activeBrackets = map (shift_at p) (activeBrackets t)\<rparr>) b' =
        length (container \<lparr>container = c', activeBrackets = map (shift_at p) (activeBrackets t)\<rparr>)"
      using l assms(5) by simp_all
    show "i \<in> set (activeBrackets \<lparr>container = c', activeBrackets = map (shift_at p) (activeBrackets t)\<rparr>)"
      if "i < b'" "b' < place_end (container \<lparr>container = c', activeBrackets = map (shift_at p) (activeBrackets t)\<rparr>) i" for i
      using around [OF b(2), of i] that b(1) by simp
  qed (use s assms(2) in simp_all)
qed

lemma place_end_leaf: "\<not> IsSubTree (c ! k) \<Longrightarrow> place_end c k = k + 1"
  by (simp add: place_end_def node_Size_def IsSubTree_def split: storage.splits)

lemma append_enclosing_at:
  assumes "nested c" "k < length c"
  shows "IsSubTree (append_enclosing pos 0 c ! k) = IsSubTree (c ! k)"
    "node_Size (append_enclosing pos 0 c ! k) = node_Size (c ! k) + (if k < pos \<and> pos < place_end c k then 1 else 0)"
proof -
  have "k < pos \<Longrightarrow> pos < place_end c k \<Longrightarrow> IsSubTree (c ! k)" using place_end_leaf [of c k] by linarith
  then show "IsSubTree (append_enclosing pos 0 c ! k) = IsSubTree (c ! k)"
    "node_Size (append_enclosing pos 0 c ! k) = node_Size (c ! k) + (if k < pos \<and> pos < place_end c k then 1 else 0)"
    using assms by (auto simp: append_enclosing_nth node_Size_grown place_end_def)
qed

lemma Insert_nested:
  assumes "nested c" "pos < length c"
  shows "nested (insert_at pos (mk_node oper (Leaf v)) (append_enclosing pos 0 c))"
    (is "nested ?c")
proof (rule nested_insert [where p = pos and c = c and s = 1 and
      E = "\<lambda>k. place_end c k + (if pos < place_end c k then 1 else 0)"])
  note n = insert_at_nth [where p = pos and c = "append_enclosing pos 0 c" and x = "mk_node oper (Leaf v)"]
  show "place_end ?c pos = pos + 1" using assms n by (simp add: place_end_def node_Size_def mk_node_def)
  fix k assume k: "k < length c"
  note d = nestedD [OF assms(1) k]
  have "place_end ?c (shift_at pos k) = shift_at pos k + node_Size (append_enclosing pos 0 c ! k)"
    using assms k n by (simp add: place_end_def)
  then have "place_end ?c (shift_at pos k) = place_end c k + (if pos < place_end c k then 1 else 0)"
    using append_enclosing_at(2) [OF assms(1) k, of pos] d(2) by (auto simp: shift_at_def place_end_def)
  then show "place_end ?c (shift_at pos k) = place_end c k + (if pos < place_end c k then 1 else 0) \<and>
      shift_at pos k < place_end c k + (if pos < place_end c k then 1 else 0) \<and>
      place_end c k + (if pos < place_end c k then 1 else 0) \<le> length c + 1"
    using d(2,3) by (auto simp: shift_at_def)
next
  fix i j assume ij: "j < length c" "shift_at pos i < shift_at pos j"
    "shift_at pos j < place_end c i + (if pos < place_end c i then 1 else 0)" "i < length c"
  have "i < j" "j < place_end c i" using ij by (auto simp: shift_at_def split: if_splits)
  from nestedD(4) [OF assms(1) ij(4) this]
  show "place_end c j + (if pos < place_end c j then 1 else 0) \<le> place_end c i + (if pos < place_end c i then 1 else 0)"
    by auto
qed (use assms insert_at_nth(1) [where p = pos and c = "append_enclosing pos 0 c"] in \<open>auto split: if_splits\<close>)

lemma place_end_insert:
  assumes "length cs = length c" "p \<le> length c" "k < length c"
  shows "place_end (insert_at p n cs) (shift_at p k) = shift_at p k + node_Size (cs ! k)"
    "insert_at p n cs ! shift_at p k = cs ! k" "place_end (insert_at p n cs) p = p + node_Size n"
  using assms insert_at_nth [where p = p and c = cs and x = n] by (simp_all add: place_end_def)

lemma Insert_balanced:
  assumes "balanced t" "etree_Insert t pos oper v = Inr (k, t')" "pos < length (container t)"
  shows "balanced t'"
proof -
  let ?c = "container t"
  let ?e = "append_enclosing pos 0 ?c" and ?n = "mk_node oper (Leaf v)"
  note nest = balanced_parts(1) [OF assms(1)]
  have t': "t' = \<lparr>container = insert_at pos ?n ?e, activeBrackets = map (shift_at pos) (activeBrackets t)\<rparr>"
    using assms(2,3) by (cases t) (auto simp: etree_Insert_def shift_at_def split: if_splits)
  have e: "place_end (insert_at pos ?n ?e) (shift_at pos k) =
      place_end ?c k + (if pos < place_end ?c k then 1 else 0)" if k: "k < length ?c" for k
    using place_end_insert(1) [of ?e ?c pos k ?n] append_enclosing_at(2) [OF nest k, of pos] nestedD(2) [OF nest k]
      assms(3) k by (auto simp: shift_at_def place_end_def)
  show ?thesis unfolding t'
  proof (rule balanced_insert [OF assms(1)])
    fix b assume b: "b \<in> set (activeBrackets t)"
    note d = balancedD(1-3) [OF assms(1) b]
    show "IsSubTree (insert_at pos ?n ?e ! shift_at pos b) \<and>
        place_end (insert_at pos ?n ?e) (shift_at pos b) = length (insert_at pos ?n ?e)"
      using e [OF d(1)] d place_end_insert(2) [of ?e ?c pos b ?n] append_enclosing_at(1) [OF nest d(1), of pos]
        insert_at_nth(1) [where c = ?e and x = ?n and p = pos] assms(3) by simp
    show "place_end (insert_at pos ?n ?e) pos \<le> b + 1" if "pos \<le> b"
      using that place_end_insert(3) [of ?e ?c pos b ?n] d(1) assms(3) by (simp add: node_Size_def mk_node_def)
    show "b < place_end ?c i" if "i < b" "shift_at pos b < place_end (insert_at pos ?n ?e) (shift_at pos i)" for i
      using that e [of i] d(1) by (auto simp: shift_at_def split: if_splits)
  qed (use assms(3) Insert_nested [OF nest assms(3)] insert_at_nth(1) [where c = ?e and x = ?n and p = pos] in simp_all)
qed

text \<open>Inserting after a leaf.\<close>

lemma InsertAfter_balanced:
  assumes "balanced t" "InsertAfter t pos oper v = Inr (k, t')" "\<not> IsSubTree (container t ! pos)"
  shows "balanced t'"
proof -
  let ?c = "container t"
  let ?p = "pos + 1" and ?e = "append_enclosing pos 0 ?c" and ?n = "mk_node oper (Leaf v)"
  note nest = balanced_parts(1) [OF assms(1)]
  have pos: "pos < length ?c" using assms(2) by (auto simp: InsertAfter_def split: if_splits)
  have t': "t' = \<lparr>container = insert_at ?p ?n ?e, activeBrackets = map (shift_at ?p) (activeBrackets t)\<rparr>"
    using assms(2) by (cases t) (auto simp: InsertAfter_def shift_at_def Suc_le_eq split: if_splits)
  let ?E = "\<lambda>k. place_end ?c k + (if k \<noteq> pos \<and> pos < place_end ?c k then 1 else 0)"
  have leaf: "place_end ?c pos = pos + 1" by (rule place_end_leaf [OF assms(3)])
  have e: "place_end (insert_at ?p ?n ?e) (shift_at ?p k) = ?E k" if k: "k < length ?c" for k
    using place_end_insert(1) [of ?e ?c ?p k ?n] append_enclosing_at(2) [OF nest k, of pos] nestedD(2) [OF nest k]
      pos k leaf by (auto simp: shift_at_def place_end_def)
  have len: "length (insert_at ?p ?n ?e) = length ?c + 1"
    using insert_at_nth(1) [where c = ?e and x = ?n and p = ?p] pos by simp
  have new: "place_end (insert_at ?p ?n ?e) ?p = ?p + 1"
    using place_end_insert(3) [of ?e ?c ?p pos ?n] pos by (simp add: node_Size_def mk_node_def)
  have nested': "nested (insert_at ?p ?n ?e)"
  proof (rule nested_insert [where p = ?p and c = ?c and s = 1 and E = ?E])
    fix k assume k: "k < length ?c"
    show "place_end (insert_at ?p ?n ?e) (shift_at ?p k) = ?E k \<and> shift_at ?p k < ?E k \<and> ?E k \<le> length ?c + 1"
      using e [OF k] nestedD(2,3) [OF nest k] leaf by (auto simp: shift_at_def)
  next
    fix i j assume ij: "j < length ?c" "shift_at ?p i < shift_at ?p j" "shift_at ?p j < ?E i" "i < length ?c"
    have "i \<noteq> pos" using ij leaf by (auto simp: shift_at_def split: if_splits)
    moreover have "i < j" "j < place_end ?c i" using ij \<open>i \<noteq> pos\<close> by (auto simp: shift_at_def split: if_splits)
    ultimately show "?E j \<le> ?E i" using nestedD(4) [OF nest ij(4), of j] by auto
  qed (use pos len new leaf in \<open>auto split: if_splits\<close>)
  show ?thesis unfolding t'
  proof (rule balanced_insert [OF assms(1) nested' len])
    fix b assume b: "b \<in> set (activeBrackets t)"
    note d = balancedD(1-3) [OF assms(1) b]
    have "b \<noteq> pos" using d(2) assms(3) by auto
    then show "IsSubTree (insert_at ?p ?n ?e ! shift_at ?p b) \<and>
        place_end (insert_at ?p ?n ?e) (shift_at ?p b) = length (insert_at ?p ?n ?e)"
      using e [OF d(1)] d place_end_insert(2) [of ?e ?c ?p b ?n] append_enclosing_at(1) [OF nest d(1), of pos]
        len pos by simp
    show "place_end (insert_at ?p ?n ?e) ?p \<le> b + 1" if "?p \<le> b" using that new by simp
    show "b < place_end ?c i" if "i < b" "shift_at ?p b < place_end (insert_at ?p ?n ?e) (shift_at ?p i)" for i
      using that e [of i] d(1) \<open>b \<noteq> pos\<close> by (auto simp: shift_at_def split: if_splits)
  qed (use pos in simp)
qed

text \<open>What the two checking loops leave, place by place.\<close>

lemma enclose_before_at:
  "enclose_before f t i ns = Inr cs \<Longrightarrow> length cs = length ns \<and> (\<forall>k < length ns.
     IsSubTree (cs ! k) = IsSubTree (ns ! k) \<and>
     node_Size (cs ! k) = node_Size (ns ! k) +
       (if IsSubTree (ns ! k) \<and> i + k < f \<and> t \<le> i + k + node_Size (ns ! k) then 1 else 0) \<and>
     (IsSubTree (ns ! k) \<and> i + k < f \<longrightarrow> t \<le> i + k + node_Size (ns ! k) \<or> i + k + node_Size (ns ! k) \<le> f) \<and>
     (IsSubTree (ns ! k) \<and> f \<le> i + k \<and> i + k < t \<longrightarrow> i + k + node_Size (ns ! k) \<le> t))"
proof (induction ns arbitrary: i cs)
  case (Cons n ns)
  obtain c cs' where cs: "cs = c # cs'" "enclose_before f t (i + 1) ns = Inr cs'"
    "IsSubTree c = IsSubTree n"
    "node_Size c = node_Size n + (if IsSubTree n \<and> i < f \<and> t \<le> i + node_Size n then 1 else 0)"
    "IsSubTree n \<and> i < f \<longrightarrow> t \<le> i + node_Size n \<or> i + node_Size n \<le> f"
    "IsSubTree n \<and> f \<le> i \<and> i < t \<longrightarrow> i + node_Size n \<le> t"
    using Cons.prems
    by (auto simp: res_simps IsSubTree_def node_Size_def Let_def split: storage.splits if_splits)
  from Cons.IH [OF cs(2)] have "length cs' = length ns" by simp
  moreover have "P k" if "P 0" "\<And>j. P (Suc j)" for P and k :: nat using that by (cases k) auto
  ultimately show ?case using Cons.IH [OF cs(2)] cs(1,3-6) by (auto simp: nth_Cons split: nat.splits)
qed simp

lemma erase_before_at:
  "erase_before f t i ns = Inr cs \<Longrightarrow> length cs = length ns \<and> (\<forall>k < length ns.
     IsSubTree (cs ! k) = IsSubTree (ns ! k) \<and>
     node_Size (cs ! k) = node_Size (ns ! k) -
       (if IsSubTree (ns ! k) \<and> i + k < f \<and> t \<le> i + k + node_Size (ns ! k) then t - f else 0) \<and>
     (IsSubTree (ns ! k) \<and> i + k < f \<longrightarrow> t \<le> i + k + node_Size (ns ! k) \<or> i + k + node_Size (ns ! k) \<le> f))"
proof (induction ns arbitrary: i cs)
  case (Cons n ns)
  obtain c cs' where cs: "cs = c # cs'" "erase_before f t (i + 1) ns = Inr cs'"
    "IsSubTree c = IsSubTree n"
    "node_Size c = node_Size n - (if IsSubTree n \<and> i < f \<and> t \<le> i + node_Size n then t - f else 0)"
    "IsSubTree n \<and> i < f \<longrightarrow> t \<le> i + node_Size n \<or> i + node_Size n \<le> f"
    using Cons.prems
    by (auto simp: res_simps IsSubTree_def node_Size_def node_Erase_def Let_def split: storage.splits if_splits)
  from Cons.IH [OF cs(2)] have "length cs' = length ns" by simp
  then show ?case using Cons.IH [OF cs(2)] cs(1,3-5) by (auto simp: nth_Cons split: nat.splits)
qed simp

text \<open>Enclosing a range that holds no open bracket.\<close>

lemma EncloseInBracket_balanced:
  assumes "balanced t" "EncloseInBracket t from' to' oper p = Inr t'"
    "\<forall>b \<in> set (activeBrackets t). \<not> (from' \<le> b \<and> b < to')"
  shows "balanced t'"
proof -
  let ?c = "container t" and ?n = "mk_node oper (SubTree (to' - from' + 1) p)"
  note nest = balanced_parts(1) [OF assms(1)]
  obtain cs where cs: "enclose_before from' to' 0 ?c = Inr cs" and ft: "from' < to'" "to' \<le> length ?c"
    and t': "t' = \<lparr>container = insert_at from' ?n cs, activeBrackets = map (shift_at from') (activeBrackets t)\<rparr>"
    using assms(2) by (cases t) (auto simp: EncloseInBracket_def shift_at_def res_simps split: if_splits)
  note a = enclose_before_at [OF cs]
  let ?E = "\<lambda>k. if from' \<le> k \<or> to' \<le> place_end ?c k then place_end ?c k + 1 else place_end ?c k"
  have leaf: "place_end ?c k = k + 1" if "\<not> IsSubTree (?c ! k)" for k using place_end_leaf that by blast
  have before: "to' \<le> place_end ?c k \<or> place_end ?c k \<le> from'" if "k < length ?c" "k < from'" for k
    using a that leaf [of k] by (cases "IsSubTree (?c ! k)") (auto simp: place_end_def)
  have inside: "place_end ?c k \<le> to'" if "from' \<le> k" "k < to'" for k
    using a that leaf [of k] ft by (cases "IsSubTree (?c ! k)") (auto simp: place_end_def)
  have e: "place_end (insert_at from' ?n cs) (shift_at from' k) = ?E k" if k: "k < length ?c" for k
    using place_end_insert(1) [of cs ?c from' k ?n] a k ft leaf [of k] before [of k]
    by (cases "IsSubTree (?c ! k)") (auto simp: shift_at_def place_end_def)
  have len: "length (insert_at from' ?n cs) = length ?c + 1"
    using insert_at_nth(1) [where c = cs and x = ?n and p = from'] a ft by simp
  have new: "place_end (insert_at from' ?n cs) from' = to' + 1"
    using place_end_insert(3) [of cs ?c from' from' ?n] a ft by (simp add: node_Size_def mk_node_def)
  have nested': "nested (insert_at from' ?n cs)"
  proof (rule nested_insert [where p = from' and c = ?c and s = "to' + 1 - from'" and E = ?E])
    fix k assume k: "k < length ?c"
    show "place_end (insert_at from' ?n cs) (shift_at from' k) = ?E k \<and> shift_at from' k < ?E k \<and> ?E k \<le> length ?c + 1"
      using e [OF k] nestedD(2,3) [OF nest k] by (auto simp: shift_at_def)
  next
    fix i j assume ij: "j < length ?c" "shift_at from' i < shift_at from' j" "shift_at from' j < ?E i" "i < length ?c"
    have "i < j" "j < place_end ?c i"
      using ij before [of i] ft by (auto simp: shift_at_def split: if_splits)
    then have "place_end ?c j \<le> place_end ?c i" "j < place_end ?c j"
      using nestedD(4) [OF nest ij(4)] nestedD(2) [OF nest ij(1)] by blast+
    then show "?E j \<le> ?E i" using before [of i] before [of j] ij(1,4) \<open>i < j\<close> by (auto split: if_splits)
  next
    fix i assume "i < from'" "from' < ?E i"
    then show "from' + (to' + 1 - from') \<le> ?E i" using before [of i] ft by (auto split: if_splits)
  next
    fix j assume "from' \<le> j" "j < length ?c" "j + 1 < from' + (to' + 1 - from')"
    then show "?E j \<le> from' + (to' + 1 - from')" using inside [of j] ft by auto
  qed (use ft len new in simp_all)
  show ?thesis unfolding t'
  proof (rule balanced_insert [OF assms(1) nested' len])
    fix b assume b: "b \<in> set (activeBrackets t)"
    note d = balancedD(1-3) [OF assms(1) b]
    show "IsSubTree (insert_at from' ?n cs ! shift_at from' b) \<and>
        place_end (insert_at from' ?n cs) (shift_at from' b) = length (insert_at from' ?n cs)"
      using e [OF d(1)] d place_end_insert(2) [of cs ?c from' b ?n] a len ft by simp
    show "place_end (insert_at from' ?n cs) from' \<le> b + 1" if "from' \<le> b"
      using that new assms(3) b by auto
    show "b < place_end ?c i" if "i < b" "shift_at from' b < place_end (insert_at from' ?n cs) (shift_at from' i)" for i
      using that e [of i] d(1) before [of i] ft by (auto simp: shift_at_def split: if_splits)
  qed (use ft in simp)
qed

text \<open>Erasing a range: \<open>origin\<close> is the old index of a place that stays.\<close>

definition origin :: "nat \<Rightarrow> nat \<Rightarrow> nat \<Rightarrow> nat" where
  "origin from' to' k = (if k < from' then k else k + (to' - from'))"

lemma etree_Erase_balanced:
  assumes "balanced t" "etree_Erase t from' to' = Inr t'"
  shows "balanced t'"
proof -
  let ?c = "container t" and ?o = "origin from' to'"
  define d where "d = to' - from'"
  note nest = balanced_parts(1) [OF assms(1)]
  obtain cs where cs: "erase_before from' to' 0 ?c = Inr cs" and ft: "from' \<le> to'" "to' \<le> length ?c"
    and t': "t' = \<lparr>container = take from' cs @ drop to' cs,
      activeBrackets = map (\<lambda>b. if b \<ge> to' then b - d else b) (filter (\<lambda>b. \<not> (from' \<le> b \<and> b < to')) (activeBrackets t))\<rparr>"
    using assms(2) by (cases t) (auto simp: etree_Erase_def res_simps d_def split: if_splits)
  note a = erase_before_at [OF cs]
  let ?c' = "take from' cs @ drop to' cs"
  have len: "length ?c' = length ?c - d" "length cs = length ?c" using a ft by (auto simp: d_def)
  have bound: "?o k < length ?c" if "k < length ?c'" for k
    using that len ft by (auto simp: origin_def d_def split: if_splits)
  have at: "?c' ! k = cs ! ?o k" if "k < length ?c'" for k
    using that len ft by (auto simp: origin_def nth_append d_def add.commute intro!: arg_cong [where f = "(!) cs"])
  define \<delta> where "\<delta> e = (if to' \<le> e then e - d else e)" for e
  have leaf: "place_end ?c k = k + 1" if "\<not> IsSubTree (?c ! k)" for k using place_end_leaf that by blast
  have before: "to' \<le> place_end ?c k \<or> place_end ?c k \<le> from'" if "k < length ?c" "k < from'" for k
    using a that leaf [of k] by (cases "IsSubTree (?c ! k)") (auto simp: place_end_def)
  have e: "place_end ?c' k = \<delta> (place_end ?c (?o k))" if k: "k < length ?c'" for k
  proof (cases "k < from'")
    case True
    then have o: "?o k = k" by (simp add: origin_def)
    have "k < length ?c" using bound [OF k] o by simp
    then show ?thesis using at [OF k] o a leaf [of k] True ft
      by (cases "IsSubTree (?c ! k)") (auto simp: place_end_def \<delta>_def d_def)
  next
    case False
    then have o: "?o k = k + d" "to' \<le> ?o k" by (simp_all add: origin_def d_def)
    have "node_Size (cs ! ?o k) = node_Size (?c ! ?o k)" using a bound [OF k] o(2) ft by auto
    then show ?thesis using at [OF k] o by (simp add: place_end_def \<delta>_def)
  qed
  have inner: "?o k < ?o j \<and> ?o j < place_end ?c (?o k)"
    if "k < length ?c'" "k < j" "j < place_end ?c' k" for k j
  proof
    show "?o k < ?o j" using that(2) by (auto simp: origin_def)
    have "j < \<delta> (place_end ?c (?o k))" using that(3) e [OF that(1)] by simp
    moreover have "to' \<le> place_end ?c (?o k) \<or> place_end ?c (?o k) \<le> from' \<and> k < from'"
    proof (cases "k < from'")
      case True
      then have "?o k = k" by (simp add: origin_def)
      then show ?thesis using before [of k] bound [OF that(1)] True by simp
    next
      case False
      then have "to' \<le> ?o k" by (simp add: origin_def)
      then show ?thesis using nestedD(2) [OF nest bound [OF that(1)]] by linarith
    qed
    ultimately show "?o j < place_end ?c (?o k)"
      using ft by (auto simp: origin_def \<delta>_def d_def split: if_splits)
  qed
  have mono: "\<delta> (place_end ?c x) \<le> \<delta> (place_end ?c y)"
    if "place_end ?c x \<le> place_end ?c y" "x < length ?c" "x < from' \<or> to' \<le> x" for x y
    using that before [of x] nestedD(2) [OF nest that(2)] ft by (auto simp: \<delta>_def d_def)
  have oo: "?o k < from' \<or> to' \<le> ?o k" for k by (auto simp: origin_def)
  have nested': "nested ?c'"
    unfolding nested_def
  proof (intro allI impI conjI)
    fix k assume k: "k < length ?c'"
    have "k < \<delta> (place_end ?c (?o k))" "\<delta> (place_end ?c (?o k)) \<le> length ?c'"
      using nestedD(2,3) [OF nest bound [OF k]] before [of k] bound [OF k] ft len
      by (auto simp: origin_def \<delta>_def d_def split: if_splits)
    then show "0 < node_Size (?c' ! k)" "place_end ?c' k \<le> length ?c'" using e [OF k] by (auto simp: place_end_def)
    fix j assume j: "k < j \<and> j < place_end ?c' k"
    note i = inner [OF k conjunct1 [OF j] conjunct2 [OF j]]
    have jl: "j < length ?c'" using j \<open>place_end ?c' k \<le> length ?c'\<close> by linarith
    have "place_end ?c (?o j) \<le> place_end ?c (?o k)" using nestedD(4) [OF nest bound [OF k]] i by blast
    then show "place_end ?c' j \<le> place_end ?c' k" using mono [OF _ bound [OF jl] oo] e [OF k] e [OF jl] by simp
  qed
  have as: "b' \<in> set (activeBrackets t') \<longleftrightarrow> ?o b' \<in> set (activeBrackets t)" for b'
  proof
    assume "b' \<in> set (activeBrackets t')"
    then show "?o b' \<in> set (activeBrackets t)" using ft by (auto simp: t' origin_def d_def split: if_splits)
  next
    assume b: "?o b' \<in> set (activeBrackets t)"
    moreover have "b' = (if ?o b' \<ge> to' then ?o b' - d else ?o b')" using ft by (auto simp: origin_def d_def)
    moreover have "\<not> (from' \<le> ?o b' \<and> ?o b' < to')" using oo [of b'] by auto
    ultimately have "b' = (if ?o b' \<ge> to' then ?o b' - d else ?o b')"
      "?o b' \<in> set (filter (\<lambda>b. \<not> (from' \<le> b \<and> b < to')) (activeBrackets t))" by simp_all
    then show "b' \<in> set (activeBrackets t')" unfolding t' etree.simps set_map by (rule image_eqI)
  qed
  show ?thesis
  proof (rule balancedI)
    show "nested (container t')" using nested' by (simp add: t')
    have "sorted_wrt (<) (filter (\<lambda>b. \<not> (from' \<le> b \<and> b < to')) (activeBrackets t))"
      using balanced_parts(2) [OF assms(1)] by (rule sorted_wrt_filter)
    then show "sorted_wrt (<) (activeBrackets t')"
      unfolding t' etree.simps sorted_wrt_map
      by (rule sorted_wrt_mono_rel [rotated]) (use ft in \<open>auto simp: d_def\<close>)
  next
    fix b assume b: "b \<in> set (activeBrackets t')"
    note D = balancedD [OF assms(1) as [THEN iffD1, OF b]]
    have bl: "b < length ?c'" using D(1) len ft by (auto simp: origin_def d_def split: if_splits)
    then show "b < length (container t')" by (simp add: t')
    show "IsSubTree (container t' ! b)" using at [OF bl] D(1,2) a by (simp add: t')
    show "place_end (container t') b = length (container t')"
      using e [OF bl] D(3) len ft by (simp add: t' \<delta>_def)
    fix i assume i: "i < b" "b < place_end (container t') i"
    have "i < length ?c'" using i(1) bl by simp
    from inner [OF this i(1)] i(2) have o: "?o i < ?o b" "?o b < place_end ?c (?o i)" by (simp_all add: t')
    show "i \<in> set (activeBrackets t')" by (rule as [THEN iffD2, OF D(4) [OF o]])
  qed
qed

lemma append_active_at:
  "distinct is \<Longrightarrow> (\<And>i. i \<in> set is \<Longrightarrow> i < length (container t) \<and> IsSubTree (container t ! i)) \<Longrightarrow>
   \<exists>cs. append_active is t = Inr (t\<lparr>container := cs\<rparr>) \<and> length cs = length (container t) \<and>
     (\<forall>k < length cs. IsSubTree (cs ! k) = IsSubTree (container t ! k) \<and>
        node_Size (cs ! k) = node_Size (container t ! k) + (if k \<in> set is then 1 else 0))"
proof (induction "is" arbitrary: t)
  case Nil
  show ?case by (rule exI [of _ "container t"]) simp
next
  case (Cons i "is")
  obtain s p where n: "nd_storage (container t ! i) = SubTree s p" "i < length (container t)"
    using Cons.prems(2) [of i] by (auto simp: IsSubTree_def split: storage.splits)
  let ?n = "(container t ! i)\<lparr>nd_storage := SubTree (s + 1) p\<rparr>"
  let ?t = "t\<lparr>container := (container t)[i := ?n]\<rparr>"
  have u: "update_node t i node_Append = Inr ?t" by (simp add: update_node_def node_at_def node_Append_def n)
  have sz: "IsSubTree ?n" "node_Size ?n = node_Size (container t ! i) + 1" by (simp_all add: IsSubTree_def node_Size_def n)
  have "j < length (container ?t) \<and> IsSubTree (container ?t ! j)" if "j \<in> set is" for j
    using Cons.prems(2) [of j] that sz by (cases "j = i") simp_all
  from Cons.IH [OF _ this] Cons.prems(1) obtain cs where cs: "append_active is ?t = Inr (?t\<lparr>container := cs\<rparr>)"
    "length cs = length (container t)"
    "\<forall>k < length cs. IsSubTree (cs ! k) = IsSubTree (container ?t ! k) \<and>
        node_Size (cs ! k) = node_Size (container ?t ! k) + (if k \<in> set is then 1 else 0)" by auto
  have "IsSubTree (cs ! k) = IsSubTree (container t ! k) \<and>
      node_Size (cs ! k) = node_Size (container t ! k) + (if k \<in> set (i # is) then 1 else 0)" if "k < length cs" for k
    using cs(2,3) that Cons.prems(1) sz n by (cases "k = i") (simp_all add: IsSubTree_def)
  then show ?case using u cs(1,2) by (intro exI [of _ cs]) simp
qed

text \<open>A new last place of size one: a leaf, or an open bracket.\<close>

lemma balanced_push:
  assumes "balanced t" "node_Size n = 1" "as = activeBrackets t \<or> as = activeBrackets t @ [length (container t)] \<and> IsSubTree n"
  obtains cs where "append_active (activeBrackets t) t = Inr (t\<lparr>container := cs\<rparr>)" "length cs = length (container t)"
    "balanced \<lparr>container = cs @ [n], activeBrackets = as\<rparr>"
proof -
  let ?c = "container t"
  note nest = balanced_parts(1) [OF assms(1)] and sorted = balanced_parts(2) [OF assms(1)]
  have "distinct (activeBrackets t)" using sorted by (simp add: strict_sorted_iff)
  from append_active_at [OF this, of t] balancedD(1,2) [OF assms(1)]
  obtain cs where cs: "append_active (activeBrackets t) t = Inr (t\<lparr>container := cs\<rparr>)" "length cs = length ?c"
    "\<And>k. k < length ?c \<Longrightarrow> IsSubTree (cs ! k) = IsSubTree (?c ! k)"
    "\<And>k. k < length ?c \<Longrightarrow> node_Size (cs ! k) = node_Size (?c ! k) + (if k \<in> set (activeBrackets t) then 1 else 0)"
    by auto
  have e: "place_end (cs @ [n]) k = place_end ?c k + (if k \<in> set (activeBrackets t) then 1 else 0)"
    if "k < length ?c" for k using that cs by (simp add: place_end_def nth_append)
  have full: "place_end ?c k = length ?c" if "k \<in> set (activeBrackets t)" for k
    using that balancedD(3) [OF assms(1)] by simp
  have new: "place_end (cs @ [n]) (length ?c) = length ?c + 1" using assms(2) cs(2) by (simp add: place_end_def nth_append)
  have nested': "nested (cs @ [n])"
    unfolding nested_def
  proof (intro allI impI conjI)
    fix i assume i: "i < length (cs @ [n])"
    show "0 < node_Size ((cs @ [n]) ! i)"
      using i nestedD(1) [OF nest, of i] cs assms(2) by (auto simp: nth_append less_Suc_eq)
    show "place_end (cs @ [n]) i \<le> length (cs @ [n])"
      using i e [of i] new nestedD(3) [OF nest, of i] full [of i] cs(2) by (cases "i = length ?c") auto
    fix j assume j: "i < j \<and> j < place_end (cs @ [n]) i"
    have il: "i < length ?c" using i j new cs(2) by (cases "i = length ?c") auto
    show "place_end (cs @ [n]) j \<le> place_end (cs @ [n]) i"
    proof (cases "i \<in> set (activeBrackets t)")
      case True
      then have ei: "place_end (cs @ [n]) i = length ?c + 1" using e [OF il] full by simp
      then have "j < length ?c \<or> j = length ?c" using j by auto
      then show ?thesis using ei e [of j] new full [of j] nestedD(3) [OF nest, of j] by auto
    next
      case False
      then have ei: "place_end (cs @ [n]) i = place_end ?c i" using e [OF il] by simp
      then have jl: "j < place_end ?c i" "j < length ?c" using j nestedD(3) [OF nest il] by auto
      have "j \<notin> set (activeBrackets t)" using balancedD(4) [OF assms(1) _ conjunct1 [OF j] jl(1)] False by blast
      then show ?thesis using ei e [OF jl(2)] nestedD(4) [OF nest il conjunct1 [OF j] jl(1)] by simp
    qed
  qed
  have as: "b \<in> set as \<Longrightarrow> b \<in> set (activeBrackets t) \<or> b = length ?c \<and> IsSubTree n" for b using assms(3) by auto
  have sub: "set (activeBrackets t) \<subseteq> set as" using assms(3) by auto
  have "balanced \<lparr>container = cs @ [n], activeBrackets = as\<rparr>"
  proof (rule balancedI, unfold etree.simps)
    show "nested (cs @ [n])" by (rule nested')
    show "sorted_wrt (<) as" using assms(3) sorted balancedD(1) [OF assms(1)] by (auto simp: sorted_wrt_append)
  next
    fix b assume b: "b \<in> set as"
    show "b < length (cs @ [n])" using as [OF b] balancedD(1) [OF assms(1)] cs(2) by (auto intro: less_SucI)
    show "IsSubTree ((cs @ [n]) ! b)"
      using as [OF b] balancedD(1,2) [OF assms(1)] cs(2,3) by (auto simp: nth_append)
    show "place_end (cs @ [n]) b = length (cs @ [n])"
      using as [OF b] e full new balancedD(1) [OF assms(1)] cs(2) by auto
    fix i assume i: "i < b" "b < place_end (cs @ [n]) i"
    show "i \<in> set as"
    proof (cases "i \<in> set (activeBrackets t)")
      case False
      have "i < length ?c" using i(1) as [OF b] balancedD(1) [OF assms(1)] by fastforce
      then have bi: "b < place_end ?c i" "i < length ?c" using e [of i] False i(2) by simp_all
      then have "b < length ?c" using nestedD(3) [OF nest bi(2)] by simp
      then have "b \<in> set (activeBrackets t)" using as [OF b] by auto
      then show ?thesis using balancedD(4) [OF assms(1) _ i(1) bi(1)] False by blast
    qed (use sub in blast)
  qed
  then show ?thesis using that cs(1,2) by blast
qed

lemma etree_Append_balanced: "balanced t \<Longrightarrow> \<exists>t'. etree_Append t oper v = Inr (1, t') \<and> balanced t'"
  by (cases t, rule balanced_push [of t "mk_node oper (Leaf v)" "activeBrackets t"])
     (auto simp: etree_Append_def node_Size_def mk_node_def)

lemma OpenBracket_balanced: "balanced t \<Longrightarrow> \<exists>t'. OpenBracket t oper p = Inr t' \<and> balanced t'"
  by (cases t, rule balanced_push [of t "mk_node oper (SubTree 1 p)" "activeBrackets t @ [length (container t)]"])
     (auto simp: OpenBracket_def node_Size_def mk_node_def IsSubTree_def)

lemma CloseBracket_balanced:
  assumes "balanced t" "CloseBracket t = Inr t'"
  shows "balanced t'"
proof -
  note sorted = balanced_parts(2) [OF assms(1)]
  obtain as b where as: "activeBrackets t = as @ [b]"
    using assms(2) by (cases "activeBrackets t" rule: rev_cases) (auto simp: CloseBracket_def)
  then have t': "t' = t\<lparr>activeBrackets := as\<rparr>" using assms(2) by (auto simp: CloseBracket_def)
  show ?thesis
  proof (rule balancedI)
    show "nested (container t')" using balanced_parts(1) [OF assms(1)] by (simp add: t')
    show "sorted_wrt (<) (activeBrackets t')" using sorted by (simp add: t' as sorted_wrt_append)
  next
    fix x assume "x \<in> set (activeBrackets t')"
    then have x: "x \<in> set as" "x < b" using sorted by (simp_all add: t' as sorted_wrt_append)
    then have xa: "x \<in> set (activeBrackets t)" by (simp add: as)
    note D = balancedD [OF assms(1) xa]
    show "x < length (container t')" "IsSubTree (container t' ! x)" "place_end (container t') x = length (container t')"
      using D(1-3) by (simp_all add: t')
    fix i assume i: "i < x" "x < place_end (container t') i"
    then have "i \<in> set (activeBrackets t)" using D(4) [of i] by (simp add: t')
    then show "i \<in> set (activeBrackets t')" using i(1) x(2) by (simp add: t' as)
  qed
qed

lemma AppendFront_balanced:
  assumes "balanced t" "AppendFront t oper v = (k, t')"
  shows "balanced t'"
proof -
  let ?n = "mk_node oper (Leaf v)"
  have t': "t' = \<lparr>container = insert_at 0 ?n (container t), activeBrackets = map (shift_at 0) (activeBrackets t)\<rparr>"
    using assms(2) by (cases t) (auto simp: AppendFront_def insert_at_def shift_at_def)
  note nest = balanced_parts(1) [OF assms(1)]
  have e: "place_end (insert_at 0 ?n (container t)) (shift_at 0 k) = place_end (container t) k + 1"
    if "k < length (container t)" for k
    using place_end_insert(1) [of "container t" "container t" 0 k ?n] that by (simp add: shift_at_def place_end_def)
  have new: "place_end (insert_at 0 ?n (container t)) 0 = 1"
    by (simp add: insert_at_def place_end_def node_Size_def mk_node_def)
  have len: "length (insert_at 0 ?n (container t)) = length (container t) + 1" by (simp add: insert_at_def)
  have nested': "nested (insert_at 0 ?n (container t))"
  proof (rule nested_insert [where p = 0 and c = "container t" and s = 1 and E = "\<lambda>k. place_end (container t) k + 1"])
    fix k assume k: "k < length (container t)"
    show "place_end (insert_at 0 ?n (container t)) (shift_at 0 k) = place_end (container t) k + 1 \<and>
        shift_at 0 k < place_end (container t) k + 1 \<and> place_end (container t) k + 1 \<le> length (container t) + 1"
      using e [OF k] nestedD(2,3) [OF nest k] by (simp add: shift_at_def)
  next
    fix i j assume "j < length (container t)" "shift_at 0 i < shift_at 0 j"
      "shift_at 0 j < place_end (container t) i + 1" "i < length (container t)"
    then show "place_end (container t) j + 1 \<le> place_end (container t) i + 1"
      using nestedD(4) [OF nest, of i j] by (simp add: shift_at_def)
  qed (use new len in simp_all)
  show ?thesis unfolding t'
  proof (rule balanced_insert [OF assms(1) nested' len])
    fix b assume b: "b \<in> set (activeBrackets t)"
    note D = balancedD(1-3) [OF assms(1) b]
    show "IsSubTree (insert_at 0 ?n (container t) ! shift_at 0 b) \<and>
        place_end (insert_at 0 ?n (container t)) (shift_at 0 b) = length (insert_at 0 ?n (container t))"
      using e [OF D(1)] D len by (simp add: shift_at_def insert_at_def)
    show "b < place_end (container t) i" if "i < b" "shift_at 0 b < place_end (insert_at 0 ?n (container t)) (shift_at 0 i)" for i
      using that e [of i] D(1) by (simp add: shift_at_def)
  qed (use new in simp_all)
qed

lemma balanced_cong:
  assumes "balanced t" "activeBrackets t' = activeBrackets t" "length (container t') = length (container t)"
    "\<And>k. k < length (container t) \<Longrightarrow> IsSubTree (container t' ! k) = IsSubTree (container t ! k)"
    "\<And>k. k < length (container t) \<Longrightarrow> node_Size (container t' ! k) = node_Size (container t ! k)"
  shows "balanced t'"
proof -
  have e: "place_end (container t') k = place_end (container t) k" if "k < length (container t)" for k
    using assms(5) that by (simp add: place_end_def)
  note nest = balanced_parts(1) [OF assms(1)]
  show ?thesis
  proof (rule balancedI)
    show "nested (container t')"
      unfolding nested_def
    proof (intro allI impI conjI)
      fix i assume i: "i < length (container t')"
      then have i': "i < length (container t)" by (simp add: assms(3))
      show "0 < node_Size (container t' ! i)" "place_end (container t') i \<le> length (container t')"
        using nestedD(1,3) [OF nest i'] e [OF i'] assms(3) assms(5) [OF i'] by simp_all
      fix j assume "i < j \<and> j < place_end (container t') i"
      then have j: "i < j" "j < place_end (container t) i" using e [OF i'] by simp_all
      then have "j < length (container t)" using nestedD(3) [OF nest i'] by simp
      then show "place_end (container t') j \<le> place_end (container t') i"
        using nestedD(4) [OF nest i' j] e [OF i'] e by simp
    qed
    show "sorted_wrt (<) (activeBrackets t')" using balanced_parts(2) [OF assms(1)] assms(2) by simp
  next
    fix b assume "b \<in> set (activeBrackets t')"
    then have "b \<in> set (activeBrackets t)" by (simp add: assms(2))
    note D = balancedD [OF assms(1) this]
    show "b < length (container t')" "IsSubTree (container t' ! b)" "place_end (container t') b = length (container t')"
      using D(1-3) assms(3,4) e by simp_all
    fix i assume "i < b" "b < place_end (container t') i"
    then show "i \<in> set (activeBrackets t')" using D(1,4) e [of i] assms(2) by simp
  qed
qed

lemma update_node_balanced:
  assumes "balanced t" "update_node t i f = Inr t'"
    "\<And>n n'. f n = Inr n' \<Longrightarrow> n = container t ! i \<Longrightarrow> IsSubTree n' = IsSubTree n \<and> node_Size n' = node_Size n"
  shows "balanced t'"
proof -
  obtain n' where n': "f (container t ! i) = Inr n'" "t' = t\<lparr>container := (container t)[i := n']\<rparr>" "i < length (container t)"
    using assms(2) by (auto simp: update_node_def node_at_def res_simps split: if_splits)
  note s = assms(3) [OF n'(1) refl]
  show ?thesis
  proof (rule balanced_cong [OF assms(1)])
    fix k assume "k < length (container t)"
    then show "IsSubTree (container t' ! k) = IsSubTree (container t ! k)" "node_Size (container t' ! k) = node_Size (container t ! k)"
      using s n'(2) by (cases "k = i"; simp)+
  qed (simp_all add: n')
qed

text \<open>
  Taking the last place away: only the open brackets around it are told, so \<open>PopBack\<close> keeps the balance
  exactly when every bracket around the last place is open.
\<close>

definition last_place_open :: "('o, 's, 'v) etree \<Rightarrow> bool" where
  "last_place_open t \<longleftrightarrow> (\<forall>i < length (container t) - 1.
     place_end (container t) i = length (container t) \<longrightarrow> i \<in> set (activeBrackets t))"

lemma erase_active_at:
  "erase_active is t = Inr t' \<Longrightarrow> distinct is \<Longrightarrow>
   activeBrackets t' = activeBrackets t \<and> length (container t') = length (container t) \<and>
   (\<forall>k < length (container t). IsSubTree (container t' ! k) = IsSubTree (container t ! k) \<and>
      node_Size (container t' ! k) = node_Size (container t ! k) - (if k \<in> set is then 1 else 0) \<and>
      (k \<in> set is \<longrightarrow> 1 < node_Size (container t ! k)))"
proof (induction "is" arbitrary: t)
  case (Cons i "is")
  obtain u where u: "update_node t i (\<lambda>n. node_Erase n 1) = Inr u" "erase_active is u = Inr t'"
    using Cons.prems(1) by (auto simp: res_simps)
  then obtain n where n: "node_Erase (container t ! i) 1 = Inr n" "u = t\<lparr>container := (container t)[i := n]\<rparr>" "i < length (container t)"
    by (auto simp: update_node_def node_at_def res_simps split: if_splits)
  then have "IsSubTree n = IsSubTree (container t ! i)" "node_Size n = node_Size (container t ! i) - 1" "1 < node_Size (container t ! i)"
    by (auto simp: node_Erase_def IsSubTree_def node_Size_def split: storage.splits if_splits)
  then show ?case using Cons.IH [OF u(2)] Cons.prems(2) n(2,3) by (auto simp: nth_list_update)
qed simp

lemma PopBack_places:
  assumes b: "balanced t" and p: "PopBack t = Inr t'"
  shows "activeBrackets t' = activeBrackets t" "length (container t') + 1 = length (container t)"
    "\<And>b. b \<in> set (activeBrackets t) \<Longrightarrow> b < length (container t')"
    "\<And>k. k < length (container t') \<Longrightarrow> IsSubTree (container t' ! k) = IsSubTree (container t ! k)"
    "\<And>k. k < length (container t') \<Longrightarrow>
       place_end (container t') k = place_end (container t) k - (if k \<in> set (activeBrackets t) then 1 else 0)"
proof -
  let ?c = "container t" and ?A = "activeBrackets t"
  have ne: "?c \<noteq> []" using p by (auto simp: PopBack_def)
  obtain u where u: "erase_active ?A t = Inr u"
    using p ne by (cases "erase_active ?A t") (simp_all add: PopBack_def)
  have d: "distinct ?A" using balanced_parts(2) [OF b] by (simp add: strict_sorted_iff)
  note e = erase_active_at [OF u d]
  have uc: "activeBrackets u = ?A" "length (container u) = length ?c" using e by simp_all
  have ek: "IsSubTree (container u ! k) = IsSubTree (?c ! k)"
    "node_Size (container u ! k) = node_Size (?c ! k) - (if k \<in> set ?A then 1 else 0)"
    "k \<in> set ?A \<Longrightarrow> 1 < node_Size (?c ! k)" if "k < length ?c" for k
    using e that by simp_all
  have in_front: "x < length ?c - 1" if "x \<in> set ?A" for x
    using ek(3) [OF balancedD(1) [OF b that] that] balancedD(3) [OF b that] by (simp add: place_end_def)
  have "\<not> (?A \<noteq> [] \<and> last ?A = length ?c - 1)" using in_front [OF last_in_set] by fastforce
  then have "\<not> (IsSubTree (last (container u)) \<and> activeBrackets u \<noteq> [] \<and> last (activeBrackets u) = length (container u) - 1)"
    using uc by simp
  then have t': "t' = u\<lparr>container := butlast (container u)\<rparr>"
    using p ne u by (simp only: PopBack_def if_False bind_res_simps Let_def sum.inject)
  show "activeBrackets t' = ?A" by (simp add: t' uc)
  show len1: "length (container t') + 1 = length ?c" using ne by (simp add: t' uc)
  then have len: "length (container t') = length ?c - 1" by simp
  show "x < length (container t')" if "x \<in> set ?A" for x using in_front [OF that] len by simp
  have at: "container t' ! k = container u ! k" "k < length ?c" if "k < length (container t')" for k
    using that len by (simp_all add: t' uc nth_butlast)
  show "IsSubTree (container t' ! k) = IsSubTree (?c ! k)" if "k < length (container t')" for k
    using at [OF that] ek(1) by simp
  show "place_end (container t') k = place_end ?c k - (if k \<in> set ?A then 1 else 0)" if "k < length (container t')" for k
    using at [OF that] ek(2,3) [of k] by (cases "k \<in> set ?A") (simp_all add: place_end_def)
qed

lemma PopBack_balanced:
  assumes b: "balanced t" and p: "PopBack t = Inr t'"
  shows "balanced t' \<longleftrightarrow> last_place_open t"
proof -
  let ?c = "container t" and ?c' = "container t'" and ?A = "activeBrackets t"
  note P = PopBack_places [OF b p] and nest = balanced_parts(1) [OF b]
  have len: "length ?c' = length ?c - 1" using P(2) by simp
  show ?thesis
  proof
    assume b': "balanced t'"
    have "i \<in> set ?A" if i: "i < length ?c - 1" "place_end ?c i = length ?c" for i
      using nestedD(3) [OF balanced_parts(1) [OF b'], of i] P(2) P(5) [of i] i len by (cases "i \<in> set ?A") auto
    then show "last_place_open t" by (simp add: last_place_open_def)
  next
    assume o: "last_place_open t"
    have e: "place_end ?c' k = min (place_end ?c k) (length ?c')" if "k < length ?c'" for k
    proof (cases "k \<in> set ?A")
      case True
      then show ?thesis using P(2) P(5) [of k] that balancedD(3) [OF b True] by simp
    next
      case False
      then have "place_end ?c k \<noteq> length ?c" using o that len by (auto simp: last_place_open_def)
      then show ?thesis using P(2) P(5) [of k] that False nestedD(3) [OF nest, of k] by simp
    qed
    show "balanced t'"
    proof (rule balancedI)
      show "nested ?c'" unfolding nested_def
      proof (intro allI impI conjI)
        fix i assume i: "i < length ?c'"
        then have il: "i < length ?c" using P(2) by simp
        have "i < place_end ?c' i" using e [OF i] nestedD(2) [OF nest il] i by simp
        then show "0 < node_Size (?c' ! i)" by (simp add: place_end_def)
        show "place_end ?c' i \<le> length ?c'" using e [OF i] by simp
        fix j assume j: "i < j \<and> j < place_end ?c' i"
        then have "j < length ?c'" "j < place_end ?c i" using e [OF i] by simp_all
        then show "place_end ?c' j \<le> place_end ?c' i" using e [OF i] e [of j] nestedD(4) [OF nest il, of j] j by simp
      qed
      show "sorted_wrt (<) (activeBrackets t')" using balanced_parts(2) [OF b] P(1) by simp
    next
      fix x assume "x \<in> set (activeBrackets t')"
      then have x: "x \<in> set ?A" by (simp add: P(1))
      note D = balancedD [OF b x]
      show "x < length ?c'" by (rule P(3) [OF x])
      show "IsSubTree (?c' ! x)" using P(4) [OF P(3) [OF x]] D(2) by simp
      show "place_end ?c' x = length ?c'" using e [OF P(3) [OF x]] D(3) P(2) by simp
      fix i assume i: "i < x" "x < place_end ?c' i"
      then have "x < place_end ?c i" using e [of i] P(3) [OF x] by simp
      then show "i \<in> set (activeBrackets t')" using D(4) [OF i(1)] P(1) by simp
    qed
  qed
qed

text \<open>
  The calls on a tree, with what they leave to their callers: the last place is taken away only when every
  bracket around it is open, a value is set only where there was one, a value is inserted after a value only,
  and a range that holds an open bracket is not enclosed. Copying a range is \<open>Append(begin, end)\<close>.
\<close>

inductive etree_step :: "('o, 's, 'v) etree \<Rightarrow> ('o, 's, 'v) etree \<Rightarrow> bool" where
  Append: "etree_Append t oper v = Inr (k, t') \<Longrightarrow> etree_step t t'"
| AppendRange: "etree_append f t ns = Inr t' \<Longrightarrow> etree_step t t'"
| AppendFront: "AppendFront t oper v = (k, t') \<Longrightarrow> etree_step t t'"
| PopBack: "PopBack t = Inr t' \<Longrightarrow> last_place_open t \<Longrightarrow> etree_step t t'"
| OpenBracket: "OpenBracket t oper p = Inr t' \<Longrightarrow> etree_step t t'"
| CloseBracket: "CloseBracket t = Inr t' \<Longrightarrow> etree_step t t'"
| SetLastOperation: "SetLastOperation t oper = Inr t' \<Longrightarrow> etree_step t t'"
| SetOperation: "SetOperation t oper i = Inr t' \<Longrightarrow> etree_step t t'"
| SetValue: "etree_SetValue t i v = Inr (k, t') \<Longrightarrow> \<not> IsSubTree (container t ! i) \<Longrightarrow> etree_step t t'"
| Insert: "etree_Insert t pos oper v = Inr (k, t') \<Longrightarrow> etree_step t t'"
| Emplace: "etree_Emplace t pos oper v = Inr (k, t') \<Longrightarrow> etree_step t t'"
| InsertAfter: "InsertAfter t pos oper v = Inr (k, t') \<Longrightarrow> \<not> IsSubTree (container t ! pos) \<Longrightarrow> etree_step t t'"
| Enclose: "EncloseInBracket t from' to' oper p = Inr t' \<Longrightarrow>
    \<forall>b \<in> set (activeBrackets t). \<not> (from' \<le> b \<and> b < to') \<Longrightarrow> etree_step t t'"
| Erase: "etree_Erase t from' to' = Inr t' \<Longrightarrow> etree_step t t'"

lemma Emplace_Insert: "etree_Emplace t pos oper v = Inr x \<Longrightarrow> etree_Insert t pos oper v = Inr x"
  by (auto simp: etree_Emplace_def etree_Insert_def split: if_splits)

lemma etree_append_balanced: "etree_append f t ns = Inr t' \<Longrightarrow> balanced t \<Longrightarrow> balanced t'"
proof (induction f t ns arbitrary: t' rule: etree_append.induct)
  case (3 f t n ns)
  show ?case
  proof (cases "nd_storage n")
    case (Leaf v)
    then obtain u where u: "etree_Append t (nd_operation n) v = Inr (1, u)" "balanced u"
      using etree_Append_balanced [OF 3(5)] by blast
    have "etree_append f u ns = Inr t'" using 3(4) u(1) Leaf by simp
    then show ?thesis using 3(3) [OF Leaf _ _ _ u(2), of "(1, u)" 1] u(1) by simp
  next
    case (SubTree s p)
    then obtain u where u: "OpenBracket t (nd_operation n) p = Inr u" "balanced u"
      using OpenBracket_balanced [OF 3(5)] by blast
    obtain v w where v: "etree_append f u (take (s - 1) ns) = Inr v" and w: "CloseBracket v = Inr w"
      and r: "etree_append f w (drop (s - 1) ns) = Inr t'"
      using 3(4) u(1) SubTree by (simp add: bind_res_Inr) blast
    show ?thesis by (rule 3(2) [OF SubTree u(1) v w r CloseBracket_balanced [OF 3(1) [OF SubTree u(1) v u(2)] w]])
  qed
qed (auto split: if_splits)

lemma etree_step_balanced: "etree_step t t' \<Longrightarrow> balanced t \<Longrightarrow> balanced t'"
proof (induction rule: etree_step.induct)
  case (Append t oper v k t')
  then show ?case using etree_Append_balanced [of t oper v] by auto
next
  case (OpenBracket t oper p t')
  then show ?case using OpenBracket_balanced [of t oper p] by auto
next
  case (SetLastOperation t oper t')
  then obtain i where "update_node t i (\<lambda>n. Inr (n\<lparr>nd_operation := oper\<rparr>)) = Inr t'"
    by (auto simp: SetLastOperation_def res_simps)
  then show ?case by (rule update_node_balanced [OF SetLastOperation.prems]) (auto simp: IsSubTree_def node_Size_def)
next
  case (SetOperation t oper i t')
  then have "update_node t i (\<lambda>n. Inr (n\<lparr>nd_operation := oper\<rparr>)) = Inr t'" by (simp add: SetOperation_def)
  then show ?case by (rule update_node_balanced [OF SetOperation.prems]) (auto simp: IsSubTree_def node_Size_def)
next
  case (SetValue t i v k t')
  then have "update_node t i (\<lambda>n. Inr (node_SetValue n v)) = Inr t'" by (auto simp: etree_SetValue_def res_simps)
  then show ?case
    by (rule update_node_balanced [OF SetValue.prems])
       (use SetValue.hyps(2) in \<open>auto simp: IsSubTree_def node_Size_def node_SetValue_def split: storage.splits\<close>)
next
  case (Insert t pos oper v k t')
  show ?case
  proof (cases "pos = length (container t)")
    case True
    then have "etree_Append t oper v = Inr (k, t')" using Insert.hyps by (simp add: etree_Insert_def)
    then show ?thesis using etree_Append_balanced [OF Insert.prems, of oper v] by auto
  next
    case False
    then have "pos < length (container t)" using Insert.hyps by (auto simp: etree_Insert_def split: if_splits)
    then show ?thesis by (rule Insert_balanced [OF Insert.prems Insert.hyps])
  qed
next
  case (Emplace t pos oper v k t')
  note i = Emplace_Insert [OF Emplace.hyps]
  show ?case
  proof (cases "pos = length (container t)")
    case True
    then have "etree_Append t oper v = Inr (k, t')" using i by (simp add: etree_Insert_def)
    then show ?thesis using etree_Append_balanced [OF Emplace.prems, of oper v] by auto
  next
    case False
    then have "pos < length (container t)" using i by (auto simp: etree_Insert_def split: if_splits)
    then show ?thesis by (rule Insert_balanced [OF Emplace.prems i])
  qed
next
  case (InsertAfter t pos oper v k t')
  show ?case by (rule InsertAfter_balanced [OF InsertAfter.prems InsertAfter.hyps])
next
  case (Enclose t from' to' oper p t')
  show ?case by (rule EncloseInBracket_balanced [OF Enclose.prems Enclose.hyps])
next
  case (Erase t from' to' t')
  show ?case by (rule etree_Erase_balanced [OF Erase.prems Erase.hyps])
next
  case (AppendRange f t ns t')
  show ?case by (rule etree_append_balanced [OF AppendRange.hyps AppendRange.prems])
next
  case (PopBack t t')
  show ?case by (rule PopBack_balanced [OF PopBack.prems PopBack.hyps(1), THEN iffD2, OF PopBack.hyps(2)])
qed (rule AppendFront_balanced CloseBracket_balanced; assumption)+

lemma etree_empty_balanced: "balanced etree_empty"
  by (rule balancedI) (simp_all add: etree_empty_def nested_def)

text \<open>
  C5. An expression tree stays balanced under these calls: \<open>Append\<close> of a value or a range, \<open>AppendFront\<close>,
  \<open>OpenBracket\<close>, \<open>CloseBracket\<close>, \<open>SetLastOperation\<close>, \<open>SetOperation\<close>, \<open>Insert\<close>, \<open>Emplace\<close> and \<open>Erase\<close> in any
  case; \<open>SetValue\<close> at a value; \<open>InsertAfter\<close> a value; \<open>EncloseInBracket\<close> of a range without an open bracket; and
  \<open>PopBack\<close> when every bracket around the last place is open. A tree that these calls made from the empty one,
  in any order, has each place's extent inside the container and nested in the extents around it, and its active
  brackets are nested heads that reach the end. So walking from a place to its next sibling stays in the
  container, and appending and opening a bracket never fail.
\<close>

theorem etree_reachable_balanced:
  assumes "etree_step\<^sup>*\<^sup>* etree_empty t"
  shows "balanced t \<and> (\<forall>i < length (container t). \<exists>n. Next t i = Inr n \<and> i < n \<and> n \<le> length (container t)) \<and>
    (\<exists>t'. etree_Append t oper v = Inr (1, t')) \<and> (\<exists>t'. OpenBracket t oper p = Inr t')"
proof -
  have b: "balanced t" using assms
  proof (induction rule: rtranclp_induct)
    case base show ?case by (rule etree_empty_balanced)
  next
    case (step t t') then show ?case using etree_step_balanced by blast
  qed
  have "\<exists>n. Next t i = Inr n \<and> i < n \<and> n \<le> length (container t)" if "i < length (container t)" for i
    using nestedD(2,3) [OF balanced_parts(1) [OF b] that] that
    by (simp add: Next_def etree_Size_def node_at_def place_end_def)
  then show ?thesis using b etree_Append_balanced [OF b, of oper v] OpenBracket_balanced [OF b, of oper p] by blast
qed

theorem etree_reachable_balanced_witness:
  "balanced \<lparr>container = [mk_node False (SubTree 2 ()), mk_node True (Leaf (7::nat))], activeBrackets = [0]\<rparr>"
proof -
  define t :: "(bool, unit, nat) etree" where "t = \<lparr>container = [mk_node False (SubTree 1 ())], activeBrackets = [0]\<rparr>"
  define u :: "(bool, unit, nat) etree" where
    "u = \<lparr>container = [mk_node False (SubTree 2 ()), mk_node True (Leaf 7)], activeBrackets = [0]\<rparr>"
  have "OpenBracket etree_empty False () = Inr t" by (simp add: OpenBracket_def etree_empty_def t_def)
  then have s1: "etree_step etree_empty t" by (rule etree_step.OpenBracket)
  have "etree_Append t True 7 = Inr (1, u)"
    by (simp add: etree_Append_def update_node_def node_at_def node_Append_def mk_node_def t_def u_def)
  then have s2: "etree_step t u" by (rule etree_step.Append)
  have "etree_step\<^sup>*\<^sup>* etree_empty u"
    by (rule converse_rtranclp_into_rtranclp [where r = etree_step, OF s1], rule r_into_rtranclp, rule s2)
  then show ?thesis using etree_reachable_balanced [of u True 0 "()"] unfolding u_def by blast
qed

end
