(* ===== verification/WalRecord.thy ===== *)
theory WalRecord
  imports WrSerial
begin

unbundle bit_operations_syntax

section \<open>Records of the write-ahead log\<close>

text \<open>
  \<open>wal/walrecord.h\<close> and \<open>.cc\<close>: a record has a type, a flag telling whether it belongs to a transaction,
  and a union of payloads. The payload here is a datatype; reading a member of the union that shares
  its storage with the active one (the leading string) is modelled by the accessors, any other read is
  \<open>UB\<close>. A type read from the wire need not be one of the enumerators.
\<close>

subsection \<open>The record\<close>

datatype WALRecType =
    WalEmpty | WalReplState | WalItemUpdate | WalItemModify | WalIndexAdd | WalIndexDrop | WalIndexUpdate
  | WalPutMeta | WalUpdateQuery | WalNamespaceAdd | WalNamespaceDrop | WalNamespaceRename
  | WalInitTransaction | WalCommitTransaction | WalForceSync | WalSetSchema | WalWALSync
  | WalTagsMatcher | WalResetLocalWal | WalRawItem | WalShallowItem | WalDeleteMeta
  | WalOther u32

fun rectype_number :: "WALRecType \<Rightarrow> u32" where
  "rectype_number WalEmpty = 0"
| "rectype_number WalReplState = 1"
| "rectype_number WalItemUpdate = 2"
| "rectype_number WalItemModify = 3"
| "rectype_number WalIndexAdd = 4"
| "rectype_number WalIndexDrop = 5"
| "rectype_number WalIndexUpdate = 6"
| "rectype_number WalPutMeta = 7"
| "rectype_number WalUpdateQuery = 8"
| "rectype_number WalNamespaceAdd = 9"
| "rectype_number WalNamespaceDrop = 10"
| "rectype_number WalNamespaceRename = 11"
| "rectype_number WalInitTransaction = 12"
| "rectype_number WalCommitTransaction = 13"
| "rectype_number WalForceSync = 14"
| "rectype_number WalSetSchema = 15"
| "rectype_number WalWALSync = 16"
| "rectype_number WalTagsMatcher = 17"
| "rectype_number WalResetLocalWal = 18"
| "rectype_number WalRawItem = 19"
| "rectype_number WalShallowItem = 20"
| "rectype_number WalDeleteMeta = 21"
| "rectype_number (WalOther n) = n"

definition wal_rectypes :: "WALRecType list" where
  "wal_rectypes = [WalEmpty, WalReplState, WalItemUpdate, WalItemModify, WalIndexAdd, WalIndexDrop, WalIndexUpdate,
    WalPutMeta, WalUpdateQuery, WalNamespaceAdd, WalNamespaceDrop, WalNamespaceRename, WalInitTransaction,
    WalCommitTransaction, WalForceSync, WalSetSchema, WalWALSync, WalTagsMatcher, WalResetLocalWal, WalRawItem,
    WalShallowItem, WalDeleteMeta]"

definition rectype_of_number :: "u32 \<Rightarrow> WALRecType" where
  "rectype_of_number n = (if unat n < length wal_rectypes then wal_rectypes ! unat n else WalOther n)"

datatype wal_payload =
    P_none
  | P_id "32 word"
  | P_data bytes
  | P_itemModify bytes "32 word" u32
  | P_meta bytes bytes
  | P_rawItem "32 word" bytes

record wal_record =
  rec_type :: WALRecType
  rec_payload :: wal_payload
  rec_inTransaction :: bool

text \<open>Reads of the union: \<open>id\<close> and \<open>rawItem.id\<close> share their storage, as do the leading strings.\<close>

fun rec_id :: "wal_payload \<Rightarrow> (32 word) res" where
  "rec_id (P_id i) = Inr i"
| "rec_id (P_rawItem i _) = Inr i"
| "rec_id _ = Inl UB"

fun rec_data :: "wal_payload \<Rightarrow> bytes res" where
  "rec_data (P_data d) = Inr d"
| "rec_data (P_meta k v) = Inr k"
| "rec_data (P_itemModify c t m) = Inr c"
| "rec_data _ = Inl UB"

fun rec_meta :: "wal_payload \<Rightarrow> (bytes \<times> bytes) res" where
  "rec_meta (P_meta k v) = Inr (k, v)"
| "rec_meta _ = Inl UB"

fun rec_modify :: "wal_payload \<Rightarrow> (bytes \<times> 32 word \<times> u32) res" where
  "rec_modify (P_itemModify c t m) = Inr (c, t, m)"
| "rec_modify _ = Inl UB"

fun rec_raw :: "wal_payload \<Rightarrow> (32 word \<times> bytes) res" where
  "rec_raw (P_rawItem i c) = Inr (i, c)"
| "rec_raw _ = Inl UB"

subsection \<open>Packing\<close>

definition kTxBit :: u32 where "kTxBit = push_bit 7 1"

definition pack_header :: "wr_serializer \<Rightarrow> wal_record \<Rightarrow> wr_serializer res" where
  "pack_header ser r =
     PutVarUint32 ser (if rec_inTransaction r then rectype_number (rec_type r) OR kTxBit else rectype_number (rec_type r))"

fun pack_body :: "WALRecType \<Rightarrow> wal_payload \<Rightarrow> wr_serializer \<Rightarrow> wr_serializer res" where
  "pack_body WalItemUpdate p ser = bind_res (rec_id p) (PutUInt32 ser)"
| "pack_body WalShallowItem p ser = bind_res (rec_id p) (PutUInt32 ser)"
| "pack_body WalUpdateQuery p ser = bind_res (rec_data p) (PutVString ser)"
| "pack_body WalIndexAdd p ser = bind_res (rec_data p) (PutVString ser)"
| "pack_body WalIndexDrop p ser = bind_res (rec_data p) (PutVString ser)"
| "pack_body WalIndexUpdate p ser = bind_res (rec_data p) (PutVString ser)"
| "pack_body WalReplState p ser = bind_res (rec_data p) (PutVString ser)"
| "pack_body WalNamespaceRename p ser = bind_res (rec_data p) (PutVString ser)"
| "pack_body WalForceSync p ser = bind_res (rec_data p) (PutVString ser)"
| "pack_body WalWALSync p ser = bind_res (rec_data p) (PutVString ser)"
| "pack_body WalSetSchema p ser = bind_res (rec_data p) (PutVString ser)"
| "pack_body WalTagsMatcher p ser = bind_res (rec_data p) (PutVString ser)"
| "pack_body WalPutMeta p ser =
     bind_res (rec_meta p) (\<lambda>(k, v). bind_res (PutVString ser k) (\<lambda>ser. PutVString ser v))"
| "pack_body WalDeleteMeta p ser = bind_res (rec_data p) (PutVString ser)"
| "pack_body WalItemModify p ser =
     bind_res (rec_modify p) (\<lambda>(cjson, tmVersion, modifyMode).
     bind_res (PutVString ser cjson) (\<lambda>ser.
     bind_res (PutVarUint_enum ser (uint modifyMode)) (\<lambda>ser.
     PutVarUint32 ser tmVersion)))"
| "pack_body WalRawItem p ser =
     bind_res (rec_raw p) (\<lambda>(i, cjson). bind_res (PutUInt32 ser i) (\<lambda>ser. PutVString ser cjson))"
| "pack_body WalEmpty p ser = Inr ser"
| "pack_body WalNamespaceAdd p ser = Inr ser"
| "pack_body WalNamespaceDrop p ser = Inr ser"
| "pack_body WalInitTransaction p ser = Inr ser"
| "pack_body WalCommitTransaction p ser = Inr ser"
| "pack_body WalResetLocalWal p ser = Inr ser"
| "pack_body (WalOther n) p ser = Inl Abort"

definition WALRecord_Pack :: "wr_serializer \<Rightarrow> wal_record \<Rightarrow> wr_serializer res" where
  "WALRecord_Pack ser r =
     (if rec_type r = WalEmpty then Inr ser
      else bind_res (pack_header ser r) (pack_body (rec_type r) (rec_payload r)))"

text \<open>\<open>PackedWALRecord::Pack\<close>: the bytes a fresh serializer holds are assigned to an \<open>h_vector\<close>; \<open>inBuf\<close> is the
  array of the serializer.\<close>

definition PackedWALRecord_Pack :: "bytes \<Rightarrow> wal_record \<Rightarrow> bytes res" where
  "PackedWALRecord_Pack inBuf r =
     bind_res (WALRecord_Pack (mk_WrSerializer inBuf (mk_GrowthPolicy 0)) r) (\<lambda>ser. hv_assign (wr_Slice ser))"

subsection \<open>Unpacking\<close>

fun unpack_body :: "WALRecType \<Rightarrow> serializer \<Rightarrow> (wal_payload \<times> serializer) res" where
  "unpack_body WalItemUpdate ser = bind_res (GetUInt32 ser) (\<lambda>(i, ser). Inr (P_id i, ser))"
| "unpack_body WalShallowItem ser = bind_res (GetUInt32 ser) (\<lambda>(i, ser). Inr (P_id i, ser))"
| "unpack_body WalUpdateQuery ser = bind_res (GetVString ser) (\<lambda>(d, ser). Inr (P_data d, ser))"
| "unpack_body WalIndexAdd ser = bind_res (GetVString ser) (\<lambda>(d, ser). Inr (P_data d, ser))"
| "unpack_body WalIndexDrop ser = bind_res (GetVString ser) (\<lambda>(d, ser). Inr (P_data d, ser))"
| "unpack_body WalIndexUpdate ser = bind_res (GetVString ser) (\<lambda>(d, ser). Inr (P_data d, ser))"
| "unpack_body WalReplState ser = bind_res (GetVString ser) (\<lambda>(d, ser). Inr (P_data d, ser))"
| "unpack_body WalNamespaceRename ser = bind_res (GetVString ser) (\<lambda>(d, ser). Inr (P_data d, ser))"
| "unpack_body WalForceSync ser = bind_res (GetVString ser) (\<lambda>(d, ser). Inr (P_data d, ser))"
| "unpack_body WalWALSync ser = bind_res (GetVString ser) (\<lambda>(d, ser). Inr (P_data d, ser))"
| "unpack_body WalSetSchema ser = bind_res (GetVString ser) (\<lambda>(d, ser). Inr (P_data d, ser))"
| "unpack_body WalTagsMatcher ser = bind_res (GetVString ser) (\<lambda>(d, ser). Inr (P_data d, ser))"
| "unpack_body WalPutMeta ser =
     bind_res (GetVString ser) (\<lambda>(k, ser). bind_res (GetVString ser) (\<lambda>(v, ser). Inr (P_meta k v, ser)))"
| "unpack_body WalDeleteMeta ser = bind_res (GetVString ser) (\<lambda>(k, ser). Inr (P_data k, ser))"
| "unpack_body WalItemModify ser =
     bind_res (GetVString ser) (\<lambda>(c, ser).
     bind_res (GetVarUInt ser) (\<lambda>(m, ser).
     bind_res (GetVarUInt ser) (\<lambda>(t, ser). Inr (P_itemModify c (ucast t) (ucast m), ser))))"
| "unpack_body WalRawItem ser =
     bind_res (GetUInt32 ser) (\<lambda>(i, ser). bind_res (GetVString ser) (\<lambda>(c, ser). Inr (P_rawItem i c, ser)))"
| "unpack_body WalEmpty ser = Inr (P_none, ser)"
| "unpack_body WalNamespaceAdd ser = Inr (P_none, ser)"
| "unpack_body WalNamespaceDrop ser = Inr (P_none, ser)"
| "unpack_body WalInitTransaction ser = Inr (P_none, ser)"
| "unpack_body WalCommitTransaction ser = Inr (P_none, ser)"
| "unpack_body WalResetLocalWal ser = Inr (P_none, ser)"
| "unpack_body (WalOther n) ser = Inr (P_none, ser)"

definition WALRecord_parse :: "serializer \<Rightarrow> (wal_record \<times> serializer) res" where
  "WALRecord_parse ser =
     bind_res (GetVarUInt ser) (\<lambda>(v, ser).
     let unpackedType = ucast v :: u32;
         inTx = (unpackedType AND kTxBit \<noteq> 0);
         type = rectype_of_number (if inTx then unpackedType XOR kTxBit else unpackedType)
     in bind_res (unpack_body type ser) (\<lambda>(p, ser).
        Inr (\<lparr>rec_type = type, rec_payload = p, rec_inTransaction = inTx\<rparr>, ser)))"

definition empty_record :: wal_record where
  "empty_record = \<lparr>rec_type = WalEmpty, rec_payload = P_none, rec_inTransaction = False\<rparr>"

definition WALRecord_of_span :: "bytes \<Rightarrow> wal_record res" where
  "WALRecord_of_span packed =
     (if packed = [] then Inr empty_record
      else bind_res (WALRecord_parse (mk_Serializer packed)) (\<lambda>(r, _). Inr r))"

subsection \<open>Text output\<close>

fun wrecType2Str :: "WALRecType \<Rightarrow> string" where
  "wrecType2Str WalEmpty = ''<WalEmpty>''"
| "wrecType2Str WalItemUpdate = ''WalItemUpdate''"
| "wrecType2Str WalUpdateQuery = ''WalUpdateQuery''"
| "wrecType2Str WalIndexAdd = ''WalIndexAdd''"
| "wrecType2Str WalIndexDrop = ''WalIndexDrop''"
| "wrecType2Str WalIndexUpdate = ''WalIndexUpdate''"
| "wrecType2Str WalReplState = ''WalReplState''"
| "wrecType2Str WalPutMeta = ''WalPutMeta''"
| "wrecType2Str WalDeleteMeta = ''WalDeleteMeta''"
| "wrecType2Str WalNamespaceAdd = ''WalNamespaceAdd''"
| "wrecType2Str WalNamespaceDrop = ''WalNamespaceDrop''"
| "wrecType2Str WalNamespaceRename = ''WalNamespaceRename''"
| "wrecType2Str WalItemModify = ''WalItemModify''"
| "wrecType2Str WalInitTransaction = ''WalInitTransaction''"
| "wrecType2Str WalCommitTransaction = ''WalCommitTransaction''"
| "wrecType2Str WalForceSync = ''WalForceSync''"
| "wrecType2Str WalWALSync = ''WalWALSync''"
| "wrecType2Str WalSetSchema = ''WalSetSchema''"
| "wrecType2Str WalRawItem = ''WalRawItem''"
| "wrecType2Str WalShallowItem = ''WalShallowItem''"
| "wrecType2Str WalTagsMatcher = ''WalTagsMatcher''"
| "wrecType2Str WalResetLocalWal = ''WalResetLocalWal''"
| "wrecType2Str (WalOther n) = ''<Unknown>''"

text \<open>The fields \<open>GetJSON\<close> puts, in order; \<open>cjsonViewer\<close> is the caller's function.\<close>

datatype json_field = JStr string bytes | JType string string | JBool string bool | JNum string int | JRaw string bytes

fun json_body :: "(bytes \<Rightarrow> bytes) \<Rightarrow> WALRecType \<Rightarrow> wal_payload \<Rightarrow> json_field list res" where
  "json_body view WalItemUpdate p = bind_res (rec_id p) (\<lambda>i. Inr [JNum ''row_id'' (sint i)])"
| "json_body view WalShallowItem p = bind_res (rec_id p) (\<lambda>i. Inr [JNum ''row_id'' (sint i)])"
| "json_body view WalUpdateQuery p = bind_res (rec_data p) (\<lambda>d. Inr [JStr ''query'' d])"
| "json_body view WalNamespaceRename p = bind_res (rec_data p) (\<lambda>d. Inr [JStr ''dst_ns_name'' d])"
| "json_body view WalForceSync p = bind_res (rec_data p) (\<lambda>d. Inr [JStr ''ns_def'' d])"
| "json_body view WalWALSync p = bind_res (rec_data p) (\<lambda>d. Inr [JStr ''ns_def'' d])"
| "json_body view WalIndexAdd p = bind_res (rec_data p) (\<lambda>d. Inr [JRaw ''index'' d])"
| "json_body view WalIndexDrop p = bind_res (rec_data p) (\<lambda>d. Inr [JRaw ''index'' d])"
| "json_body view WalIndexUpdate p = bind_res (rec_data p) (\<lambda>d. Inr [JRaw ''index'' d])"
| "json_body view WalReplState p = bind_res (rec_data p) (\<lambda>d. Inr [JRaw ''state'' d])"
| "json_body view WalPutMeta p = bind_res (rec_meta p) (\<lambda>(k, v). Inr [JStr ''key'' k, JStr ''value'' v])"
| "json_body view WalDeleteMeta p = bind_res (rec_data p) (\<lambda>k. Inr [JStr ''key'' k])"
| "json_body view WalItemModify p =
     bind_res (rec_modify p) (\<lambda>(c, t, m). Inr [JNum ''mode'' (uint m), JRaw ''item'' (view c)])"
| "json_body view WalSetSchema p = bind_res (rec_data p) (\<lambda>d. Inr [JRaw ''schema'' d])"
| "json_body view WalRawItem p =
     bind_res (rec_raw p) (\<lambda>(i, c). Inr [JNum ''row_id'' (sint i), JRaw ''item'' (view c)])"
| "json_body view WalTagsMatcher p = bind_res (rec_data p) (\<lambda>d. Inr [JStr ''tagsmatcher'' d])"
| "json_body view (WalOther n) p = Inl Abort"
| "json_body view _ p = Inr []"

definition WALRecord_GetJSON :: "(bytes \<Rightarrow> bytes) \<Rightarrow> wal_record \<Rightarrow> json_field list res" where
  "WALRecord_GetJSON view r =
     bind_res (json_body view (rec_type r) (rec_payload r)) (\<lambda>fs.
     Inr (JType ''type'' (wrecType2Str (rec_type r)) # JBool ''in_transaction'' (rec_inTransaction r) # fs))"

subsection \<open>Round trip\<close>

text \<open>A record carries the payload of its type, and its strings fit a 32-bit length.\<close>

fun payload_ok :: "WALRecType \<Rightarrow> wal_payload \<Rightarrow> bool" where
  "payload_ok WalItemUpdate p \<longleftrightarrow> (\<exists>i. p = P_id i)"
| "payload_ok WalShallowItem p \<longleftrightarrow> (\<exists>i. p = P_id i)"
| "payload_ok WalPutMeta p \<longleftrightarrow> (\<exists>k v. p = P_meta k v \<and> length k < 2 ^ 32 \<and> length v < 2 ^ 32)"
| "payload_ok WalItemModify p \<longleftrightarrow> (\<exists>c t m. p = P_itemModify c t m \<and> length c < 2 ^ 32 \<and> m < 128)"
| "payload_ok WalRawItem p \<longleftrightarrow> (\<exists>i c. p = P_rawItem i c \<and> length c < 2 ^ 32)"
| "payload_ok WalEmpty p \<longleftrightarrow> False"
| "payload_ok WalNamespaceAdd p \<longleftrightarrow> p = P_none"
| "payload_ok WalNamespaceDrop p \<longleftrightarrow> p = P_none"
| "payload_ok WalInitTransaction p \<longleftrightarrow> p = P_none"
| "payload_ok WalCommitTransaction p \<longleftrightarrow> p = P_none"
| "payload_ok WalResetLocalWal p \<longleftrightarrow> p = P_none"
| "payload_ok (WalOther n) p \<longleftrightarrow> False"
| "payload_ok _ p \<longleftrightarrow> (\<exists>d. p = P_data d \<and> length d < 2 ^ 32)"

definition record_ok :: "wal_record \<Rightarrow> bool" where
  "record_ok r \<longleftrightarrow> payload_ok (rec_type r) (rec_payload r)"

fun enc_payload :: "wal_payload \<Rightarrow> bytes" where
  "enc_payload P_none = []"
| "enc_payload (P_id i) = le_bytes 4 (unat i)"
| "enc_payload (P_data d) = enc_vstring d"
| "enc_payload (P_meta k v) = enc_vstring k @ enc_vstring v"
| "enc_payload (P_itemModify c t m) = enc_vstring c @ uint64_pack (ucast m) @ uint32_pack t"
| "enc_payload (P_rawItem i c) = le_bytes 4 (unat i) @ enc_vstring c"

definition wal_header :: "wal_record \<Rightarrow> u32" where
  "wal_header r = (if rec_inTransaction r then rectype_number (rec_type r) OR kTxBit else rectype_number (rec_type r))"

definition enc_record :: "wal_record \<Rightarrow> bytes" where
  "enc_record r = uint32_pack (wal_header r) @ enc_payload (rec_payload r)"

lemma put_enum_pack: 
  assumes "m < 128" shows "PutVarUint_enum w (uint m) = grow_append w 1 (uint64_pack (ucast (m :: u32)))"
    "length (uint64_pack (ucast (m :: u32))) = 1"
proof -
  have u: "unat m < 128" using assms by (simp add: word_less_nat_alt)
  have m: "unat (ucast m :: u64) = unat m" by (simp add: unsigned_ucast_eq take_bit_nat_eq_self order_less_trans [OF unsigned_less])
  have e: "uint64_pack (ucast m) = [word_of_nat (unat m)]" using u by (simp only: uint64_pack_leb m leb_small)
  have i: "uint m < 128" "0 \<le> uint m" using assms by (simp_all add: word_less_def)
  have "(word_of_int (uint m) :: u8) = word_of_nat (unat m)" by simp
  then show "PutVarUint_enum w (uint m) = grow_append w 1 (uint64_pack (ucast m))"
    using i by (simp only: PutVarUint_enum_def e if_True simp_thms)
  show "length (uint64_pack (ucast m)) = 1" by (simp add: e)
qed

lemma bind_appends:
  assumes "bind_res m f = Inr w'" "\<And>w1. m = Inr w1 \<Longrightarrow> appends w as w1"
    "\<And>w1. m = Inr w1 \<Longrightarrow> appends w as w1 \<Longrightarrow> f w1 = Inr w' \<Longrightarrow> appends w1 bs w'"
  shows "appends w (as @ bs) w'"
  using assms by (auto simp: bind_res_Inr intro: appends_trans)

lemma vstring_appends: "wr_wf w \<Longrightarrow> wr_len w + length (enc_vstring s) + 10 \<le> 2 ^ 60 \<Longrightarrow> PutVString w s = Inr w' \<Longrightarrow>
  appends w (enc_vstring s) w'"
  by (rule PutVString_appends)

lemma pack_body_appends:
  assumes "payload_ok t p" "wr_wf w" "wr_len w + length (enc_payload p) + 10 \<le> 2 ^ 60" "pack_body t p w = Inr w'"
  shows "appends w (enc_payload p) w'"
proof (cases p)
  case P_none
  then show ?thesis using assms by (cases t) (auto simp: appends_refl)
next
  case (P_id i)
  then show ?thesis using assms by (cases t) (auto intro!: u32_codec.put_appends)
next
  case (P_data d)
  then show ?thesis using assms by (cases t) (auto intro!: vstring_appends)
next
  case (P_meta k v)
  then have b: "bind_res (PutVString w k) (\<lambda>ser. PutVString ser v) = Inr w'" using assms by (cases t) auto
  have l: "wr_len w + (length (enc_vstring k) + length (enc_vstring v)) + 10 \<le> 2 ^ 60" using assms(3) P_meta by simp
  show ?thesis unfolding P_meta enc_payload.simps
  proof (rule bind_appends [OF b])
    fix w1 assume w1: "PutVString w k = Inr w1"
    show a: "appends w (enc_vstring k) w1" by (rule vstring_appends [OF assms(2) _ w1]) (use l in simp)
    assume "PutVString w1 v = Inr w'"
    then show "appends w1 (enc_vstring v) w'"
      by (rule vstring_appends [OF appends_wf [OF a], rotated]) (use l appends_len [OF assms(2) a] in simp)
  qed
next
  case (P_rawItem i c)
  then have b: "bind_res (PutUInt32 w i) (\<lambda>ser. PutVString ser c) = Inr w'" using assms by (cases t) auto
  have l: "wr_len w + (4 + length (enc_vstring c)) + 10 \<le> 2 ^ 60" using assms(3) P_rawItem by simp
  show ?thesis unfolding P_rawItem enc_payload.simps
  proof (rule bind_appends [OF b])
    fix w1 assume w1: "PutUInt32 w i = Inr w1"
    show a: "appends w (le_bytes 4 (unat i)) w1"
      by (rule u32_codec.put_appends [OF assms(2) TrueI _ w1]) (use l in simp)
    assume "PutVString w1 c = Inr w'"
    then show "appends w1 (enc_vstring c) w'"
      by (rule vstring_appends [OF appends_wf [OF a], rotated]) (use l appends_len [OF assms(2) a] in simp)
  qed
next
  case (P_itemModify c tm m)
  then have m: "m < 128" and b: "bind_res (PutVString w c) (\<lambda>ser. bind_res (PutVarUint_enum ser (uint m)) (\<lambda>ser.
     PutVarUint32 ser tm)) = Inr w'" using assms by (cases t; auto)+
  have l: "wr_len w + (length (enc_vstring c) + (length (uint64_pack (ucast m)) + length (uint32_pack tm))) + 10 \<le> 2 ^ 60"
    using assms(3) P_itemModify by simp
  show ?thesis unfolding P_itemModify enc_payload.simps
  proof (rule bind_appends [OF b])
    fix w1 assume w1: "PutVString w c = Inr w1"
    show a: "appends w (enc_vstring c) w1" by (rule vstring_appends [OF assms(2) _ w1]) (use l in simp)
    have l1: "wr_len w1 = wr_len w + length (enc_vstring c)" by (rule appends_len [OF assms(2) a])
    assume b2: "bind_res (PutVarUint_enum w1 (uint m)) (\<lambda>ser. PutVarUint32 ser tm) = Inr w'"
    show "appends w1 (uint64_pack (ucast m) @ uint32_pack tm) w'"
    proof (rule bind_appends [OF b2])
      fix w2 assume w2: "PutVarUint_enum w1 (uint m) = Inr w2"
      show a2: "appends w1 (uint64_pack (ucast m)) w2"
        by (rule grow_append_appends [OF appends_wf [OF a] w2 [unfolded put_enum_pack(1) [OF m]]])
          (use l l1 put_enum_pack(2) [OF m] in simp_all)
      assume "PutVarUint32 w2 tm = Inr w'"
      then show "appends w2 (uint32_pack tm) w'"
        by (rule put_varint_appends(3) [OF appends_wf [OF a2], rotated])
          (use l l1 appends_len [OF appends_wf [OF a] a2] in simp)
    qed
  qed
qed

lemma unpack_body_enc:
  assumes "payload_ok t p" "fits (length pre) (length (enc_payload p) + length rest)"
  shows "unpack_body t (ser_at pre (enc_payload p @ rest)) = Inr (p, ser_at (pre @ enc_payload p) rest)"
proof (cases p)
  case P_none
  then show ?thesis using assms by (cases t) auto
next
  case (P_id i)
  then have "GetUInt32 (ser_at pre (le_bytes 4 (unat i) @ rest)) = Inr (i, ser_at (pre @ le_bytes 4 (unat i)) rest)"
    by (intro u32_codec.get_enc) (use assms P_id in simp_all)
  with P_id show ?thesis using assms by (cases t) auto
next
  case (P_data d)
  have "length d < 2 ^ 32" using assms(1) P_data by (cases t) auto
  then have "GetVString (ser_at pre (enc_vstring d @ rest)) = Inr (d, ser_at (pre @ enc_vstring d) rest)"
    by (rule vstring_codec.get_enc) (use assms P_data in simp)
  with P_data show ?thesis using assms by (cases t) auto
next
  case (P_meta k v)
  have t: "t = WalPutMeta" and l: "length k < 2 ^ 32" "length v < 2 ^ 32" using assms(1) P_meta by (cases t; auto)+
  have "GetVString (ser_at pre (enc_vstring k @ enc_vstring v @ rest)) =
      Inr (k, ser_at (pre @ enc_vstring k) (enc_vstring v @ rest))"
    by (rule vstring_codec.get_enc [OF l(1)]) (use assms P_meta in simp)
  moreover have "GetVString (ser_at (pre @ enc_vstring k) (enc_vstring v @ rest)) =
      Inr (v, ser_at ((pre @ enc_vstring k) @ enc_vstring v) rest)"
    by (rule vstring_codec.get_enc [OF l(2)]) (use assms P_meta in simp)
  ultimately show ?thesis by (simp add: P_meta t)
next
  case (P_rawItem i c)
  have t: "t = WalRawItem" and l: "length c < 2 ^ 32" using assms(1) P_rawItem by (cases t; auto)+
  have "GetUInt32 (ser_at pre (le_bytes 4 (unat i) @ enc_vstring c @ rest)) =
      Inr (i, ser_at (pre @ le_bytes 4 (unat i)) (enc_vstring c @ rest))"
    by (rule u32_codec.get_enc [OF TrueI]) (use assms P_rawItem in simp)
  moreover have "GetVString (ser_at (pre @ le_bytes 4 (unat i)) (enc_vstring c @ rest)) =
      Inr (c, ser_at ((pre @ le_bytes 4 (unat i)) @ enc_vstring c) rest)"
    by (rule vstring_codec.get_enc [OF l]) (use assms P_rawItem in simp)
  ultimately show ?thesis by (simp add: P_rawItem t)
next
  case (P_itemModify c tm m)
  have t: "t = WalItemModify" and l: "length c < 2 ^ 32" using assms(1) P_itemModify by (cases t; auto)+
  let ?m = "uint64_pack (ucast m)" and ?t = "uint32_pack tm"
  have "GetVString (ser_at pre (enc_vstring c @ ?m @ ?t @ rest)) =
      Inr (c, ser_at (pre @ enc_vstring c) (?m @ ?t @ rest))"
    by (rule vstring_codec.get_enc [OF l(1)]) (use assms P_itemModify in simp)
  moreover have "GetVarUInt (ser_at (pre @ enc_vstring c) (?m @ ?t @ rest)) =
      Inr (ucast m, ser_at ((pre @ enc_vstring c) @ ?m) (?t @ rest))"
    by (rule GetVarUInt_pack) (use assms P_itemModify in simp)
  moreover have "GetVarUInt (ser_at ((pre @ enc_vstring c) @ ?m) (?t @ rest)) =
      Inr (ucast tm, ser_at (((pre @ enc_vstring c) @ ?m) @ ?t) rest)"
    by (rule GetVarUInt_pack32) (use assms P_itemModify in simp)
  moreover have "(ucast (ucast m :: u64) :: u32) = m" "(ucast (ucast tm :: u64) :: u32) = tm"
    by (rule bit_word_eqI, simp add: bit_simps)+
  ultimately show ?thesis by (simp add: P_itemModify t)
qed

lemma rectype_of_number [simp]: "t \<noteq> WalOther (rectype_number t) \<Longrightarrow> rectype_of_number (rectype_number t) = t"
  by (cases t) (simp_all add: rectype_of_number_def wal_rectypes_def)

lemma header_fields:
  assumes "payload_ok (rec_type r) p"
  shows "(wal_header r AND kTxBit \<noteq> 0) = rec_inTransaction r"
    "rectype_of_number (if rec_inTransaction r then wal_header r XOR kTxBit else wal_header r) = rec_type r"
proof -
  have k: "rectype_number t AND kTxBit = 0 \<and> (rectype_number t OR kTxBit) AND kTxBit \<noteq> 0 \<and>
     (rectype_number t OR kTxBit) XOR kTxBit = rectype_number t" if "\<forall>n. t \<noteq> WalOther n" for t
    using that by (cases t) (simp_all add: kTxBit_def)
  have o: "\<forall>n. rec_type r \<noteq> WalOther n" using assms by auto
  show "(wal_header r AND kTxBit \<noteq> 0) = rec_inTransaction r"
    using k [OF o] by (simp add: wal_header_def)
  show "rectype_of_number (if rec_inTransaction r then wal_header r XOR kTxBit else wal_header r) = rec_type r"
    using k [OF o] o by (simp add: wal_header_def)
qed

interpretation wal_codec: wire_codec WALRecord_Pack WALRecord_parse enc_record record_ok
proof unfold_locales
  fix w r w' assume a: "wr_wf w" "record_ok r" "wr_len w + length (enc_record r) + 10 \<le> 2 ^ 60"
    "WALRecord_Pack w r = Inr w'"
  have p: "payload_ok (rec_type r) (rec_payload r)" using a(2) by (simp add: record_ok_def)
  then have "rec_type r \<noteq> WalEmpty" by auto
  then have b: "bind_res (pack_header w r) (pack_body (rec_type r) (rec_payload r)) = Inr w'"
    using a(4) by (simp add: WALRecord_Pack_def)
  show "appends w (enc_record r) w'"
    unfolding enc_record_def
  proof (rule bind_appends [OF b])
    fix w1 assume w1: "pack_header w r = Inr w1"
    have "PutVarUint32 w (wal_header r) = Inr w1" using w1 by (simp add: pack_header_def wal_header_def)
    then show h: "appends w (uint32_pack (wal_header r)) w1"
      by (rule put_varint_appends(3) [OF a(1), rotated]) (use a(3) in \<open>simp add: enc_record_def\<close>)
    assume "pack_body (rec_type r) (rec_payload r) w1 = Inr w'"
    then show "appends w1 (enc_payload (rec_payload r)) w'"
      by (rule pack_body_appends [OF p appends_wf [OF h], rotated])
        (use a(3) appends_len [OF a(1) h] in \<open>simp add: enc_record_def\<close>)
  qed
next
  fix r and pre rest :: bytes
  assume a: "record_ok r" "fits (length pre) (length (enc_record r) + length rest)"
  have p: "payload_ok (rec_type r) (rec_payload r)" using a(1) by (simp add: record_ok_def)
  have c: "(ucast (ucast (wal_header r) :: u64) :: u32) = wal_header r" by (rule bit_word_eqI) (simp add: bit_simps)
  have "GetVarUInt (ser_at pre (enc_record r @ rest)) =
      Inr (ucast (wal_header r), ser_at (pre @ uint32_pack (wal_header r)) (enc_payload (rec_payload r) @ rest))"
    using GetVarUInt_pack32 [of pre "wal_header r" "enc_payload (rec_payload r) @ rest"] a(2)
    by (simp add: enc_record_def)
  moreover have "unpack_body (rec_type r) (ser_at (pre @ uint32_pack (wal_header r)) (enc_payload (rec_payload r) @ rest)) =
      Inr (rec_payload r, ser_at (pre @ enc_record r) rest)"
    using unpack_body_enc [OF p, of "pre @ uint32_pack (wal_header r)" rest] a(2) by (simp add: enc_record_def)
  ultimately show "WALRecord_parse (ser_at pre (enc_record r @ rest)) = Inr (r, ser_at (pre @ enc_record r) rest)"
    unfolding WALRecord_parse_def by (simp only: bind_res_simps prod.case Let_def c header_fields [OF p]) simp
qed

text \<open>Packing never fails for lack of room: no record is near the size the growth policy forbids.\<close>

definition spacious :: "wr_serializer \<Rightarrow> nat \<Rightarrow> bool" where
  "spacious w n \<longleftrightarrow> wr_wf w \<and> wr_len w + n + 10 \<le> 2 ^ 60 \<and> 2 ^ 60 \<le> wr_maxCap w"

lemma spacious_grow:
  assumes "spacious w n" "length bs \<le> sz" "sz \<le> length bs + 10" "length bs + m \<le> n"
  shows "\<exists>w'. grow_append w sz bs = Inr w' \<and> spacious w' m"
proof -
  have r: "wr_wf w" "wr_len w + sz \<le> 2 ^ 60" "wr_len w + sz \<le> wr_maxCap w" using assms by (simp_all add: spacious_def)
  then obtain w' where w': "grow_append w sz bs = Inr w'" "appends w bs w'"
    using grow_append_cases [OF r(1) assms(2) r(2)] by auto
  then have "wr_len w' = wr_len w + length bs" "wr_maxCap w' = wr_maxCap w" "wr_wf w'"
    using appends_len [OF r(1) w'(2)] by (simp_all add: appends_def)
  then show ?thesis using w'(1) assms(1,4) by (auto simp: spacious_def)
qed

lemma spacious_puts:
  "spacious w n \<Longrightarrow> length (enc_vstring s) + m \<le> n \<Longrightarrow> \<exists>w'. PutVString w s = Inr w' \<and> spacious w' m"
  "spacious w n \<Longrightarrow> length (uint32_pack x) + m \<le> n \<Longrightarrow> \<exists>w'. PutVarUint32 w x = Inr w' \<and> spacious w' m"
  "spacious w n \<Longrightarrow> 4 + m \<le> n \<Longrightarrow> \<exists>w'. PutUInt32 w x = Inr w' \<and> spacious w' m"
  "spacious w n \<Longrightarrow> mo < 128 \<Longrightarrow> 1 + m \<le> n \<Longrightarrow> \<exists>w'. PutVarUint_enum w (uint (mo :: u32)) = Inr w' \<and> spacious w' m"
proof -
  assume w: "spacious w n"
  show "length (enc_vstring s) + m \<le> n \<Longrightarrow> \<exists>w'. PutVString w s = Inr w' \<and> spacious w' m"
    using spacious_grow [OF w, of "enc_vstring s" "length s + 10" m] enc_vstring_len [of s]
    by (simp add: PutVString_def string_pack_enc)
  show "length (uint32_pack x) + m \<le> n \<Longrightarrow> \<exists>w'. PutVarUint32 w x = Inr w' \<and> spacious w' m"
    using spacious_grow [OF w, of "uint32_pack x" 10 m] uint32_pack_length [of x] by (simp add: PutVarUint32_def)
  show "4 + m \<le> n \<Longrightarrow> \<exists>w'. PutUInt32 w x = Inr w' \<and> spacious w' m"
    using spacious_grow [OF w, of "le_bytes 4 (unat x)" 4 m] by (simp add: PutUInt32_def)
  show "mo < 128 \<Longrightarrow> 1 + m \<le> n \<Longrightarrow> \<exists>w'. PutVarUint_enum w (uint mo) = Inr w' \<and> spacious w' m"
    using spacious_grow [OF w, of "uint64_pack (ucast mo)" 1 m] put_enum_pack(2) [of mo] by (simp add: put_enum_pack(1))
qed

lemma pack_body_succeeds:
  assumes "payload_ok t p" "spacious w (length (enc_payload p))"
  shows "\<exists>w'. pack_body t p w = Inr w'"
proof (cases p)
  case P_none
  then show ?thesis using assms by (cases t) auto
next
  case (P_id i)
  then obtain w' where "PutUInt32 w i = Inr w'" using spacious_puts(3) [OF assms(2), of 0] by auto
  with P_id show ?thesis using assms by (cases t) auto
next
  case (P_data d)
  then obtain w' where "PutVString w d = Inr w'" using spacious_puts(1) [OF assms(2), of d 0] by auto
  with P_data show ?thesis using assms by (cases t) auto
next
  case (P_meta k v)
  then obtain w1 where w1: "PutVString w k = Inr w1" "spacious w1 (length (enc_vstring v))"
    using spacious_puts(1) [OF assms(2), of k "length (enc_vstring v)"] by auto
  obtain w2 where "PutVString w1 v = Inr w2" using spacious_puts(1) [OF w1(2), of v 0] by auto
  with P_meta w1 show ?thesis using assms by (cases t) auto
next
  case (P_rawItem i c)
  then obtain w1 where w1: "PutUInt32 w i = Inr w1" "spacious w1 (length (enc_vstring c))"
    using spacious_puts(3) [OF assms(2), of "length (enc_vstring c)" i] by auto
  obtain w2 where "PutVString w1 c = Inr w2" using spacious_puts(1) [OF w1(2), of c 0] by auto
  with P_rawItem w1 show ?thesis using assms by (cases t) auto
next
  case (P_itemModify c tm m)
  have t: "t = WalItemModify" and m: "m < 128" using assms(1) P_itemModify by (cases t; auto)+
  obtain w1 where w1: "PutVString w c = Inr w1" "spacious w1 (1 + length (uint32_pack tm))"
    using spacious_puts(1) [OF assms(2), of c "1 + length (uint32_pack tm)"] put_enum_pack(2) [OF m] by (auto simp: P_itemModify)
  obtain w2 where w2: "PutVarUint_enum w1 (uint m) = Inr w2" "spacious w2 (length (uint32_pack tm))"
    using spacious_puts(4) [OF w1(2) m, of "length (uint32_pack tm)"] by auto
  obtain w3 where "PutVarUint32 w2 tm = Inr w3" using spacious_puts(2) [OF w2(2), of tm 0] by auto
  with w1 w2 show ?thesis by (simp add: P_itemModify t)
qed

lemma enc_record_bound: "record_ok r \<Longrightarrow> length (enc_record r) \<le> 2 ^ 40"
proof -
  assume "record_ok r"
  then have p: "payload_ok (rec_type r) (rec_payload r)" by (simp add: record_ok_def)
  have "length (enc_payload (rec_payload r)) \<le> 2 ^ 34"
  proof (cases "rec_payload r")
    case (P_data d)
    then have "length d < 2 ^ 32" using p by (cases "rec_type r") auto
    then show ?thesis using enc_vstring_len(2) [of d] P_data by simp
  next
    case (P_meta k v)
    then have "length k < 2 ^ 32" "length v < 2 ^ 32" using p by (cases "rec_type r"; auto)+
    then show ?thesis using enc_vstring_len(2) [of k] enc_vstring_len(2) [of v] P_meta by simp
  next
    case (P_itemModify c tm m)
    then have "length c < 2 ^ 32" using p by (cases "rec_type r") auto
    then show ?thesis using enc_vstring_len(2) [of c] uint32_pack_length(2) [of tm] uint64_pack_length(2) [of "ucast m"] P_itemModify by simp
  next
    case (P_rawItem i c)
    then have "length c < 2 ^ 32" using p by (cases "rec_type r") auto
    then show ?thesis using enc_vstring_len(2) [of c] P_rawItem by simp
  qed simp_all
  then show ?thesis using uint32_pack_length(2) [of "wal_header r"] by (simp add: enc_record_def)
qed

lemma WALRecord_Pack_fresh:
  assumes "record_ok r" "length inBuf = 256"
  obtains w where "WALRecord_Pack (mk_WrSerializer inBuf (mk_GrowthPolicy 0)) r = Inr w" "wr_Slice w = enc_record r"
proof -
  let ?w = "mk_WrSerializer inBuf (mk_GrowthPolicy 0)"
  have w: "wr_wf ?w" "wr_len ?w = 0" "wr_Slice ?w = []" "wr_maxCap ?w = 2 ^ 63 - 1"
    using assms(2) by (simp_all add: mk_WrSerializer_def wr_wf_def wr_Slice_def mk_GrowthPolicy_def wr_kMaxCapacity_def)
  have p: "payload_ok (rec_type r) (rec_payload r)" using assms(1) by (simp add: record_ok_def)
  then have ne: "rec_type r \<noteq> WalEmpty" by auto
  note b = enc_record_bound [OF assms(1)]
  have "spacious ?w (length (enc_record r))" using b w by (simp add: spacious_def)
  then obtain w1 where w1: "PutVarUint32 ?w (wal_header r) = Inr w1" "spacious w1 (length (enc_payload (rec_payload r)))"
    using spacious_puts(2) [of ?w _ "wal_header r" "length (enc_payload (rec_payload r))"] by (auto simp: enc_record_def)
  obtain w2 where "pack_body (rec_type r) (rec_payload r) w1 = Inr w2" using pack_body_succeeds [OF p w1(2)] by auto
  with w1 ne have p2: "WALRecord_Pack ?w r = Inr w2" by (simp add: WALRecord_Pack_def pack_header_def wal_header_def)
  have "appends ?w (enc_record r) w2" by (rule wal_codec.put_appends [OF w(1) assms(1) _ p2]) (use b w in simp)
  with p2 that show ?thesis using w by (simp add: appends_def)
qed

text \<open>
  C20. WAL records: every record of up to \<open>2 ^ 31 - 1\<close> bytes is packed, whatever its type and payload, inside a
  transaction or not, and unpacking the bytes gives the record back; a longer one does not fit into the vector and
  is not packed. The empty record packs to no bytes, which unpack to it.
\<close>

theorem wal_record_roundtrip:
  assumes "record_ok r" "length inBuf = 256"
  shows "(if length (enc_record r) \<le> hv_max_size
      then \<exists>packed. PackedWALRecord_Pack inBuf r = Inr packed \<and> packed \<noteq> [] \<and> length packed = length (enc_record r) \<and>
        WALRecord_of_span packed = Inr r
      else \<exists>e. PackedWALRecord_Pack inBuf r = Inl e) \<and>
    PackedWALRecord_Pack inBuf empty_record = Inr [] \<and> WALRecord_of_span [] = Inr empty_record"
proof -
  obtain w' where w': "WALRecord_Pack (mk_WrSerializer inBuf (mk_GrowthPolicy 0)) r = Inr w'" "wr_Slice w' = enc_record r"
    using WALRecord_Pack_fresh [OF assms] .
  then have p: "PackedWALRecord_Pack inBuf r = hv_assign (enc_record r)" by (simp add: PackedWALRecord_Pack_def)
  have e: "PackedWALRecord_Pack inBuf empty_record = Inr []" "WALRecord_of_span [] = Inr empty_record"
    by (simp_all add: WALRecord_of_span_def PackedWALRecord_Pack_def WALRecord_Pack_def empty_record_def hv_assign_Inr
        mk_WrSerializer_def wr_Slice_def)
  show ?thesis
  proof (cases "length (enc_record r) \<le> hv_max_size")
    case True
    then have "fits (length ([] :: bytes)) (length (enc_record r) + length ([] :: bytes))" by (simp add: hv_max_size_def)
    from wal_codec.get_enc [OF assms(1) this]
    have "WALRecord_parse (mk_Serializer (enc_record r)) = Inr (r, ser_at (enc_record r) [])"
      by (simp add: mk_Serializer_def ser_at_def)
    moreover have "enc_record r \<noteq> []" using uint32_pack_length(1) [of "wal_header r"] by (auto simp: enc_record_def)
    ultimately have "WALRecord_of_span (enc_record r) = Inr r" by (simp add: WALRecord_of_span_def)
    moreover have "PackedWALRecord_Pack inBuf r = Inr (enc_record r)" using True p by (simp add: hv_assign_Inr)
    ultimately show ?thesis using True e \<open>enc_record r \<noteq> []\<close> by simp
  next
    case False
    then have "hv_assign (enc_record r) \<noteq> Inr x" for x by (auto simp: hv_assign_Inr)
    then obtain f where "hv_assign (enc_record r) = Inl f" by (cases "hv_assign (enc_record r)") blast+
    then show ?thesis using False e p by simp
  qed
qed

theorem wal_record_roundtrip_witness:
  "WALRecord_of_span [0x82, 0x01, 5, 0, 0, 0] =
   Inr \<lparr>rec_type = WalItemUpdate, rec_payload = P_id 5, rec_inTransaction = True\<rparr>"
proof -
  let ?r = "\<lparr>rec_type = WalItemUpdate, rec_payload = P_id 5, rec_inTransaction = True\<rparr>"
  define b where "b = replicate 256 (0 :: u8)"
  have b: "length b = 256" by (simp add: b_def)
  have h: "uint32_pack (wal_header ?r) = [0x82, 0x01]"
    by (simp add: wal_header_def kTxBit_def uint32_pack_def word_le_nat_alt)
  have "le_bytes (Suc (Suc (Suc (Suc 0)))) 5 = [5, 0, 0, 0]" by simp
  moreover have "(4 :: nat) = Suc (Suc (Suc (Suc 0)))" by simp
  ultimately have n: "le_bytes 4 5 = [5, 0, 0, 0]" by (simp only:)
  have ok: "record_ok ?r" by (simp add: record_ok_def)
  have len: "length (enc_record ?r) \<le> hv_max_size" by (simp add: enc_record_def h hv_max_size_def)
  have hd: "pack_header w ?r = grow_append w 10 [0x82, 0x01]" for w
    using h by (simp add: pack_header_def PutVarUint32_def wal_header_def)
  have "PackedWALRecord_Pack b ?r = Inr [0x82, 0x01, 5, 0, 0, 0]"
    by (simp add: PackedWALRecord_Pack_def WALRecord_Pack_def hd PutUInt32_def n grow_append_def grow_def
        wr_append_def wr_copy_def mk_WrSerializer_def wr_Slice_def b hv_assign_Inr hv_max_size_def)
  with len wal_record_roundtrip [OF ok b] show ?thesis by simp
qed

end
