(* ===== verification/Lsn.thy ===== *)
theory Lsn
  imports Prelude
begin

section \<open>Log sequence numbers\<close>

text \<open>
  \<open>src/cpp_src/tools/lsn.h\<close>: an \<open>lsn_t\<close> packs a server id (0..999) and a counter (15 decimal digits)
  into one \<open>int64_t\<close>. The counter value \<open>kDefaultCounter\<close> means "empty". \<open>ExtendedLsn\<close> pairs the
  version of a namespace with an LSN. Integers are \<open>int\<close>: \<open>lsn_payload_range\<close> shows that a packed
  value stays inside \<open>int64_t\<close>, so no operation on a well-formed LSN wraps.
\<close>

subsection \<open>The type and its operations\<close>

datatype lsn = Lsn_t (payload: int)

record lsn_unpacked =
  unp_server :: int
  unp_counter :: int

definition kMaxCounter :: int where "kMaxCounter = 1000000000000000"
definition kMinServerIDValue :: int where "kMinServerIDValue = 0"
definition kMaxServerIDValue :: int where "kMaxServerIDValue = 999"
definition kDefaultCounter :: int where "kDefaultCounter = kMaxCounter - 1"

lemmas lsn_consts = kMaxCounter_def kMinServerIDValue_def kMaxServerIDValue_def kDefaultCounter_def

definition validateServerId :: "int \<Rightarrow> unit res" where
  "validateServerId server =
     (if server < kMinServerIDValue then Inl (Err ErrLogic)
      else if server > kMaxServerIDValue then Inl (Err ErrLogic)
      else Inr ())"

definition validateCounter :: "int \<Rightarrow> unit res" where
  "validateCounter counter =
     (if counter > kDefaultCounter then Inl (Err ErrLogic) else Inr ())"

text \<open>The constructor \<open>lsn_t(int64_t counter, int16_t server)\<close>.\<close>

definition mk_lsn :: "int \<Rightarrow> int \<Rightarrow> lsn res" where
  "mk_lsn counter server =
     bind_res (validateCounter counter) (\<lambda>_.
     bind_res (validateServerId server) (\<lambda>_.
       let counter = (if counter < 0 then kDefaultCounter else counter)
       in Inr (Lsn_t (server * kMaxCounter + counter))))"

text \<open>The constructor \<open>lsn_t(int64_t v)\<close>, with C++'s truncating division.\<close>

definition lsn_of_int64 :: "int \<Rightarrow> lsn res" where
  "lsn_of_int64 v = mk_lsn (v smod kMaxCounter) (to_int16 (v sdiv kMaxCounter))"

text \<open>The default constructor.\<close>

definition lsn_default :: lsn where
  "lsn_default = Lsn_t kDefaultCounter"

definition Counter :: "lsn \<Rightarrow> int" where
  "Counter l = payload l smod kMaxCounter"

definition Server :: "lsn \<Rightarrow> int" where
  "Server l = to_int16 (payload l sdiv kMaxCounter)"

definition Unpack :: "lsn \<Rightarrow> lsn_unpacked" where
  "Unpack l = \<lparr>unp_server = Server l, unp_counter = Counter l\<rparr>"

definition isEmpty :: "lsn \<Rightarrow> bool" where
  "isEmpty l \<longleftrightarrow> Counter l = kDefaultCounter"

definition SetServer :: "lsn \<Rightarrow> int \<Rightarrow> lsn res" where
  "SetServer l server =
     bind_res (validateServerId server) (\<lambda>_. Inr (Lsn_t (server * kMaxCounter + Counter l)))"

definition SetCounter :: "lsn \<Rightarrow> int \<Rightarrow> lsn res" where
  "SetCounter l counter =
     bind_res (validateCounter counter) (\<lambda>_.
       let counter = (if counter < 0 then kDefaultCounter else counter)
       in Inr (Lsn_t (Server l * kMaxCounter + counter)))"

text \<open>\<open>operator++()\<close>: the new value; \<open>operator++(int)\<close>: the old value and the new one.\<close>

definition lsn_preinc :: "lsn \<Rightarrow> lsn res" where
  "lsn_preinc l = SetCounter l (Counter l + 1)"

definition lsn_postinc :: "lsn \<Rightarrow> (lsn \<times> lsn) res" where
  "lsn_postinc l = bind_res (SetCounter l (Counter l + 1)) (\<lambda>l'. Inr (l, l'))"

definition lsn_compare :: "lsn \<Rightarrow> lsn \<Rightarrow> int res" where
  "lsn_compare l o' =
     (if Server l \<noteq> Server o' then Inl (Err ErrLogic)
      else if Counter l < Counter o' then Inr (- 1)
      else if Counter l > Counter o' then Inr 1
      else Inr 0)"

definition lsn_lt :: "lsn \<Rightarrow> lsn \<Rightarrow> bool res" where
  "lsn_lt l o' = bind_res (lsn_compare l o') (\<lambda>c. Inr (c = - 1))"
definition lsn_le :: "lsn \<Rightarrow> lsn \<Rightarrow> bool res" where
  "lsn_le l o' = bind_res (lsn_compare l o') (\<lambda>c. Inr (c \<le> 0))"
definition lsn_gt :: "lsn \<Rightarrow> lsn \<Rightarrow> bool res" where
  "lsn_gt l o' = bind_res (lsn_compare l o') (\<lambda>c. Inr (c = 1))"
definition lsn_ge :: "lsn \<Rightarrow> lsn \<Rightarrow> bool res" where
  "lsn_ge l o' = bind_res (lsn_compare l o') (\<lambda>c. Inr (c \<ge> 0))"

text \<open>
  \<open>lsn_t::FromJSON\<close> once the JSON library has read the two fields: \<open>server_id\<close> as \<open>int\<close> (0 when
  absent), \<open>counter\<close> as \<open>int64_t\<close> (\<open>kDefaultCounter\<close> when absent). Passing the \<open>int\<close> to the
  \<open>int16_t\<close> parameter narrows it.
\<close>

definition lsn_FromJSON :: "int option \<Rightarrow> int option \<Rightarrow> lsn res" where
  "lsn_FromJSON server_id counter =
     (let server = (case server_id of Some s \<Rightarrow> s | None \<Rightarrow> 0);
          counter = (case counter of Some c \<Rightarrow> c | None \<Rightarrow> kDefaultCounter)
      in bind_res (mk_lsn counter (to_int16 server)) (\<lambda>l. Inr (Lsn_t (payload l))))"

subsection \<open>Extended LSN\<close>

record extended_lsn =
  nsVersion :: lsn
  ext_lsn :: lsn

definition IsCompatibleByNsVersion :: "extended_lsn \<Rightarrow> extended_lsn \<Rightarrow> bool" where
  "IsCompatibleByNsVersion l r \<longleftrightarrow>
     Server (nsVersion l) = Server (nsVersion r) \<and> nsVersion l = nsVersion r"

definition ext_IsEmpty :: "extended_lsn \<Rightarrow> bool" where
  "ext_IsEmpty l \<longleftrightarrow> isEmpty (nsVersion l) \<and> isEmpty (ext_lsn l)"

definition HasNewerCounterThan :: "extended_lsn \<Rightarrow> extended_lsn \<Rightarrow> bool" where
  "HasNewerCounterThan l r \<longleftrightarrow>
     (let rNsV = Counter (nsVersion r); lNsV = Counter (nsVersion l)
      in isEmpty (ext_lsn r) \<or> isEmpty (nsVersion r) \<or> lNsV > rNsV \<or>
         (lNsV = rNsV \<and> Counter (ext_lsn l) > Counter (ext_lsn r)))"

definition ext_neq :: "extended_lsn \<Rightarrow> extended_lsn \<Rightarrow> bool" where
  "ext_neq l r \<longleftrightarrow>
     Server (nsVersion l) \<noteq> Server (nsVersion r) \<or> Counter (nsVersion l) \<noteq> Counter (nsVersion r) \<or>
     Server (ext_lsn l) \<noteq> Server (ext_lsn r) \<or> Counter (ext_lsn l) \<noteq> Counter (ext_lsn r)"

definition ext_eq :: "extended_lsn \<Rightarrow> extended_lsn \<Rightarrow> bool" where
  "ext_eq l r \<longleftrightarrow> \<not> ext_neq l r"

subsection \<open>Well-formed LSNs\<close>

definition lsn_wf :: "lsn \<Rightarrow> bool" where
  "lsn_wf l \<longleftrightarrow> 0 \<le> payload l \<and> payload l < (kMaxServerIDValue + 1) * kMaxCounter"

lemma lsn_payload_range: "lsn_wf l \<Longrightarrow> 0 \<le> payload l \<and> payload l < 2 ^ 63"
  by (simp add: lsn_wf_def lsn_consts)

lemma lsn_wf_parts:
  assumes "lsn_wf l"
  shows "Server l = payload l div kMaxCounter" "Counter l = payload l mod kMaxCounter"
    "0 \<le> Server l" "Server l \<le> kMaxServerIDValue" "0 \<le> Counter l" "Counter l \<le> kDefaultCounter"
    "payload l = Server l * kMaxCounter + Counter l"
proof -
  from assms have r: "0 \<le> payload l" "payload l < 1000 * 1000000000000000"
    by (simp_all add: lsn_wf_def lsn_consts)
  then have "payload l div 1000000000000000 < 1000" "0 \<le> payload l div 1000000000000000"
    by (simp_all add: div_less_iff_less_mult pos_imp_zdiv_nonneg_iff)
  then have s: "Server l = payload l div kMaxCounter"
    using r by (simp add: Server_def lsn_consts to_int16_id)
  have c: "Counter l = payload l mod kMaxCounter"
    using r by (simp add: Counter_def lsn_consts)
  show "Server l = payload l div kMaxCounter" "Counter l = payload l mod kMaxCounter"
    by (fact s, fact c)
  show "0 \<le> Server l" "Server l \<le> kMaxServerIDValue"
    using s \<open>payload l div 1000000000000000 < 1000\<close> \<open>0 \<le> payload l div 1000000000000000\<close>
    by (simp_all add: lsn_consts)
  show "0 \<le> Counter l" "Counter l \<le> kDefaultCounter"
    using c pos_mod_bound [of 1000000000000000 "payload l"] by (simp_all add: lsn_consts)
  show "payload l = Server l * kMaxCounter + Counter l"
    by (simp add: s c)
qed

lemma lsn_pack_parts [simp]:
  assumes "0 \<le> s" "s \<le> kMaxServerIDValue" "0 \<le> c" "c \<le> kDefaultCounter"
  shows "lsn_wf (Lsn_t (s * kMaxCounter + c))"
    "Server (Lsn_t (s * kMaxCounter + c)) = s" "Counter (Lsn_t (s * kMaxCounter + c)) = c"
proof -
  from assms have b: "s \<le> 999" "c < 1000000000000000"
    by (simp_all add: lsn_consts)
  then have "s * 1000000000000000 + c < 1000 * 1000000000000000"
    by linarith
  then show wf: "lsn_wf (Lsn_t (s * kMaxCounter + c))"
    using assms by (simp add: lsn_wf_def lsn_consts)
  have d: "(s * 1000000000000000 + c) div 1000000000000000 = s"
    using assms(3) b(2) by (simp add: div_pos_pos_trivial)
  then show "Server (Lsn_t (s * kMaxCounter + c)) = s"
    using lsn_wf_parts(1) [OF wf] by (simp add: lsn_consts)
  have "(s * 1000000000000000 + c) mod 1000000000000000 = c"
    using assms(3) b(2) by simp
  then show "Counter (Lsn_t (s * kMaxCounter + c)) = c"
    using lsn_wf_parts(2) [OF wf] by (simp add: lsn_consts)
qed


subsection \<open>Properties\<close>

lemma kDefaultCounter_range [simp]: "0 \<le> kDefaultCounter"
  by (simp add: lsn_consts)

lemma mk_lsn_Inr [res_simps]:
  "mk_lsn c s = Inr l \<longleftrightarrow>
     c \<le> kDefaultCounter \<and> 0 \<le> s \<and> s \<le> kMaxServerIDValue \<and>
     l = Lsn_t (s * kMaxCounter + (if c < 0 then kDefaultCounter else c))"
  by (auto simp: mk_lsn_def validateCounter_def validateServerId_def kMinServerIDValue_def
      split: if_splits)

lemma mk_lsn_wf: "mk_lsn c s = Inr l \<Longrightarrow> lsn_wf l"
  by (auto simp: mk_lsn_Inr)

lemma mk_lsn_parts:
  "mk_lsn c s = Inr l \<Longrightarrow> Server l = s"
  "mk_lsn c s = Inr l \<Longrightarrow> Counter l = (if c < 0 then kDefaultCounter else c)"
  by (auto simp: mk_lsn_Inr)

lemma lsn_default_wf [simp]: "lsn_wf lsn_default"
  by (simp add: lsn_default_def lsn_wf_def lsn_consts)

lemma lsn_eq_parts: "lsn_wf a \<Longrightarrow> lsn_wf b \<Longrightarrow> Server a = Server b \<Longrightarrow> Counter a = Counter b \<Longrightarrow> a = b"
  by (cases a, cases b) (metis lsn.sel lsn_wf_parts(7))

lemma SetCounter_mk: "lsn_wf l \<Longrightarrow> SetCounter l c = mk_lsn c (Server l)"
  using lsn_wf_parts(3,4) [of l]
  by (auto simp: SetCounter_def mk_lsn_def validateCounter_def validateServerId_def kMinServerIDValue_def)

lemma SetServer_mk:
  assumes "lsn_wf l"
  shows "SetServer l s = mk_lsn (Counter l) s"
proof -
  from lsn_wf_parts(5,6) [OF assms] have "\<not> Counter l < 0" "validateCounter (Counter l) = Inr ()"
    by (simp_all add: validateCounter_def)
  then show ?thesis by (simp add: SetServer_def mk_lsn_def)
qed

text \<open>
  C34. Packing and unpacking an LSN: whenever the constructor accepts a counter and a server id, the
  accessors return them (a negative counter meaning the empty LSN), the packed value fits
  \<open>int64_t\<close>, and rebuilding an LSN from the packed integer gives the same LSN.
\<close>

theorem lsn_roundtrip:
  assumes "mk_lsn c s = Inr l"
  shows "Server l = s \<and> Counter l = (if c < 0 then kDefaultCounter else c) \<and>
    0 \<le> payload l \<and> payload l < 2 ^ 63 \<and> lsn_of_int64 (payload l) = Inr l"
proof -
  have wf: "lsn_wf l" using assms by (rule mk_lsn_wf)
  have parts: "Server l = s" "Counter l = (if c < 0 then kDefaultCounter else c)"
    using mk_lsn_parts [OF assms] by simp_all
  have "lsn_of_int64 (payload l) = mk_lsn (Counter l) (Server l)"
    by (simp add: lsn_of_int64_def Counter_def Server_def)
  also have "\<dots> = Inr l"
    using lsn_wf_parts(3-7) [OF wf] by (cases l) (simp add: mk_lsn_Inr)
  finally show ?thesis using parts lsn_payload_range [OF wf] by simp
qed

theorem lsn_roundtrip_witness:
  "Server (Lsn_t 7000000000000042) = 7 \<and> Counter (Lsn_t 7000000000000042) = 42 \<and>
   lsn_of_int64 7000000000000042 = Inr (Lsn_t 7000000000000042)"
proof -
  have "mk_lsn 42 7 = Inr (Lsn_t 7000000000000042)"
    by (simp add: mk_lsn_Inr lsn_consts)
  from lsn_roundtrip [OF this] show ?thesis by simp
qed

text \<open>The counter steps by one until it reaches the empty value, where stepping throws.\<close>

lemma lsn_preinc_step:
  assumes "lsn_wf l" "\<not> isEmpty l"
  obtains l' where "lsn_preinc l = Inr l'" "lsn_wf l'" "Server l' = Server l" "Counter l' = Counter l + 1"
proof -
  from lsn_wf_parts(3-6) [OF assms(1)] assms(2)
  have b: "0 \<le> Server l" "Server l \<le> kMaxServerIDValue" "0 \<le> Counter l + 1" "Counter l + 1 \<le> kDefaultCounter"
    by (simp_all add: isEmpty_def)
  have "lsn_preinc l = Inr (Lsn_t (Server l * kMaxCounter + (Counter l + 1)))"
    using b by (simp add: lsn_preinc_def SetCounter_mk [OF assms(1)] mk_lsn_Inr)
  with b show ?thesis
    by (intro that [of "Lsn_t (Server l * kMaxCounter + (Counter l + 1))"]) simp_all
qed

lemma lsn_preinc_empty: "lsn_wf l \<Longrightarrow> isEmpty l \<Longrightarrow> lsn_preinc l = Inl (Err ErrLogic)"
  by (simp add: lsn_preinc_def SetCounter_def validateCounter_def isEmpty_def)

lemma lsn_postinc_preinc: "lsn_postinc l = bind_res (lsn_preinc l) (\<lambda>l'. Inr (l, l'))"
  by (simp add: lsn_postinc_def lsn_preinc_def)

text \<open>
  The order of LSNs: comparing LSNs of different servers throws; on one server the four
  comparison operators never throw and agree with the order of the counters, and "neither less nor
  greater" is equality of the packed values.
\<close>

theorem lsn_order_correct:
  assumes "lsn_wf a" "lsn_wf b"
  shows "(if Server a \<noteq> Server b
          then lsn_lt a b = Inl (Err ErrLogic) \<and> lsn_le a b = Inl (Err ErrLogic) \<and>
               lsn_gt a b = Inl (Err ErrLogic) \<and> lsn_ge a b = Inl (Err ErrLogic)
          else lsn_lt a b = Inr (Counter a < Counter b) \<and> lsn_le a b = Inr (Counter a \<le> Counter b) \<and>
               lsn_gt a b = Inr (Counter b < Counter a) \<and> lsn_ge a b = Inr (Counter b \<le> Counter a) \<and>
               (lsn_compare a b = Inr 0 \<longleftrightarrow> a = b))"
  using lsn_eq_parts [OF assms]
  by (auto simp: lsn_lt_def lsn_le_def lsn_gt_def lsn_ge_def lsn_compare_def)

theorem lsn_order_correct_witness:
  "lsn_lt (Lsn_t 7000000000000042) (Lsn_t 7000000000000043) = Inr True"
  using lsn_order_correct [of "Lsn_t 7000000000000042" "Lsn_t 7000000000000043"]
  by (simp add: lsn_wf_def lsn_consts Server_def Counter_def to_int16_id)

lemma ext_eq_iff:
  assumes "lsn_wf (nsVersion a)" "lsn_wf (ext_lsn a)" "lsn_wf (nsVersion b)" "lsn_wf (ext_lsn b)"
  shows "ext_eq a b \<longleftrightarrow> nsVersion a = nsVersion b \<and> ext_lsn a = ext_lsn b"
  using lsn_eq_parts [OF assms(1,3)] lsn_eq_parts [OF assms(2,4)]
  by (auto simp: ext_eq_def ext_neq_def)

lemma HasNewerCounterThan_asym:
  assumes "HasNewerCounterThan a b" "\<not> isEmpty (nsVersion b)" "\<not> isEmpty (ext_lsn b)"
    "\<not> isEmpty (nsVersion a)" "\<not> isEmpty (ext_lsn a)"
  shows "\<not> HasNewerCounterThan b a"
  using assms by (auto simp: HasNewerCounterThan_def Let_def)

text \<open>A JSON \<open>server_id\<close> outside 16 bits is narrowed before it is validated.\<close>

lemma lsn_FromJSON_narrows:
  "lsn_FromJSON (Some 65543) (Some 42) = lsn_FromJSON (Some 7) (Some 42)"
  by (simp add: lsn_FromJSON_def to_int16_def signed_take_bit_int_eq_self_iff; code_simp)

end
