(* ===== verification/BoundedLog.thy ===== *)
theory BoundedLog
  imports Prelude
begin

section \<open>Bounded logs\<close>

text \<open>
  The contract of a log that keeps the latest entries only: appending an entry to a log of capacity
  \<open>n\<close> leaves the last \<open>n\<close> entries of the old contents with the new one at the end. The ring of the
  write-ahead log tracker is an instance (theory \<open>WalTracker\<close>).
\<close>

definition lastn :: "nat \<Rightarrow> 'a list \<Rightarrow> 'a list" where
  "lastn n xs = drop (length xs - n) xs"

lemma length_lastn [simp]: "length (lastn n xs) = min n (length xs)"
  by (simp add: lastn_def)

lemma lastn_id: "length xs \<le> n \<Longrightarrow> lastn n xs = xs"
  by (simp add: lastn_def)

lemma lastn_append: "lastn n (xs @ ys) = lastn (n - length ys) xs @ lastn n ys"
proof (cases "n \<le> length ys")
  case True
  then show ?thesis by (simp add: lastn_def)
next
  case False
  then have "length xs + length ys - n = length xs - (n - length ys)" by simp
  with False show ?thesis by (simp add: lastn_def)
qed

lemma lastn_lastn: "lastn n (lastn n xs @ ys) = lastn n (xs @ ys)"
proof -
  have "length xs - (length xs - n + (n - length ys)) + (length xs - n) = length xs - (n - length ys)"
    by (cases "length xs \<le> n") simp_all
  then have "lastn (n - length ys) (lastn n xs) = lastn (n - length ys) xs"
    by (simp add: lastn_def)
  then show ?thesis by (simp add: lastn_append)
qed

lemma set_lastn: "set (lastn n xs) \<subseteq> set xs"
  by (simp add: lastn_def set_drop_subset)

lemma map_lastn: "map f (lastn n xs) = lastn n (map f xs)"
  by (simp add: lastn_def drop_map)

locale bounded_log =
  fixes contents :: "'s \<Rightarrow> 'e list"
    and capacity :: "'s \<Rightarrow> nat"
    and inv :: "'s \<Rightarrow> bool"
    and push :: "'s \<Rightarrow> 'e \<Rightarrow> 's \<Rightarrow> bool"
  assumes push_inv: "inv s \<Longrightarrow> push s e s' \<Longrightarrow> inv s'"
    and push_capacity: "inv s \<Longrightarrow> push s e s' \<Longrightarrow> capacity s' = capacity s"
    and push_contents: "inv s \<Longrightarrow> push s e s' \<Longrightarrow> contents s' = lastn (capacity s) (contents s @ [e])"
begin

text \<open>Any number of appends.\<close>

inductive pushes :: "'s \<Rightarrow> 'e list \<Rightarrow> 's \<Rightarrow> bool" where
  none: "pushes s [] s"
| more: "push s e s' \<Longrightarrow> pushes s' es s'' \<Longrightarrow> pushes s (e # es) s''"

lemma pushes_inv:
  "pushes s es s' \<Longrightarrow> inv s \<Longrightarrow> inv s' \<and> capacity s' = capacity s"
  by (induction rule: pushes.induct) (auto simp: push_inv push_capacity)

lemma pushes_contents:
  "pushes s es s' \<Longrightarrow> inv s \<Longrightarrow> length (contents s) \<le> capacity s \<Longrightarrow>
    contents s' = lastn (capacity s) (contents s @ es)"
proof (induction rule: pushes.induct)
  case (none s)
  then show ?case by (simp add: lastn_id)
next
  case (more s e s' es s'')
  have c: "contents s' = lastn (capacity s) (contents s @ [e])" "capacity s' = capacity s" "inv s'"
    using more push_contents push_capacity push_inv by auto
  then have "contents s'' = lastn (capacity s) (contents s' @ es)" using more.IH by simp
  then show ?case by (simp add: c(1) lastn_lastn)
qed

text \<open>The latest entries, up to the capacity, are all kept and in order.\<close>

lemma pushes_keep_latest:
  assumes "pushes s es s'" "inv s" "length (contents s) \<le> capacity s" "capacity s \<le> length es"
  shows "contents s' = lastn (capacity s) es"
proof -
  have "lastn 0 (contents s) = []" by (simp add: lastn_def)
  then show ?thesis using pushes_contents [OF assms(1-3)] assms(4) by (simp add: lastn_append)
qed

end

end
