(* ===== verification/WalTracker.thy ===== *)
theory WalTracker
  imports WalRecord Lsn BoundedLog
begin

section \<open>The write-ahead log tracker\<close>

text \<open>
  \<open>wal/waltracker.h\<close> and \<open>.cc\<close>: a ring buffer of packed records indexed by LSN counter modulo the
  capacity \<open>walSize_\<close>. A vector access out of range is \<open>UB\<close>. Records are kept packed, as the code does
  (packing never changes the tracker). The storage is seen from outside: \<open>wt_stored\<close> collects the
  key/value pairs written to it, in order, when there is one; what \<open>Init\<close> reads from it is an argument. The
  cached heap size, a statistic, is left out. LSN counters stay below \<open>10 ^ 15\<close>, so \<open>int\<close> is exact.
\<close>

subsection \<open>State and positions\<close>

type_synonym marked_record = "int \<times> bytes"

record wal_tracker =
  wt_records :: "marked_record list"
  wt_lsnCounter :: lsn
  wt_lastLsn :: lsn
  wt_walSize :: int
  wt_walOffset :: int
  wt_storage :: bool
  wt_stored :: "(bytes \<times> bytes) list"

definition mk_WALTracker :: "int \<Rightarrow> wal_tracker" where
  "mk_WALTracker sz =
     \<lparr>wt_records = [], wt_lsnCounter = Lsn_t 0, wt_lastLsn = lsn_default, wt_walSize = sz, wt_walOffset = 0,
      wt_storage = False, wt_stored = []\<rparr>"

definition copy_WALTracker :: "wal_tracker \<Rightarrow> (bytes \<times> bytes) list \<Rightarrow> wal_tracker" where
  "copy_WALTracker wal stored = wal\<lparr>wt_storage := True, wt_stored := stored\<rparr>"

definition LSNCounter :: "wal_tracker \<Rightarrow> int" where "LSNCounter t = Counter (wt_lsnCounter t)"
definition LastLSN :: "wal_tracker \<Rightarrow> lsn" where "LastLSN t = wt_lastLsn t"
definition Capacity :: "wal_tracker \<Rightarrow> int" where "Capacity t = wt_walSize t"
definition GetServer :: "wal_tracker \<Rightarrow> int" where "GetServer t = Server (wt_lsnCounter t)"

definition wt_SetServer :: "wal_tracker \<Rightarrow> int \<Rightarrow> wal_tracker res" where
  "wt_SetServer t server = bind_res (SetServer (wt_lsnCounter t) server) (\<lambda>l. Inr (t\<lparr>wt_lsnCounter := l\<rparr>))"

definition OnNewLeaderSet :: "wal_tracker \<Rightarrow> int \<Rightarrow> wal_tracker res" where
  "OnNewLeaderSet t leaderId =
     (if leaderId \<ge> 0 \<and> isEmpty (wt_lastLsn t)
      then bind_res (SetServer (wt_lastLsn t) leaderId) (\<lambda>l. Inr (t\<lparr>wt_lastLsn := l\<rparr>))
      else Inr t)"

definition rec_at :: "wal_tracker \<Rightarrow> int \<Rightarrow> marked_record res" where
  "rec_at t pos =
     (if 0 \<le> pos \<and> pos < int (length (wt_records t)) then Inr (wt_records t ! nat pos) else Inl UB)"

definition wt_size :: "wal_tracker \<Rightarrow> int" where
  "wt_size t =
     (let counter = Counter (wt_lsnCounter t) in
      if counter = 0 \<or> wt_walSize t = 0 then 0
      else
        let walEnd = counter mod wt_walSize t in
        if wt_walOffset t = walEnd then wt_walSize t
        else if wt_walOffset t < walEnd then walEnd - wt_walOffset t
        else walEnd + (int (length (wt_records t)) - wt_walOffset t))"

definition available :: "wal_tracker \<Rightarrow> lsn \<Rightarrow> bool \<Rightarrow> bool res" where
  "available t l ignoreServer =
     (let lsnUnp = Unpack l; counter = Counter (wt_lsnCounter t) in
      if unp_counter lsnUnp < counter \<and> counter - unp_counter lsnUnp \<le> wt_size t
      then bind_res (rec_at t (unp_counter lsnUnp mod wt_walSize t)) (\<lambda>r.
           Inr (fst r = unp_server lsnUnp \<or> ignoreServer))
      else Inr False)"

definition FirstLSN :: "wal_tracker \<Rightarrow> lsn res" where
  "FirstLSN t =
     (let counter = Counter (wt_lsnCounter t) in
      if counter = 0 then Inr lsn_default
      else
        bind_res (rec_at t (wt_walOffset t)) (\<lambda>r.
        case mk_lsn (counter - wt_size t) (fst r) of Inr l \<Rightarrow> Inr l | Inl e \<Rightarrow> Inl Abort))"

definition LSNByOffset :: "wal_tracker \<Rightarrow> int \<Rightarrow> lsn res" where
  "LSNByOffset t offset =
     (if offset < 0 \<or> offset \<ge> wt_size t then FirstLSN t
      else
        let counter = Counter (wt_lsnCounter t) in
        if counter = 0 then Inr lsn_default
        else
          bind_res (rec_at t ((counter - offset) mod wt_walSize t)) (\<lambda>r.
          case mk_lsn (counter - offset) (fst r) of Inr l \<Rightarrow> Inr l | Inl e \<Rightarrow> Inl Abort))"

subsection \<open>Storing records\<close>

text \<open>\<open>put\<close> of a \<open>WALRecord\<close> grows the vector up to the position; of a packed record, by one at most.\<close>

definition put_record :: "wal_tracker \<Rightarrow> lsn \<Rightarrow> bytes \<Rightarrow> wal_tracker" where
  "put_record t l rec =
     (let pos = nat (Counter l mod wt_walSize t);
          records = (if pos \<ge> length (wt_records t) then resize (pos + 1) (GetServer t, []) (wt_records t)
                     else wt_records t)
      in t\<lparr>wt_records := records[pos := (Server l, rec)]\<rparr>)"

definition put_packed :: "wal_tracker \<Rightarrow> lsn \<Rightarrow> bytes \<Rightarrow> wal_tracker res" where
  "put_packed t l rec =
     (let pos = nat (Counter l mod wt_walSize t) in
      if \<not> pos \<le> length (wt_records t) then Inl Abort
      else if pos = length (wt_records t) then Inr (t\<lparr>wt_records := wt_records t @ [(Server l, rec)]\<rparr>)
      else Inr (t\<lparr>wt_records := (wt_records t)[pos := (Server l, rec)]\<rparr>))"

text \<open>The two overloads of \<open>put\<close> the template \<open>add\<close> resolves to.\<close>

definition wt_put :: "bool \<Rightarrow> wal_tracker \<Rightarrow> lsn \<Rightarrow> bytes \<Rightarrow> wal_tracker res" where
  "wt_put isPacked t l rec = (if isPacked then put_packed t l rec else Inr (put_record t l rec))"

definition kStorageWALPrefix :: bytes where "kStorageWALPrefix = [0x57]"

definition writeToStorage :: "wal_tracker \<Rightarrow> lsn \<Rightarrow> wal_tracker res" where
  "writeToStorage t l =
     (if wt_storage t then
        let pos = Counter l mod wt_walSize t in
        bind_res (rec_at t pos) (\<lambda>r.
        Inr (t\<lparr>wt_stored := wt_stored t @
          [(kStorageWALPrefix @ le_bytes 4 (nat pos mod 2 ^ 32), le_bytes 8 (nat (payload l)) @ snd r)]\<rparr>))
      else Inr t)"

definition wt_Set :: "wal_tracker \<Rightarrow> bytes \<Rightarrow> lsn \<Rightarrow> bool \<Rightarrow> (bool \<times> wal_tracker) res" where
  "wt_Set t rec l ignoreServer =
     bind_res (available t l ignoreServer) (\<lambda>av.
     if \<not> av then Inr (False, t)
     else
       let t = (if Counter l = Counter (wt_lastLsn t) then t\<lparr>wt_lastLsn := l\<rparr> else t)
       in Inr (True, put_record t l rec))"

text \<open>\<open>initPositions\<close>; \<open>None\<close> is the value \<open>int64_t\<close> max of \<open>minLSN\<close>.\<close>

definition initPositions :: "wal_tracker \<Rightarrow> int \<Rightarrow> int option \<Rightarrow> int \<Rightarrow> wal_tracker res" where
  "initPositions t sz minLSN maxLSN =
     (let counter = maxLSN + 1 in
      bind_res (SetCounter (wt_lsnCounter t) counter) (\<lambda>lc.
      bind_res (mk_lsn maxLSN (Server lc)) (\<lambda>ll.
      Inr (t\<lparr>wt_lsnCounter := lc, wt_lastLsn := ll, wt_walSize := sz,
             wt_records := replicate (nat (min counter sz)) (Server lc, []),
             wt_walOffset :=
               (case minLSN of
                  None \<Rightarrow> 0
                | Some m \<Rightarrow> if sz = 0 then 0 else if counter > sz + m then counter mod sz else m mod sz)\<rparr>))))"

text \<open>Setting a list of records in order, as the loops of \<open>Init\<close> and \<open>Resize\<close> do.\<close>

fun set_all :: "wal_tracker \<Rightarrow> (lsn \<times> bytes) list \<Rightarrow> wal_tracker res" where
  "set_all t [] = Inr t"
| "set_all t ((l, rec) # rs) = bind_res (wt_Set t rec l True) (\<lambda>(_, t). set_all t rs)"

fun old_entries :: "marked_record list \<Rightarrow> int \<Rightarrow> int list \<Rightarrow> (lsn \<times> bytes) list res" where
  "old_entries old oldSz [] = Inr []"
| "old_entries old oldSz (l # ls) =
     (let pos = nat (l mod oldSz) in
      if \<not> pos < length old then Inl UB
      else
        bind_res (mk_lsn l (fst (old ! pos))) (\<lambda>n.
        bind_res (old_entries old oldSz ls) (\<lambda>es. Inr ((n, snd (old ! pos)) # es))))"

text \<open>
  \<open>Init\<close> and \<open>Resize\<close> unpack each record and let \<open>Set\<close> pack it again; a value that does not parse as a
  record throws. \<open>inBuf\<close> is the array of the serializers.
\<close>

fun repack :: "bytes \<Rightarrow> (lsn \<times> bytes) list \<Rightarrow> (lsn \<times> bytes) list res" where
  "repack inBuf [] = Inr []"
| "repack inBuf ((l, v) # vs) =
     bind_res (WALRecord_of_span v) (\<lambda>r.
     bind_res (PackedWALRecord_Pack inBuf r) (\<lambda>b.
     bind_res (repack inBuf vs) (\<lambda>rs. Inr ((l, b) # rs))))"

definition wt_Resize :: "bytes \<Rightarrow> wal_tracker \<Rightarrow> int \<Rightarrow> (bool \<times> wal_tracker) res" where
  "wt_Resize inBuf t sz =
     (let oldSz = Capacity t in
      if sz = oldSz then Inr (False, t)
      else
        let filledSize = wt_size t;
            maxLSN = (if filledSize \<noteq> 0 then Counter (wt_lsnCounter t) - 1 else - 1);
            minLSN = (if filledSize \<noteq> 0 then Some (maxLSN - ((if sz > filledSize then filledSize else sz) - 1)) else None)
        in
        bind_res (initPositions t sz minLSN maxLSN) (\<lambda>t'.
        bind_res (old_entries (wt_records t) oldSz (case minLSN of None \<Rightarrow> [] | Some m \<Rightarrow> [m..maxLSN])) (\<lambda>es.
        bind_res (repack inBuf es) (\<lambda>es.
        bind_res (set_all t' es) (\<lambda>t'. Inr (True, t'))))))"

text \<open>\<open>Reset\<close>; the keys of the log are removed from the storage.\<close>

definition wt_Reset :: "wal_tracker \<Rightarrow> wal_tracker res" where
  "wt_Reset t =
     bind_res (mk_lsn 0 (Server (wt_lsnCounter t))) (\<lambda>lc.
     Inr (t\<lparr>wt_records := [], wt_lsnCounter := lc, wt_walOffset := 0, wt_lastLsn := lsn_default,
            wt_stored := (if wt_storage t then [] else wt_stored t)\<rparr>))"

text \<open>\<open>readFromStorage\<close>: the values under the log's prefix, in cursor order; short ones are skipped.\<close>

fun readFromStorage :: "bytes list \<Rightarrow> int \<Rightarrow> ((lsn \<times> bytes) list \<times> int) res" where
  "readFromStorage [] maxLSN = Inr ([], maxLSN)"
| "readFromStorage (v # vs) maxLSN =
     (if length v \<ge> 8 then
        bind_res (GetUInt64 (mk_Serializer v)) (\<lambda>(n, ser).
        bind_res (lsn_of_int64 (sint n)) (\<lambda>l.
        if \<not> Counter l \<ge> 0 then Inl Abort
        else
          bind_res (readFromStorage vs (max maxLSN (Counter l))) (\<lambda>(data, m).
          Inr ((l, drop (unat (ser_pos ser)) v) # data, m))))
      else readFromStorage vs maxLSN)"

definition wt_Init :: "bytes \<Rightarrow> wal_tracker \<Rightarrow> int \<Rightarrow> int option \<Rightarrow> int \<Rightarrow> (bytes \<times> bytes) list \<Rightarrow> wal_tracker res" where
  "wt_Init inBuf t sz minLSN maxLSN storage =
     bind_res (readFromStorage (map snd storage) maxLSN) (\<lambda>(data, maxLSN).
     bind_res (initPositions (t\<lparr>wt_storage := True, wt_stored := storage\<rparr>) sz minLSN maxLSN) (\<lambda>t.
     bind_res (repack inBuf data) (set_all t)))"

subsection \<open>Adding a record\<close>

definition add_position :: "wal_tracker \<Rightarrow> lsn \<Rightarrow> (lsn \<times> wal_tracker) res" where
  "add_position t originLsn =
     (let localServerID = GetServer t;
          initialLsnCounter = Counter (wt_lsnCounter t);
          emptyWAL = (initialLsnCounter = 0)
      in
      if isEmpty originLsn then
        bind_res (lsn_postinc (wt_lsnCounter t)) (\<lambda>(l, lc). Inr (l, t\<lparr>wt_lsnCounter := lc\<rparr>))
      else if initialLsnCounter > Counter originLsn then Inl (Err ErrLogic)
      else
        let newCounter = Counter originLsn in
        bind_res
          (if emptyWAL \<and> wt_walSize t \<noteq> 0 then
             if wt_records t \<noteq> [] then Inl Abort
             else if wt_walOffset t \<noteq> 0 then Inl Abort
             else
               let off = newCounter mod wt_walSize t in
               Inr (t\<lparr>wt_walOffset := off, wt_records := resize (nat off) (localServerID, []) (wt_records t)\<rparr>)
           else Inr t) (\<lambda>t.
        bind_res (SetCounter (wt_lsnCounter t) (newCounter + 1)) (\<lambda>lc.
        Inr (originLsn, t\<lparr>wt_lsnCounter := lc\<rparr>))))"

definition wt_add ::
    "bool \<Rightarrow> wal_tracker \<Rightarrow> bytes \<Rightarrow> lsn \<Rightarrow> bool \<Rightarrow> lsn \<Rightarrow> (lsn \<times> wal_tracker) res" where
  "wt_add isPacked t rec originLsn toStorage oldLsn =
     (let localServerID = GetServer t;
          emptyWAL = (Counter (wt_lsnCounter t) = 0)
      in
      bind_res (add_position t originLsn) (\<lambda>(l, t).
      let t = t\<lparr>wt_lastLsn := l\<rparr> in
      if wt_walSize t = 0 then Inr (l, t)
      else
        let counter = Counter (wt_lsnCounter t);
            t = (if counter > 1 \<and> wt_walOffset t = (counter - 1) mod wt_walSize t \<and> \<not> emptyWAL
                 then t\<lparr>wt_walOffset := counter mod wt_walSize t\<rparr> else t)
        in
        bind_res (wt_put isPacked t l rec) (\<lambda>t.
        bind_res (if isEmpty oldLsn then Inr False else available t oldLsn False) (\<lambda>av.
        bind_res
          (if av then
             let t = put_record t oldLsn [] in
             if Server oldLsn \<noteq> localServerID then writeToStorage t oldLsn else Inr t
           else Inr t) (\<lambda>t.
        bind_res (if toStorage then writeToStorage t l else Inr t) (\<lambda>t.
        Inr (l, t)))))))"

definition wt_Add :: "bytes \<Rightarrow> wal_tracker \<Rightarrow> wal_record \<Rightarrow> lsn \<Rightarrow> lsn \<Rightarrow> (lsn \<times> wal_tracker) res" where
  "wt_Add inBuf t r originLsn oldLsn =
     bind_res (PackedWALRecord_Pack inBuf r) (\<lambda>rec.
     wt_add False t rec originLsn (rec_type r \<noteq> WalItemUpdate) oldLsn)"

definition wt_Add_packed :: "wal_tracker \<Rightarrow> WALRecType \<Rightarrow> bytes \<Rightarrow> lsn \<Rightarrow> (lsn \<times> wal_tracker) res" where
  "wt_Add_packed t type rec originLsn = wt_add True t rec originLsn (type \<noteq> WalItemUpdate) lsn_default"

subsection \<open>Iteration\<close>

text \<open>An iterator is an LSN counter.\<close>

definition it_deref :: "wal_tracker \<Rightarrow> int \<Rightarrow> wal_record res" where
  "it_deref t idx =
     (if \<not> idx mod wt_walSize t < int (length (wt_records t)) then Inl Abort
      else bind_res (rec_at t (idx mod wt_walSize t)) (\<lambda>r. WALRecord_of_span (snd r)))"

definition it_GetRaw :: "wal_tracker \<Rightarrow> int \<Rightarrow> bytes res" where
  "it_GetRaw t idx = bind_res (rec_at t (idx mod wt_walSize t)) (\<lambda>r. Inr (snd r))"

definition it_GetLSN :: "wal_tracker \<Rightarrow> int \<Rightarrow> lsn res" where
  "it_GetLSN t idx =
     bind_res (rec_at t (idx mod wt_walSize t)) (\<lambda>r.
     case mk_lsn idx (fst r) of Inr l \<Rightarrow> Inr l | Inl e \<Rightarrow> Inl Abort)"

definition wt_end :: "wal_tracker \<Rightarrow> int" where
  "wt_end t = Counter (wt_lsnCounter t)"

definition wt_upper_bound :: "wal_tracker \<Rightarrow> lsn \<Rightarrow> int res" where
  "wt_upper_bound t l = bind_res (available t l False) (\<lambda>av. Inr (if \<not> av then wt_end t else Counter l + 1))"

definition wt_inclusive_upper_bound :: "wal_tracker \<Rightarrow> lsn \<Rightarrow> int res" where
  "wt_inclusive_upper_bound t l = bind_res (available t l False) (\<lambda>av. Inr (if \<not> av then wt_end t else Counter l))"

definition is_outdated :: "wal_tracker \<Rightarrow> lsn \<Rightarrow> bool res" where
  "is_outdated t l = bind_res (available t l False) (\<lambda>av. Inr (\<not> av))"

subsection \<open>The bounded log behind the ring\<close>

text \<open>
  \<open>B\<close> is the first LSN counter the tracker ever held; from it to the next counter \<open>N\<close> the counters are
  contiguous. The live ones are the last \<open>min W (N - B)\<close>, each at its counter modulo \<open>W\<close>.
\<close>

definition wt_inv :: "wal_tracker \<Rightarrow> int \<Rightarrow> bool" where
  "wt_inv t B \<longleftrightarrow>
     (let N = Counter (wt_lsnCounter t); W = wt_walSize t; R = int (length (wt_records t)) in
      lsn_wf (wt_lsnCounter t) \<and> 0 < W \<and> 0 \<le> B \<and> B \<le> N \<and>
      (if N = 0 then wt_records t = [] \<and> wt_walOffset t = 0
       else B < N \<and> wt_walOffset t = (if N - B \<le> W then B mod W else N mod W) \<and> R \<le> W \<and>
         (R = W \<or> R = (N - 1) mod W + 1 \<and> B div W = (N - 1) div W)))"

definition wt_live :: "wal_tracker \<Rightarrow> int \<Rightarrow> int list" where
  "wt_live t B = (let N = Counter (wt_lsnCounter t) in [N - min (wt_walSize t) (N - B) .. N - 1])"

definition wt_log :: "wal_tracker \<Rightarrow> int \<Rightarrow> (int \<times> marked_record) list" where
  "wt_log t B = map (\<lambda>k. (k, wt_records t ! nat (k mod wt_walSize t))) (wt_live t B)"

lemma mod_inj_window:
  fixes j k W :: int
  assumes "0 < W" "j mod W = k mod W" "j \<le> k" "k < j + W"
  shows "j = k"
proof -
  have "W dvd k - j" using assms(2) by (metis mod_eq_dvd_iff)
  then have "(k - j) mod W = 0" by (rule dvd_imp_mod_0)
  moreover have "(k - j) mod W = k - j" using assms by (intro mod_pos_pos_trivial) simp_all
  ultimately show ?thesis by simp
qed

lemma block_mod:
  fixes B M W :: int
  assumes "B div W = M div W"
  shows "M mod W = B mod W + (M - B)"
proof -
  have "B = W * (B div W) + B mod W" "M = W * (M div W) + M mod W" by simp_all
  moreover have "W * (B div W) = W * (M div W)" using assms by simp
  ultimately show ?thesis by linarith
qed

lemma next_mod:
  fixes M W :: int
  assumes "0 < W"
  shows "(M + 1) mod W = (if M mod W = W - 1 then 0 else M mod W + 1)"
    "(M + 1) div W = (if M mod W = W - 1 then M div W + 1 else M div W)"
proof -
  have m: "M = W * (M div W) + M mod W" by simp
  have r: "0 \<le> M mod W" "M mod W < W" using assms by simp_all
  show "(M + 1) mod W = (if M mod W = W - 1 then 0 else M mod W + 1)"
  proof (cases "M mod W = W - 1")
    case True
    then have "M + 1 = W * (M div W + 1) + 0" using m by (simp add: distrib_left)
    then have "(M + 1) mod W = 0" using assms by (intro int_mod_pos_eq) simp_all
    then show ?thesis using True by simp
  next
    case False
    have "M + 1 = W * (M div W) + (M mod W + 1)" using m by simp
    then have "(M + 1) mod W = M mod W + 1" by (rule int_mod_pos_eq) (use r False in simp_all)
    then show ?thesis using False by simp
  qed
  show "(M + 1) div W = (if M mod W = W - 1 then M div W + 1 else M div W)"
  proof (cases "M mod W = W - 1")
    case True
    then have "M + 1 = W * (M div W + 1) + 0" using m by (simp add: distrib_left)
    then have "(M + 1) div W = M div W + 1" using assms by (intro int_div_pos_eq) simp_all
    then show ?thesis using True by simp
  next
    case False
    have "M + 1 = W * (M div W) + (M mod W + 1)" using m by simp
    then have "(M + 1) div W = M div W" by (rule int_div_pos_eq) (use r False in simp_all)
    then show ?thesis using False by simp
  qed
qed

text \<open>The size the tracker computes from its offset is the number of live records.\<close>

lemma wt_size_live:
  assumes "wt_inv t B"
  shows "wt_size t = int (length (wt_live t B))"
proof -
  define N where "N = Counter (wt_lsnCounter t)"
  define W where "W = wt_walSize t"
  define R where "R = int (length (wt_records t))"
  have i: "0 < W" "0 \<le> B" "B \<le> N"
    "N \<noteq> 0 \<Longrightarrow> B < N \<and> wt_walOffset t = (if N - B \<le> W then B mod W else N mod W) \<and> R \<le> W \<and>
         (R = W \<or> R = (N - 1) mod W + 1 \<and> B div W = (N - 1) div W)"
    using assms by (auto simp: wt_inv_def N_def W_def R_def Let_def split: if_splits)
  have live: "int (length (wt_live t B)) = min W (N - B)"
    using i(1,3) by (simp add: wt_live_def N_def [symmetric] W_def [symmetric])
  show ?thesis
  proof (cases "N = 0")
    case True
    with live i show ?thesis by (simp add: wt_size_def N_def [symmetric])
  next
    case False
    note j = i(4) [OF False]
    have sz: "wt_size t = (if wt_walOffset t = N mod W then W
        else if wt_walOffset t < N mod W then N mod W - wt_walOffset t else N mod W + (R - wt_walOffset t))"
      using False i(1) by (simp add: wt_size_def Let_def N_def W_def R_def)
    show ?thesis
    proof (cases "N - B \<le> W")
      case False
      then show ?thesis using j sz live by simp
    next
      case le: True
      then have off: "wt_walOffset t = B mod W" using j by simp
      show ?thesis
      proof (cases "N - B = W")
        case True
        then have "N mod W = B mod W" by (metis add_diff_cancel_left' diff_add_cancel mod_add_self2)
        then show ?thesis using sz live off True by simp
      next
        case False
        then have lt: "N - B < W" using le by simp
        have ne: "B mod W \<noteq> N mod W" using mod_inj_window [OF i(1), of B N] lt j by auto
        show ?thesis
        proof (cases "B div W = N div W")
          case True
          from block_mod [OF this] j have "N mod W = B mod W + (N - B)" "0 < N - B" by simp_all
          then show ?thesis using sz live off lt by simp
        next
          case False
          have q: "N = W * (N div W) + N mod W" "B = W * (B div W) + B mod W" by simp_all
          have r: "0 \<le> N mod W" "N mod W < W" "0 \<le> B mod W" "B mod W < W" using i(1) by simp_all
          have "B div W \<le> N div W" using i by (simp add: zdiv_mono1)
          then have ge: "B div W + 1 \<le> N div W" using False by simp
          have "N div W \<le> B div W + 1"
          proof (rule ccontr)
            assume "\<not> N div W \<le> B div W + 1"
            then have "W * (B div W + 2) \<le> W * (N div W)" using i(1) by (intro mult_left_mono) simp_all
            then show False using q r lt by (simp add: distrib_left)
          qed
          then have d: "N div W = B div W + 1" using ge by simp
          then have "W * (N div W) = W * (B div W) + W" by (simp add: distrib_left)
          then have nm: "N mod W = B mod W + (N - B) - W" using q by linarith
          then have less: "N mod W < B mod W" using lt by simp
          have "R = W"
          proof (rule ccontr)
            assume "R \<noteq> W"
            then have rr: "R = (N - 1) mod W + 1" "B div W = (N - 1) div W" "R \<le> W" using j by auto
            from next_mod(2) [OF i(1), of "N - 1"] rr d have "(N - 1) mod W = W - 1" by (simp split: if_splits)
            then show False using rr \<open>R \<noteq> W\<close> by simp
          qed
          then show ?thesis using sz live off less nm lt ne by simp
        qed
      qed
    qed
  qed
qed

lemma wt_live_pos:
  assumes "wt_inv t B" "k \<in> set (wt_live t B)"
  shows "0 \<le> k mod wt_walSize t" "k mod wt_walSize t < int (length (wt_records t))" "B \<le> k"
    "k < Counter (wt_lsnCounter t)"
proof -
  define N where "N = Counter (wt_lsnCounter t)"
  define W where "W = wt_walSize t"
  define R where "R = int (length (wt_records t))"
  have i: "0 < W" "0 \<le> B" "B \<le> N"
    "N \<noteq> 0 \<Longrightarrow> B < N \<and> R \<le> W \<and> (R = W \<or> R = (N - 1) mod W + 1 \<and> B div W = (N - 1) div W)"
    using assms(1) by (auto simp: wt_inv_def N_def W_def R_def Let_def split: if_splits)
  have k: "N - min W (N - B) \<le> k" "k \<le> N - 1" using assms(2) by (auto simp: wt_live_def N_def W_def Let_def)
  then have kb: "B \<le> k" by linarith
  show "0 \<le> k mod wt_walSize t" using i(1) by (simp add: W_def)
  show "B \<le> k" "k < Counter (wt_lsnCounter t)" using kb k by (simp_all add: N_def)
  have "N \<noteq> 0" using kb k i(2) by linarith
  from i(4) [OF this] consider "R = W" | "R = (N - 1) mod W + 1" "B div W = (N - 1) div W" by blast
  then have "k mod W < R"
  proof cases
    case 1 then show ?thesis using i(1) by simp
  next
    case 2
    have "B div W \<le> k div W" "k div W \<le> (N - 1) div W" using kb k i(1) by (simp_all add: zdiv_mono1)
    then have "k div W = (N - 1) div W" using 2 by simp
    from block_mod [OF this] k 2 show ?thesis by simp
  qed
  then show "k mod wt_walSize t < int (length (wt_records t))" by (simp add: W_def R_def)
qed

lemma rec_at_live:
  assumes "wt_inv t B" "k \<in> set (wt_live t B)"
  shows "rec_at t (k mod wt_walSize t) = Inr (wt_records t ! nat (k mod wt_walSize t))"
  using wt_live_pos [OF assms] by (simp add: rec_at_def)

text \<open>The LSNs an \<open>add\<close> may be given so that counters stay contiguous.\<close>

definition wt_next :: "wal_tracker \<Rightarrow> lsn \<Rightarrow> bool" where
  "wt_next t o' \<longleftrightarrow> lsn_wf o' \<and> Counter (wt_lsnCounter t) < kDefaultCounter \<and>
     (isEmpty o' \<or> Counter o' = Counter (wt_lsnCounter t) \<or> Counter (wt_lsnCounter t) = 0)"

definition added_lsn :: "wal_tracker \<Rightarrow> lsn \<Rightarrow> lsn" where
  "added_lsn t o' = (if isEmpty o' then wt_lsnCounter t else o')"

definition added_base :: "wal_tracker \<Rightarrow> lsn \<Rightarrow> int \<Rightarrow> int" where
  "added_base t o' B = (if Counter (wt_lsnCounter t) = 0 then Counter (added_lsn t o') else B)"

lemma added_lsn_facts:
  assumes "wt_inv t B" "wt_next t o'"
  shows "lsn_wf (added_lsn t o')" "0 \<le> Counter (added_lsn t o')" "Counter (added_lsn t o') < kDefaultCounter"
    "Counter (wt_lsnCounter t) \<noteq> 0 \<Longrightarrow> Counter (added_lsn t o') = Counter (wt_lsnCounter t)"
    "Counter (wt_lsnCounter t) \<le> Counter (added_lsn t o')"
proof -
  have w: "lsn_wf (wt_lsnCounter t)" using assms(1) by (simp add: wt_inv_def Let_def)
  have w2: "lsn_wf o'" using assms(2) by (simp add: wt_next_def)
  show a: "lsn_wf (added_lsn t o')" using w w2 by (simp add: added_lsn_def)
  show "0 \<le> Counter (added_lsn t o')" by (rule lsn_wf_parts(5) [OF a])
  show "Counter (added_lsn t o') < kDefaultCounter"
    using assms(2) lsn_wf_parts(6) [OF w2] by (auto simp: added_lsn_def wt_next_def isEmpty_def)
  show "Counter (wt_lsnCounter t) \<noteq> 0 \<Longrightarrow> Counter (added_lsn t o') = Counter (wt_lsnCounter t)"
    "Counter (wt_lsnCounter t) \<le> Counter (added_lsn t o')"
    using assms(2) lsn_wf_parts(5) [OF w2] by (auto simp: added_lsn_def wt_next_def)
qed

lemma add_position_next:
  assumes "wt_inv t B" "wt_next t o'"
  obtains t1 where "add_position t o' = Inr (added_lsn t o', t1)" "lsn_wf (wt_lsnCounter t1)"
    "Counter (wt_lsnCounter t1) = Counter (added_lsn t o') + 1" "wt_walSize t1 = wt_walSize t"
    "wt_walOffset t1 = (if Counter (wt_lsnCounter t) = 0 then Counter (added_lsn t o') mod wt_walSize t
       else wt_walOffset t)"
    "wt_records t1 = (if Counter (wt_lsnCounter t) = 0
       then replicate (nat (Counter (added_lsn t o') mod wt_walSize t)) (GetServer t, [])
       else wt_records t)"
    "wt_stored t1 = wt_stored t" "wt_storage t1 = wt_storage t" "GetServer t1 = GetServer t"
proof -
  have w: "lsn_wf (wt_lsnCounter t)" using assms(1) by (simp add: wt_inv_def Let_def)
  note f = added_lsn_facts [OF assms]
  have z: "wt_records t = []" "wt_walOffset t = 0" if "Counter (wt_lsnCounter t) = 0"
    using assms(1) that by (simp_all add: wt_inv_def Let_def)
  have W: "0 < wt_walSize t" using assms(1) by (simp add: wt_inv_def Let_def)
  show ?thesis
  proof (cases "isEmpty o'")
    case True
    have "\<not> isEmpty (wt_lsnCounter t)" using assms(2) by (simp add: wt_next_def isEmpty_def)
    from lsn_preinc_step [OF w this] obtain lc where lc: "lsn_preinc (wt_lsnCounter t) = Inr lc" "lsn_wf lc"
      "Server lc = Server (wt_lsnCounter t)" "Counter lc = Counter (wt_lsnCounter t) + 1" .
    have "add_position t o' = Inr (added_lsn t o', t\<lparr>wt_lsnCounter := lc\<rparr>)"
      by (simp add: add_position_def True lsn_postinc_preinc lc added_lsn_def Let_def)
    then show ?thesis using lc z True
      by (intro that [of "t\<lparr>wt_lsnCounter := lc\<rparr>"]) (simp_all add: added_lsn_def GetServer_def)
  next
    case False
    have a: "added_lsn t o' = o'" by (simp add: added_lsn_def False)
    obtain lc where lc: "SetCounter (wt_lsnCounter t) (Counter o' + 1) = Inr lc"
      and lc2: "lsn_wf lc" "Server lc = Server (wt_lsnCounter t)" "Counter lc = Counter o' + 1"
    proof -
      have "mk_lsn (Counter o' + 1) (Server (wt_lsnCounter t)) =
          Inr (Lsn_t (Server (wt_lsnCounter t) * kMaxCounter + (Counter o' + 1)))"
        using f(2,3) a lsn_wf_parts(3,4) [OF w] by (simp add: mk_lsn_Inr)
      then show ?thesis
        using that [of "Lsn_t (Server (wt_lsnCounter t) * kMaxCounter + (Counter o' + 1))"]
          mk_lsn_wf mk_lsn_parts f(2) a by (fastforce simp: SetCounter_mk [OF w])
    qed
    have le: "\<not> Counter (wt_lsnCounter t) > Counter o'" using f(5) a by simp
    let ?t = "if Counter (wt_lsnCounter t) = 0 then t\<lparr>wt_walOffset := Counter o' mod wt_walSize t,
        wt_records := resize (nat (Counter o' mod wt_walSize t)) (GetServer t, []) []\<rparr> else t"
    have "add_position t o' = Inr (o', ?t\<lparr>wt_lsnCounter := lc\<rparr>)"
      using z W by (simp add: add_position_def False le lc Let_def)
    then show ?thesis using lc2 z W a
      by (intro that [of "?t\<lparr>wt_lsnCounter := lc\<rparr>"]) (simp_all add: GetServer_def resize_def)
  qed
qed

definition put_at :: "nat \<Rightarrow> 'a \<Rightarrow> 'a list \<Rightarrow> 'a list" where
  "put_at p x xs = (if p < length xs then xs[p := x] else xs @ [x])"

lemma put_at_nth:
  assumes "p \<le> length xs"
  shows "length (put_at p x xs) = max (length xs) (p + 1)" "put_at p x xs ! p = x"
    "q < length xs \<Longrightarrow> q \<noteq> p \<Longrightarrow> put_at p x xs ! q = xs ! q"
  using assms by (auto simp: put_at_def nth_append)

lemma put_record_at:
  assumes "nat (Counter l mod wt_walSize t) \<le> length (wt_records t)"
  shows "put_record t l rec = t\<lparr>wt_records := put_at (nat (Counter l mod wt_walSize t)) (Server l, rec) (wt_records t)\<rparr>"
proof -
  have "resize (length (wt_records t) + 1) d (wt_records t) = wt_records t @ [d]" for d
    by (simp add: resize_def)
  then show ?thesis using assms by (auto simp: put_record_def put_at_def Let_def)
qed

lemma wt_put_at:
  assumes "nat (Counter l mod wt_walSize t) \<le> length (wt_records t)"
  shows "wt_put packed t l rec =
    Inr (t\<lparr>wt_records := put_at (nat (Counter l mod wt_walSize t)) (Server l, rec) (wt_records t)\<rparr>)"
  using assms by (auto simp: wt_put_def put_record_at put_packed_def put_at_def Let_def)

lemma GetServer_update [simp]:
  "GetServer (t\<lparr>wt_lastLsn := a\<rparr>) = GetServer t" "GetServer (t\<lparr>wt_walOffset := b\<rparr>) = GetServer t"
  "GetServer (t\<lparr>wt_records := c\<rparr>) = GetServer t" "GetServer (t\<lparr>wt_stored := d\<rparr>) = GetServer t"
  by (simp_all add: GetServer_def)

text \<open>The state an \<open>add\<close> has reached once the record is stored.\<close>

definition wt_stepped :: "wal_tracker \<Rightarrow> lsn \<Rightarrow> marked_record \<Rightarrow> wal_tracker \<Rightarrow> int \<Rightarrow> bool" where
  "wt_stepped t l e t2 B \<longleftrightarrow>
     (let N = Counter (wt_lsnCounter t); L = Counter l; W = wt_walSize t;
          rs = (if N = 0 then replicate (nat (L mod W)) (GetServer t, []) else wt_records t) in
      lsn_wf (wt_lsnCounter t2) \<and> Counter (wt_lsnCounter t2) = L + 1 \<and>
      GetServer t2 = GetServer t \<and> wt_walSize t2 = W \<and>
      wt_walOffset t2 = (if L + 1 - B \<le> W then B mod W else (L + 1) mod W) \<and>
      nat (L mod W) \<le> length rs \<and> wt_records t2 = put_at (nat (L mod W)) e rs)"

lemma ring_full_or_prefix:
  assumes "wt_inv t B" "Counter (wt_lsnCounter t) \<noteq> 0"
  shows "nat (Counter (wt_lsnCounter t) mod wt_walSize t) \<le> length (wt_records t)"
    "length (wt_records t) = nat (wt_walSize t) \<or>
     length (wt_records t) = nat (Counter (wt_lsnCounter t) mod wt_walSize t) \<and>
       B div wt_walSize t = Counter (wt_lsnCounter t) div wt_walSize t"
proof -
  define N where "N = Counter (wt_lsnCounter t)"
  define W where "W = wt_walSize t"
  define R where "R = int (length (wt_records t))"
  have i: "0 < W" "R \<le> W" "R = W \<or> R = (N - 1) mod W + 1 \<and> B div W = (N - 1) div W"
    using assms by (auto simp: wt_inv_def N_def W_def R_def Let_def split: if_splits)
  have d: "R = W \<or> R = N mod W \<and> B div W = N div W"
    using i next_mod [OF i(1), of "N - 1"] by (auto split: if_splits)
  have "N mod W < W" using i(1) by simp
  then have "N mod W \<le> R" using d by auto
  then show "nat (Counter (wt_lsnCounter t) mod wt_walSize t) \<le> length (wt_records t)"
    using N_def W_def R_def by simp
  have "length (wt_records t) = nat R" by (simp add: R_def)
  then show "length (wt_records t) = nat (wt_walSize t) \<or>
     length (wt_records t) = nat (Counter (wt_lsnCounter t) mod wt_walSize t) \<and>
       B div wt_walSize t = Counter (wt_lsnCounter t) div wt_walSize t"
    using d unfolding N_def W_def by auto
qed

lemma wt_stepped_inv:
  assumes "wt_inv t B" "wt_stepped t l e t2 B'" "0 \<le> Counter l"
    "Counter (wt_lsnCounter t) \<noteq> 0 \<Longrightarrow> Counter l = Counter (wt_lsnCounter t) \<and> B' = B"
    "Counter (wt_lsnCounter t) = 0 \<Longrightarrow> B' = Counter l"
  shows "wt_inv t2 B'"
proof -
  define N where "N = Counter (wt_lsnCounter t)"
  define L where "L = Counter l"
  define W where "W = wt_walSize t"
  define rs where "rs = (if N = 0 then replicate (nat (L mod W)) (GetServer t, []) else wt_records t)"
  have W: "0 < W" using assms(1) by (simp add: wt_inv_def Let_def W_def)
  have s: "lsn_wf (wt_lsnCounter t2)" "Counter (wt_lsnCounter t2) = L + 1" "wt_walSize t2 = W"
    "wt_walOffset t2 = (if L + 1 - B' \<le> W then B' mod W else (L + 1) mod W)"
    "nat (L mod W) \<le> length rs" "wt_records t2 = put_at (nat (L mod W)) e rs"
    using assms(2) by (simp_all only: wt_stepped_def Let_def N_def L_def W_def rs_def)
  have len: "length (wt_records t2) = max (length rs) (nat (L mod W) + 1)"
    using put_at_nth(1) [OF s(5)] s(6) by simp
  have b: "0 \<le> B' \<and> B' \<le> L"
  proof (cases "N = 0")
    case True then show ?thesis using assms(3,5) by (simp add: N_def L_def)
  next
    case False
    then show ?thesis using assms(1,4) by (simp add: wt_inv_def Let_def N_def L_def)
  qed
  have r: "0 \<le> L mod W" "L mod W < W" using W by simp_all
  have R: "length (wt_records t2) = nat W \<or> length (wt_records t2) = nat (L mod W) + 1 \<and> B' div W = L div W"
  proof (cases "N = 0")
    case True
    then have "length rs = nat (L mod W)" "B' = L" using assms(5) by (simp_all add: rs_def N_def L_def)
    then show ?thesis using len by simp
  next
    case False
    then have l: "L = N" "B' = B" "rs = wt_records t" using assms(4) by (simp_all add: N_def L_def rs_def)
    from ring_full_or_prefix(2) [OF assms(1)] False
    have "length rs = nat W \<or> length rs = nat (L mod W) \<and> B' div W = L div W"
      using l by (simp add: N_def W_def)
    moreover have "nat (L mod W) + 1 \<le> nat W" using r by simp
    ultimately show ?thesis using len by auto
  qed
  have "int (length (wt_records t2)) \<le> W" using R r by auto
  then show ?thesis
    using s b W R r assms(3) unfolding wt_inv_def Let_def L_def [symmetric] by (auto simp: L_def)
qed

lemma lastn_upto: "lastn n [i..j] = [max i (j + 1 - int n)..j]"
proof -
  have "drop m [i..j] = [i + int m..j]" for m i
  proof (induction m arbitrary: i)
    case (Suc m)
    show ?case
    proof (cases "i \<le> j")
      case True
      then have "drop (Suc m) [i..j] = drop m [i + 1..j]" by (simp add: upto_rec1)
      then show ?thesis using Suc [of "i + 1"] by (simp add: algebra_simps)
    qed simp
  qed simp
  moreover have "i + int (nat (j - i + 1) - n) = max i (j + 1 - int n)" if "i \<le> j" using that by simp
  ultimately show ?thesis by (cases "i \<le> j") (simp_all add: lastn_def)
qed

lemma wt_log_step:
  assumes "wt_inv t B" "wt_stepped t l e t2 B'" "0 \<le> Counter l"
    "Counter (wt_lsnCounter t) \<noteq> 0 \<Longrightarrow> Counter l = Counter (wt_lsnCounter t) \<and> B' = B"
    "Counter (wt_lsnCounter t) = 0 \<Longrightarrow> B' = Counter l"
  shows "wt_log t2 B' = lastn (nat (wt_walSize t)) (wt_log t B @ [(Counter l, e)])"
proof -
  define N where "N = Counter (wt_lsnCounter t)"
  define L where "L = Counter l"
  define W where "W = wt_walSize t"
  define rs where "rs = (if N = 0 then replicate (nat (L mod W)) (GetServer t, []) else wt_records t)"
  have W: "0 < W" "0 \<le> B" "B \<le> N" "N \<noteq> 0 \<Longrightarrow> B < N"
    using assms(1) by (auto simp: wt_inv_def Let_def W_def N_def split: if_splits)
  have s: "Counter (wt_lsnCounter t2) = L + 1" "wt_walSize t2 = W"
    "nat (L mod W) \<le> length rs" "wt_records t2 = put_at (nat (L mod W)) e rs"
    using assms(2) by (simp_all only: wt_stepped_def Let_def N_def L_def W_def rs_def)
  have live2: "wt_live t2 B' = [L + 1 - min W (L + 1 - B') .. L]"
    by (simp add: wt_live_def s Let_def)
  have log2: "wt_log t2 B' = map (\<lambda>k. (k, wt_records t2 ! nat (k mod W))) (wt_live t2 B')"
    by (simp add: wt_log_def s)
  have at: "wt_records t2 ! nat (L mod W) = e" using put_at_nth(2) [OF s(3)] s(4) by simp
  show ?thesis
  proof (cases "N = 0")
    case True
    then have "B = 0" using W by simp
    then have "wt_log t B = []" using True W by (simp add: wt_log_def wt_live_def N_def [symmetric] W_def [symmetric])
    moreover have "wt_live t2 B' = [L]" using assms(5) True W live2 by (simp add: N_def L_def)
    ultimately show ?thesis using at log2 W by (simp add: L_def W_def lastn_id)
  next
    case False
    then have l: "L = N" "B' = B" "rs = wt_records t" using assms(4) by (simp_all add: N_def L_def rs_def)
    have live: "wt_live t B = [N - min W (N - B) .. N - 1]"
      by (simp add: wt_live_def N_def W_def Let_def)
    define f where "f k = (k, wt_records t ! nat (k mod W))" for k
    define g where "g k = (if k = N then (N, e) else f k)" for k
    have "wt_log t B = map f (wt_live t B)" by (simp add: wt_log_def f_def W_def)
    also have "map f (wt_live t B) = map g (wt_live t B)" by (rule map_cong) (auto simp: g_def live)
    finally have "wt_log t B @ [(L, e)] = map g (wt_live t B @ [N])" by (simp add: g_def l(1))
    also have "wt_live t B @ [N] = [N - min W (N - B) .. N]"
      using W False by (simp add: live upto_rec2)
    finally have "lastn (nat W) (wt_log t B @ [(L, e)]) =
        map g [max (N - min W (N - B)) (N + 1 - W) .. N]"
      using W by (simp add: map_lastn [symmetric] lastn_upto)
    moreover have "max (N - min W (N - B)) (N + 1 - W) = N + 1 - min W (N + 1 - B)" by linarith
    ultimately have lhs: "lastn (nat W) (wt_log t B @ [(L, e)]) = map g (wt_live t2 B')"
      using live2 l by simp
    have "map g (wt_live t2 B') = map (\<lambda>k. (k, wt_records t2 ! nat (k mod W))) (wt_live t2 B')"
    proof (rule map_cong)
      fix k assume "k \<in> set (wt_live t2 B')"
      then have k: "N + 1 - min W (N + 1 - B) \<le> k" "k \<le> N" using live2 l by auto
      show "g k = (k, wt_records t2 ! nat (k mod W))"
      proof (cases "k = N")
        case True then show ?thesis using at l by (simp add: g_def)
      next
        case False
        then have kl: "k \<in> set (wt_live t B)" using k live by auto
        have "N < k + W" using k by linarith
        then have "k mod W \<noteq> N mod W" using mod_inj_window [OF W(1), of k N] False k by auto
        moreover have "0 \<le> k mod W" "0 \<le> N mod W" using W(1) by simp_all
        ultimately have "nat (k mod W) \<noteq> nat (L mod W)" using l(1) by simp
        moreover have "nat (k mod W) < length rs"
          using wt_live_pos(1,2) [OF assms(1) kl] by (simp add: W_def l(3))
        ultimately have "wt_records t2 ! nat (k mod W) = wt_records t ! nat (k mod W)"
          using put_at_nth(3) [OF s(3)] s(4) l(3) by simp
        then show ?thesis using False by (simp add: g_def f_def)
      qed
    qed simp
    then show ?thesis using lhs log2 by (simp add: L_def W_def)
  qed
qed

text \<open>What \<open>available\<close> answers on such a state.\<close>

lemma available_live:
  assumes "wt_inv t B"
  shows "available t l ign = Inr (Counter l \<in> set (wt_live t B) \<and>
     (ign \<or> fst (wt_records t ! nat (Counter l mod wt_walSize t)) = Server l))"
proof -
  have "(Counter l \<in> set (wt_live t B)) \<longleftrightarrow>
      Counter l < Counter (wt_lsnCounter t) \<and> Counter (wt_lsnCounter t) - Counter l \<le> wt_size t"
  proof -
    have "0 < wt_walSize t" "B \<le> Counter (wt_lsnCounter t)" using assms by (simp_all add: wt_inv_def Let_def)
    then show ?thesis by (auto simp: wt_size_live [OF assms] wt_live_def Let_def)
  qed
  then show ?thesis
    using rec_at_live [OF assms, of "Counter l"] by (auto simp: available_def Unpack_def Let_def)
qed

text \<open>Superseding a record: it stays in the log, emptied.\<close>

fun blank_rec :: "lsn \<Rightarrow> int \<times> marked_record \<Rightarrow> int \<times> marked_record" where
  "blank_rec l (k, (s, b)) = (k, (s, if k = Counter l \<and> s = Server l then [] else b))"

lemma wt_inv_put:
  assumes "wt_inv t B" "wt_lsnCounter t' = wt_lsnCounter t" "wt_walSize t' = wt_walSize t"
    "wt_walOffset t' = wt_walOffset t" "length (wt_records t') = length (wt_records t)"
  shows "wt_inv t' B"
proof -
  have "wt_records t' = [] \<longleftrightarrow> wt_records t = []" using assms(5) by (metis length_0_conv)
  then show ?thesis using assms by (simp add: wt_inv_def Let_def)
qed

text \<open>Overwriting the record at a live position.\<close>

definition set_rec :: "lsn \<Rightarrow> bytes \<Rightarrow> int \<times> marked_record \<Rightarrow> int \<times> marked_record" where
  "set_rec l rec e = (if fst e = Counter l then (fst e, (Server l, rec)) else e)"

lemma put_record_log:
  assumes "wt_inv t B" "Counter l \<in> set (wt_live t B)"
  shows "wt_inv (put_record t l rec) B" "wt_log (put_record t l rec) B = map (set_rec l rec) (wt_log t B)"
proof -
  define p where "p = nat (Counter l mod wt_walSize t)"
  have W: "0 < wt_walSize t" using assms(1) by (simp add: wt_inv_def Let_def)
  have p: "p < length (wt_records t)" using wt_live_pos(1,2) [OF assms] by (simp add: p_def)
  have put: "put_record t l rec = t\<lparr>wt_records := (wt_records t)[p := (Server l, rec)]\<rparr>"
    using p by (simp add: put_record_def p_def [symmetric] Let_def)
  show "wt_inv (put_record t l rec) B" by (rule wt_inv_put [OF assms(1)]) (simp_all add: put)
  have "(k, wt_records (put_record t l rec) ! nat (k mod wt_walSize t)) =
      set_rec l rec (k, wt_records t ! nat (k mod wt_walSize t))" if k: "k \<in> set (wt_live t B)" for k
  proof (cases "k = Counter l")
    case True
    then show ?thesis using p by (simp add: put p_def [symmetric] set_rec_def)
  next
    case False
    have "Counter (wt_lsnCounter t) - wt_walSize t \<le> j \<and> j < Counter (wt_lsnCounter t)"
      if "j \<in> set (wt_live t B)" for j
      using that by (simp add: wt_live_def Let_def) linarith
    from this [OF k] this [OF assms(2)] have "k mod wt_walSize t \<noteq> Counter l mod wt_walSize t"
      using mod_inj_window [OF W, of k "Counter l"] mod_inj_window [OF W, of "Counter l" k] False by linarith
    moreover have "0 \<le> k mod wt_walSize t" "0 \<le> Counter l mod wt_walSize t" using W by simp_all
    ultimately have "nat (k mod wt_walSize t) \<noteq> p" by (simp add: p_def)
    then show ?thesis using False by (simp add: put set_rec_def)
  qed
  then show "wt_log (put_record t l rec) B = map (set_rec l rec) (wt_log t B)"
    by (simp add: wt_log_def) (simp add: wt_live_def put)
qed

lemma put_record_blank:
  assumes "wt_inv t B" "Counter l \<in> set (wt_live t B)"
    "fst (wt_records t ! nat (Counter l mod wt_walSize t)) = Server l"
  shows "wt_inv (put_record t l []) B" "wt_log (put_record t l []) B = map (blank_rec l) (wt_log t B)"
proof -
  show "wt_inv (put_record t l []) B" by (rule put_record_log(1) [OF assms(1,2)])
  have "set_rec l [] (k, wt_records t ! nat (k mod wt_walSize t)) =
      blank_rec l (k, wt_records t ! nat (k mod wt_walSize t))" for k
    using assms(3) by (cases "wt_records t ! nat (k mod wt_walSize t)") (auto simp: set_rec_def)
  then show "wt_log (put_record t l []) B = map (blank_rec l) (wt_log t B)"
    unfolding put_record_log(2) [OF assms(1,2)] by (simp add: wt_log_def)
qed

text \<open>The ring update of \<open>add\<close>, before the superseded record is looked at.\<close>

lemma wt_add_stepped:
  assumes "wt_inv t B" "wt_next t o'"
  obtains t2 where "wt_stepped t (added_lsn t o') (Server (added_lsn t o'), rec) t2 (added_base t o' B)"
    "wt_lastLsn t2 = added_lsn t o'" "wt_stored t2 = wt_stored t" "wt_storage t2 = wt_storage t"
    "wt_add packed t rec o' toStorage old =
       bind_res (if isEmpty old then Inr False else available t2 old False) (\<lambda>av.
       bind_res
         (if av then
            let t = put_record t2 old [] in
            if Server old \<noteq> GetServer t2 then writeToStorage t old else Inr t
          else Inr t2) (\<lambda>t3.
       bind_res (if toStorage then writeToStorage t3 (added_lsn t o') else Inr t3) (\<lambda>t4.
       Inr (added_lsn t o', t4))))"
proof -
  let ?l = "added_lsn t o'"
  define N where "N = Counter (wt_lsnCounter t)"
  define L where "L = Counter ?l"
  define W where "W = wt_walSize t"
  note f = added_lsn_facts [OF assms, folded N_def L_def]
  obtain t1 where t1: "add_position t o' = Inr (?l, t1)" "lsn_wf (wt_lsnCounter t1)"
    "Counter (wt_lsnCounter t1) = L + 1" "wt_walSize t1 = W"
    "wt_walOffset t1 = (if N = 0 then L mod W else wt_walOffset t)"
    "wt_records t1 = (if N = 0 then replicate (nat (L mod W)) (GetServer t, []) else wt_records t)"
    "wt_stored t1 = wt_stored t" "wt_storage t1 = wt_storage t" "GetServer t1 = GetServer t"
    using add_position_next [OF assms] unfolding N_def L_def W_def by metis
  have i: "0 < W" "0 \<le> B"
    "N \<noteq> 0 \<Longrightarrow> B < N \<and> wt_walOffset t = (if N - B \<le> W then B mod W else N mod W)"
    using assms(1) by (auto simp: wt_inv_def N_def W_def Let_def split: if_splits)
  have p: "nat (L mod W) \<le> length (wt_records t1)"
    using ring_full_or_prefix(1) [OF assms(1)] f(4) t1(6) by (auto simp: N_def W_def)
  define u where "u = (L + 1 > 1 \<and> wt_walOffset t1 = L mod W \<and> N \<noteq> 0)"
  define off where "off = (if u then (L + 1) mod W else wt_walOffset t1)"
  have off: "off = (if L + 1 - added_base t o' B \<le> W then added_base t o' B mod W else (L + 1) mod W)"
  proof (cases "N = 0")
    case True
    then have "added_base t o' B = L" by (simp add: added_base_def N_def L_def)
    then show ?thesis using True i(1) t1(5) by (simp add: off_def u_def)
  next
    case False
    then have b: "added_base t o' B = B" "L = N" "N > 0" using f(4) i by (auto simp: added_base_def N_def)
    have "B mod W \<noteq> N mod W" if "N - B < W" using mod_inj_window [OF i(1), of B N] that i(3) [OF False] by auto
    moreover have "N - B \<noteq> W \<or> B mod W = N mod W"
      by (metis add_diff_cancel_left' diff_add_cancel mod_add_self2)
    ultimately show ?thesis using False i(3) b t1(5) by (auto simp: off_def u_def)
  qed
  let ?t2 = "t1\<lparr>wt_lastLsn := ?l, wt_walOffset := off, wt_records := put_at (nat (L mod W)) (Server ?l, rec) (wt_records t1)\<rparr>"
  have "wt_put packed (t1\<lparr>wt_lastLsn := ?l, wt_walOffset := off\<rparr>) ?l rec = Inr ?t2"
    using p by (subst wt_put_at) (simp_all add: t1(4) L_def)
  then have a: "bind_res (wt_put packed (if u then t1\<lparr>wt_lastLsn := ?l, wt_walOffset := (L + 1) mod W\<rparr>
      else t1\<lparr>wt_lastLsn := ?l\<rparr>) ?l rec) g = g ?t2" for g
    by (cases u) (simp_all add: off_def)
  have s: "wt_stepped t ?l (Server ?l, rec) ?t2 (added_base t o' B)"
    using t1 p off by (simp add: wt_stepped_def N_def [symmetric] L_def [symmetric] W_def [symmetric] Let_def)
  have ne: "(W = 0) = False" using i(1) by simp
  have g: "GetServer t = GetServer ?t2" using t1(9) by simp
  have sel: "wt_lsnCounter (t1\<lparr>wt_lastLsn := ?l\<rparr>) = wt_lsnCounter t1"
    "wt_walSize (t1\<lparr>wt_lastLsn := ?l\<rparr>) = wt_walSize t1" "wt_walOffset (t1\<lparr>wt_lastLsn := ?l\<rparr>) = wt_walOffset t1"
    by simp_all
  have add: "wt_add packed t rec o' toStorage old =
       bind_res (if isEmpty old then Inr False else available ?t2 old False) (\<lambda>av.
       bind_res
         (if av then
            let t = put_record ?t2 old [] in
            if Server old \<noteq> GetServer ?t2 then writeToStorage t old else Inr t
          else Inr ?t2) (\<lambda>t3.
       bind_res (if toStorage then writeToStorage t3 (added_lsn t o') else Inr t3) (\<lambda>t4.
       Inr (added_lsn t o', t4))))"
    unfolding g [symmetric]
    by (simp only: wt_add_def Let_def t1(1,3,4) bind_res_simps prod.case sel ne if_False N_def [symmetric]
          add_diff_cancel_right' u_def [symmetric] a)
  show ?thesis by (rule that [OF s _ _ _ add]) (simp_all add: t1)
qed

lemma writeToStorage_live:
  assumes "wt_inv t B" "Counter l \<in> set (wt_live t B)"
  obtains s where "writeToStorage t l = Inr (t\<lparr>wt_stored := s\<rparr>)"
proof (cases "wt_storage t")
  case True
  then show ?thesis using that by (simp add: writeToStorage_def Let_def rec_at_live [OF assms])
next
  case False
  then show ?thesis using that [of "wt_stored t"] by (simp add: writeToStorage_def)
qed

lemma wt_stored_irrelevant [simp]:
  "wt_inv (t\<lparr>wt_stored := s\<rparr>) B = wt_inv t B" "wt_live (t\<lparr>wt_stored := s\<rparr>) B = wt_live t B"
  "wt_log (t\<lparr>wt_stored := s\<rparr>) B = wt_log t B"
  by (simp_all add: wt_inv_def wt_live_def wt_log_def)

lemma put_record_keeps [simp]:
  "wt_lastLsn (put_record t l b) = wt_lastLsn t" "wt_lsnCounter (put_record t l b) = wt_lsnCounter t"
  "wt_walSize (put_record t l b) = wt_walSize t" "wt_live (put_record t l b) B = wt_live t B"
  "GetServer (put_record t l b) = GetServer t"
  by (simp_all add: put_record_def wt_live_def Let_def)

text \<open>
  C1. Adding a record to the write-ahead log. On a tracker with a non-zero capacity whose LSN counters
  are contiguous from \<open>B\<close>, \<open>add\<close> of a record with no origin LSN, with the next one, or with any one on an
  empty log, never fails: it returns the LSN it assigned, makes it the last LSN, moves the counter past
  it and keeps the ring consistent. The log then holds the latest \<open>walSize\<close> of the old records with the
  new one at the end; the record that \<open>oldLsn\<close> names, if it is still there, is emptied in place. The two
  overloads of \<open>put\<close> (packed or not) do the same.
\<close>

theorem wt_add_log:
  assumes "wt_inv t B" "wt_next t originLsn"
  shows "\<exists>t'. wt_add packed t rec originLsn toStorage oldLsn = Inr (added_lsn t originLsn, t') \<and>
     wt_inv t' (added_base t originLsn B) \<and> wt_lastLsn t' = added_lsn t originLsn \<and>
     Counter (wt_lsnCounter t') = Counter (added_lsn t originLsn) + 1 \<and> GetServer t' = GetServer t \<and>
     wt_walSize t' = wt_walSize t \<and>
     wt_log t' (added_base t originLsn B) =
       map (if isEmpty oldLsn then id else blank_rec oldLsn)
         (lastn (nat (wt_walSize t))
           (wt_log t B @ [(Counter (added_lsn t originLsn), (Server (added_lsn t originLsn), rec))]))"
proof -
  let ?l = "added_lsn t originLsn" and ?B = "added_base t originLsn B"
  obtain t2 where t2: "wt_stepped t ?l (Server ?l, rec) t2 ?B" "wt_lastLsn t2 = ?l"
    "wt_stored t2 = wt_stored t" "wt_storage t2 = wt_storage t"
    and add: "wt_add packed t rec originLsn toStorage oldLsn =
       bind_res (if isEmpty oldLsn then Inr False else available t2 oldLsn False) (\<lambda>av.
       bind_res
         (if av then
            let t = put_record t2 oldLsn [] in
            if Server oldLsn \<noteq> GetServer t2 then writeToStorage t oldLsn else Inr t
          else Inr t2) (\<lambda>t3.
       bind_res (if toStorage then writeToStorage t3 ?l else Inr t3) (\<lambda>t4.
       Inr (?l, t4))))"
    by (rule wt_add_stepped [OF assms, of rec packed toStorage oldLsn])
  note f = added_lsn_facts [OF assms]
  have c: "Counter (wt_lsnCounter t) \<noteq> 0 \<Longrightarrow> Counter ?l = Counter (wt_lsnCounter t) \<and> ?B = B"
    "Counter (wt_lsnCounter t) = 0 \<Longrightarrow> ?B = Counter ?l"
    using f(4) by (simp_all add: added_base_def)
  have inv2: "wt_inv t2 ?B" by (rule wt_stepped_inv [OF assms(1) t2(1) f(2)]) (use c in simp_all)
  have log2: "wt_log t2 ?B = lastn (nat (wt_walSize t)) (wt_log t B @ [(Counter ?l, (Server ?l, rec))])"
    by (rule wt_log_step [OF assms(1) t2(1) f(2)]) (use c in simp_all)
  have n2: "Counter (wt_lsnCounter t2) = Counter ?l + 1" "GetServer t2 = GetServer t" "wt_walSize t2 = wt_walSize t"
    using t2(1) by (simp_all add: wt_stepped_def Let_def)
  define av where "av = (\<not> isEmpty oldLsn \<and> Counter oldLsn \<in> set (wt_live t2 ?B) \<and>
       fst (wt_records t2 ! nat (Counter oldLsn mod wt_walSize t2)) = Server oldLsn)"
  have av: "(if isEmpty oldLsn then Inr False else available t2 oldLsn False) = Inr av"
    by (simp add: av_def available_live [OF inv2])
  define t3 where "t3 = (if av then put_record t2 oldLsn [] else t2)"
  have t3: "wt_inv t3 ?B" "wt_live t3 ?B = wt_live t2 ?B" "wt_lastLsn t3 = ?l"
    "wt_lsnCounter t3 = wt_lsnCounter t2" "GetServer t3 = GetServer t2" "wt_walSize t3 = wt_walSize t2"
    "wt_log t3 ?B = map (if av then blank_rec oldLsn else id) (wt_log t2 ?B)"
    using put_record_blank [OF inv2, of oldLsn] inv2 t2(2) by (simp_all add: t3_def av_def)
  obtain s3 where s3: "(if av then
        let t = put_record t2 oldLsn [] in
        if Server oldLsn \<noteq> GetServer t2 then writeToStorage t oldLsn else Inr t
      else Inr t2) = Inr (t3\<lparr>wt_stored := s3\<rparr>)"
  proof (cases "av \<and> Server oldLsn \<noteq> GetServer t2")
    case True
    then obtain s where "writeToStorage t3 oldLsn = Inr (t3\<lparr>wt_stored := s\<rparr>)"
      using writeToStorage_live [OF t3(1), of oldLsn] t3(2) by (auto simp: av_def)
    then show ?thesis using that True by (simp add: t3_def Let_def)
  next
    case False
    then show ?thesis using that [of "wt_stored t3"] by (auto simp: t3_def Let_def)
  qed
  have in_live: "Counter ?l \<in> set (wt_live t2 ?B)"
    using inv2 n2 f(2) by (auto simp: wt_live_def wt_inv_def Let_def)
  obtain s4 where s4: "(if toStorage then writeToStorage (t3\<lparr>wt_stored := s3\<rparr>) ?l
      else Inr (t3\<lparr>wt_stored := s3\<rparr>)) = Inr (t3\<lparr>wt_stored := s4\<rparr>)"
  proof (cases toStorage)
    case True
    have "wt_inv (t3\<lparr>wt_stored := s3\<rparr>) ?B" "Counter ?l \<in> set (wt_live (t3\<lparr>wt_stored := s3\<rparr>) ?B)"
      using t3(1,2) in_live by simp_all
    from writeToStorage_live [OF this] show ?thesis using True that by auto
  next
    case False
    then show ?thesis using that [of s3] by simp
  qed
  have blank: "map (if av then blank_rec oldLsn else id) (wt_log t2 ?B) =
      map (if isEmpty oldLsn then id else blank_rec oldLsn) (wt_log t2 ?B)"
  proof (cases "\<not> isEmpty oldLsn \<and> \<not> av")
    case True
    have "blank_rec oldLsn x = x" if x: "x \<in> set (wt_log t2 ?B)" for x
    proof -
      from x obtain k where k: "k \<in> set (wt_live t2 ?B)" "x = (k, wt_records t2 ! nat (k mod wt_walSize t2))"
        by (auto simp only: wt_log_def set_map image_iff)
      then show ?thesis using True by (cases "wt_records t2 ! nat (k mod wt_walSize t2)") (auto simp: av_def)
    qed
    then show ?thesis using True by (simp add: map_idI)
  next
    case False
    then show ?thesis by (auto simp: av_def)
  qed
  note log = t3(7) [unfolded blank, unfolded log2]
  show ?thesis
    by (rule exI [of _ "t3\<lparr>wt_stored := s4\<rparr>"]) (simp add: add av s3 s4 t3(1,3-6) n2 log)
qed

lemma mk_WALTracker_inv: "0 < sz \<Longrightarrow> wt_inv (mk_WALTracker sz) 0"
  by (simp add: wt_inv_def mk_WALTracker_def lsn_wf_def lsn_consts Counter_def)

lemma lsn_default_empty [simp]: "isEmpty lsn_default"
  by code_simp

theorem wt_add_log_witness:
  "\<exists>t'. wt_add True (mk_WALTracker 2) [3, 7] (Lsn_t 5000000000000041) True lsn_default =
       Inr (Lsn_t 5000000000000041, t') \<and>
     wt_inv t' 41 \<and> wt_log t' 41 = [(41, (5, [3, 7]))]"
proof -
  let ?t = "mk_WALTracker 2" and ?o = "Lsn_t 5000000000000041"
  have n: "wt_next ?t ?o"
    by (simp add: wt_next_def mk_WALTracker_def lsn_wf_def lsn_consts Counter_def)
  have e: "\<not> isEmpty ?o" "Counter ?o = 41" "Server ?o = 5"
    by code_simp+
  have z: "Counter (wt_lsnCounter ?t) = 0" by (simp add: mk_WALTracker_def Counter_def)
  have l: "added_lsn ?t ?o = ?o" "added_base ?t ?o 0 = 41" using e z by (simp_all add: added_lsn_def added_base_def)
  have "wt_log ?t 0 = []" "wt_walSize ?t = 2"
    by (simp_all add: wt_log_def wt_live_def z Let_def) (simp add: mk_WALTracker_def)
  then show ?thesis
    using wt_add_log [OF mk_WALTracker_inv [of 2] n, of True "[3, 7]" True lsn_default]
    by (simp add: l e lastn_id) blast
qed

subsection \<open>The log is bounded\<close>

text \<open>One \<open>add\<close> that supersedes nothing, on a tracker with its base.\<close>

definition wt_push :: "wal_tracker \<times> int \<Rightarrow> int \<times> marked_record \<Rightarrow> wal_tracker \<times> int \<Rightarrow> bool" where
  "wt_push s e s' \<longleftrightarrow>
     (\<exists>packed rec originLsn toStorage. wt_next (fst s) originLsn \<and>
       wt_add packed (fst s) rec originLsn toStorage lsn_default = Inr (added_lsn (fst s) originLsn, fst s') \<and>
       snd s' = added_base (fst s) originLsn (snd s) \<and>
       e = (Counter (added_lsn (fst s) originLsn), (Server (added_lsn (fst s) originLsn), rec)))"

lemma wt_push_log:
  assumes "wt_inv (fst s) (snd s)" "wt_push s e s'"
  shows "wt_inv (fst s') (snd s')" "wt_walSize (fst s') = wt_walSize (fst s)" "GetServer (fst s') = GetServer (fst s)"
    "wt_log (fst s') (snd s') = lastn (nat (wt_walSize (fst s))) (wt_log (fst s) (snd s) @ [e])"
proof -
  obtain packed rec originLsn toStorage where p: "wt_next (fst s) originLsn"
    "wt_add packed (fst s) rec originLsn toStorage lsn_default = Inr (added_lsn (fst s) originLsn, fst s')"
    "snd s' = added_base (fst s) originLsn (snd s)"
    "e = (Counter (added_lsn (fst s) originLsn), (Server (added_lsn (fst s) originLsn), rec))"
    using assms(2) by (auto simp: wt_push_def)
  from wt_add_log [OF assms(1) p(1), of packed rec toStorage lsn_default] p(2-4)
  show "wt_inv (fst s') (snd s')" "wt_walSize (fst s') = wt_walSize (fst s)" "GetServer (fst s') = GetServer (fst s)"
    "wt_log (fst s') (snd s') = lastn (nat (wt_walSize (fst s))) (wt_log (fst s) (snd s) @ [e])"
    by simp_all
qed

interpretation wal_log: bounded_log "\<lambda>s. wt_log (fst s) (snd s)" "\<lambda>s. nat (wt_walSize (fst s))"
  "\<lambda>s. wt_inv (fst s) (snd s)" wt_push
  by unfold_locales (auto simp: wt_push_log)

text \<open>A run of \<open>add\<close>s with no origin LSN, as on the leader; the flags say packed and to storage.\<close>

fun wt_adds :: "wal_tracker \<Rightarrow> (bool \<times> bool \<times> bytes) list \<Rightarrow> wal_tracker res" where
  "wt_adds t [] = Inr t"
| "wt_adds t ((packed, toStorage, rec) # rs) =
     bind_res (wt_add packed t rec lsn_default toStorage lsn_default) (\<lambda>(_, t). wt_adds t rs)"

text \<open>The entries such a run puts into the log.\<close>

fun wt_entries :: "int \<Rightarrow> int \<Rightarrow> (bool \<times> bool \<times> bytes) list \<Rightarrow> (int \<times> marked_record) list" where
  "wt_entries s n [] = []"
| "wt_entries s n ((_, _, rec) # rs) = (n, (s, rec)) # wt_entries s (n + 1) rs"

lemma length_wt_entries [simp]: "length (wt_entries s n rs) = length rs"
  by (induction rs arbitrary: n) auto

lemma wt_adds_pushes:
  "wt_inv t B \<Longrightarrow> Counter (wt_lsnCounter t) + int (length rs) \<le> kDefaultCounter \<Longrightarrow>
    \<exists>t'. wt_adds t rs = Inr t' \<and>
      wal_log.pushes (t, B) (wt_entries (GetServer t) (Counter (wt_lsnCounter t)) rs) (t', B)"
proof (induction rs arbitrary: t)
  case Nil
  then show ?case by (simp add: wal_log.none)
next
  case (Cons r rs)
  obtain packed toStorage rec where r: "r = (packed, toStorage, rec)" by (cases r) auto
  have n: "wt_next t lsn_default" using Cons.prems by (simp add: wt_next_def)
  have a: "added_lsn t lsn_default = wt_lsnCounter t" "added_base t lsn_default B = B"
    using Cons.prems(1) by (auto simp: added_lsn_def added_base_def wt_inv_def Let_def)
  obtain t1 where t1: "wt_add packed t rec lsn_default toStorage lsn_default = Inr (wt_lsnCounter t, t1)"
    "wt_inv t1 B" "Counter (wt_lsnCounter t1) = Counter (wt_lsnCounter t) + 1" "GetServer t1 = GetServer t"
    using wt_add_log [OF Cons.prems(1) n, of packed rec toStorage lsn_default] a by auto
  have "Counter (wt_lsnCounter t1) + int (length rs) \<le> kDefaultCounter" using Cons.prems(2) t1(3) by simp
  from Cons.IH [OF t1(2) this] t1(3,4) obtain t' where t': "wt_adds t1 rs = Inr t'"
    "wal_log.pushes (t1, B) (wt_entries (GetServer t) (Counter (wt_lsnCounter t) + 1) rs) (t', B)" by auto
  have "wt_push (t, B) (Counter (wt_lsnCounter t), (GetServer t, rec)) (t1, B)"
    unfolding wt_push_def
    by (rule exI [of _ packed], rule exI [of _ rec], rule exI [of _ lsn_default], rule exI [of _ toStorage])
       (simp add: n a t1 GetServer_def)
  from wal_log.more [OF this t'(2)] t'(1) t1(1) show ?case by (simp add: r)
qed

lemma wt_log_le: "wt_inv t B \<Longrightarrow> length (wt_log t B) \<le> nat (wt_walSize t)"
  by (auto simp: wt_log_def wt_live_def Let_def wt_inv_def)

text \<open>
  C2. The log never loses a record it has room for. Any run of \<open>add\<close>s on a consistent tracker succeeds as
  long as the counters do not run out; each record gets the next LSN counter of the tracker's server,
  and the log is then the latest \<open>walSize\<close> records of the old log followed by the new ones, in order.
\<close>

theorem wt_adds_latest:
  assumes "wt_inv t B" "Counter (wt_lsnCounter t) + int (length rs) \<le> kDefaultCounter"
  shows "\<exists>t'. wt_adds t rs = Inr t' \<and> wt_inv t' B \<and>
     wt_log t' B = lastn (nat (wt_walSize t))
       (wt_log t B @ wt_entries (GetServer t) (Counter (wt_lsnCounter t)) rs)"
proof -
  from wt_adds_pushes [OF assms] obtain t' where t': "wt_adds t rs = Inr t'"
    "wal_log.pushes (t, B) (wt_entries (GetServer t) (Counter (wt_lsnCounter t)) rs) (t', B)" by auto
  from wal_log.pushes_inv [OF t'(2)] wal_log.pushes_contents [OF t'(2)] wt_log_le [OF assms(1)] assms(1) t'(1)
  show ?thesis by auto
qed

theorem wt_adds_latest_witness:
  "\<exists>t'. wt_adds (mk_WALTracker 2) [(False, True, [1]), (True, False, [2]), (False, True, [3])] = Inr t' \<and>
     wt_log t' 0 = [(1, (0, [2])), (2, (0, [3]))]"
proof -
  have z: "Counter (wt_lsnCounter (mk_WALTracker 2)) = 0" by (simp add: mk_WALTracker_def Counter_def)
  have s: "GetServer (mk_WALTracker 2) = 0"
    by (simp add: GetServer_def mk_WALTracker_def Server_def to_int16_def)
  have "wt_log (mk_WALTracker 2) 0 = []" "wt_walSize (mk_WALTracker 2) = 2"
    by (simp_all add: wt_log_def wt_live_def z Let_def) (simp add: mk_WALTracker_def)
  then show ?thesis
    using wt_adds_latest [OF mk_WALTracker_inv [of 2], of "[(False, True, [1]), (True, False, [2]), (False, True, [3])]"]
    by (auto simp: z s lastn_def lsn_consts)
qed

text \<open>
  C3. Replacing a record. \<open>Set\<close> changes the log exactly when the LSN's counter is live and the record there
  carries the same server, or the server is ignored; it then overwrites that record alone, and otherwise
  changes nothing and answers \<open>False\<close>. It never fails.
\<close>

theorem wt_set_log:
  assumes "wt_inv t B"
  shows "\<exists>t'. wt_Set t rec l ign =
       Inr (\<exists>s b. (Counter l, (s, b)) \<in> set (wt_log t B) \<and> (ign \<or> s = Server l), t') \<and>
     wt_inv t' B \<and>
     (if \<exists>s b. (Counter l, (s, b)) \<in> set (wt_log t B) \<and> (ign \<or> s = Server l)
      then wt_log t' B = map (set_rec l rec) (wt_log t B) else t' = t)"
proof -
  let ?av = "Counter l \<in> set (wt_live t B) \<and> (ign \<or> fst (wt_records t ! nat (Counter l mod wt_walSize t)) = Server l)"
  have eq: "(\<exists>s b. (Counter l, (s, b)) \<in> set (wt_log t B) \<and> (ign \<or> s = Server l)) \<longleftrightarrow> ?av"
  proof -
    have "(Counter l, e) \<in> set (wt_log t B) \<longleftrightarrow>
        Counter l \<in> set (wt_live t B) \<and> e = wt_records t ! nat (Counter l mod wt_walSize t)" for e
      unfolding wt_log_def by auto
    then show ?thesis by (cases "wt_records t ! nat (Counter l mod wt_walSize t)") auto
  qed
  show ?thesis unfolding eq
  proof (cases ?av)
    case False
    then show "\<exists>t'. wt_Set t rec l ign = Inr (?av, t') \<and> wt_inv t' B \<and>
        (if ?av then wt_log t' B = map (set_rec l rec) (wt_log t B) else t' = t)"
      using assms by (intro exI [of _ t]) (auto simp: wt_Set_def available_live [OF assms])
  next
    case True
    let ?t = "if Counter l = Counter (wt_lastLsn t) then t\<lparr>wt_lastLsn := l\<rparr> else t"
    have t: "wt_inv ?t B" "wt_live ?t B = wt_live t B" "wt_log ?t B = wt_log t B"
      using wt_inv_put [OF assms, of ?t] by (simp_all add: wt_live_def wt_log_def)
    have "Counter l \<in> set (wt_live ?t B)" using True t(2) by simp
    from put_record_log [OF t(1) this, of rec] t(3) True
    show "\<exists>t'. wt_Set t rec l ign = Inr (?av, t') \<and> wt_inv t' B \<and>
        (if ?av then wt_log t' B = map (set_rec l rec) (wt_log t B) else t' = t)"
      by (intro exI [of _ "put_record ?t l rec"]) (simp add: wt_Set_def available_live [OF assms] Let_def)
  qed
qed

theorem wt_set_log_witness:
  "\<exists>t'. wt_Set (mk_WALTracker 2) [1] (Lsn_t 7) False = Inr (False, t') \<and> wt_log t' 0 = []"
proof -
  have z: "Counter (wt_lsnCounter (mk_WALTracker 2)) = 0" by (simp add: mk_WALTracker_def Counter_def)
  have "wt_log (mk_WALTracker 2) 0 = []"
    by (simp add: wt_log_def wt_live_def z Let_def)
  then show ?thesis
    using wt_set_log [OF mk_WALTracker_inv [of 2], of "[1]" "Lsn_t 7" False] by auto
qed

text \<open>\<open>FirstLSN\<close> is the LSN of the oldest record of the log, \<open>upper_bound\<close> the counter to continue from.\<close>

lemma FirstLSN_log:
  assumes "wt_inv t B" "wt_log t B = (k, (s, b)) # es" "0 \<le> s" "s \<le> kMaxServerIDValue" "k \<le> kDefaultCounter"
  shows "FirstLSN t = mk_lsn k s"
proof -
  define N where "N = Counter (wt_lsnCounter t)"
  define W where "W = wt_walSize t"
  have i: "0 < W" "0 \<le> B" "N \<noteq> 0 \<Longrightarrow> B < N \<and> wt_walOffset t = (if N - B \<le> W then B mod W else N mod W)"
    using assms(1) by (auto simp: wt_inv_def N_def W_def Let_def split: if_splits)
  obtain ks where ks: "wt_live t B = k # ks" "(s, b) = wt_records t ! nat (k mod W)"
    using assms(2) by (auto simp: wt_log_def W_def map_eq_Cons_conv)
  have up: "[i..j] = a # as \<Longrightarrow> a = i \<and> i \<le> j" for i j a as
    by (cases "i \<le> j") (simp_all add: upto_rec1)
  have live: "wt_live t B = [N - min W (N - B)..N - 1]" by (simp add: wt_live_def N_def W_def Let_def)
  have k: "k = N - min W (N - B)" "k \<le> N - 1" using up [OF ks(1) [unfolded live]] by simp_all
  then have len: "int (length (wt_live t B)) = min W (N - B)" by (simp add: live)
  have "k \<in> set (wt_live t B)" using ks by simp
  note pos = rec_at_live [OF assms(1) this] wt_live_pos(3) [OF assms(1) this]
  have n: "N \<noteq> 0" using k pos(2) i(2) by linarith
  have "wt_walOffset t = k mod W"
  proof (cases "N - B \<le> W")
    case True then show ?thesis using i(3) [OF n] k by simp
  next
    case False
    have "N mod W = (N - W) mod W" by simp
    then show ?thesis using False i(3) [OF n] k by simp
  qed
  then have "FirstLSN t = (case mk_lsn k s of Inr l \<Rightarrow> Inr l | Inl e \<Rightarrow> Inl Abort)"
    using n pos(1) ks(2) k len wt_size_live [OF assms(1)]
    by (cases "wt_records t ! nat (k mod W)") (simp add: FirstLSN_def N_def [symmetric] W_def [symmetric] Let_def)
  moreover obtain l where "mk_lsn k s = Inr l" using mk_lsn_Inr [of k s] assms(3-5) by blast
  ultimately show ?thesis by simp
qed

end
