(* ===== verification/Spec2Isabelle.thy ===== *)
theory Spec2Isabelle
  imports CjsonTuple CjsonWrite Cjson TagsMatcherCache TagsMatcher PayloadType TagPaths WireLists QueryTerms Strings Elections Voting LruCache ExprTree WalTracker WrSerial WalRecord Serial Uuid KeyValueType Varint Lsn BoundedLog Prelude
begin

text \<open>
  Reindexer is an in-memory document database written in C++ (\<open>src/cpp_src\<close>). A server holds namespaces; items are
  stored as payloads and as CJSON tuples, queries arrive as SQL, as JSON (DSL) or in a binary form and become trees of
  conditions, selections are cached, every change is appended to a write-ahead log (WAL) that replication reads, and the
  servers of a cluster elect a leader. This development models the parts on which the rest of the program is built
  and which decide whether data is kept and read back correctly. Each definition follows one function, type or loop of the
  source and keeps its name where the logic allows it; names that would clash carry a short prefix (\<open>wt_\<close> for the
  WAL tracker, \<open>lru_\<close> for the cache, \<open>vm_\<close> for the voting manager, \<open>etree_\<close> for expression trees).

  Conventions (theory \<open>Prelude\<close>). An operation that can fail returns a sum: a thrown error with its code, a
  \<open>std::logic_error\<close> of a container, a failed assertion or abort, or undefined behaviour of C++ (an index out of bounds, an
  overflow of a signed number). A recursion of the code that need not end has fuel, and \<open>OutOfFuel\<close> is the one value that
  is no behaviour of the code. Fixed-width integers are
  words where arithmetic may wrap and mathematical integers with the check written out where it is checked. Objects are
  records that operations take and return. Time is an input. Code that is not modelled (virtual methods of template
  arguments, answers of other servers, the storage) is an argument of the definitions that use it.

  The theories, from the bottom up:

    \<^item> \<open>Lsn\<close> (\<open>tools/lsn.h\<close>, \<open>lsn.cc\<close>): log sequence numbers, a counter and a server packed into a signed number;
      validation, packing and order, which fails between servers.
    \<^item> \<open>Varint\<close> (\<open>tools/varint.h\<close>): base-128 and zigzag numbers, packed, scanned and parsed as in the unrolled code, shown to
      be inverse to each other.
    \<^item> \<open>KeyValueType\<close> (\<open>core/key_value_type.h\<close>, \<open>core/cjson/ctag.h\<close>, \<open>core/tag_name_index.h\<close>): type codes and CJSON tags.
    \<^item> \<open>Uuid\<close> (\<open>core/keyvalue/uuid.h\<close>, \<open>uuid.cc\<close>): parsing, printing, order (an instance of the class of linear orders) and the
      storage of a UUID in a variant.
    \<^item> \<open>Serial\<close> (\<open>tools/serilize/serializer.h\<close>, \<open>.cc\<close>): the binary reader with its bounds checks. Positions are 64 bits wide,
      but a varint is scanned over the remaining length narrowed to 32 bits, so every statement that something is read back
      asks for fewer than \<open>2 ^ 32\<close> bytes before the reader (the abbreviation \<open>fits\<close>). A \<open>p_string\<close> is a pointer: reading one moves the
      position and looks at no text, and one that leads out of the buffer is \<open>V_WildString\<close>, on which every access is
      undefined. The depth of nested tuples is fuel, of which \<open>GetVariant\<close> has two more than the buffer has bytes.
      For a buffer below 4 GiB it is proved that a greater depth changes nothing, so running out means that the code recurses without
      end; that this never happens when no number of \<open>2 ^ 63\<close> or more can be read from the buffer; and that it does for
      a tuple of thirteen bytes.
    \<^item> \<open>WrSerial\<close> (\<open>tools/serilize/wrserializer.h\<close>, \<open>.cc\<close>): the binary writer with its growth policy and strings written in place;
      what it writes the reader reads back, whatever kind of buffer is in use.
    \<^item> \<open>WalRecord\<close> (\<open>wal/walrecord.h\<close>, \<open>.cc\<close>): the records of the log, packed and unpacked with the writer and the reader. A packed
      record is an \<open>h_vector\<close> and so limited to \<open>2 ^ 31 - 1\<close> bytes.
    \<^item> \<open>BoundedLog\<close>: the contract of a log that keeps the latest entries, a locale.
    \<^item> \<open>WalTracker\<close> (\<open>wal/waltracker.h\<close>, \<open>.cc\<close>): the ring buffer of the log with all its operations, an interpretation of
      \<open>bounded_log\<close>: the invariant of the ring, the abstract log, and what adding, setting and resizing do to it.
    \<^item> \<open>ExprTree\<close> (\<open>core/expressiontree.h\<close>): the flat tree of conditions; building it refines building a tree, and the extents
      of brackets stay nested under its operations. \<open>PopBack\<close> keeps them nested exactly when every bracket around the last place is
      open, \<open>SetValue\<close> and \<open>InsertAfter\<close> at a value, \<open>EncloseInBracket\<close> for a range without an open bracket; the other
      operations always do.
    \<^item> \<open>LruCache\<close> (\<open>core/lrucache.h\<close>, \<open>.cc\<close>): the cache of results; map, recency list and byte count stay consistent, eviction
      removes the oldest entries and no more than needed.
    \<^item> \<open>Voting\<close> and \<open>Elections\<close> (\<open>cluster/raftmanager.h\<close>, \<open>.cc\<close>): how a server votes, as a step relation over the operations
      that other servers invoke at any time, and the election rounds, whose coroutines are modelled as a step relation
      interleaved with those operations; then the pings of a leader and the hand-over of leadership. The step relations
      leave the order and the moment of every answer open, so what is proved holds for any delay and loss of
      messages. Rounds need no fuel: it is proved that at most two answers per server are processed.
    \<^item> \<open>Strings\<close> (\<open>tools/stringstools.h\<close>, \<open>.cc\<close>): comparison and collation (interpretations of the locale
      \<open>three_way\<close>), splitting, escapes, URL decoding and the detection of value types.
    \<^item> \<open>QueryTerms\<close> (\<open>core/type_consts_helpers.cc\<close>, tables of \<open>core/query/dsl\<close> and \<open>core/query/sql/sqlparser.cc\<close>): the words of
      queries and their reading back.
    \<^item> \<open>WireLists\<close>: codecs of pairs, counted lists and strings over the writer and the reader (a locale and its
      interpretations), from which round trips of larger messages are put together.
    \<^item> \<open>TagPaths\<close> (\<open>core/cjson/indexed_path_node.h\<close>, \<open>tagspath.h\<close>, \<open>tagspath.cc\<close>, \<open>tagspathcache.h\<close>): paths of names and array
      indexes, their comparison, shown to be the comparison of groups, and the cache from paths to fields, as a tree and
      through its shared pointers, which refine the tree as long as the levels are not shared.
    \<^item> \<open>PayloadType\<close> (\<open>core/payload/payloadtype.cc\<close>, \<open>payloadtypeimpl.h\<close>, \<open>payloadfieldtype.h\<close>, \<open>.cc\<close>): the fields of a namespace, the
      indexes over their names and JSON paths, adding, dropping and replacing, and the wire format.
    \<^item> \<open>TagsMatcher\<close> and \<open>TagsMatcherCache\<close> (\<open>core/cjson/tagsmatcherimpl.h\<close>, \<open>.cc\<close>, \<open>tagsmatcher.h\<close>, \<open>sparse_index_data.h\<close>, \<open>.cc\<close>):
      the tags of names and the fields of paths. An operation takes the matcher and its flag and gives them back with
      an outcome, also when it throws. The locale \<open>kept_relation\<close> carries relations between the matcher before and
      after through all operations; its interpretations give that tags never change and that names leave the
      cache alone. Then the cache: after any run of successful calls other than
      clearing the matcher or reading it anew it holds exactly the fields. This is about one handle: the levels of the cache
      that copies of a matcher share, and what adding a sparse index to one of them does to the other, are in \<open>TagPaths\<close>.

    \<^item> \<open>Cjson\<close> and \<open>CjsonWrite\<close> (\<open>core/cjson/cjsontools.h\<close>, \<open>.cc\<close>, \<open>cjsonbuilder.h\<close>, \<open>.cc\<close>, \<open>sparse_validator.h\<close>): the binary form of
      documents. A datatype of documents with its bytes is the reference; the builder, with the tags of arrays filled in
      when they end, writes exactly these bytes, skipping ends behind them and counts the elements that are kept in
      indexes, copying keeps them. Skipping is fuelled with twice the bytes that remain and two more, which is enough
      for every document, as is proved; on malformed input the loop of the code need not end, which is proved too.
    \<^item> \<open>CjsonTuple\<close> (\<open>core/cjson/cjsontools.cc\<close>): the document of an item that has only its indexed fields, built from the tree of
      the JSON paths of a payload type; it refers to every field once, with all its elements.

  How the parts interact: \<open>CjsonTuple\<close> takes the fields of a \<open>PayloadType\<close> and the tags of a \<open>TagsMatcher\<close> and drives the builder of
  \<open>Cjson\<close>, which writes with \<open>WrSerial\<close> and is read with \<open>Serial\<close>. \<open>PayloadType\<close> compares names with \<open>Strings\<close> and is sent with \<open>WireLists\<close>; \<open>TagsMatcher\<close> enters the
  fields of a \<open>PayloadType\<close> into a cache of \<open>TagPaths\<close> under tags that it gives to the parts of their JSON paths. \<open>WalTracker\<close>
  orders records by \<open>Lsn\<close> and packs them with \<open>WalRecord\<close>, which uses \<open>WrSerial\<close> and \<open>Serial\<close>; these rest on \<open>Varint\<close>, \<open>KeyValueType\<close> and \<open>Uuid\<close>. \<open>Elections\<close> runs on \<open>Voting\<close>; \<open>QueryTerms\<close> searches its
  tables with the comparison of \<open>Strings\<close>. The properties stand in the theories of their components, each after a text that
  names it; their witnesses apply them to concrete inputs.

  Not modelled, and why: the decoders and encoders of items and the conversion of values, which rest on payloads in memory and vendored parsers; namespaces, indexes and the selecter, which combine payloads, vendored containers and storage; full
  text and vector search, which compute with floating point weights; the bodies of the SQL and DSL parsers; network
  servers, bindings and command line tools, which are input and output; tables of characters and everything that
  decodes UTF-8 with the vendored library; heap size statistics and log messages. Memory is not bounded, so allocation
  failures are left out. The queue of updates, the circular buffer of the network layer, id sets and the merging of query
  entries are not modelled either.
\<close>

end
